(* ===== verification/Prelude.thy ===== *)
theory Prelude
  imports Main "HOL-Library.Word" "HOL-Library.Monad_Syntax" "HOL-Library.Multiset"
begin

text \<open>
  Shared vocabulary of the development.

  \<^item> The machine types of the code: \<open>u8\<close>, \<open>u32\<close>, \<open>u64\<close> (also \<open>size_t\<close>) and the
    checked signed \<open>int64_t\<close> of \<open>s64\<close>.
  \<^item> Memory: an address is a natural number that names one allocated object; a
    pointer is an optional address, \<open>None\<close> being the null pointer. An intrusive
    member (\<open>AVLNode\<close>, \<open>HNode\<close>, \<open>heap_idx\<close> inside \<open>ZNode\<close>, \<open>Entry\<close>) is addressed by the
    object that embeds it, so \<open>container_of\<close> is the identity on addresses, and
    each kind of member lives in a store of its own (\<open>addr \<rightharpoonup> member\<close>).
  \<^item> An access through a null or dangling pointer, an access outside a vector, a signed
    overflow and a failed \<open>assert\<close> of the code are the result \<open>None\<close>. A theorem with
    \<open>= Some \<dots>\<close> on its right therefore also states that none of these happens. A pointer
    that is only computed and not accessed does not count (see \<open>index_ok\<close> in \<open>Bytes\<close>).
\<close>

unbundle bit_operations_syntax

named_theorems run_simps \<open>evaluation of the memory and vector primitives\<close>

type_synonym u8 = "8 word"
type_synonym u32 = "32 word"
type_synonym u64 = "64 word"
type_synonym addr = nat
type_synonym ptr = "addr option"


subsection \<open>Vectors: checked indexing\<close>

definition vec_get :: "'a list \<Rightarrow> nat \<Rightarrow> 'a option" where
  "vec_get xs i = (if i < length xs then Some (xs ! i) else None)"

definition vec_set :: "'a list \<Rightarrow> nat \<Rightarrow> 'a \<Rightarrow> 'a list option" where
  "vec_set xs i x = (if i < length xs then Some (xs[i := x]) else None)"

lemma vec_get_Some [run_simps]: "i < length xs \<Longrightarrow> vec_get xs i = Some (xs ! i)"
  by (simp add: vec_get_def)

lemma vec_set_Some [run_simps]: "i < length xs \<Longrightarrow> vec_set xs i x = Some (xs[i := x])"
  by (simp add: vec_set_def)


subsection \<open>Stores: a write needs an allocated cell\<close>

definition store_at :: "(addr \<rightharpoonup> 'b) \<Rightarrow> addr \<Rightarrow> 'b \<Rightarrow> (addr \<rightharpoonup> 'b) option" where
  "store_at m a v = (if m a = None then None else Some (m(a \<mapsto> v)))"

definition modify_at :: "(addr \<rightharpoonup> 'b) \<Rightarrow> addr \<Rightarrow> ('b \<Rightarrow> 'b) \<Rightarrow> (addr \<rightharpoonup> 'b) option" where
  "modify_at m a f = (case m a of None \<Rightarrow> None | Some v \<Rightarrow> Some (m(a \<mapsto> f v)))"

lemma store_at_Some [run_simps]: "m a \<noteq> None \<Longrightarrow> store_at m a v = Some (m(a \<mapsto> v))"
  by (simp add: store_at_def)

lemma modify_at_Some [run_simps]: "m a = Some v \<Longrightarrow> modify_at m a f = Some (m(a \<mapsto> f v))"
  by (simp add: modify_at_def)


subsection \<open>Signed 64-bit arithmetic: an overflow is the result None\<close>

definition s64 :: "int \<Rightarrow> int option" where
  "s64 x = (if - (2 ^ 63) \<le> x \<and> x < 2 ^ 63 then Some x else None)"

lemma s64_Some [run_simps]: "- (2 ^ 63) \<le> x \<Longrightarrow> x < 2 ^ 63 \<Longrightarrow> s64 x = Some x"
  by (simp add: s64_def)


subsection \<open>Counters kept in words\<close>

text \<open>
  Opaque names for the embedding of naturals, so that simplification does not
  distribute it over the sums inside.
\<close>

definition w32 :: "nat \<Rightarrow> u32" where
  "w32 n = of_nat n"

definition w64 :: "nat \<Rightarrow> u64" where
  "w64 n = of_nat n"

lemma unat_w32 [simp]: "n < 2 ^ 32 \<Longrightarrow> unat (w32 n) = n"
  by (simp add: w32_def unat_of_nat)

lemma unat_w64 [simp]: "n < 2 ^ 64 \<Longrightarrow> unat (w64 n) = n"
  by (simp add: w64_def unat_of_nat)

lemma uint_w32 [simp]: "n < 2 ^ 32 \<Longrightarrow> uint (w32 n) = int n"
  by (metis unat_w32 uint_nat)

lemma w32_eq_iff [simp]: "x < 2 ^ 32 \<Longrightarrow> y < 2 ^ 32 \<Longrightarrow> w32 x = w32 y \<longleftrightarrow> x = y"
  by (metis unat_w32)

lemma w64_eq_iff [simp]: "x < 2 ^ 64 \<Longrightarrow> y < 2 ^ 64 \<Longrightarrow> w64 x = w64 y \<longleftrightarrow> x = y"
  by (metis unat_w64)

lemma w32_less_iff [simp]: "x < 2 ^ 32 \<Longrightarrow> y < 2 ^ 32 \<Longrightarrow> w32 x < w32 y \<longleftrightarrow> x < y"
  by (simp add: word_less_nat_alt)

lemma w64_less_iff [simp]: "x < 2 ^ 64 \<Longrightarrow> y < 2 ^ 64 \<Longrightarrow> w64 x < w64 y \<longleftrightarrow> x < y"
  by (simp add: word_less_nat_alt)

lemma w32_add: "w32 a + w32 b = w32 (a + b)"
  by (simp add: w32_def)

lemma w64_add: "w64 a + w64 b = w64 (a + b)"
  by (simp add: w64_def)

lemma w32_Suc: "1 + w32 a = w32 (Suc a)"
  by (simp add: w32_def)

lemma w64_Suc: "w64 a + 1 = w64 (Suc a)"
  by (simp add: w64_def)

lemma w32_add_2: "w32 a + 2 = w32 (a + 2)"
  by (simp add: w32_def)

lemma w32_0 [simp]: "w32 0 = 0" and w64_0 [simp]: "w64 0 = 0"
  by (simp_all add: w32_def w64_def)

lemma ucast_w64 [simp]: "ucast (w64 n) = w32 n"
  by (simp add: w32_def w64_def unsigned_of_nat word_of_nat_eq_iff)

lemma ucast_w32 [simp]: "n < 2 ^ 32 \<Longrightarrow> ucast (w32 n) = w64 n"
  by (simp add: w32_def w64_def unsigned_of_nat take_bit_nat_eq_self)


subsection \<open>Lists\<close>

lemma mset_list_update:
  "i < length xs \<Longrightarrow> mset (xs[i := x]) = add_mset x (mset xs - {#xs ! i#})"
  by (simp add: mset_update)

end
