(* ===== verification/Bytes.thy ===== *)
theory Bytes
  imports Prelude
begin

text \<open>
  Machine words as bytes in memory. The code copies \<open>uint32_t\<close>, \<open>int64_t\<close> and \<open>double\<close>
  values to and from byte buffers with \<open>memcpy\<close> on a little-endian machine;
  \<open>le_bytes n w\<close> is the image of the low \<open>n\<close> bytes of \<open>w\<close>, \<open>of_le\<close> reads one back. A \<open>double\<close>
  is its 64 bits. Strings are byte lists.
\<close>

type_synonym bytes = "u8 list"

definition le_bytes :: "nat \<Rightarrow> 'a::len word \<Rightarrow> bytes" where
  "le_bytes n w = map (\<lambda>i. ucast (drop_bit (8 * i) w)) [0..<n]"

primrec of_le :: "bytes \<Rightarrow> 'a::len word" where
  "of_le [] = 0"
| "of_le (b # bs) = ucast b OR push_bit 8 (of_le bs)"

definition le32 :: "u32 \<Rightarrow> bytes" where
  "le32 = le_bytes 4"

definition le64 :: "u64 \<Rightarrow> bytes" where
  "le64 = le_bytes 8"

text \<open>
  \<open>memcpy(&v[pos], src, n)\<close>: the memory that is written must lie inside the vector. Only the accesses
  count. The expression \<open>&v[pos]\<close> alone also asks for \<open>pos < v.size()\<close>, which is \<open>index_ok\<close>; an empty
  copy at the very end passes \<open>put_bytes\<close> and not \<open>index_ok\<close>, and that is the only difference.
\<close>

definition put_bytes :: "bytes \<Rightarrow> nat \<Rightarrow> bytes \<Rightarrow> bytes option" where
  "put_bytes xs pos bs =
     (if pos + length bs \<le> length xs then Some (take pos xs @ bs @ drop (pos + length bs) xs) else None)"

definition index_ok :: "bytes \<Rightarrow> nat \<Rightarrow> bool" where
  "index_ok xs pos \<longleftrightarrow> pos < length xs"

lemma put_bytes_index: "put_bytes xs pos bs \<noteq> None \<Longrightarrow> index_ok xs pos \<or> bs = [] \<and> pos = length xs"
  by (cases bs) (auto simp: put_bytes_def index_ok_def split: if_splits)

lemma length_le_bytes [simp]: "length (le_bytes n w) = n"
  by (simp add: le_bytes_def)

lemma length_le32 [simp]: "length (le32 w) = 4"
  by (simp add: le32_def)

lemma length_le64 [simp]: "length (le64 w) = 8"
  by (simp add: le64_def)

lemma bit_of_le:
  "bit (of_le bs :: 'a::len word) j \<longleftrightarrow>
     j < LENGTH('a) \<and> j div 8 < length bs \<and> bit (bs ! (j div 8)) (j mod 8)"
proof (induction bs arbitrary: j)
  case (Cons b bs)
  show ?case
  proof (cases "j < 8")
    case True
    then show ?thesis by (auto simp: bit_simps)
  next
    case False
    then have j: "j div 8 = Suc ((j - 8) div 8)" "(j - 8) mod 8 = j mod 8"
      by (simp_all add: le_div_geq le_mod_geq)
    have "\<not> bit b j" using False bit_imp_le_length [of b j] by auto
    then have "bit (of_le (b # bs) :: 'a word) j \<longleftrightarrow> j < LENGTH('a) \<and> bit (of_le bs :: 'a word) (j - 8)"
      using False by (auto simp: bit_simps)
    also have "\<dots> \<longleftrightarrow> j < LENGTH('a) \<and> j div 8 < length (b # bs) \<and> bit ((b # bs) ! (j div 8)) (j mod 8)"
      using Cons.IH [of "j - 8"] j False by auto
    finally show ?thesis .
  qed
qed simp

lemma bit_le_bytes:
  assumes "k < n" "i < 8"
  shows "bit (le_bytes n w ! k) i \<longleftrightarrow> bit w (8 * k + i)"
  using assms by (simp add: le_bytes_def bit_simps)

lemma of_le_le_bytes:
  assumes "LENGTH('a::len) = 8 * n"
  shows "of_le (le_bytes n (w :: 'a word)) = w"
proof (rule bit_word_eqI)
  fix j assume j: "j < LENGTH('a)"
  then have "j div 8 < n" using assms by (simp add: less_mult_imp_div_less mult.commute)
  then show "bit (of_le (le_bytes n w) :: 'a word) j = bit w j"
    using j by (simp add: bit_of_le bit_le_bytes)
qed

lemma le_bytes_of_le:
  assumes "LENGTH('a::len) = 8 * n" "length bs = n"
  shows "le_bytes n (of_le bs :: 'a word) = bs"
proof (rule nth_equalityI)
  fix k assume k: "k < length (le_bytes n (of_le bs :: 'a word))"
  show "le_bytes n (of_le bs :: 'a word) ! k = bs ! k"
  proof (rule bit_word_eqI)
    fix i assume i: "i < LENGTH(8)"
    then have "8 * k + i < LENGTH('a)" "(8 * k + i) div 8 = k" "(8 * k + i) mod 8 = i"
      using k assms(1) by simp_all
    then show "bit (le_bytes n (of_le bs :: 'a word) ! k) i = bit (bs ! k) i"
      using k i assms(2) by (simp add: bit_le_bytes bit_of_le)
  qed
qed (use assms(2) in simp)

lemma of_le32 [simp]: "of_le (le32 w) = w"
  by (simp add: le32_def of_le_le_bytes)

lemma of_le64 [simp]: "of_le (le64 w) = w"
  by (simp add: le64_def of_le_le_bytes)

lemma le32_of [simp]: "length bs = 4 \<Longrightarrow> le32 (of_le bs) = bs"
  by (simp add: le32_def le_bytes_of_le)

lemma le64_of [simp]: "length bs = 8 \<Longrightarrow> le64 (of_le bs) = bs"
  by (simp add: le64_def le_bytes_of_le)

lemma le32_0: "le32 0 = [0, 0, 0, 0]"
  by (simp add: le32_def le_bytes_def upt_rec)

lemma put_bytes_append:
  "put_bytes (xs @ ys @ zs) (length xs) bs = Some (xs @ bs @ zs)" if "length bs = length ys"
  using that by (simp add: put_bytes_def)

lemma length_put_bytes: "put_bytes xs pos bs = Some ys \<Longrightarrow> length ys = length xs"
  by (auto simp: put_bytes_def split: if_splits)

end
