(* ===== verification/Interfaces.thy ===== *)
theory Interfaces
  imports Bytes
begin

text \<open>
  The contracts between components, as locales: what a client may assume of the
  operations it calls, and the lemmas a client needs, proved once from the contract.
  The theory of the providing component interprets each of them on its model.
\<close>


subsection \<open>A priority queue with back-pointers\<close>

text \<open>
  The contract of the TTL heap towards the database. \<open>items\<close> is the abstract queue,
  a map from entries to their keys; \<open>cells\<close> holds for every entry the index the queue
  has written for it. \<open>put\<close> and \<open>remove\<close> take that index. The queue never touches the
  cell of an entry that is not queued, and an entry whose cell lies beyond the
  queue's length is appended by \<open>put\<close>.
\<close>

locale indexed_queue =
  fixes inv :: "'s \<Rightarrow> bool"
    and items :: "'s \<Rightarrow> (addr \<rightharpoonup> u64)"
    and cells :: "'s \<Rightarrow> (addr \<rightharpoonup> nat)"
    and count :: "'s \<Rightarrow> nat"
    and put :: "'s \<Rightarrow> nat \<Rightarrow> addr \<Rightarrow> u64 \<Rightarrow> 's option"
    and remove :: "'s \<Rightarrow> nat \<Rightarrow> 's option"
    and set_cell :: "'s \<Rightarrow> addr \<Rightarrow> nat \<Rightarrow> 's"
    and first :: "'s \<Rightarrow> (addr \<times> u64) option"
  assumes cell_item: "inv s \<Longrightarrow> items s e = Some v \<Longrightarrow> \<exists>i < count s. cells s e = Some i"
    and put_old: "inv s \<Longrightarrow> items s e = Some v \<Longrightarrow> cells s e = Some i \<Longrightarrow>
      \<exists>s'. put s i e w = Some s' \<and> inv s' \<and> items s' = (items s)(e \<mapsto> w) \<and> count s' = count s \<and>
           dom (cells s') = dom (cells s) \<and> (\<forall>e'. items s' e' = None \<longrightarrow> cells s' e' = cells s e')"
    and put_new: "inv s \<Longrightarrow> items s e = None \<Longrightarrow> cells s e = Some i \<Longrightarrow> count s \<le> i \<Longrightarrow>
      \<exists>s'. put s i e w = Some s' \<and> inv s' \<and> items s' = (items s)(e \<mapsto> w) \<and> count s' = Suc (count s) \<and>
           dom (cells s') = dom (cells s) \<and> (\<forall>e'. items s' e' = None \<longrightarrow> cells s' e' = cells s e')"
    and remove_old: "inv s \<Longrightarrow> items s e = Some v \<Longrightarrow> cells s e = Some i \<Longrightarrow>
      \<exists>s'. remove s i = Some s' \<and> inv s' \<and> items s' = (items s)(e := None) \<and> Suc (count s') = count s \<and>
           dom (cells s') = dom (cells s) \<and> (\<forall>e'. items s' e' = None \<longrightarrow> cells s' e' = cells s e')"
    and set_cell: "inv s \<Longrightarrow> items s e = None \<Longrightarrow>
      inv (set_cell s e i) \<and> items (set_cell s e i) = items s \<and> count (set_cell s e i) = count s \<and>
      cells (set_cell s e i) = (cells s)(e \<mapsto> i)"
    and first_empty: "inv s \<Longrightarrow> first s = None \<longleftrightarrow> items s = Map.empty"
    and first_least: "inv s \<Longrightarrow> first s = Some (e, v) \<Longrightarrow>
      items s e = Some v \<and> (\<forall>e' w. items s e' = Some w \<longrightarrow> v \<le> w)"
begin

text \<open>
  A client that keeps the sentinel \<open>npos\<close> in the cell of every entry that is not
  queued, and never queues \<open>npos\<close> entries, may set and clear keys freely.
\<close>

definition kept :: "nat \<Rightarrow> 's \<Rightarrow> bool" where
  "kept npos s \<longleftrightarrow> inv s \<and> count s < npos \<and>
     (\<forall>e i. items s e = None \<longrightarrow> cells s e = Some i \<longrightarrow> i = npos)"

lemma keptD:
  assumes "kept npos s"
  shows "inv s" "count s < npos" "items s e = None \<Longrightarrow> cells s e = Some i \<Longrightarrow> i = npos"
  using assms by (simp_all add: kept_def)

lemma kept_index:
  assumes "kept npos s" "cells s e = Some i"
  shows "i = npos \<longleftrightarrow> items s e = None"
proof (cases "items s e")
  case None
  then show ?thesis using assms by (auto simp: kept_def)
next
  case (Some v)
  then have "i < count s" using cell_item [of s e v] assms by (auto simp: kept_def)
  then show ?thesis using assms Some by (auto simp: kept_def)
qed

lemma put_kept:
  assumes "kept npos s" "cells s e = Some i" "Suc (count s) < npos"
  shows "\<exists>s'. put s i e w = Some s' \<and> kept npos s' \<and> items s' = (items s)(e \<mapsto> w) \<and>
    dom (cells s') = dom (cells s)"
proof (cases "items s e")
  case None
  then have "count s \<le> i" using keptD [OF assms(1)] assms(2) by fastforce
  then obtain s' where "put s i e w = Some s'" "inv s'" "items s' = (items s)(e \<mapsto> w)"
    "count s' = Suc (count s)" "dom (cells s') = dom (cells s)"
    "\<forall>e'. items s' e' = None \<longrightarrow> cells s' e' = cells s e'"
    using put_new [OF keptD(1) [OF assms(1)] None assms(2), of w] by blast
  moreover have "kept npos s'"
    unfolding kept_def using calculation keptD [OF assms(1)] assms(3)
    by (auto split: if_splits)
  ultimately show ?thesis by blast
next
  case (Some v)
  then obtain s' where "put s i e w = Some s'" "inv s'" "items s' = (items s)(e \<mapsto> w)"
    "count s' = count s" "dom (cells s') = dom (cells s)"
    "\<forall>e'. items s' e' = None \<longrightarrow> cells s' e' = cells s e'"
    using put_old [OF keptD(1) [OF assms(1)] Some assms(2), of w] by blast
  moreover have "kept npos s'"
    unfolding kept_def using calculation keptD [OF assms(1)]
    by (auto split: if_splits)
  ultimately show ?thesis by blast
qed

lemma remove_kept:
  assumes "kept npos s" "cells s e = Some i" "i \<noteq> npos"
  shows "\<exists>s'. remove s i = Some s' \<and> kept npos (set_cell s' e npos) \<and>
    items (set_cell s' e npos) = (items s)(e := None) \<and> dom (cells (set_cell s' e npos)) = dom (cells s)"
proof -
  obtain v where v: "items s e = Some v" using kept_index [OF assms(1,2)] assms(3) by auto
  then obtain s' where s': "remove s i = Some s'" "inv s'" "items s' = (items s)(e := None)"
    "Suc (count s') = count s" "dom (cells s') = dom (cells s)"
    "\<forall>e'. items s' e' = None \<longrightarrow> cells s' e' = cells s e'"
    using remove_old [OF keptD(1) [OF assms(1)] v assms(2)] by blast
  let ?s = "set_cell s' e npos"
  have c: "inv ?s" "items ?s = items s'" "count ?s = count s'" "cells ?s = (cells s')(e \<mapsto> npos)"
    using set_cell [OF s'(2), of e npos] s'(3) by simp_all
  have "kept npos ?s"
    unfolding kept_def using c s'(3,4,6) keptD [OF assms(1)] by (auto split: if_splits)
  moreover have "dom (cells ?s) = dom (cells s)" using c(4) s'(5) assms(2) by auto
  ultimately show ?thesis using s'(1,3) c(2) by auto
qed

end


subsection \<open>A tree as a sequence with ranks\<close>

text \<open>
  The contract of the intrusive AVL tree towards the sorted set: a store and a root
  pointer hold a sequence of distinct nodes; nodes are deleted from it, and the tree
  can tell the index of a node and move from a node by an offset. A move that would
  leave the sequence gives the null pointer.
\<close>

locale ordered_index =
  fixes holds :: "'m \<Rightarrow> ptr \<Rightarrow> addr list \<Rightarrow> bool"
    and del :: "'m \<Rightarrow> addr \<Rightarrow> (ptr \<times> 'm) option"
    and rank :: "'m \<Rightarrow> addr \<Rightarrow> int option"
    and offset :: "'m \<Rightarrow> addr \<Rightarrow> int \<Rightarrow> ptr option"
  assumes distinct_seq: "holds m p xs \<Longrightarrow> distinct xs"
    and bounded_seq: "holds m p xs \<Longrightarrow> length xs < 2 ^ 32"
    and del_seq: "holds m p xs \<Longrightarrow> a \<in> set xs \<Longrightarrow>
      \<exists>p' m'. del m a = Some (p', m') \<and> holds m' p' (remove1 a xs)"
    and rank_seq: "holds m p xs \<Longrightarrow> i < length xs \<Longrightarrow> rank m (xs ! i) = Some (int i)"
    and offset_seq: "holds m p xs \<Longrightarrow> i < length xs \<Longrightarrow> - (2 ^ 63) \<le> off \<Longrightarrow> off < 2 ^ 63 \<Longrightarrow>
      offset m (xs ! i) off =
        Some (if 0 \<le> int i + off \<and> int i + off < int (length xs) then Some (xs ! nat (int i + off)) else None)"
begin

text \<open>The next node, as a query loop asks for it.\<close>

lemma next_seq:
  assumes "holds m p xs" "i < length xs"
  shows "offset m (xs ! i) 1 = Some (if Suc i < length xs then Some (xs ! Suc i) else None)"
  using offset_seq [OF assms, of 1] by (simp add: nat_add_distrib)

text \<open>Moving by a difference of ranks reaches the other node.\<close>

lemma rank_offset:
  assumes "holds m p xs" "a \<in> set xs" "b \<in> set xs"
  shows "\<exists>i j. rank m a = Some i \<and> rank m b = Some j \<and> offset m a (j - i) = Some (Some b)"
proof -
  obtain i j where ij: "i < length xs" "a = xs ! i" "j < length xs" "b = xs ! j"
    using assms(2,3) by (auto simp: in_set_conv_nth)
  have "- (2 ^ 63) \<le> int j - int i" "int j - int i < 2 ^ 63"
    using ij(1,3) bounded_seq [OF assms(1)] by simp_all
  then have "offset m a (int j - int i) = Some (Some b)"
    using offset_seq [OF assms(1) ij(1), of "int j - int i"] ij by simp
  then show ?thesis using rank_seq [OF assms(1)] ij by blast
qed

text \<open>Deleting a node lowers the rank of the nodes behind it by one and keeps the others.\<close>

lemma rank_after_del:
  assumes h: "holds m p xs" and i: "i < length xs" and j: "j < length xs" "j \<noteq> i"
  shows "\<exists>p' m'. del m (xs ! i) = Some (p', m') \<and>
    rank m' (xs ! j) = Some (if j < i then int j else int j - 1)"
proof -
  obtain p' m' where d: "del m (xs ! i) = Some (p', m')" "holds m' p' (remove1 (xs ! i) xs)"
    using del_seq [OF h] i nth_mem by blast
  have split: "xs = take i xs @ xs ! i # drop (Suc i) xs" using i by (rule id_take_nth_drop)
  have "xs ! i \<notin> set (take i xs)"
    using distinct_seq [OF h] split by (metis not_distinct_conv_prefix append_Cons append.assoc distinct_append disjoint_insert(1) list.simps(15))
  then have rem: "remove1 (xs ! i) xs = take i xs @ drop (Suc i) xs"
    by (subst split) (simp add: remove1_append)
  let ?k = "if j < i then j else j - 1"
  have k: "?k < length (remove1 (xs ! i) xs)" "remove1 (xs ! i) xs ! ?k = xs ! j"
    using i j rem by (auto simp: nth_append min_def)
  have "rank m' (xs ! j) = Some (int ?k)" using rank_seq [OF d(2) k(1)] k(2) by simp
  then show ?thesis using d(1) j by (auto simp: of_nat_diff)
qed

end



subsection \<open>A hash index of intrusive nodes\<close>

text \<open>
  The contract of the hash map towards the keyspace and the sorted set: it holds a set
  of nodes, finds and takes out a node with the key's hash code on which the callback
  agrees, and never changes a hash code.
\<close>

locale node_index =
  fixes holds :: "'m \<Rightarrow> 't \<Rightarrow> addr set \<Rightarrow> bool"
    and code :: "'m \<Rightarrow> addr \<Rightarrow> u64 option"
    and frame :: "addr set \<Rightarrow> 'm \<Rightarrow> 'm \<Rightarrow> bool"
    and put :: "'m \<Rightarrow> 't \<Rightarrow> addr \<Rightarrow> ('m \<times> 't) option"
    and find :: "'m \<Rightarrow> 't \<Rightarrow> addr \<Rightarrow> (addr \<Rightarrow> addr \<Rightarrow> bool) \<Rightarrow> (ptr \<times> 'm \<times> 't) option"
    and take_out :: "'m \<Rightarrow> 't \<Rightarrow> addr \<Rightarrow> (addr \<Rightarrow> addr \<Rightarrow> bool) \<Rightarrow> (ptr \<times> 'm \<times> 't) option"
  assumes frame_code: "frame S m m' \<Longrightarrow> code m' x = code m x"
    and put_new: "holds m t S \<Longrightarrow> code m x \<noteq> None \<Longrightarrow> x \<notin> S \<Longrightarrow> Suc (card S) < 2 ^ 60 \<Longrightarrow>
      \<exists>m' t'. put m t x = Some (m', t') \<and> holds m' t' (insert x S) \<and> frame (insert x S) m m'"
    and find_any: "holds m t S \<Longrightarrow> code m key \<noteq> None \<Longrightarrow>
      \<exists>p m' t'. find m t key eq = Some (p, m', t') \<and> holds m' t' S \<and> frame S m m' \<and>
        (case p of None \<Rightarrow> \<forall>x\<in>S. \<not> (code m x = code m key \<and> eq x key)
         | Some x \<Rightarrow> x \<in> S \<and> code m x = code m key \<and> eq x key)"
    and take_any: "holds m t S \<Longrightarrow> code m key \<noteq> None \<Longrightarrow>
      \<exists>p m' t'. take_out m t key eq = Some (p, m', t') \<and> frame S m m' \<and>
        (case p of None \<Rightarrow> holds m' t' S \<and> (\<forall>x\<in>S. \<not> (code m x = code m key \<and> eq x key))
         | Some x \<Rightarrow> holds m' t' (S - {x}) \<and> x \<in> S \<and> code m x = code m key \<and> eq x key)"
begin

text \<open>The outcome of a search that at most one element, or none, can satisfy.\<close>

lemma hit_unique:
  assumes "case p of None \<Rightarrow> \<forall>x\<in>A. \<not> P x | Some x \<Rightarrow> x \<in> A \<and> P x"
    and "x \<in> A" "P x" "\<forall>y\<in>A. P y \<longrightarrow> y = x"
  shows "p = Some x"
proof (cases p)
  case None
  then have "\<not> P x" using assms(1,2) by simp
  then show ?thesis using assms(3) by contradiction
next
  case (Some y)
  then have "y \<in> A" "P y" using assms(1) by simp_all
  then have "y = x" using assms(4) by blast
  then show ?thesis using Some by simp
qed

lemma hit_absent:
  assumes "case p of None \<Rightarrow> \<forall>x\<in>A. \<not> P x | Some x \<Rightarrow> x \<in> A \<and> P x" "\<forall>y\<in>A. \<not> P y"
  shows "p = None"
proof (cases p)
  case (Some y)
  then have "y \<in> A" "P y" using assms(1) by simp_all
  then show ?thesis using assms(2) by blast
qed

text \<open>A key that at most one node of the set answers to.\<close>

definition answers :: "'m \<Rightarrow> addr \<Rightarrow> (addr \<Rightarrow> addr \<Rightarrow> bool) \<Rightarrow> addr \<Rightarrow> bool" where
  "answers m key eq x \<longleftrightarrow> code m x = code m key \<and> eq x key"

lemma answers_frame: "frame S m m' \<Longrightarrow> answers m' key eq x = answers m key eq x"
  by (simp add: answers_def frame_code)

lemma find_answers:
  assumes "holds m t S" "code m key \<noteq> None"
  shows "\<exists>p m' t'. find m t key eq = Some (p, m', t') \<and> holds m' t' S \<and> frame S m m' \<and>
    (case p of None \<Rightarrow> \<forall>x\<in>S. \<not> answers m key eq x | Some x \<Rightarrow> x \<in> S \<and> answers m key eq x)"
  using find_any [OF assms, of eq] by (simp only: answers_def)

lemma take_answers:
  assumes "holds m t S" "code m key \<noteq> None"
  shows "\<exists>p m' t'. take_out m t key eq = Some (p, m', t') \<and> frame S m m' \<and>
    (case p of None \<Rightarrow> holds m' t' S \<and> (\<forall>x\<in>S. \<not> answers m key eq x)
     | Some x \<Rightarrow> holds m' t' (S - {x}) \<and> x \<in> S \<and> answers m key eq x)"
  using take_any [OF assms, of eq] by (simp only: answers_def)

lemma find_unique:
  assumes "holds m t S" "code m key \<noteq> None" "x \<in> S" "answers m key eq x"
    and "\<forall>y\<in>S. answers m key eq y \<longrightarrow> y = x"
  shows "\<exists>m' t'. find m t key eq = Some (Some x, m', t') \<and> holds m' t' S \<and> frame S m m'"
proof -
  obtain p m' t' where r: "find m t key eq = Some (p, m', t')" "holds m' t' S" "frame S m m'"
    "case p of None \<Rightarrow> \<forall>x\<in>S. \<not> answers m key eq x | Some x \<Rightarrow> x \<in> S \<and> answers m key eq x"
    using find_answers [OF assms(1,2), of eq] by blast
  have "p = Some x" using hit_unique [OF r(4) assms(3,4,5)] .
  then show ?thesis using r(1,2,3) by blast
qed

lemma find_absent:
  assumes "holds m t S" "code m key \<noteq> None" "\<forall>y\<in>S. \<not> answers m key eq y"
  shows "\<exists>m' t'. find m t key eq = Some (None, m', t') \<and> holds m' t' S \<and> frame S m m'"
proof -
  obtain p m' t' where r: "find m t key eq = Some (p, m', t')" "holds m' t' S" "frame S m m'"
    "case p of None \<Rightarrow> \<forall>x\<in>S. \<not> answers m key eq x | Some x \<Rightarrow> x \<in> S \<and> answers m key eq x"
    using find_answers [OF assms(1,2), of eq] by blast
  have "p = None" using hit_absent [OF r(4) assms(3)] .
  then show ?thesis using r(1,2,3) by blast
qed

text \<open>What was put is found, and what was taken out is gone.\<close>

lemma put_find:
  assumes "holds m t S" "code m x \<noteq> None" "x \<notin> S" "Suc (card S) < 2 ^ 60"
    and "code m key \<noteq> None" "answers m key eq x" "\<forall>y\<in>S. \<not> answers m key eq y"
  shows "\<exists>m1 t1 m2 t2. put m t x = Some (m1, t1) \<and> find m1 t1 key eq = Some (Some x, m2, t2) \<and>
    holds m2 t2 (insert x S)"
proof -
  obtain m1 t1 where p: "put m t x = Some (m1, t1)" "holds m1 t1 (insert x S)" "frame (insert x S) m m1"
    using put_new [OF assms(1-4)] by blast
  have k: "code m1 key \<noteq> None" using assms(5) frame_code [OF p(3)] by simp
  have "answers m1 key eq x" "\<forall>y\<in>insert x S. answers m1 key eq y \<longrightarrow> y = x"
    unfolding answers_frame [OF p(3)] using assms(6,7) by simp_all
  then obtain m2 t2 where "find m1 t1 key eq = Some (Some x, m2, t2)" "holds m2 t2 (insert x S)"
    using find_unique [OF p(2) k insertI1] by blast
  then show ?thesis using p(1) by blast
qed

lemma take_find:
  assumes "holds m t S" "code m key \<noteq> None" "x \<in> S" "answers m key eq x"
    and "\<forall>y\<in>S. answers m key eq y \<longrightarrow> y = x"
  shows "\<exists>m1 t1 m2 t2. take_out m t key eq = Some (Some x, m1, t1) \<and>
    find m1 t1 key eq = Some (None, m2, t2) \<and> holds m2 t2 (S - {x})"
proof -
  obtain p m1 t1 where r: "take_out m t key eq = Some (p, m1, t1)" "frame S m m1"
    "case p of None \<Rightarrow> holds m1 t1 S \<and> (\<forall>x\<in>S. \<not> answers m key eq x)
     | Some x \<Rightarrow> holds m1 t1 (S - {x}) \<and> x \<in> S \<and> answers m key eq x"
    using take_answers [OF assms(1,2), of eq] by blast
  have "case p of None \<Rightarrow> \<forall>x\<in>S. \<not> answers m key eq x | Some x \<Rightarrow> x \<in> S \<and> answers m key eq x"
    using r(3) by (simp split: option.splits)
  then have p: "p = Some x" using assms(3,4,5) by (rule hit_unique)
  then have h: "holds m1 t1 (S - {x})" using r(3) by simp
  have k: "code m1 key \<noteq> None" using assms(2) frame_code [OF r(2)] by simp
  have "\<forall>y\<in>S - {x}. \<not> answers m1 key eq y"
    unfolding answers_frame [OF r(2)] using assms(5) by blast
  then obtain m2 t2 where "find m1 t1 key eq = Some (None, m2, t2)" "holds m2 t2 (S - {x})"
    using find_absent [OF h k] by blast
  then show ?thesis using r(1) p by blast
qed

end



subsection \<open>A byte sink with deferred fields\<close>

text \<open>
  The contract of the output buffer towards the serializers: bytes are appended to a
  content; \<open>push\<close> remembers the current end as the innermost mark, \<open>fill\<close> pops it and
  overwrites the bytes there, \<open>rewind\<close> cuts the content some bytes after it.
\<close>

locale byte_sink =
  fixes inv :: "'b \<Rightarrow> bool"
    and content :: "'b \<Rightarrow> bytes"
    and marks :: "'b \<Rightarrow> nat list"
    and append :: "'b \<Rightarrow> bytes \<Rightarrow> 'b option"
    and push :: "'b \<Rightarrow> 'b"
    and fill :: "'b \<Rightarrow> bytes \<Rightarrow> 'b option"
    and rewind :: "'b \<Rightarrow> nat \<Rightarrow> 'b option"
  assumes append: "inv b \<Longrightarrow>
      \<exists>b'. append b bs = Some b' \<and> inv b' \<and> content b' = content b @ bs \<and> marks b' = marks b"
    and push: "inv b \<Longrightarrow>
      inv (push b) \<and> content (push b) = content b \<and> marks (push b) = marks b @ [length (content b)]"
    and fill: "inv b \<Longrightarrow> marks b = ms @ [p] \<Longrightarrow> put_bytes (content b) p bs = Some c \<Longrightarrow>
      \<exists>b'. fill b bs = Some b' \<and> inv b' \<and> content b' = c \<and> marks b' = ms"
    and rewind: "inv b \<Longrightarrow> marks b = ms @ [p] \<Longrightarrow> p + k \<le> length (content b) \<Longrightarrow>
      \<exists>b'. rewind b k = Some b' \<and> inv b' \<and> content b' = take (p + k) (content b) \<and> marks b' = marks b"
begin

text \<open>\<open>emits f bs\<close>: a serializer that appends exactly \<open>bs\<close> and leaves the marks alone.\<close>

definition emits :: "('b \<Rightarrow> 'b option) \<Rightarrow> bytes \<Rightarrow> bool" where
  "emits f bs \<longleftrightarrow> (\<forall>b. inv b \<longrightarrow>
     (\<exists>b'. f b = Some b' \<and> inv b' \<and> content b' = content b @ bs \<and> marks b' = marks b))"

lemma emitsD:
  "emits f bs \<Longrightarrow> inv b \<Longrightarrow>
    \<exists>b'. f b = Some b' \<and> inv b' \<and> content b' = content b @ bs \<and> marks b' = marks b"
  by (simp add: emits_def)

lemma emits_append: "emits (\<lambda>b. append b bs) bs"
  unfolding emits_def using append by blast

lemma emits_seq:
  assumes "emits f xs" "emits g ys"
  shows "emits (\<lambda>b. Option.bind (f b) g) (xs @ ys)"
  unfolding emits_def
proof (intro allI impI)
  fix b assume "inv b"
  then obtain b1 where b1: "f b = Some b1" "inv b1" "content b1 = content b @ xs" "marks b1 = marks b"
    using emitsD [OF assms(1)] by blast
  then obtain b2 where "g b1 = Some b2" "inv b2" "content b2 = content b1 @ ys" "marks b2 = marks b1"
    using emitsD [OF assms(2)] by blast
  then show "\<exists>b'. Option.bind (f b) g = Some b' \<and> inv b' \<and> content b' = content b @ xs @ ys \<and> marks b' = marks b"
    using b1 by simp
qed

text \<open>A deferred field: opened with a blank, closed by the bytes that belong there.\<close>

lemma open_field:
  assumes "inv b"
  shows "\<exists>b'. append (push b) z = Some b' \<and> inv b' \<and> content b' = content b @ z \<and>
    marks b' = marks b @ [length (content b)]"
proof -
  have p: "inv (push b)" "content (push b) = content b" "marks (push b) = marks b @ [length (content b)]"
    using push [OF assms] by simp_all
  then show ?thesis using append [OF p(1), of z] by simp
qed

lemma close_field:
  assumes "inv b" "content b = c @ z @ body" "marks b = ms @ [length c]" "length w = length z"
  shows "\<exists>b'. fill b w = Some b' \<and> inv b' \<and> content b' = c @ w @ body \<and> marks b' = ms"
  using fill [OF assms(1,3), of w "c @ w @ body"] put_bytes_append [OF assms(4)] assms(2) by simp

text \<open>An open field that is cut back to its blank.\<close>

lemma cut_field:
  assumes "inv b" "content b = c @ z @ body" "marks b = ms @ [length c]" "k = length z"
  shows "\<exists>b'. rewind b k = Some b' \<and> inv b' \<and> content b' = c @ z \<and> marks b' = marks b"
  using rewind [OF assms(1,3), of k] assms(2,4) by simp

end

end
