(* ===== verification/MinHeap.thy ===== *)
theory MinHeap
  imports Prelude Interfaces
begin

text \<open>
  The TTL heap of \<open>src/ds/heap.cc\<close> and \<open>include/byoredis/ds/heap.hh\<close>: a binary
  min-heap in a vector, where every item carries a pointer \<open>ref\<close> to the
  \<open>heap_idx\<close> cell of its entry and every move of an item writes the new index
  through that pointer. The state of the model is the vector together with
  the store of the \<open>heap_idx\<close> cells. The lemmas show that the vector stays a heap,
  that every cell holds the index of its item, that no dereference or index fails,
  and that the pair implements a map from entries to expiration times.
\<close>

record HeapItem =
  hi_val :: u64
  hi_ref :: addr

type_synonym heap_idx_store = "addr \<rightharpoonup> nat"
type_synonym heap_state = "HeapItem list \<times> heap_idx_store"


subsection \<open>The code\<close>

definition heap_parent :: "nat \<Rightarrow> nat" where
  "heap_parent i = (i - 1) div 2"

definition heap_left :: "nat \<Rightarrow> nat" where
  "heap_left i = 2 * i + 1"

definition heap_right :: "nat \<Rightarrow> nat" where
  "heap_right i = 2 * i + 2"

text \<open>The loop of \<open>heap_up\<close>: it returns the vector, the cells and the final position.\<close>

function heap_up_loop ::
  "HeapItem \<Rightarrow> HeapItem list \<Rightarrow> heap_idx_store \<Rightarrow> nat \<Rightarrow> (HeapItem list \<times> heap_idx_store \<times> nat) option"
where
  "heap_up_loop t a rs pos =
     (if 0 < pos then do {
        p \<leftarrow> vec_get a (heap_parent pos);
        (if hi_val t < hi_val p then do {
           a' \<leftarrow> vec_set a pos p;
           rs' \<leftarrow> store_at rs (hi_ref p) pos;
           heap_up_loop t a' rs' (heap_parent pos)
         } else Some (a, rs, pos))
      } else Some (a, rs, pos))"
  by pat_completeness auto
termination
  by (relation "measure (\<lambda>(t, a, rs, pos). pos)") (auto simp: heap_parent_def)

definition heap_up :: "HeapItem list \<Rightarrow> heap_idx_store \<Rightarrow> nat \<Rightarrow> heap_state option" where
  "heap_up a rs pos = do {
     t \<leftarrow> vec_get a pos;
     (a', rs', pos') \<leftarrow> heap_up_loop t a rs pos;
     a'' \<leftarrow> vec_set a' pos' t;
     rs'' \<leftarrow> store_at rs' (hi_ref t) pos';
     Some (a'', rs'')
   }"

text \<open>The smallest of the parent and its kids: the two guarded comparisons of the loop.\<close>

definition heap_min_pos :: "HeapItem \<Rightarrow> HeapItem list \<Rightarrow> nat \<Rightarrow> nat \<Rightarrow> nat" where
  "heap_min_pos t a pos len =
     (let l = heap_left pos; r = heap_right pos;
          (min_pos, min_val) =
            (if l < len \<and> hi_val (a ! l) < hi_val t then (l, hi_val (a ! l)) else (pos, hi_val t))
      in if r < len \<and> hi_val (a ! r) < min_val then r else min_pos)"

lemma heap_min_pos_cases:
  "heap_min_pos t a pos len = pos \<or>
   (pos < heap_min_pos t a pos len \<and> heap_min_pos t a pos len < len)"
  by (auto simp: heap_min_pos_def Let_def heap_left_def heap_right_def)

function heap_down_loop ::
  "HeapItem \<Rightarrow> nat \<Rightarrow> HeapItem list \<Rightarrow> heap_idx_store \<Rightarrow> nat \<Rightarrow> (HeapItem list \<times> heap_idx_store \<times> nat) option"
where
  "heap_down_loop t len a rs pos =
     (if length a < len then None
      else
        let min_pos = heap_min_pos t a pos len in
        if min_pos = pos then Some (a, rs, pos)
        else do {
          m \<leftarrow> vec_get a min_pos;
          a' \<leftarrow> vec_set a pos m;
          rs' \<leftarrow> store_at rs (hi_ref m) pos;
          heap_down_loop t len a' rs' min_pos
        })"
  by pat_completeness auto
termination
proof (relation "measure (\<lambda>(t, len, a, rs, pos). len - pos)", goal_cases)
  case (2 t len a rs pos min_pos m a' rs')
  then show ?case using heap_min_pos_cases [of t a pos len] by auto
qed simp

definition heap_down :: "HeapItem list \<Rightarrow> heap_idx_store \<Rightarrow> nat \<Rightarrow> nat \<Rightarrow> heap_state option" where
  "heap_down a rs pos len = do {
     t \<leftarrow> vec_get a pos;
     (a', rs', pos') \<leftarrow> heap_down_loop t len a rs pos;
     a'' \<leftarrow> vec_set a' pos' t;
     rs'' \<leftarrow> store_at rs' (hi_ref t) pos';
     Some (a'', rs'')
   }"

definition heap_update :: "HeapItem list \<Rightarrow> heap_idx_store \<Rightarrow> nat \<Rightarrow> nat \<Rightarrow> heap_state option" where
  "heap_update a rs pos len =
     (if 0 < pos then do {
        t \<leftarrow> vec_get a pos;
        p \<leftarrow> vec_get a (heap_parent pos);
        (if hi_val t < hi_val p then heap_up a rs pos else heap_down a rs pos len)
      } else heap_down a rs pos len)"

definition heap_delete :: "HeapItem list \<Rightarrow> heap_idx_store \<Rightarrow> nat \<Rightarrow> heap_state option" where
  "heap_delete a rs pos =
     (if length a \<le> pos then Some (a, rs)
      else
        let a1 = butlast (a[pos := last a]) in
        if pos < length a1 then heap_update a1 rs pos (length a1) else Some (a1, rs))"

definition heap_insert :: "HeapItem list \<Rightarrow> heap_idx_store \<Rightarrow> HeapItem \<Rightarrow> heap_state option" where
  "heap_insert a rs t =
     (let a1 = a @ [t] in heap_update a1 rs (length a1 - 1) (length a1))"

definition heap_upsert :: "HeapItem list \<Rightarrow> heap_idx_store \<Rightarrow> nat \<Rightarrow> HeapItem \<Rightarrow> heap_state option" where
  "heap_upsert a rs pos t =
     (if pos < length a then
        let a1 = a[pos := t] in heap_update a1 rs pos (length a1)
      else
        let a1 = a @ [t] in heap_update a1 rs (length a) (length a1))"


declare heap_up_loop.simps [simp del] heap_down_loop.simps [simp del]


subsection \<open>Invariants\<close>

definition is_heap :: "HeapItem list \<Rightarrow> bool" where
  "is_heap a \<longleftrightarrow> (\<forall>i<length a. 0 < i \<longrightarrow> hi_val (a ! heap_parent i) \<le> hi_val (a ! i))"

text \<open>Every \<open>heap_idx\<close> cell holds the index of the item that refers to it.\<close>

definition refs_ok :: "HeapItem list \<Rightarrow> heap_idx_store \<Rightarrow> bool" where
  "refs_ok a rs \<longleftrightarrow> (\<forall>i<length a. rs (hi_ref (a ! i)) = Some i)"

definition heap_inv :: "HeapItem list \<Rightarrow> heap_idx_store \<Rightarrow> bool" where
  "heap_inv a rs \<longleftrightarrow> is_heap a \<and> refs_ok a rs"

text \<open>Around a position \<open>k\<close> whose item may be out of place.\<close>

definition skips_over :: "HeapItem list \<Rightarrow> nat \<Rightarrow> bool" where
  "skips_over b k \<longleftrightarrow>
     (0 < k \<longrightarrow> (\<forall>i<length b. 0 < i \<and> heap_parent i = k \<longrightarrow> hi_val (b ! heap_parent k) \<le> hi_val (b ! i)))"

definition heap_above :: "HeapItem list \<Rightarrow> nat \<Rightarrow> bool" where
  "heap_above b k \<longleftrightarrow> skips_over b k \<and>
     (\<forall>i<length b. 0 < i \<and> i \<noteq> k \<longrightarrow> hi_val (b ! heap_parent i) \<le> hi_val (b ! i))"

definition heap_below :: "HeapItem list \<Rightarrow> nat \<Rightarrow> bool" where
  "heap_below b k \<longleftrightarrow> skips_over b k \<and>
     (\<forall>i<length b. 0 < i \<and> heap_parent i \<noteq> k \<longrightarrow> hi_val (b ! heap_parent i) \<le> hi_val (b ! i))"

definition heap_but :: "HeapItem list \<Rightarrow> nat \<Rightarrow> bool" where
  "heap_but b k \<longleftrightarrow> skips_over b k \<and>
     (\<forall>i<length b. 0 < i \<and> i \<noteq> k \<and> heap_parent i \<noteq> k \<longrightarrow>
        hi_val (b ! heap_parent i) \<le> hi_val (b ! i))"

definition refs_but :: "HeapItem list \<Rightarrow> heap_idx_store \<Rightarrow> nat \<Rightarrow> bool" where
  "refs_but b rs k \<longleftrightarrow> distinct (map hi_ref b) \<and>
     (\<forall>i<length b. rs (hi_ref (b ! i)) \<noteq> None) \<and>
     (\<forall>i<length b. i \<noteq> k \<longrightarrow> rs (hi_ref (b ! i)) = Some i)"

text \<open>What an operation on the items \<open>b\<close> leaves of the cells of other entries.\<close>

definition refs_frame :: "HeapItem list \<Rightarrow> heap_idx_store \<Rightarrow> heap_idx_store \<Rightarrow> bool" where
  "refs_frame b rs rs' \<longleftrightarrow> dom rs' = dom rs \<and> (\<forall>e. e \<notin> hi_ref ` set b \<longrightarrow> rs' e = rs e)"

lemma heap_parent_iff:
  "0 < i \<Longrightarrow> heap_parent i = k \<longleftrightarrow> i = heap_left k \<or> i = heap_right k"
  unfolding heap_parent_def heap_left_def heap_right_def by presburger

lemma heap_parent_less: "0 < i \<Longrightarrow> heap_parent i < i"
  by (simp add: heap_parent_def)

lemma refs_ok_distinct: "refs_ok a rs \<Longrightarrow> distinct (map hi_ref a)"
  unfolding distinct_conv_nth refs_ok_def by (metis length_map nth_map option.inject)

lemma refs_frame_refl [simp]: "refs_frame b rs rs"
  by (simp add: refs_frame_def)

lemma refs_frame_trans:
  "refs_frame b rs rs' \<Longrightarrow> refs_frame b' rs' rs'' \<Longrightarrow> set b' = set b \<Longrightarrow> refs_frame b rs rs''"
  by (auto simp: refs_frame_def)

lemma refs_frame_store:
  "r \<in> hi_ref ` set b \<Longrightarrow> rs r \<noteq> None \<Longrightarrow> refs_frame b rs (rs(r \<mapsto> v))"
  by (auto simp: refs_frame_def)


subsection \<open>One move of the loops: the item at \<open>q\<close> goes to the hole \<open>k\<close>\<close>

definition move :: "HeapItem list \<Rightarrow> nat \<Rightarrow> nat \<Rightarrow> HeapItem list" where
  "move b k q = b[k := b ! q, q := b ! k]"

lemma length_move [simp]: "length (move b k q) = length b"
  by (simp add: move_def)

lemma mset_move [simp]: "k < length b \<Longrightarrow> q < length b \<Longrightarrow> mset (move b k q) = mset b"
  by (simp add: move_def mset_swap)

lemma nth_move:
  "k < length b \<Longrightarrow> q < length b \<Longrightarrow> i < length b \<Longrightarrow>
   move b k q ! i = (if i = q then b ! k else if i = k then b ! q else b ! i)"
  by (simp add: move_def nth_list_update)

lemma move_hole:
  "k < length a \<Longrightarrow> q < length a \<Longrightarrow> k \<noteq> q \<Longrightarrow>
   (a[k := a ! q])[q := t] = move (a[k := t]) k q"
  by (simp add: move_def)

lemma refs_but_move:
  assumes "refs_but b rs k" and "k < length b" and "q < length b" and "k \<noteq> q"
  shows "refs_but (move b k q) (rs(hi_ref (b ! q) \<mapsto> k)) q"
proof -
  have m: "mset (map hi_ref (move b k q)) = mset (map hi_ref b)"
    using assms by simp
  have d: "distinct (map hi_ref b)" using assms(1) by (simp add: refs_but_def)
  have "distinct (map hi_ref (move b k q))"
    using d m by (metis mset_eq_imp_distinct_iff)
  moreover have "hi_ref (b ! i) \<noteq> hi_ref (b ! q)" if "i < length b" "i \<noteq> q" for i
    using d that assms(3) by (simp add: distinct_conv_nth)
  ultimately show ?thesis
    using assms unfolding refs_but_def by (auto simp: nth_move)
qed

lemma heap_above_move:
  assumes inv: "heap_above b k" and k: "k < length b" "0 < k"
    and less: "hi_val (b ! k) < hi_val (b ! heap_parent k)"
  shows "heap_above (move b k (heap_parent k)) (heap_parent k)"
proof -
  let ?q = "heap_parent k" and ?b = "move b k (heap_parent k)"
  have qk: "?q < k" using k heap_parent_less by simp
  have edge: "hi_val (b ! heap_parent i) \<le> hi_val (b ! i)"
    if "i < length b" "0 < i" "i \<noteq> k" for i
    using inv that by (simp add: heap_above_def)
  have skip: "hi_val (b ! ?q) \<le> hi_val (b ! i)"
    if "i < length b" "0 < i" "heap_parent i = k" for i
    using inv that k by (simp add: heap_above_def skips_over_def)
  have nth: "?b ! i = (if i = ?q then b ! k else if i = k then b ! ?q else b ! i)"
    if "i < length b" for i
    using that qk k by (simp add: nth_move)
  have "hi_val (?b ! heap_parent i) \<le> hi_val (?b ! i)"
    if i: "i < length b" "0 < i" "i \<noteq> ?q" for i
  proof (cases "i = k \<or> heap_parent i = k")
    case True
    then show ?thesis using i k qk less skip [of i] heap_parent_less [of i] by (auto simp: nth)
  next
    case False
    then show ?thesis
      using i k qk less edge [of i] heap_parent_less [of i] by (auto simp: nth)
  qed
  moreover have "skips_over ?b ?q"
    unfolding skips_over_def
  proof (intro impI allI, elim conjE)
    fix i assume q: "0 < ?q" and i: "i < length ?b" "0 < i" "heap_parent i = ?q"
    have pq: "hi_val (b ! heap_parent ?q) \<le> hi_val (b ! ?q)"
      using edge [of ?q] q qk k by simp
    have iq: "?q < i" using heap_parent_less [OF i(2)] i(3) by simp
    show "hi_val (?b ! heap_parent ?q) \<le> hi_val (?b ! i)"
      using pq edge [of i] i iq q qk k heap_parent_less [OF q]
      by (cases "i = k") (auto simp: nth)
  qed
  ultimately show ?thesis by (simp add: heap_above_def)
qed


lemma heap_above_done:
  assumes "heap_above b k" and "k < length b"
    and "0 < k \<Longrightarrow> hi_val (b ! heap_parent k) \<le> hi_val (b ! k)"
  shows "is_heap b"
  using assms unfolding is_heap_def heap_above_def by metis

lemma heap_below_done:
  assumes "heap_below b k"
    and "heap_left k < length b \<Longrightarrow> hi_val (b ! k) \<le> hi_val (b ! heap_left k)"
    and "heap_right k < length b \<Longrightarrow> hi_val (b ! k) \<le> hi_val (b ! heap_right k)"
  shows "is_heap b"
  using assms unfolding is_heap_def heap_below_def by (metis heap_parent_iff)

lemma heap_below_move:
  assumes inv: "heap_below b k" and m: "m < length b" "0 < m" "heap_parent m = k"
    and less: "hi_val (b ! m) < hi_val (b ! k)"
    and least: "\<And>i. i < length b \<Longrightarrow> 0 < i \<Longrightarrow> heap_parent i = k \<Longrightarrow> hi_val (b ! m) \<le> hi_val (b ! i)"
  shows "heap_below (move b k m) m"
proof -
  let ?b = "move b k m"
  have km: "k < m" using m heap_parent_less by blast
  have edge: "hi_val (b ! heap_parent i) \<le> hi_val (b ! i)"
    if "i < length b" "0 < i" "heap_parent i \<noteq> k" for i
    using inv that by (simp add: heap_below_def)
  have nth: "?b ! i = (if i = m then b ! k else if i = k then b ! m else b ! i)"
    if "i < length b" for i
    using that km m by (simp add: nth_move)
  have "hi_val (?b ! heap_parent i) \<le> hi_val (?b ! i)"
    if i: "i < length b" "0 < i" "heap_parent i \<noteq> m" for i
  proof (cases "heap_parent i = k")
    case True
    then show ?thesis using i km m less least [of i] by (cases "i = m") (auto simp: nth)
  next
    case pik: False
    then have e: "hi_val (b ! heap_parent i) \<le> hi_val (b ! i)" using i edge by blast
    show ?thesis
    proof (cases "i = k")
      case True
      have "hi_val (b ! heap_parent k) \<le> hi_val (b ! m)"
        using inv m i True by (auto simp: heap_below_def skips_over_def)
      then show ?thesis using True i km m heap_parent_less [of i] by (auto simp: nth)
    next
      case False
      then show ?thesis using e pik i m heap_parent_less [of i] by (auto simp: nth)
    qed
  qed
  moreover have "skips_over ?b m"
    unfolding skips_over_def
  proof (intro impI allI, elim conjE)
    fix i assume i: "i < length ?b" "0 < i" "heap_parent i = m"
    have "m < i" using heap_parent_less [OF i(2)] i(3) by simp
    then show "hi_val (?b ! heap_parent m) \<le> hi_val (?b ! i)"
      using edge [of i] i m km by (auto simp: nth)
  qed
  ultimately show ?thesis by (simp add: heap_below_def)
qed

lemma heap_min_pos_least:
  assumes "m = heap_min_pos t a k (length a)" and "m \<noteq> k" and "k < length a"
  shows "m < length a" "0 < m" "heap_parent m = k" "hi_val (a ! m) < hi_val t"
    and "\<And>i. i < length a \<Longrightarrow> 0 < i \<Longrightarrow> heap_parent i = k \<Longrightarrow> hi_val (a ! m) \<le> hi_val (a ! i)"
proof -
  show *: "m < length a" "0 < m" "heap_parent m = k" "hi_val (a ! m) < hi_val t"
    using assms
    by (auto simp: heap_min_pos_def Let_def heap_left_def heap_right_def heap_parent_def
        split: if_splits)
  fix i assume "i < length a" "0 < i" "heap_parent i = k"
  then have "i = heap_left k \<or> i = heap_right k" using heap_parent_iff by blast
  then show "hi_val (a ! m) \<le> hi_val (a ! i)"
    using assms(1,2) \<open>i < length a\<close>
    by (auto simp: heap_min_pos_def Let_def split: if_splits)
qed

lemma heap_min_pos_stay:
  assumes "heap_min_pos t a k (length a) = k"
  shows "heap_left k < length a \<Longrightarrow> hi_val t \<le> hi_val (a ! heap_left k)"
    and "heap_right k < length a \<Longrightarrow> hi_val t \<le> hi_val (a ! heap_right k)"
  using assms
  by (auto simp: heap_min_pos_def Let_def heap_left_def heap_right_def split: if_splits)


subsection \<open>The loops\<close>

text \<open>
  What a loop that carries the item \<open>t\<close> ends with: seen with \<open>t\<close> written into the
  final hole, the vector is a heap with the same items, and only the cell of \<open>t\<close>
  may still be stale.
\<close>

definition loop_post ::
  "HeapItem \<Rightarrow> HeapItem list \<Rightarrow> heap_idx_store \<Rightarrow> HeapItem list \<times> heap_idx_store \<times> nat \<Rightarrow> bool" where
  "loop_post t b rs = (\<lambda>(a', rs', pos').
     pos' < length a' \<and> length a' = length b \<and> mset (a'[pos' := t]) = mset b \<and>
     is_heap (a'[pos' := t]) \<and> refs_but (a'[pos' := t]) rs' pos' \<and> refs_frame b rs rs')"

lemma loop_post_step:
  assumes "loop_post t b' rs' res" and "mset b' = mset b" and "refs_frame b rs rs'"
  shows "loop_post t b rs res"
proof -
  have "set b' = set b" "length b' = length b"
    using assms(2) by (metis set_mset_mset, metis size_mset)
  with assms show ?thesis
    unfolding loop_post_def by (auto intro: refs_frame_trans)
qed

lemma refs_frame_move:
  assumes "refs_but b rs k" "q < length b"
  shows "refs_frame b rs (rs(hi_ref (b ! q) \<mapsto> k))"
  using assms by (intro refs_frame_store) (auto simp: refs_but_def)

lemma heap_up_loop_post:
  assumes "pos < length a" "heap_above (a[pos := t]) pos" "refs_but (a[pos := t]) rs pos"
  shows "\<exists>res. heap_up_loop t a rs pos = Some res \<and> loop_post t (a[pos := t]) rs res"
  using assms
proof (induction t a rs pos rule: heap_up_loop.induct)
  case (1 t a rs pos)
  let ?q = "heap_parent pos" and ?b = "a[pos := t]"
  show ?case
  proof (cases "0 < pos \<and> hi_val t < hi_val (a ! ?q)")
    case True
    then have q: "?q < pos" using heap_parent_less by blast
    then have ql: "?q < length a" using 1(2) by simp
    let ?a = "a[pos := a ! ?q]" and ?rs = "rs(hi_ref (a ! ?q) \<mapsto> pos)"
    have hole: "?a[?q := t] = move ?b pos ?q" using move_hole q ql 1(2) by simp
    have bq: "?b ! ?q = a ! ?q" using q by simp
    have "rs (hi_ref (?b ! ?q)) \<noteq> None"
      using 1(4) q ql by (simp add: refs_but_def)
    then have st: "store_at rs (hi_ref (a ! ?q)) pos = Some ?rs"
      using q by (simp add: run_simps)
    have "heap_above (?a[?q := t]) ?q"
      using heap_above_move [OF 1(3)] True 1(2) q ql by (simp add: hole)
    moreover have "refs_but (?a[?q := t]) ?rs ?q"
      using refs_but_move [OF 1(4), of ?q] 1(2) q ql by (simp add: hole)
    ultimately have "\<exists>res. heap_up_loop t ?a ?rs ?q = Some res \<and> loop_post t (?a[?q := t]) ?rs res"
      by (intro 1(1)[of "a ! ?q" ?a ?rs]) (use True 1(2) q ql st in \<open>simp_all add: vec_get_def vec_set_def del: fun_upd_apply\<close>)
    then obtain res where res: "heap_up_loop t ?a ?rs ?q = Some res"
      "loop_post t (?a[?q := t]) ?rs res"
      by blast
    have "loop_post t ?b rs res"
      using res(2) by (rule loop_post_step)
        (use refs_frame_move [OF 1(4), of ?q] 1(2) q ql in \<open>simp_all add: hole\<close>)
    with res(1) True 1(2) q ql st show ?thesis
      by (subst heap_up_loop.simps) (simp add: run_simps)
  next
    case False
    then have "heap_up_loop t a rs pos = Some (a, rs, pos)"
      using 1(2) heap_parent_less [of pos]
      by (subst heap_up_loop.simps) (auto simp: run_simps)
    moreover have "is_heap ?b"
      using 1(3) by (rule heap_above_done) (use False 1(2) heap_parent_less [of pos] in auto)
    ultimately show ?thesis using 1(2,4) by (simp add: loop_post_def)
  qed
qed

lemma heap_down_loop_post:
  assumes "pos < length a" "len = length a"
    and "heap_below (a[pos := t]) pos" "refs_but (a[pos := t]) rs pos"
  shows "\<exists>res. heap_down_loop t len a rs pos = Some res \<and> loop_post t (a[pos := t]) rs res"
  using assms
proof (induction t len a rs pos rule: heap_down_loop.induct)
  case (1 t len a rs pos)
  let ?m = "heap_min_pos t a pos len" and ?b = "a[pos := t]"
  show ?case
  proof (cases "?m = pos")
    case True
    then have "heap_down_loop t len a rs pos = Some (a, rs, pos)"
      using 1(3) by (subst heap_down_loop.simps) (simp add: Let_def)
    moreover have "is_heap ?b"
      using 1(4) by (rule heap_below_done)
        (use True heap_min_pos_stay [of t a pos] 1(2,3) in
          \<open>auto simp: heap_left_def heap_right_def\<close>)
    ultimately show ?thesis using 1(2,5) by (simp add: loop_post_def)
  next
    case False
    let ?a = "a[pos := a ! ?m]" and ?rs = "rs(hi_ref (a ! ?m) \<mapsto> pos)"
    note m = heap_min_pos_least [of ?m t a pos, OF _ False 1(2)]
    have ml: "?m < length a" and mp: "0 < ?m" "heap_parent ?m = pos"
      and lt: "hi_val (a ! ?m) < hi_val t"
      using m(1-4) 1(3) by simp_all
    have pm: "pos < ?m" using heap_parent_less [OF mp(1)] mp(2) by simp
    have bm: "?b ! ?m = a ! ?m" using pm by simp
    have least: "hi_val (?b ! ?m) \<le> hi_val (?b ! i)"
      if "i < length ?b" "0 < i" "heap_parent i = pos" for i
      using m(5)[of i] that bm 1(3) heap_parent_less [OF that(2)] by simp
    have hole: "?a[?m := t] = move ?b pos ?m" using move_hole pm ml 1(2) by simp
    have "rs (hi_ref (?b ! ?m)) \<noteq> None"
      using 1(5) ml by (simp add: refs_but_def)
    then have st: "store_at rs (hi_ref (a ! ?m)) pos = Some ?rs"
      using pm by (simp add: run_simps)
    have "heap_below (?a[?m := t]) ?m"
      unfolding hole
      by (rule heap_below_move [OF 1(4)]) (use ml mp lt bm 1(2) least in auto)
    moreover have "refs_but (?a[?m := t]) ?rs ?m"
      using refs_but_move [OF 1(5), of ?m] 1(2) ml pm by (simp add: hole)
    ultimately have "\<exists>res. heap_down_loop t len ?a ?rs ?m = Some res \<and> loop_post t (?a[?m := t]) ?rs res"
      by (intro 1(1)[of ?m "a ! ?m" ?a ?rs]) (use False 1(2,3) ml st in \<open>simp_all add: vec_get_def vec_set_def del: fun_upd_apply\<close>)
    then obtain res where res: "heap_down_loop t len ?a ?rs ?m = Some res"
      "loop_post t (?a[?m := t]) ?rs res"
      by blast
    have "loop_post t ?b rs res"
      using res(2) by (rule loop_post_step)
        (use refs_frame_move [OF 1(5), of ?m] 1(2) ml pm in \<open>simp_all add: hole\<close>)
    with res(1) False 1(2,3) ml st show ?thesis
      by (subst heap_down_loop.simps) (simp add: run_simps Let_def)
  qed
qed



subsection \<open>The operations on a vector\<close>

lemma refs_but_close:
  assumes "refs_but (a'[k := t]) rs k" "k < length a'" "refs_frame b rs0 rs"
    and "mset (a'[k := t]) = mset b"
  shows "store_at rs (hi_ref t) k = Some (rs(hi_ref t \<mapsto> k))"
    and "refs_ok (a'[k := t]) (rs(hi_ref t \<mapsto> k))"
    and "refs_frame b rs0 (rs(hi_ref t \<mapsto> k))"
proof -
  let ?c = "a'[k := t]"
  have t: "?c ! k = t" "k < length ?c" using assms(2) by simp_all
  have alloc: "rs (hi_ref t) \<noteq> None" using assms(1) t unfolding refs_but_def by metis
  then show "store_at rs (hi_ref t) k = Some (rs(hi_ref t \<mapsto> k))" by (simp add: run_simps)
  have "hi_ref (?c ! i) \<noteq> hi_ref t" if "i < length ?c" "i \<noteq> k" for i
    using assms(1) that t unfolding refs_but_def distinct_conv_nth
    by (metis length_map nth_map)
  then show "refs_ok ?c (rs(hi_ref t \<mapsto> k))"
    using assms(1) t by (auto simp: refs_ok_def refs_but_def nth_list_update)
  have "t \<in> set b" using assms(4) t by (metis nth_mem set_mset_mset)
  then show "refs_frame b rs0 (rs(hi_ref t \<mapsto> k))"
    using assms(3) alloc by (auto simp: refs_frame_def)
qed

lemma sift_close:
  assumes "loop_post t a rs (a', rs', k)"
  shows "\<exists>a'' rs''. (do { a'' \<leftarrow> vec_set a' k t; rs'' \<leftarrow> store_at rs' (hi_ref t) k; Some (a'', rs'') }) =
           Some (a'', rs'') \<and> heap_inv a'' rs'' \<and> mset a'' = mset a \<and> refs_frame a rs rs''"
  using assms refs_but_close [of a' k t rs' a rs]
  by (auto simp: loop_post_def heap_inv_def run_simps simp del: fun_upd_apply)

lemma heap_up_post:
  assumes "pos < length a" "heap_above a pos" "refs_but a rs pos"
  shows "\<exists>a' rs'. heap_up a rs pos = Some (a', rs') \<and> heap_inv a' rs' \<and> mset a' = mset a \<and> refs_frame a rs rs'"
proof -
  obtain a1 rs1 k where "heap_up_loop (a ! pos) a rs pos = Some (a1, rs1, k)"
    and "loop_post (a ! pos) a rs (a1, rs1, k)"
    using heap_up_loop_post [of pos a "a ! pos" rs] assms by auto
  then show ?thesis
    using sift_close [of "a ! pos" a rs a1 rs1 k] assms(1) by (simp add: heap_up_def run_simps)
qed

lemma heap_down_post:
  assumes "pos < length a" "heap_below a pos" "refs_but a rs pos"
  shows "\<exists>a' rs'. heap_down a rs pos (length a) = Some (a', rs') \<and> heap_inv a' rs' \<and> mset a' = mset a \<and> refs_frame a rs rs'"
proof -
  obtain a1 rs1 k where "heap_down_loop (a ! pos) (length a) a rs pos = Some (a1, rs1, k)"
    and "loop_post (a ! pos) a rs (a1, rs1, k)"
    using heap_down_loop_post [of pos a "length a" "a ! pos" rs] assms by auto
  then show ?thesis
    using sift_close [of "a ! pos" a rs a1 rs1 k] assms(1) by (simp add: heap_down_def run_simps)
qed

lemma heap_but_above:
  assumes "heap_but a k" "0 < k" "k < length a" "hi_val (a ! k) < hi_val (a ! heap_parent k)"
  shows "heap_above a k"
proof -
  have sk: "skips_over a k" using assms(1) by (simp add: heap_but_def)
  have "hi_val (a ! heap_parent i) \<le> hi_val (a ! i)" if i: "i < length a" "0 < i" "i \<noteq> k" for i
  proof (cases "heap_parent i = k")
    case True
    then have "hi_val (a ! heap_parent k) \<le> hi_val (a ! i)"
      using sk i assms(2) by (simp add: skips_over_def)
    with True assms(4) show ?thesis by simp
  next
    case False
    with i assms(1) show ?thesis by (simp add: heap_but_def)
  qed
  with sk show ?thesis by (simp add: heap_above_def)
qed

lemma heap_but_below:
  assumes "heap_but a k" "k = 0 \<or> \<not> hi_val (a ! k) < hi_val (a ! heap_parent k)"
  shows "heap_below a k"
  using assms unfolding heap_but_def heap_below_def by (metis less_irrefl not_le)

lemma heap_update_post:
  assumes "pos < length a" "heap_but a pos" "refs_but a rs pos"
  shows "\<exists>a' rs'. heap_update a rs pos (length a) = Some (a', rs') \<and> heap_inv a' rs' \<and> mset a' = mset a \<and> refs_frame a rs rs'"
proof (cases "0 < pos \<and> hi_val (a ! pos) < hi_val (a ! heap_parent pos)")
  case True
  then show ?thesis
    using heap_up_post [OF assms(1) _ assms(3)] heap_but_above [OF assms(2)] assms(1)
      heap_parent_less [of pos]
    by (simp add: heap_update_def run_simps)
next
  case False
  then have "heap_below a pos" using heap_but_below [OF assms(2)] by auto
  then show ?thesis
    using heap_down_post [OF assms(1) _ assms(3)] assms(1) False heap_parent_less [of pos]
    by (auto simp: heap_update_def run_simps)
qed

text \<open>Replacing the item at any position of a heap, or appending one.\<close>

lemma heap_but_update:
  assumes "is_heap a"
  shows "heap_but (a[k := t]) k"
  unfolding heap_but_def skips_over_def
proof (intro conjI impI allI, elim conjE)
  have edge: "hi_val (a ! heap_parent i) \<le> hi_val (a ! i)" if "i < length a" "0 < i" for i
    using assms that by (simp add: is_heap_def)
  fix i assume i: "0 < k" "i < length (a[k := t])" "0 < i" "heap_parent i = k"
  then have k: "k < i" using heap_parent_less by blast
  have "hi_val (a ! heap_parent k) \<le> hi_val (a ! k)" using edge [of k] i k by simp
  also have "\<dots> \<le> hi_val (a ! i)" using edge [of i] i by simp
  finally show "hi_val (a[k := t] ! heap_parent k) \<le> hi_val (a[k := t] ! i)"
    using k heap_parent_less [OF i(1)] by simp
qed (use assms in \<open>auto simp: is_heap_def\<close>)

lemma heap_but_append:
  assumes "is_heap a"
  shows "heap_but (a @ [t]) (length a)"
  unfolding heap_but_def skips_over_def
proof (intro conjI impI allI, goal_cases)
  case (1 i)
  then show ?case using heap_parent_less [of i] by simp
next
  case (2 i)
  then have "i < length a" "heap_parent i < length a" using heap_parent_less [of i] by auto
  then show ?case using assms 2 by (simp add: nth_append is_heap_def)
qed

lemma is_heap_butlast:
  assumes "is_heap a"
  shows "is_heap (butlast a)"
  unfolding is_heap_def
proof (intro allI impI)
  fix i assume i: "i < length (butlast a)" "0 < i"
  then have "heap_parent i < length (butlast a)" using heap_parent_less [of i] by simp
  then show "hi_val (butlast a ! heap_parent i) \<le> hi_val (butlast a ! i)"
    using assms i by (simp add: nth_butlast is_heap_def)
qed

lemma heap_but_butlast:
  assumes "is_heap a" "k < length a - 1"
  shows "heap_but (butlast (a[k := t])) k"
proof -
  have "butlast (a[k := t]) = (butlast a)[k := t]" using assms(2) by (simp add: butlast_list_update)
  then show ?thesis using heap_but_update [OF is_heap_butlast [OF assms(1)]] by simp
qed


subsection \<open>Insertion, update and deletion keep the invariant\<close>

lemma refs_but_append:
  assumes "refs_ok a rs" "rs (hi_ref t) \<noteq> None" "hi_ref t \<notin> hi_ref ` set a"
  shows "refs_but (a @ [t]) rs (length a)"
  using assms refs_ok_distinct [OF assms(1)]
  by (auto simp: refs_but_def refs_ok_def nth_append)

lemma refs_but_update:
  assumes "refs_ok a rs" "k < length a" "hi_ref t = hi_ref (a ! k)"
  shows "refs_but (a[k := t]) rs k"
proof -
  have "map hi_ref (a[k := t]) = map hi_ref a"
    using assms(2,3) by (simp add: map_update list_update_same_conv)
  then show ?thesis
    using assms refs_ok_distinct [OF assms(1)]
    by (auto simp: refs_but_def refs_ok_def nth_list_update)
qed

lemma nth_butlast_swap:
  "i < length a - 1 \<Longrightarrow> butlast (a[k := last a]) ! i = (if i = k then last a else a ! i)"
  by (auto simp: nth_butlast nth_list_update)

lemma mset_butlast_swap:
  assumes "k < length a"
  shows "mset (butlast (a[k := last a])) = mset a - {#a ! k#}"
proof -
  have "a \<noteq> []" using assms by auto
  then have "last (a[k := last a]) = last a" by (simp add: last_list_update)
  then have "a[k := last a] = butlast (a[k := last a]) @ [last a]"
    using \<open>a \<noteq> []\<close> by (metis append_butlast_last_id list_update_nonempty)
  then have "mset (a[k := last a]) = add_mset (last a) (mset (butlast (a[k := last a])))"
    by (metis union_code add.commute add_mset_add_single mset.simps mset_append)
  then show ?thesis using assms by (simp add: mset_list_update)
qed

lemma refs_but_butlast:
  assumes "refs_ok a rs" "k < length a - 1"
  shows "refs_but (butlast (a[k := last a])) rs k"
proof -
  let ?b = "butlast (a[k := last a])"
  have last: "last a = a ! (length a - 1)" using assms(2) by (cases a) (auto simp: last_conv_nth)
  have nth: "?b ! i = (if i = k then a ! (length a - 1) else a ! i)" if "i < length a - 1" for i
    using nth_butlast_swap [OF that] last by simp
  have "mset a = add_mset (a ! k) (mset ?b)"
    using assms(2) by (simp add: mset_butlast_swap)
  then have "mset (map hi_ref a) = mset (map hi_ref (a ! k # ?b))" by simp
  then have "distinct (map hi_ref (a ! k # ?b))"
    using refs_ok_distinct [OF assms(1)] by (metis mset_eq_imp_distinct_iff)
  then show ?thesis
    using assms by (auto simp: refs_but_def refs_ok_def nth)
qed

lemma heap_append_post:
  assumes "heap_inv a rs" "rs (hi_ref t) \<noteq> None" "hi_ref t \<notin> hi_ref ` set a"
  shows "\<exists>a' rs'. heap_update (a @ [t]) rs (length a) (Suc (length a)) = Some (a', rs') \<and>
     heap_inv a' rs' \<and> mset a' = add_mset t (mset a) \<and> refs_frame (a @ [t]) rs rs'"
  using heap_update_post [of "length a" "a @ [t]" rs] heap_but_append refs_but_append assms
  by (auto simp: heap_inv_def)

lemma heap_insert_post:
  assumes "heap_inv a rs" "rs (hi_ref t) \<noteq> None" "hi_ref t \<notin> hi_ref ` set a"
  shows "\<exists>a' rs'. heap_insert a rs t = Some (a', rs') \<and>
     heap_inv a' rs' \<and> mset a' = add_mset t (mset a) \<and> refs_frame (a @ [t]) rs rs'"
  using heap_append_post [OF assms] by (simp add: heap_insert_def)

lemma heap_upsert_new_post:
  assumes "heap_inv a rs" "rs (hi_ref t) \<noteq> None" "hi_ref t \<notin> hi_ref ` set a" "length a \<le> pos"
  shows "\<exists>a' rs'. heap_upsert a rs pos t = Some (a', rs') \<and>
     heap_inv a' rs' \<and> mset a' = add_mset t (mset a) \<and> refs_frame (a @ [t]) rs rs'"
  using heap_append_post [OF assms(1-3)] assms(4) by (simp add: heap_upsert_def)

lemma heap_upsert_old_post:
  assumes "heap_inv a rs" "pos < length a" "hi_ref t = hi_ref (a ! pos)"
  shows "\<exists>a' rs'. heap_upsert a rs pos t = Some (a', rs') \<and> heap_inv a' rs' \<and>
     mset a' = add_mset t (mset a - {#a ! pos#}) \<and> refs_frame (a[pos := t]) rs rs'"
proof -
  have "heap_but (a[pos := t]) pos" "refs_but (a[pos := t]) rs pos"
    using assms heap_but_update refs_but_update by (auto simp: heap_inv_def)
  then show ?thesis
    using heap_update_post [of pos "a[pos := t]" rs] assms(2)
    by (simp add: heap_upsert_def mset_list_update)
qed

lemma heap_delete_post:
  assumes "heap_inv a rs" "pos < length a"
  shows "\<exists>a' rs'. heap_delete a rs pos = Some (a', rs') \<and> heap_inv a' rs' \<and>
     mset a' = mset a - {#a ! pos#} \<and> refs_frame (butlast (a[pos := last a])) rs rs'"
proof (cases "pos < length a - 1")
  case True
  then show ?thesis
    using assms heap_but_butlast [of a pos "last a"] refs_but_butlast [of a rs pos]
      heap_update_post [of pos "butlast (a[pos := last a])" rs] mset_butlast_swap [of pos a]
    by (auto simp: heap_delete_def heap_inv_def Let_def)
next
  case False
  then have pos: "pos = length a - 1" using assms(2) by simp
  then have swap: "butlast (a[pos := last a]) = butlast a"
    by (metis length_butlast list_update_beyond butlast_list_update order_refl)
  have "refs_ok (butlast a) rs" using assms(1) by (auto simp: heap_inv_def refs_ok_def nth_butlast)
  then show ?thesis
    using assms False swap mset_butlast_swap [of pos a] is_heap_butlast [of a]
    by (simp add: heap_delete_def heap_inv_def Let_def)
qed


subsection \<open>The heap as a map from entries to expiration times\<close>

definition ttl_map :: "HeapItem list \<Rightarrow> (addr \<rightharpoonup> u64)" where
  "ttl_map a = map_of (map (\<lambda>x. (hi_ref x, hi_val x)) a)"

definition heap_top :: "HeapItem list \<Rightarrow> (addr \<times> u64) option" where
  "heap_top a = (case a of [] \<Rightarrow> None | x # _ \<Rightarrow> Some (hi_ref x, hi_val x))"

lemma HeapItem_eta [simp]: "\<lparr>hi_val = hi_val x, hi_ref = hi_ref x\<rparr> = x"
  by (cases x) simp

lemma ttl_map_iff:
  "distinct (map hi_ref a) \<Longrightarrow> ttl_map a e = Some v \<longleftrightarrow> \<lparr>hi_val = v, hi_ref = e\<rparr> \<in> set a"
proof -
  assume d: "distinct (map hi_ref a)"
  have "map fst (map (\<lambda>x. (hi_ref x, hi_val x)) a) = map hi_ref a" by simp
  then have "ttl_map a e = Some v \<longleftrightarrow> (e, v) \<in> set (map (\<lambda>x. (hi_ref x, hi_val x)) a)"
    unfolding ttl_map_def using d by (intro map_of_eq_Some_iff) (simp add: comp_def)
  moreover have "(e, v) \<in> set (map (\<lambda>x. (hi_ref x, hi_val x)) a) \<longleftrightarrow> \<lparr>hi_val = v, hi_ref = e\<rparr> \<in> set a"
    by (auto intro: rev_image_eqI)
  ultimately show ?thesis by simp
qed

lemma ttl_map_None: "ttl_map a e = None \<longleftrightarrow> e \<notin> hi_ref ` set a"
  by (auto simp: ttl_map_def map_of_eq_None_iff image_comp comp_def)

lemma ttl_map_eqI:
  assumes "distinct (map hi_ref a)"
    and "\<And>e v. \<lparr>hi_val = v, hi_ref = e\<rparr> \<in> set a \<longleftrightarrow> m e = Some v"
  shows "ttl_map a = m"
  using assms ttl_map_iff by (metis (no_types) ext not_Some_eq)

lemma heap_inv_distinct: "heap_inv a rs \<Longrightarrow> distinct (map hi_ref a)"
  using refs_ok_distinct by (auto simp: heap_inv_def)

lemma distinct_refs_eq:
  "distinct (map hi_ref a) \<Longrightarrow> x \<in> set a \<Longrightarrow> y \<in> set a \<Longrightarrow> hi_ref x = hi_ref y \<Longrightarrow> x = y"
  by (simp add: distinct_map inj_on_def)

lemma ttl_map_add:
  assumes "distinct (map hi_ref a')" "mset a' = add_mset \<lparr>hi_val = v, hi_ref = e\<rparr> (mset a)"
  shows "ttl_map a' = (ttl_map a)(e \<mapsto> v)"
proof -
  have "mset (map hi_ref a') = mset (map hi_ref (\<lparr>hi_val = v, hi_ref = e\<rparr> # a))" using assms(2) by simp
  then have d: "distinct (e # map hi_ref a)"
    using assms(1) by (metis mset_eq_imp_distinct_iff list.simps(9) HeapItem.select_convs(2))
  have "set a' = insert \<lparr>hi_val = v, hi_ref = e\<rparr> (set a)"
    using assms(2) by (metis set_mset_add_mset_insert set_mset_mset)
  then show ?thesis
    using assms(1) d by (intro ttl_map_eqI) (force simp: ttl_map_iff)+
qed

lemma ttl_map_remove:
  assumes "distinct (map hi_ref a)" "i < length a" "mset a' = mset a - {#a ! i#}"
  shows "ttl_map a' = (ttl_map a)(hi_ref (a ! i) := None)"
proof -
  have m: "mset a = add_mset \<lparr>hi_val = hi_val (a ! i), hi_ref = hi_ref (a ! i)\<rparr> (mset a')"
    using insert_DiffM [of "a ! i" "mset a"] assms(2,3) by simp
  then have "ttl_map a = (ttl_map a')(hi_ref (a ! i) \<mapsto> hi_val (a ! i))"
    using assms(1) by (rule ttl_map_add [rotated])
  moreover have "ttl_map a' (hi_ref (a ! i)) = None"
  proof -
    have "mset (map hi_ref a) = mset (map hi_ref (a ! i # a'))" using m by simp
    then have "distinct (map hi_ref (a ! i # a'))" using assms(1) by (metis mset_eq_imp_distinct_iff)
    then show ?thesis by (simp add: ttl_map_None)
  qed
  ultimately show ?thesis by (metis fun_upd_triv fun_upd_upd)
qed

text \<open>The root of a heap is a least element.\<close>

lemma is_heap_root: "is_heap a \<Longrightarrow> i < length a \<Longrightarrow> hi_val (a ! 0) \<le> hi_val (a ! i)"
proof (induction i rule: less_induct)
  case (less i)
  show ?case
  proof (cases "i = 0")
    case False
    then have "heap_parent i < i" using heap_parent_less by simp
    then have "hi_val (a ! 0) \<le> hi_val (a ! heap_parent i)" using less by simp
    also have "\<dots> \<le> hi_val (a ! i)" using less.prems False by (simp add: is_heap_def)
    finally show ?thesis .
  qed simp
qed


subsection \<open>The heap provides the indexed queue\<close>

lemma heap_inv_cell:
  assumes "heap_inv a rs" "ttl_map a e = Some v"
  shows "\<exists>i<length a. rs e = Some i \<and> a ! i = \<lparr>hi_val = v, hi_ref = e\<rparr>"
proof -
  have "\<lparr>hi_val = v, hi_ref = e\<rparr> \<in> set a"
    using assms ttl_map_iff heap_inv_distinct by blast
  then obtain i where "i < length a" "a ! i = \<lparr>hi_val = v, hi_ref = e\<rparr>"
    by (auto simp: in_set_conv_nth)
  then show ?thesis using assms(1) by (auto simp: heap_inv_def refs_ok_def)
qed

lemma refs_frame_unqueued:
  assumes "refs_frame b rs rs'" "set b \<subseteq> set a'" "ttl_map a' e = None"
  shows "rs' e = rs e"
proof -
  have "e \<notin> hi_ref ` set b" using assms(2,3) unfolding ttl_map_None by blast
  then show ?thesis using assms(1) by (simp add: refs_frame_def)
qed

lemma heap_put_old:
  assumes "heap_inv a rs" "ttl_map a e = Some v" "rs e = Some i"
  shows "\<exists>a' rs'. heap_upsert a rs i \<lparr>hi_val = w, hi_ref = e\<rparr> = Some (a', rs') \<and> heap_inv a' rs' \<and>
    ttl_map a' = (ttl_map a)(e \<mapsto> w) \<and> length a' = length a \<and>
    dom rs' = dom rs \<and> (\<forall>e'. ttl_map a' e' = None \<longrightarrow> rs' e' = rs e')"
proof -
  let ?t = "\<lparr>hi_val = w, hi_ref = e\<rparr>"
  have i: "i < length a" "a ! i = \<lparr>hi_val = v, hi_ref = e\<rparr>"
    using heap_inv_cell [OF assms(1,2)] assms(3) by auto
  obtain a' rs' where s': "heap_upsert a rs i ?t = Some (a', rs')" "heap_inv a' rs'"
    "mset a' = add_mset ?t (mset a - {#a ! i#})" "refs_frame (a[i := ?t]) rs rs'"
    using heap_upsert_old_post [OF assms(1) i(1), of ?t] i(2) by auto
  have m: "mset a' = mset (a[i := ?t])" using s'(3) i(1) by (simp add: mset_list_update)
  obtain b where b: "mset b = mset a - {#a ! i#}" by (metis ex_mset)
  have "ttl_map a' = (ttl_map b)(e \<mapsto> w)"
    using ttl_map_add [OF heap_inv_distinct [OF s'(2)]] s'(3) b by simp
  moreover have "ttl_map b = (ttl_map a)(e := None)"
    using ttl_map_remove [OF heap_inv_distinct [OF assms(1)] i(1) b] i(2) by simp
  moreover have "length a' = length a" using m by (metis length_list_update size_mset)
  moreover have "set (a[i := ?t]) \<subseteq> set a'" using m by (metis order_refl set_mset_mset)
  ultimately show ?thesis
    using s'(1,2,4) refs_frame_unqueued [OF s'(4)] by (auto simp: refs_frame_def)
qed

lemma heap_put_new:
  assumes "heap_inv a rs" "ttl_map a e = None" "rs e = Some i" "length a \<le> i"
  shows "\<exists>a' rs'. heap_upsert a rs i \<lparr>hi_val = w, hi_ref = e\<rparr> = Some (a', rs') \<and> heap_inv a' rs' \<and>
    ttl_map a' = (ttl_map a)(e \<mapsto> w) \<and> length a' = Suc (length a) \<and>
    dom rs' = dom rs \<and> (\<forall>e'. ttl_map a' e' = None \<longrightarrow> rs' e' = rs e')"
proof -
  let ?t = "\<lparr>hi_val = w, hi_ref = e\<rparr>"
  obtain a' rs' where s': "heap_upsert a rs i ?t = Some (a', rs')" "heap_inv a' rs'"
    "mset a' = add_mset ?t (mset a)" "refs_frame (a @ [?t]) rs rs'"
    using heap_upsert_new_post [OF assms(1), of ?t i] assms(2-4) by (auto simp: ttl_map_None)
  have "ttl_map a' = (ttl_map a)(e \<mapsto> w)"
    using ttl_map_add [OF heap_inv_distinct [OF s'(2)] s'(3)] .
  moreover have "length a' = Suc (length a)" using s'(3) by (metis size_add_mset size_mset)
  moreover have "set (a @ [?t]) \<subseteq> set a'"
    using s'(3) by (metis order_refl set_mset_mset mset.simps(2) set_mset_add_mset_insert list.set(2) Un_insert_right set_append sup_bot_right list.set(1))
  ultimately show ?thesis
    using s'(1,2,4) refs_frame_unqueued [OF s'(4)] by (auto simp: refs_frame_def)
qed

lemma heap_remove_old:
  assumes "heap_inv a rs" "ttl_map a e = Some v" "rs e = Some i"
  shows "\<exists>a' rs'. heap_delete a rs i = Some (a', rs') \<and> heap_inv a' rs' \<and>
    ttl_map a' = (ttl_map a)(e := None) \<and> Suc (length a') = length a \<and>
    dom rs' = dom rs \<and> (\<forall>e'. ttl_map a' e' = None \<longrightarrow> rs' e' = rs e')"
proof -
  have i: "i < length a" "a ! i = \<lparr>hi_val = v, hi_ref = e\<rparr>"
    using heap_inv_cell [OF assms(1,2)] assms(3) by auto
  let ?b = "butlast (a[i := last a])"
  obtain a' rs' where s': "heap_delete a rs i = Some (a', rs')" "heap_inv a' rs'"
    "mset a' = mset a - {#a ! i#}" "refs_frame ?b rs rs'"
    using heap_delete_post [OF assms(1) i(1)] by blast
  have "ttl_map a' = (ttl_map a)(e := None)"
    using ttl_map_remove [OF heap_inv_distinct [OF assms(1)] i(1) s'(3)] i(2) by simp
  moreover have m: "mset a' = mset ?b" using s'(3) mset_butlast_swap [OF i(1)] by simp
  then have "length a' = length a - 1" by (metis length_butlast length_list_update size_mset)
  moreover have "set ?b \<subseteq> set a'" using m by (metis order_refl set_mset_mset)
  ultimately show ?thesis
    using s'(1,2,4) refs_frame_unqueued [OF s'(4)] i(1) by (auto simp: refs_frame_def)
qed

lemma heap_top_least:
  assumes "heap_inv a rs" "heap_top a = Some (e, v)"
  shows "ttl_map a e = Some v \<and> (\<forall>e' w. ttl_map a e' = Some w \<longrightarrow> v \<le> w)"
proof -
  have a: "a \<noteq> []" "a ! 0 = \<lparr>hi_val = v, hi_ref = e\<rparr>"
    using assms(2) by (auto simp: heap_top_def split: list.splits)
  then have "\<lparr>hi_val = v, hi_ref = e\<rparr> \<in> set a" by (metis length_greater_0_conv nth_mem)
  moreover have "v \<le> w" if w: "ttl_map a e' = Some w" for e' w
  proof -
    obtain i where "i < length a" "a ! i = \<lparr>hi_val = w, hi_ref = e'\<rparr>"
      using heap_inv_cell [OF assms(1) w] by blast
    then show ?thesis using is_heap_root [of a i] assms(1) a(2) by (simp add: heap_inv_def)
  qed
  ultimately show ?thesis
    using ttl_map_iff heap_inv_distinct [OF assms(1)] by blast
qed

interpretation heapq: indexed_queue
  "\<lambda>(a, rs). heap_inv a rs" "\<lambda>(a, rs). ttl_map a" "\<lambda>(a, rs). rs" "\<lambda>(a, rs). length a"
  "\<lambda>(a, rs) i e w. heap_upsert a rs i \<lparr>hi_val = w, hi_ref = e\<rparr>"
  "\<lambda>(a, rs) i. heap_delete a rs i" "\<lambda>(a, rs) e i. (a, rs(e \<mapsto> i))" "\<lambda>(a, rs). heap_top a"
proof (unfold_locales, goal_cases)
  case (1 s e v) then show ?case using heap_inv_cell by (cases s) fastforce
next
  case (2 s e v i w) then show ?case using heap_put_old by (cases s) fastforce
next
  case (3 s e i w) then show ?case using heap_put_new by (cases s) fastforce
next
  case (4 s e v i) then show ?case using heap_remove_old by (cases s) fastforce
next
  case (5 s e i) then show ?case
    by (cases s) (auto simp: heap_inv_def refs_ok_def ttl_map_None)
next
  case (6 s) then show ?case
    by (cases s) (auto simp: heap_top_def ttl_map_def fun_eq_iff split: list.splits if_splits)
next
  case (7 s e v) then show ?case using heap_top_least by (cases s) fastforce
qed

end
