(* ===== verification/HeapSpec.thy ===== *)
theory HeapSpec
  imports MinHeap
begin

text \<open>
  The properties of the TTL heap as a component: what each of its operations leaves in
  the vector and in the \<open>heap_idx\<close> cells, for every consistent heap. \<open>heap_inv a rs\<close> says
  that the vector \<open>a\<close> is heap-ordered and that the cell of every item holds its index.
\<close>

subsection \<open>A concrete heap for the witnesses\<close>

definition sample_heap :: "HeapItem list" where
  "sample_heap = [\<lparr>hi_val = 3, hi_ref = 1\<rparr>, \<lparr>hi_val = 8, hi_ref = 2\<rparr>, \<lparr>hi_val = 5, hi_ref = 3\<rparr>]"

definition sample_refs :: heap_idx_store where
  "sample_refs = [1 \<mapsto> 0, 2 \<mapsto> 1, 3 \<mapsto> 2, 7 \<mapsto> 0]"

lemma sample_heap_inv: "heap_inv sample_heap sample_refs"
  by (auto simp: heap_inv_def is_heap_def refs_ok_def heap_parent_def sample_heap_def sample_refs_def
      less_Suc_eq nth_Cons' split: if_splits)


subsection \<open>Properties\<close>

text \<open>
  Inserting an item whose cell is allocated and not yet in use succeeds, keeps the
  heap order and all back-pointers, adds exactly this item, and writes no cell of an
  entry outside the heap.
\<close>

theorem heap_insert_correct:
  assumes "heap_inv a rs" and "rs (hi_ref t) \<noteq> None" and "hi_ref t \<notin> hi_ref ` set a"
  shows "\<exists>a' rs'. heap_insert a rs t = Some (a', rs') \<and> heap_inv a' rs' \<and>
     mset a' = add_mset t (mset a) \<and> dom rs' = dom rs \<and>
     (\<forall>e. e \<notin> hi_ref ` set a' \<longrightarrow> rs' e = rs e)"
proof -
  obtain a' rs' where r: "heap_insert a rs t = Some (a', rs')" "heap_inv a' rs'"
    "mset a' = add_mset t (mset a)" "refs_frame (a @ [t]) rs rs'"
    using heap_insert_post [OF assms] by blast
  moreover have "set (a @ [t]) = set a'"
    using r(3) by (metis mset.simps(2) mset_eq_setD rotate1.simps(2) set_rotate1)
  ultimately show ?thesis unfolding refs_frame_def by metis
qed

theorem heap_insert_correct_witness:
  "\<exists>a' rs'. heap_insert sample_heap sample_refs \<lparr>hi_val = 1, hi_ref = 7\<rparr> = Some (a', rs') \<and>
     heap_inv a' rs' \<and> mset a' = add_mset \<lparr>hi_val = 1, hi_ref = 7\<rparr> (mset sample_heap)"
  using heap_insert_correct [OF sample_heap_inv, of "\<lparr>hi_val = 1, hi_ref = 7\<rparr>"]
  by (auto simp: sample_heap_def sample_refs_def)

text \<open>
  Deleting at any index of the vector succeeds, keeps the heap order and the
  back-pointers of the items that stay, and removes exactly the item at that index.
\<close>

theorem heap_delete_correct:
  assumes "heap_inv a rs" and "pos < length a"
  shows "\<exists>a' rs'. heap_delete a rs pos = Some (a', rs') \<and> heap_inv a' rs' \<and>
     mset a' = mset a - {#a ! pos#} \<and> dom rs' = dom rs"
  using heap_delete_post [OF assms] unfolding refs_frame_def by blast

theorem heap_delete_correct_witness:
  "\<exists>a' rs'. heap_delete sample_heap sample_refs 0 = Some (a', rs') \<and> heap_inv a' rs' \<and>
     mset a' = {#\<lparr>hi_val = 8, hi_ref = 2\<rparr>, \<lparr>hi_val = 5, hi_ref = 3\<rparr>#}"
  using heap_delete_correct [OF sample_heap_inv, of 0] by (auto simp: sample_heap_def)

text \<open>
  \<open>heap_upsert\<close> at the index held by an item's cell replaces exactly this item's
  value and restores the heap whichever way the value moved.
\<close>

theorem heap_upsert_existing:
  assumes "heap_inv a rs" and "pos < length a"
  shows "\<exists>a' rs'. heap_upsert a rs pos \<lparr>hi_val = v, hi_ref = hi_ref (a ! pos)\<rparr> = Some (a', rs') \<and>
     heap_inv a' rs' \<and> ttl_map a' = (ttl_map a)(hi_ref (a ! pos) \<mapsto> v)"
proof -
  have "a ! pos \<in> set a" using assms(2) by simp
  then have "ttl_map a (hi_ref (a ! pos)) = Some (hi_val (a ! pos))"
    by (simp add: ttl_map_iff heap_inv_distinct [OF assms(1)])
  moreover have "rs (hi_ref (a ! pos)) = Some pos" using assms by (simp add: heap_inv_def refs_ok_def)
  ultimately show ?thesis using heap_put_old [OF assms(1), of _ _ pos v] by blast
qed

theorem heap_upsert_existing_witness:
  "\<exists>a' rs'. heap_upsert sample_heap sample_refs 0 \<lparr>hi_val = 9, hi_ref = 1\<rparr> = Some (a', rs') \<and>
     heap_inv a' rs' \<and> ttl_map a' = [2 \<mapsto> 8, 3 \<mapsto> 5, 1 \<mapsto> 9]"
proof -
  have "(ttl_map sample_heap)(1 \<mapsto> 9) = [2 \<mapsto> 8, 3 \<mapsto> 5, 1 \<mapsto> 9]"
    by (auto simp: ttl_map_def sample_heap_def fun_eq_iff)
  then show ?thesis
    using heap_upsert_existing [OF sample_heap_inv, of 0 9] by (simp add: sample_heap_def)
qed

text \<open>
  The first item of a consistent heap, which is what the timers look at, expires
  no later than any other entry with a TTL.
\<close>

theorem heap_first_expires_first:
  assumes "heap_inv a rs" and "a \<noteq> []"
  shows "ttl_map a (hi_ref (a ! 0)) = Some (hi_val (a ! 0)) \<and>
    (\<forall>e v. ttl_map a e = Some v \<longrightarrow> hi_val (a ! 0) \<le> v)"
proof -
  have "heap_top a = Some (hi_ref (a ! 0), hi_val (a ! 0))"
    using assms(2) by (cases a) (simp_all add: heap_top_def)
  then show ?thesis using heap_top_least [OF assms(1)] by blast
qed

theorem heap_first_expires_first_witness:
  "ttl_map sample_heap (hi_ref (sample_heap ! 0)) = Some (hi_val (sample_heap ! 0)) \<and>
    hi_val (sample_heap ! 0) \<le> hi_val (sample_heap ! 1)"
proof -
  have "sample_heap \<noteq> []" "ttl_map sample_heap 2 = Some (hi_val (sample_heap ! 1))"
    by (simp_all add: sample_heap_def ttl_map_def)
  then show ?thesis using heap_first_expires_first [OF sample_heap_inv] by blast
qed

end
