(* ===== verification/Avl.thy ===== *)
theory Avl
  imports Prelude
begin

text \<open>
  The intrusive AVL tree of \<open>src/ds/avl.cc\<close> and \<open>include/byoredis/ds/avl.hh\<close>, pointer
  by pointer: the store maps the address of a node to its record, \<open>None\<close> is the null
  pointer, and each function of the file is a definition that returns the updated
  store, or \<open>None\<close> where the C++ would dereference a null or dangling pointer, fail
  an assertion or overflow. Loops are partial functions; \<open>AvlProofs\<close> shows that
  each returns. \<open>avl_size\<close> narrows the stored \<open>size_t\<close> to \<open>uint32_t\<close>, as the header does.
\<close>

record AVLNode =
  an_parent :: ptr
  an_left :: ptr
  an_right :: ptr
  an_height :: u32
  an_size :: u64

type_synonym avl_mem = "addr \<rightharpoonup> AVLNode"


subsection \<open>The header's helpers\<close>

definition avl_init :: "avl_mem \<Rightarrow> addr \<Rightarrow> avl_mem option" where
  "avl_init m node = store_at m node
     \<lparr>an_parent = None, an_left = None, an_right = None, an_height = 1, an_size = 1\<rparr>"

definition avl_height :: "avl_mem \<Rightarrow> ptr \<Rightarrow> u32 option" where
  "avl_height m p = (case p of None \<Rightarrow> Some 0 | Some a \<Rightarrow> map_option an_height (m a))"

definition avl_size :: "avl_mem \<Rightarrow> ptr \<Rightarrow> u32 option" where
  "avl_size m p = (case p of None \<Rightarrow> Some 0 | Some a \<Rightarrow> map_option (\<lambda>n. ucast (an_size n)) (m a))"


subsection \<open>Rotations\<close>

definition max_u32 :: "u32 \<Rightarrow> u32 \<Rightarrow> u32" where
  "max_u32 lhs rhs = (if rhs < lhs then lhs else rhs)"

definition avl_update :: "avl_mem \<Rightarrow> addr \<Rightarrow> avl_mem option" where
  "avl_update m node = do {
     n \<leftarrow> m node;
     lh \<leftarrow> avl_height m (an_left n);
     rh \<leftarrow> avl_height m (an_right n);
     m1 \<leftarrow> modify_at m node (\<lambda>k. k\<lparr>an_height := 1 + max_u32 lh rh\<rparr>);
     ls \<leftarrow> avl_size m1 (an_left n);
     rs \<leftarrow> avl_size m1 (an_right n);
     modify_at m1 node (\<lambda>k. k\<lparr>an_size := ucast (1 + ls + rs)\<rparr>)
   }"

definition set_parent :: "avl_mem \<Rightarrow> ptr \<Rightarrow> ptr \<Rightarrow> avl_mem option" where
  "set_parent m p q = (case p of None \<Rightarrow> Some m | Some a \<Rightarrow> modify_at m a (\<lambda>k. k\<lparr>an_parent := q\<rparr>))"

definition rot_left :: "avl_mem \<Rightarrow> addr \<Rightarrow> (addr \<times> avl_mem) option" where
  "rot_left m node = do {
     n \<leftarrow> m node;
     new_node \<leftarrow> an_right n;
     nn \<leftarrow> m new_node;
     m1 \<leftarrow> modify_at m node (\<lambda>k. k\<lparr>an_right := an_left nn\<rparr>);
     m2 \<leftarrow> set_parent m1 (an_left nn) (Some node);
     m3 \<leftarrow> set_parent m2 (Some new_node) (an_parent n);
     m4 \<leftarrow> modify_at m3 new_node (\<lambda>k. k\<lparr>an_left := Some node\<rparr>);
     m5 \<leftarrow> set_parent m4 (Some node) (Some new_node);
     m6 \<leftarrow> avl_update m5 node;
     m7 \<leftarrow> avl_update m6 new_node;
     Some (new_node, m7)
   }"

definition rot_right :: "avl_mem \<Rightarrow> addr \<Rightarrow> (addr \<times> avl_mem) option" where
  "rot_right m node = do {
     n \<leftarrow> m node;
     new_node \<leftarrow> an_left n;
     nn \<leftarrow> m new_node;
     m1 \<leftarrow> modify_at m node (\<lambda>k. k\<lparr>an_left := an_right nn\<rparr>);
     m2 \<leftarrow> set_parent m1 (an_right nn) (Some node);
     m3 \<leftarrow> set_parent m2 (Some new_node) (an_parent n);
     m4 \<leftarrow> modify_at m3 new_node (\<lambda>k. k\<lparr>an_right := Some node\<rparr>);
     m5 \<leftarrow> set_parent m4 (Some node) (Some new_node);
     m6 \<leftarrow> avl_update m5 node;
     m7 \<leftarrow> avl_update m6 new_node;
     Some (new_node, m7)
   }"

definition avl_fix_left :: "avl_mem \<Rightarrow> addr \<Rightarrow> (addr \<times> avl_mem) option" where
  "avl_fix_left m node = do {
     n \<leftarrow> m node;
     l \<leftarrow> an_left n;
     ln \<leftarrow> m l;
     h1 \<leftarrow> avl_height m (an_left ln);
     h2 \<leftarrow> avl_height m (an_right ln);
     m1 \<leftarrow> (if h1 < h2 then do {
              (l', m1) \<leftarrow> rot_left m l;
              modify_at m1 node (\<lambda>k. k\<lparr>an_left := Some l'\<rparr>)
            } else Some m);
     rot_right m1 node
   }"

definition avl_fix_right :: "avl_mem \<Rightarrow> addr \<Rightarrow> (addr \<times> avl_mem) option" where
  "avl_fix_right m node = do {
     n \<leftarrow> m node;
     r \<leftarrow> an_right n;
     rn \<leftarrow> m r;
     h1 \<leftarrow> avl_height m (an_right rn);
     h2 \<leftarrow> avl_height m (an_left rn);
     m1 \<leftarrow> (if h1 < h2 then do {
              (r', m1) \<leftarrow> rot_right m r;
              modify_at m1 node (\<lambda>k. k\<lparr>an_right := Some r'\<rparr>)
            } else Some m);
     rot_left m1 node
   }"


subsection \<open>Fixing the path to the root\<close>

text \<open>
  The pointer-to-pointer \<open>from\<close>: the caller's local variable, or the child field of the
  parent that holds the node.
\<close>

datatype slot = Local | LeftOf addr | RightOf addr

definition child_slot :: "avl_mem \<Rightarrow> addr \<Rightarrow> addr \<Rightarrow> slot option" where
  "child_slot m parent node = do {
     pn \<leftarrow> m parent;
     Some (if an_left pn = Some node then LeftOf parent else RightOf parent)
   }"

fun write_slot :: "avl_mem \<Rightarrow> slot \<Rightarrow> ptr \<Rightarrow> avl_mem option" where
  "write_slot m Local p = Some m"
| "write_slot m (LeftOf a) p = modify_at m a (\<lambda>k. k\<lparr>an_left := p\<rparr>)"
| "write_slot m (RightOf a) p = modify_at m a (\<lambda>k. k\<lparr>an_right := p\<rparr>)"

partial_function (option) avl_fix :: "avl_mem \<Rightarrow> addr \<Rightarrow> (addr \<times> avl_mem) option" where
  "avl_fix m node = do {
     n \<leftarrow> m node;
     from \<leftarrow> (case an_parent n of None \<Rightarrow> Some Local | Some p \<Rightarrow> child_slot m p node);
     m1 \<leftarrow> avl_update m node;
     lh \<leftarrow> avl_height m1 (an_left n);
     rh \<leftarrow> avl_height m1 (an_right n);
     (root, m3) \<leftarrow>
       (if lh = rh + 2 then do {
          (s, m2) \<leftarrow> avl_fix_left m1 node; m3 \<leftarrow> write_slot m2 from (Some s); Some (s, m3)
        } else if rh = lh + 2 then do {
          (s, m2) \<leftarrow> avl_fix_right m1 node; m3 \<leftarrow> write_slot m2 from (Some s); Some (s, m3)
        } else Some (node, m1));
     (case an_parent n of None \<Rightarrow> Some (root, m3) | Some p \<Rightarrow> avl_fix m3 p)
   }"

declare avl_fix.simps [code]


subsection \<open>Deletion\<close>

definition avl_del_easy :: "avl_mem \<Rightarrow> addr \<Rightarrow> (ptr \<times> avl_mem) option" where
  "avl_del_easy m node = do {
     n \<leftarrow> m node;
     (if an_left n \<noteq> None \<and> an_right n \<noteq> None then None
      else do {
        let child = (if an_left n \<noteq> None then an_left n else an_right n);
        m1 \<leftarrow> set_parent m child (an_parent n);
        (case an_parent n of
           None \<Rightarrow> Some (child, m1)
         | Some parent \<Rightarrow> do {
             from \<leftarrow> child_slot m1 parent node;
             m2 \<leftarrow> write_slot m1 from child;
             (root, m3) \<leftarrow> avl_fix m2 parent;
             Some (Some root, m3)
           })
      })
   }"

text \<open>The loop that walks to the in-order successor.\<close>

partial_function (option) avl_leftmost :: "avl_mem \<Rightarrow> addr \<Rightarrow> addr option" where
  "avl_leftmost m victim = do {
     n \<leftarrow> m victim;
     (case an_left n of None \<Rightarrow> Some victim | Some l \<Rightarrow> avl_leftmost m l)
   }"

declare avl_leftmost.simps [code]

definition avl_del :: "avl_mem \<Rightarrow> addr \<Rightarrow> (ptr \<times> avl_mem) option" where
  "avl_del m node = do {
     n \<leftarrow> m node;
     (if an_left n = None \<or> an_right n = None then avl_del_easy m node
      else do {
        r \<leftarrow> an_right n;
        victim \<leftarrow> avl_leftmost m r;
        (root, m1) \<leftarrow> avl_del_easy m victim;
        nn \<leftarrow> m1 node;
        m2 \<leftarrow> store_at m1 victim nn;
        m3 \<leftarrow> set_parent m2 (an_left nn) (Some victim);
        m4 \<leftarrow> set_parent m3 (an_right nn) (Some victim);
        nd \<leftarrow> m4 node;
        (case an_parent nd of
           None \<Rightarrow> Some (Some victim, m4)
         | Some parent \<Rightarrow> do {
             from \<leftarrow> child_slot m4 parent node;
             m5 \<leftarrow> write_slot m4 from (Some victim);
             Some (root, m5)
           })
      })
   }"


subsection \<open>Rank queries\<close>

partial_function (option) avl_offset_loop :: "avl_mem \<Rightarrow> int \<Rightarrow> addr \<Rightarrow> int \<Rightarrow> ptr option" where
  "avl_offset_loop m offset node pos =
     (if pos = offset then Some (Some node)
      else do {
        n \<leftarrow> m node;
        rsize \<leftarrow> avl_size m (an_right n);
        lsize \<leftarrow> avl_size m (an_left n);
        in_right \<leftarrow> (if pos < offset
                     then do { e \<leftarrow> s64 (pos + uint rsize); Some (offset \<le> e) } else Some False);
        in_left \<leftarrow> (if offset < pos
                    then do { e \<leftarrow> s64 (pos - uint lsize); Some (e \<le> offset) } else Some False);
        (if in_right then do {
           r \<leftarrow> an_right n; rn \<leftarrow> m r; s \<leftarrow> avl_size m (an_left rn);
           pos' \<leftarrow> s64 (pos + uint (1 + s));
           avl_offset_loop m offset r pos'
         } else if in_left then do {
           l \<leftarrow> an_left n; ln \<leftarrow> m l; s \<leftarrow> avl_size m (an_right ln);
           pos' \<leftarrow> s64 (pos - uint (1 + s));
           avl_offset_loop m offset l pos'
         } else (case an_parent n of
             None \<Rightarrow> Some None
           | Some parent \<Rightarrow> do {
               pn \<leftarrow> m parent;
               pos' \<leftarrow> (if an_right pn = Some node then s64 (pos - uint (1 + lsize))
                        else s64 (pos + uint (1 + rsize)));
               avl_offset_loop m offset parent pos'
             }))
      })"

declare avl_offset_loop.simps [code]

definition avl_offset :: "avl_mem \<Rightarrow> addr \<Rightarrow> int \<Rightarrow> ptr option" where
  "avl_offset m node offset = avl_offset_loop m offset node 0"

partial_function (option) avl_rank_loop :: "avl_mem \<Rightarrow> addr \<Rightarrow> int \<Rightarrow> int option" where
  "avl_rank_loop m node rank = do {
     n \<leftarrow> m node;
     (case an_parent n of
        None \<Rightarrow> Some rank
      | Some parent \<Rightarrow> do {
          pn \<leftarrow> m parent;
          ls \<leftarrow> avl_size m (an_left pn);
          rank' \<leftarrow> (if an_right pn = Some node then s64 (rank + uint (1 + ls)) else Some rank);
          avl_rank_loop m parent rank'
        })
   }"

declare avl_rank_loop.simps [code]

definition avl_rank :: "avl_mem \<Rightarrow> addr \<Rightarrow> int option" where
  "avl_rank m node = do {
     n \<leftarrow> m node;
     ls \<leftarrow> avl_size m (an_left n);
     avl_rank_loop m node (uint ls)
   }"

end
