(* ===== verification/AvlTree.thy ===== *)
theory AvlTree
  imports Prelude "HOL-Library.Tree"
begin

text \<open>
  The trees the AVL code manipulates, without memory: trees whose labels are node
  addresses, a path from a subtree to the root (a list of frames, innermost first),
  the rebalancing of one node and of a whole path as the code does it, and the
  lemmas on order and balance. \<open>AvlProofs\<close> shows that the pointer code computes these.
\<close>


subsection \<open>Paths\<close>

text \<open>
  \<open>FL a r\<close>: the subtree is the left child of \<open>a\<close>, whose right subtree is \<open>r\<close>;
  \<open>FR l a\<close>: it is the right child of \<open>a\<close>.
\<close>

datatype frame = FL addr "addr tree" | FR "addr tree" addr

type_synonym ctx = "frame list"

fun plug :: "addr tree \<Rightarrow> ctx \<Rightarrow> addr tree" where
  "plug t [] = t"
| "plug t (FL a r # c) = plug (Node t a r) c"
| "plug t (FR l a # c) = plug (Node l a t) c"

fun ctx_left :: "ctx \<Rightarrow> addr list" where
  "ctx_left [] = []"
| "ctx_left (FL a r # c) = ctx_left c"
| "ctx_left (FR l a # c) = ctx_left c @ inorder l @ [a]"

fun ctx_right :: "ctx \<Rightarrow> addr list" where
  "ctx_right [] = []"
| "ctx_right (FL a r # c) = a # inorder r @ ctx_right c"
| "ctx_right (FR l a # c) = ctx_right c"

lemma inorder_plug: "inorder (plug t c) = ctx_left c @ inorder t @ ctx_right c"
  by (induction t c rule: plug.induct) auto

lemma plug_append: "plug t (c @ d) = plug (plug t c) d"
  by (induction t c rule: plug.induct) auto

lemma ctx_append:
  "ctx_left (c @ d) = ctx_left d @ ctx_left c" "ctx_right (c @ d) = ctx_right c @ ctx_right d"
  by (induction c rule: ctx_left.induct) auto

lemma size_inorder: "size (t :: 'a tree) = length (inorder t)"
  by simp

lemma size_plug: "size (plug t c) = size t + length (ctx_left c) + length (ctx_right c)"
  using arg_cong [OF inorder_plug [of t c], of length] by simp

lemma set_tree_inorder: "a \<in> set_tree t \<longleftrightarrow> a \<in> set (inorder t)"
  by simp

text \<open>Every node of a tree is reached by a path.\<close>

lemma node_plug: "a \<in> set_tree t \<Longrightarrow> \<exists>l r c. t = plug (Node l a r) c"
proof (induction t)
  case (Node l b r)
  consider "a = b" | "a \<in> set_tree l" | "a \<in> set_tree r" using Node.prems by auto
  then show ?case
  proof cases
    case 1
    then have "Node l b r = plug (Node l a r) []" by simp
    then show ?thesis by blast
  next
    case 2
    then obtain l' r' c where "l = plug (Node l' a r') c" using Node.IH(1) by blast
    then have "Node l b r = plug (Node l' a r') (c @ [FL b r])" by (simp add: plug_append)
    then show ?thesis by blast
  next
    case 3
    then obtain l' r' c where "r = plug (Node l' a r') c" using Node.IH(2) by blast
    then have "Node l b r = plug (Node l' a r') (c @ [FR l b])" by (simp add: plug_append)
    then show ?thesis by blast
  qed
qed simp


subsection \<open>Rebalancing\<close>

fun rotl :: "addr tree \<Rightarrow> addr tree" where
  "rotl (Node l a (Node rl b rr)) = Node (Node l a rl) b rr"
| "rotl t = t"

fun rotr :: "addr tree \<Rightarrow> addr tree" where
  "rotr (Node (Node ll b lr) a r) = Node ll b (Node lr a r)"
| "rotr t = t"

definition fix_left :: "addr tree \<Rightarrow> addr \<Rightarrow> addr tree \<Rightarrow> addr tree" where
  "fix_left l a r = rotr (Node (if height (left l) < height (right l) then rotl l else l) a r)"

definition fix_right :: "addr tree \<Rightarrow> addr \<Rightarrow> addr tree \<Rightarrow> addr tree" where
  "fix_right l a r = rotl (Node l a (if height (right r) < height (left r) then rotr r else r))"

definition fix_node :: "addr tree \<Rightarrow> addr \<Rightarrow> addr tree \<Rightarrow> addr tree" where
  "fix_node l a r =
     (if height l = height r + 2 then fix_left l a r
      else if height r = height l + 2 then fix_right l a r else Node l a r)"

fun fixup :: "addr tree \<Rightarrow> ctx \<Rightarrow> addr tree" where
  "fixup t [] = t"
| "fixup t (FL a r # c) = fixup (fix_node t a r) c"
| "fixup t (FR l a # c) = fixup (fix_node l a t) c"

lemma inorder_rotl [simp]: "inorder (rotl t) = inorder t"
  by (cases t rule: rotl.cases) auto

lemma inorder_rotr [simp]: "inorder (rotr t) = inorder t"
  by (cases t rule: rotr.cases) auto

lemma inorder_fix_node [simp]: "inorder (fix_node l a r) = inorder l @ a # inorder r"
  by (simp add: fix_node_def fix_left_def fix_right_def)

lemma set_fix_node [simp]: "set_tree (fix_node l a r) = set_tree (Node l a r)"
  by (simp only: set_inorder [symmetric] inorder_fix_node inorder.simps) simp

lemma fix_node_not_Leaf [simp]: "fix_node l a r \<noteq> Leaf"
proof
  assume "fix_node l a r = Leaf"
  then have "inorder (fix_node l a r) = []" by simp
  then show False by simp
qed

lemma inorder_fixup: "inorder (fixup t c) = ctx_left c @ inorder t @ ctx_right c"
  by (induction t c rule: fixup.induct) auto


subsection \<open>Balance\<close>

fun avl :: "addr tree \<Rightarrow> bool" where
  "avl Leaf = True"
| "avl (Node l a r) = (height l \<le> height r + 1 \<and> height r \<le> height l + 1 \<and> avl l \<and> avl r)"

text \<open>\<open>avl_ctx h c\<close>: with a balanced tree of height \<open>h\<close> in the hole, the whole is balanced.\<close>

fun avl_ctx :: "nat \<Rightarrow> ctx \<Rightarrow> bool" where
  "avl_ctx h [] = True"
| "avl_ctx h (FL a r # c) = (h \<le> height r + 1 \<and> height r \<le> h + 1 \<and> avl r \<and> avl_ctx (1 + max h (height r)) c)"
| "avl_ctx h (FR l a # c) = (h \<le> height l + 1 \<and> height l \<le> h + 1 \<and> avl l \<and> avl_ctx (1 + max h (height l)) c)"

lemma avl_plug: "avl (plug t c) \<longleftrightarrow> avl t \<and> avl_ctx (height t) c"
proof (induction t c rule: plug.induct)
  case (3 t l a c)
  then show ?case by (auto simp: max.commute)
qed auto

text \<open>Rebalancing a node whose subtrees differ by at most two.\<close>

lemma avl_fix_left_tree:
  assumes "avl l" "avl r" "height l = height r + 2"
  shows "avl (fix_left l a r) \<and> height (fix_left l a r) \<in> {height r + 2, height r + 3}"
proof -
  obtain ll b lr where l: "l = Node ll b lr" using assms(3) by (cases l) auto
  show ?thesis
  proof (cases "height ll < height lr")
    case False
    then show ?thesis using assms l by (auto simp: fix_left_def max_def)
  next
    case True
    then obtain x c y where "lr = Node x c y" by (cases lr) auto
    then show ?thesis using assms l True by (auto simp: fix_left_def max_def split: if_splits)
  qed
qed

lemma avl_fix_right_tree:
  assumes "avl l" "avl r" "height r = height l + 2"
  shows "avl (fix_right l a r) \<and> height (fix_right l a r) \<in> {height l + 2, height l + 3}"
proof -
  obtain rl b rr where r: "r = Node rl b rr" using assms(3) by (cases r) auto
  show ?thesis
  proof (cases "height rr < height rl")
    case False
    then show ?thesis using assms r by (auto simp: fix_right_def max_def)
  next
    case True
    then obtain x c y where "rl = Node x c y" by (cases rl) auto
    then show ?thesis using assms r True by (auto simp: fix_right_def max_def split: if_splits)
  qed
qed

lemma avl_fix_node:
  assumes "avl l" "avl r" "height l \<le> height r + 2" "height r \<le> height l + 2"
  shows "avl (fix_node l a r)"
    and "height l \<le> height r + 1 \<Longrightarrow> height r \<le> height l + 1 \<Longrightarrow>
      height (fix_node l a r) = 1 + max (height l) (height r)"
    and "height l = height r + 2 \<Longrightarrow> height (fix_node l a r) \<in> {height r + 2, height r + 3}"
    and "height r = height l + 2 \<Longrightarrow> height (fix_node l a r) \<in> {height l + 2, height l + 3}"
  using assms avl_fix_left_tree [of l r a] avl_fix_right_tree [of l r a]
  by (auto simp: fix_node_def)

text \<open>
  A subtree whose height has changed by at most one: rebalancing it with its sibling
  changes the height of the parent by at most one again.
\<close>

lemma fix_node_step:
  assumes "avl t" "avl s" "height t \<le> h + 1" "h \<le> height t + 1" "h \<le> height s + 1" "height s \<le> h + 1"
  shows "avl (fix_node t a s)" "avl (fix_node s a t)"
    and "height (fix_node t a s) \<le> Suc (1 + max h (height s))"
    and "1 + max h (height s) \<le> height (fix_node t a s) + 1"
    and "height (fix_node s a t) \<le> Suc (1 + max h (height s))"
    and "1 + max h (height s) \<le> height (fix_node s a t) + 1"
proof -
  have le: "height t \<le> height s + 2" "height s \<le> height t + 2" using assms by auto
  note A = avl_fix_node [OF assms(1,2) le, of a] and B = avl_fix_node [OF assms(2,1) le(2,1), of a]
  show "avl (fix_node t a s)" "avl (fix_node s a t)" using A(1) B(1) .
  consider "height t = height s + 2" | "height s = height t + 2"
    | "height t \<le> height s + 1" "height s \<le> height t + 1" using le by linarith
  then have "height (fix_node t a s) \<le> Suc (1 + max h (height s)) \<and>
    1 + max h (height s) \<le> height (fix_node t a s) + 1 \<and>
    height (fix_node s a t) \<le> Suc (1 + max h (height s)) \<and>
    1 + max h (height s) \<le> height (fix_node s a t) + 1"
  proof cases
    case 1
    then show ?thesis using A(3) B(4) assms(3-6) by auto
  next
    case 2
    then show ?thesis using A(4) B(3) assms(3-6) by auto
  next
    case 3
    then show ?thesis using A(2) B(2) assms(3-6) by auto
  qed
  then show "height (fix_node t a s) \<le> Suc (1 + max h (height s))"
    and "1 + max h (height s) \<le> height (fix_node t a s) + 1"
    and "height (fix_node s a t) \<le> Suc (1 + max h (height s))"
    and "1 + max h (height s) \<le> height (fix_node s a t) + 1" by blast+
qed

lemma avl_fixup:
  "avl t \<Longrightarrow> avl_ctx h c \<Longrightarrow> height t \<le> h + 1 \<Longrightarrow> h \<le> height t + 1 \<Longrightarrow> avl (fixup t c)"
proof (induction t c arbitrary: h rule: fixup.induct)
  case (2 t a r c)
  then have r: "avl r" "h \<le> height r + 1" "height r \<le> h + 1" "avl_ctx (1 + max h (height r)) c"
    by simp_all
  note step = fix_node_step [OF 2(2) r(1) 2(4,5) r(2,3), of a]
  show ?case using "2.IH" [OF step(1) r(4)] step(3,4) by simp
next
  case (3 t l a c)
  then have l: "avl l" "h \<le> height l + 1" "height l \<le> h + 1" "avl_ctx (1 + max h (height l)) c"
    by simp_all
  note step = fix_node_step [OF 3(2) l(1) 3(4,5) l(2,3), of a]
  show ?case using "3.IH" [OF step(2) l(4)] step(5,6) by simp
qed simp

lemma height_le_size: "height (t :: 'a tree) \<le> size t"
  by (induction t) auto

end
