(* ===== verification/AvlProofs.thy ===== *)
theory AvlProofs
  imports Avl AvlTree
begin

text \<open>
  The pointer code of \<open>Avl\<close> refines the trees of \<open>AvlTree\<close>: a representation predicate
  relates the store to a tree of addresses (parent pointers, cached heights and
  sizes included), every function of \<open>avl.cc\<close> is run symbolically on a store that
  represents a tree, and the results are stated over the in-order sequence of the
  nodes.
\<close>


subsection \<open>A store that represents a tree\<close>

fun root_ptr :: "addr tree \<Rightarrow> ptr" where
  "root_ptr Leaf = None"
| "root_ptr (Node l a r) = Some a"

definition node_rec :: "ptr \<Rightarrow> addr tree \<Rightarrow> addr tree \<Rightarrow> AVLNode" where
  "node_rec par l r =
     \<lparr>an_parent = par, an_left = root_ptr l, an_right = root_ptr r,
      an_height = w32 (Suc (max (height l) (height r))), an_size = w64 (Suc (size l + size r))\<rparr>"

lemma node_rec_sel [simp]:
  "an_parent (node_rec par l r) = par" "an_left (node_rec par l r) = root_ptr l"
  "an_right (node_rec par l r) = root_ptr r"
  by (simp_all add: node_rec_def)

lemma set_parent_null [run_simps]: "set_parent m None q = Some m"
  by (simp add: set_parent_def)

lemma set_parent_ref [run_simps]: "set_parent m (Some a) q = modify_at m a (\<lambda>k. k\<lparr>an_parent := q\<rparr>)"
  by (simp add: set_parent_def)

fun rep :: "avl_mem \<Rightarrow> ptr \<Rightarrow> addr tree \<Rightarrow> bool" where
  "rep m par Leaf = True"
| "rep m par (Node l a r) = (m a = Some (node_rec par l r) \<and> rep m (Some a) l \<and> rep m (Some a) r)"

fun ctx_ptr :: "ctx \<Rightarrow> ptr" where
  "ctx_ptr [] = None"
| "ctx_ptr (FL a r # c) = Some a"
| "ctx_ptr (FR l a # c) = Some a"

text \<open>
  The path above a hole that holds the pointer \<open>p\<close>: the siblings are represented, the
  cached height and size of the nodes of the path may be stale.
\<close>

definition links :: "avl_mem \<Rightarrow> addr \<Rightarrow> ptr \<Rightarrow> ptr \<Rightarrow> ptr \<Rightarrow> bool" where
  "links m a par l r \<longleftrightarrow>
     (\<exists>n. m a = Some n \<and> an_parent n = par \<and> an_left n = l \<and> an_right n = r)"

fun rep_ctx :: "avl_mem \<Rightarrow> ptr \<Rightarrow> ctx \<Rightarrow> bool" where
  "rep_ctx m p [] = True"
| "rep_ctx m p (FL a r # c) =
     (links m a (ctx_ptr c) p (root_ptr r) \<and> rep m (Some a) r \<and> rep_ctx m (Some a) c)"
| "rep_ctx m p (FR l a # c) =
     (links m a (ctx_ptr c) (root_ptr l) p \<and> rep m (Some a) l \<and> rep_ctx m (Some a) c)"

fun ctx_set :: "ctx \<Rightarrow> addr set" where
  "ctx_set [] = {}"
| "ctx_set (FL a r # c) = insert a (set_tree r \<union> ctx_set c)"
| "ctx_set (FR l a # c) = insert a (set_tree l \<union> ctx_set c)"

definition same_on :: "addr set \<Rightarrow> avl_mem \<Rightarrow> avl_mem \<Rightarrow> bool" where
  "same_on A m m' \<longleftrightarrow> (\<forall>a\<in>A. m' a = m a)"

definition same_off :: "addr set \<Rightarrow> avl_mem \<Rightarrow> avl_mem \<Rightarrow> bool" where
  "same_off A m m' \<longleftrightarrow> (\<forall>a. a \<notin> A \<longrightarrow> m' a = m a)"

text \<open>The sizes for which no counter of the code wraps.\<close>

definition small :: "addr tree \<Rightarrow> bool" where
  "small t \<longleftrightarrow> size t < 2 ^ 32 - 2"

lemma rep_same_on: "rep m par t \<Longrightarrow> same_on (set_tree t) m m' \<Longrightarrow> rep m' par t"
  by (induction t arbitrary: par) (auto simp: same_on_def)

lemma rep_ctx_same_on: "rep_ctx m p c \<Longrightarrow> same_on (ctx_set c) m m' \<Longrightarrow> rep_ctx m' p c"
proof (induction m p c rule: rep_ctx.induct)
  case (2 m p a r c)
  moreover have "same_on (set_tree r) m m'" "same_on (ctx_set c) m m'" "m' a = m a"
    using 2(3) by (auto simp: same_on_def)
  ultimately show ?case using rep_same_on [of m _ r m'] by (auto simp: links_def)
next
  case (3 m p l a c)
  moreover have "same_on (set_tree l) m m'" "same_on (ctx_set c) m m'" "m' a = m a"
    using 3(3) by (auto simp: same_on_def)
  ultimately show ?case using rep_same_on [of m _ l m'] by (auto simp: links_def)
qed simp

lemma rep_upd_other [simp]: "a \<notin> set_tree t \<Longrightarrow> rep (m(a := n)) par t = rep m par t"
  by (induction t arbitrary: par) auto

lemma rep_ctx_upd_other [simp]: "a \<notin> ctx_set c \<Longrightarrow> rep_ctx (m(a := n)) p c = rep_ctx m p c"
  by (induction c arbitrary: p rule: ctx_set.induct) (auto simp: links_def)

lemma same_off_on: "same_off A m m' \<Longrightarrow> A \<inter> B = {} \<Longrightarrow> same_on B m m'"
  by (auto simp: same_off_def same_on_def)

lemma same_off_refl [simp]: "same_off A m m"
  by (simp add: same_off_def)

lemma same_off_trans: "same_off A m m' \<Longrightarrow> same_off B m' m'' \<Longrightarrow> same_off (A \<union> B) m m''"
  by (auto simp: same_off_def)

lemma same_off_mono: "same_off A m m' \<Longrightarrow> A \<subseteq> B \<Longrightarrow> same_off B m m'"
  by (auto simp: same_off_def)

lemma same_off_upd [simp]: "same_off A m (m(a \<mapsto> n)) \<longleftrightarrow> a \<in> A \<or> m a = Some n"
  by (auto simp: same_off_def)

lemma set_plug: "set_tree (plug t c) = set_tree t \<union> ctx_set c"
  by (induction t c rule: plug.induct) auto

lemma ctx_set_lists: "ctx_set c = set (ctx_left c) \<union> set (ctx_right c)"
  by (induction c rule: ctx_set.induct) auto

lemma rep_plug:
  "rep m None (plug t c) \<Longrightarrow> rep m (ctx_ptr c) t \<and> rep_ctx m (root_ptr t) c"
proof (induction t c rule: plug.induct)
  case (2 t a r c)
  then show ?case by (auto simp: links_def node_rec_def)
next
  case (3 t l a c)
  then show ?case by (auto simp: links_def node_rec_def)
qed simp


subsection \<open>Cached heights and sizes\<close>

lemma avl_height_rep: "rep m par t \<Longrightarrow> avl_height m (root_ptr t) = Some (w32 (height t))"
  by (cases t) (auto simp: avl_height_def node_rec_def)

lemma avl_size_rep: "rep m par t \<Longrightarrow> avl_size m (root_ptr t) = Some (w32 (size t))"
  by (cases t) (auto simp: avl_size_def node_rec_def)

lemma max_u32_w32: "x < 2 ^ 32 \<Longrightarrow> y < 2 ^ 32 \<Longrightarrow> max_u32 (w32 x) (w32 y) = w32 (max x y)"
  by (simp add: max_u32_def max_def)

lemma avl_update_rep:
  assumes n: "m a = Some n" "an_left n = root_ptr l" "an_right n = root_ptr r"
    and "rep m p l" "rep m q r" "a \<notin> set_tree l" "a \<notin> set_tree r"
    and sz: "size l + size r < 2 ^ 32 - 1"
  shows "avl_update m a = Some (m(a \<mapsto> node_rec (an_parent n) l r))"
proof -
  let ?m1 = "m(a \<mapsto> n\<lparr>an_height := w32 (Suc (max (height l) (height r)))\<rparr>)"
  have h: "height l < 2 ^ 32 - 1" "height r < 2 ^ 32 - 1"
    using height_le_size [of l] height_le_size [of r] sz by linarith+
  have "rep ?m1 p l" "rep ?m1 q r"
    using assms(4-7) by simp_all
  then have "avl_size ?m1 (root_ptr l) = Some (w32 (size l))"
    "avl_size ?m1 (root_ptr r) = Some (w32 (size r))"
    by (simp_all add: avl_size_rep)
  moreover have "1 + w32 (size l) + w32 (size r) = w32 (Suc (size l + size r))"
    by (simp add: w32_Suc w32_add)
  ultimately show ?thesis
    using n h sz avl_height_rep [OF assms(4)] avl_height_rep [OF assms(5)]
    by (cases n) (simp add: avl_update_def run_simps max_u32_w32 w32_Suc node_rec_def)
qed


subsection \<open>Rotations\<close>

lemma set_parent_rep:
  assumes "rep m p t" "distinct (inorder t)"
  shows "\<exists>m'. set_parent m (root_ptr t) q = Some m' \<and> rep m' q t \<and> same_off (set_tree t) m m'"
proof (cases t)
  case Leaf
  then show ?thesis by (simp add: set_parent_def)
next
  case (Node l a r)
  then show ?thesis using assms
    by (auto simp: set_parent_def run_simps node_rec_def)
qed

lemma rep_same_off: "rep m p t \<Longrightarrow> same_off A m m' \<Longrightarrow> A \<inter> set_tree t = {} \<Longrightarrow> rep m' p t"
  using rep_same_on same_off_on by blast

lemma same_off_at: "same_off A m m' \<Longrightarrow> a \<notin> A \<Longrightarrow> m' a = m a"
  by (simp add: same_off_def)

lemma rot_left_rep:
  assumes n: "m a = Some n" "an_left n = root_ptr l" "an_right n = Some b"
    and b: "m b = Some (node_rec p rl rr)" "rep m (Some a) l" "rep m (Some b) rl" "rep m (Some b) rr"
    and d: "distinct (inorder (Node l a (Node rl b rr)))"
    and sz: "size (Node l a (Node rl b rr)) < 2 ^ 32"
  shows "\<exists>m'. rot_left m a = Some (b, m') \<and> rep m' (an_parent n) (Node (Node l a rl) b rr) \<and>
    same_off (set_tree (Node l a (Node rl b rr))) m m'"
proof -
  let ?m1 = "m(a \<mapsto> n\<lparr>an_right := root_ptr rl\<rparr>)"
  have "rep ?m1 (Some b) rl" "distinct (inorder rl)" using b d by auto
  then obtain m2 where m2: "set_parent ?m1 (root_ptr rl) (Some a) = Some m2"
    "rep m2 (Some a) rl" "same_off (set_tree rl) ?m1 m2"
    using set_parent_rep by blast
  have at: "m2 a = Some (n\<lparr>an_right := root_ptr rl\<rparr>)" "m2 b = Some (node_rec p rl rr)"
    using same_off_at [OF m2(3)] d b(1) by auto
  have reps: "rep m2 (Some a) l" "rep m2 (Some b) rr"
    by (rule rep_same_off [OF _ m2(3)]; use b d in auto)+
  let ?nb = "(node_rec p rl rr)\<lparr>an_parent := an_parent n, an_left := Some a\<rparr>"
  let ?na = "n\<lparr>an_right := root_ptr rl, an_parent := Some b\<rparr>"
  let ?m5 = "m2(b \<mapsto> ?nb, a \<mapsto> ?na)"
  let ?m6 = "?m5(a \<mapsto> node_rec (Some b) l rl)"
  have u1: "avl_update ?m5 a = Some ?m6"
    using avl_update_rep [of ?m5 a ?na l rl "Some a" "Some a"] n reps m2(2) d sz by auto
  have "rep ?m6 (Some b) (Node l a rl)" using reps m2(2) d by auto
  then have u2: "avl_update ?m6 b = Some (?m6(b \<mapsto> node_rec (an_parent n) (Node l a rl) rr))"
    using avl_update_rep [of ?m6 b ?nb "Node l a rl" rr "Some b" "Some b"] reps d sz
    by auto
  have "rot_left m a = Some (b, ?m6(b \<mapsto> node_rec (an_parent n) (Node l a rl) rr))"
    using n b(1) m2(1) at d u1 u2
    by (simp add: rot_left_def run_simps fun_upd_twist)
  moreover have "rep (?m6(b \<mapsto> node_rec (an_parent n) (Node l a rl) rr)) (an_parent n) (Node (Node l a rl) b rr)"
    using reps m2(2) d by auto
  moreover have "same_off (set_tree (Node l a (Node rl b rr))) m (?m6(b \<mapsto> node_rec (an_parent n) (Node l a rl) rr))"
    using m2(3) by (auto simp: same_off_def)
  ultimately show ?thesis by blast
qed

lemma rot_right_rep:
  assumes n: "m a = Some n" "an_right n = root_ptr r" "an_left n = Some b"
    and b: "m b = Some (node_rec p ll lr)" "rep m (Some a) r" "rep m (Some b) ll" "rep m (Some b) lr"
    and d: "distinct (inorder (Node (Node ll b lr) a r))"
    and sz: "size (Node (Node ll b lr) a r) < 2 ^ 32"
  shows "\<exists>m'. rot_right m a = Some (b, m') \<and> rep m' (an_parent n) (Node ll b (Node lr a r)) \<and>
    same_off (set_tree (Node (Node ll b lr) a r)) m m'"
proof -
  let ?m1 = "m(a \<mapsto> n\<lparr>an_left := root_ptr lr\<rparr>)"
  have "rep ?m1 (Some b) lr" "distinct (inorder lr)" using b d by auto
  then obtain m2 where m2: "set_parent ?m1 (root_ptr lr) (Some a) = Some m2"
    "rep m2 (Some a) lr" "same_off (set_tree lr) ?m1 m2"
    using set_parent_rep by blast
  have at: "m2 a = Some (n\<lparr>an_left := root_ptr lr\<rparr>)" "m2 b = Some (node_rec p ll lr)"
    using same_off_at [OF m2(3)] d b(1) by auto
  have reps: "rep m2 (Some a) r" "rep m2 (Some b) ll"
    by (rule rep_same_off [OF _ m2(3)]; use b d in auto)+
  let ?nb = "(node_rec p ll lr)\<lparr>an_parent := an_parent n, an_right := Some a\<rparr>"
  let ?na = "n\<lparr>an_left := root_ptr lr, an_parent := Some b\<rparr>"
  let ?m5 = "m2(b \<mapsto> ?nb, a \<mapsto> ?na)"
  let ?m6 = "?m5(a \<mapsto> node_rec (Some b) lr r)"
  have u1: "avl_update ?m5 a = Some ?m6"
    using avl_update_rep [of ?m5 a ?na lr r "Some a" "Some a"] n reps m2(2) d sz by auto
  have "rep ?m6 (Some b) (Node lr a r)" using reps m2(2) d by auto
  then have u2: "avl_update ?m6 b = Some (?m6(b \<mapsto> node_rec (an_parent n) ll (Node lr a r)))"
    using avl_update_rep [of ?m6 b ?nb ll "Node lr a r" "Some b" "Some b"] reps d sz
    by auto
  have "rot_right m a = Some (b, ?m6(b \<mapsto> node_rec (an_parent n) ll (Node lr a r)))"
    using n b(1) m2(1) at d u1 u2
    by (simp add: rot_right_def run_simps fun_upd_twist)
  moreover have "rep (?m6(b \<mapsto> node_rec (an_parent n) ll (Node lr a r))) (an_parent n) (Node ll b (Node lr a r))"
    using reps m2(2) d by auto
  moreover have "same_off (set_tree (Node (Node ll b lr) a r)) m (?m6(b \<mapsto> node_rec (an_parent n) ll (Node lr a r)))"
    using m2(3) by (auto simp: same_off_def)
  ultimately show ?thesis by blast
qed

text \<open>The rebalancing of one node whose own record is consistent with its children.\<close>

lemma avl_fix_left_rep:
  assumes m: "rep m par (Node l a r)" and d: "distinct (inorder (Node l a r))"
    and sz: "size (Node l a r) < 2 ^ 32" and h: "height l = height r + 2"
  shows "\<exists>m' b. avl_fix_left m a = Some (b, m') \<and> root_ptr (fix_left l a r) = Some b \<and>
    rep m' par (fix_left l a r) \<and> same_off (set_tree (Node l a r)) m m'"
proof -
  obtain ll b lr where l: "l = Node ll b lr" using h by (cases l) auto
  have hs: "height ll < 2 ^ 32" "height lr < 2 ^ 32"
    using height_le_size [of ll] height_le_size [of lr] sz l by simp_all
  have hw: "avl_height m (root_ptr ll) = Some (w32 (height ll))"
    "avl_height m (root_ptr lr) = Some (w32 (height lr))"
    using m l by (auto intro: avl_height_rep)
  show ?thesis
  proof (cases "height ll < height lr")
    case False
    then show ?thesis
      using rot_right_rep [of m a "node_rec par l r" r b "Some a" ll lr] m d sz l hs hw
      by (auto simp: avl_fix_left_def fix_left_def)
  next
    case True
    then obtain x c y where lr: "lr = Node x c y" by (cases lr) auto
    obtain m1 where m1: "rot_left m b = Some (c, m1)" "rep m1 (Some a) (Node (Node ll b x) c y)"
      "same_off (set_tree l) m m1"
      using rot_left_rep [of m b "node_rec (Some a) ll lr" ll c "Some b" x y] m d sz l lr by auto
    have a1: "m1 a = Some (node_rec par l r)" "rep m1 (Some a) r"
      using same_off_at [OF m1(3), of a] rep_same_off [OF _ m1(3), of "Some a" r] m d l by auto
    let ?m2 = "m1(a \<mapsto> (node_rec par l r)\<lparr>an_left := Some c\<rparr>)"
    have "rep ?m2 (Some a) (Node (Node ll b x) c y)" "rep ?m2 (Some a) r"
      using m1(2) a1 d l lr by auto
    then obtain m' where "rot_right ?m2 a = Some (c, m')"
      "rep m' par (Node (Node ll b x) c (Node y a r))"
      "same_off (set_tree (Node (Node (Node ll b x) c y) a r)) ?m2 m'"
      using rot_right_rep [of ?m2 a "(node_rec par l r)\<lparr>an_left := Some c\<rparr>" r c "Some a" "Node ll b x" y]
        d sz l lr by auto
    moreover from this(3) have "same_off (set_tree (Node l a r)) m m'"
      using m1(3) l lr by (auto simp: same_off_def)
    ultimately show ?thesis
      using m1(1) a1 m l lr True hs hw by (auto simp: avl_fix_left_def fix_left_def run_simps)
  qed
qed

lemma avl_fix_right_rep:
  assumes m: "rep m par (Node l a r)" and d: "distinct (inorder (Node l a r))"
    and sz: "size (Node l a r) < 2 ^ 32" and h: "height r = height l + 2"
  shows "\<exists>m' b. avl_fix_right m a = Some (b, m') \<and> root_ptr (fix_right l a r) = Some b \<and>
    rep m' par (fix_right l a r) \<and> same_off (set_tree (Node l a r)) m m'"
proof -
  obtain rl b rr where r: "r = Node rl b rr" using h by (cases r) auto
  have hs: "height rl < 2 ^ 32" "height rr < 2 ^ 32"
    using height_le_size [of rl] height_le_size [of rr] sz r by simp_all
  have hw: "avl_height m (root_ptr rl) = Some (w32 (height rl))"
    "avl_height m (root_ptr rr) = Some (w32 (height rr))"
    using m r by (auto intro: avl_height_rep)
  show ?thesis
  proof (cases "height rr < height rl")
    case False
    then show ?thesis
      using rot_left_rep [of m a "node_rec par l r" l b "Some a" rl rr] m d sz r hs hw
      by (auto simp: avl_fix_right_def fix_right_def)
  next
    case True
    then obtain x c y where rl: "rl = Node x c y" by (cases rl) auto
    obtain m1 where m1: "rot_right m b = Some (c, m1)" "rep m1 (Some a) (Node x c (Node y b rr))"
      "same_off (set_tree r) m m1"
      using rot_right_rep [of m b "node_rec (Some a) rl rr" rr c "Some b" x y] m d sz r rl by auto
    have a1: "m1 a = Some (node_rec par l r)" "rep m1 (Some a) l"
      using same_off_at [OF m1(3), of a] rep_same_off [OF _ m1(3), of "Some a" l] m d r by auto
    let ?m2 = "m1(a \<mapsto> (node_rec par l r)\<lparr>an_right := Some c\<rparr>)"
    have "rep ?m2 (Some a) (Node x c (Node y b rr))" "rep ?m2 (Some a) l"
      using m1(2) a1 d r rl by auto
    then obtain m' where "rot_left ?m2 a = Some (c, m')"
      "rep m' par (Node (Node l a x) c (Node y b rr))"
      "same_off (set_tree (Node l a (Node x c (Node y b rr)))) ?m2 m'"
      using rot_left_rep [of ?m2 a "(node_rec par l r)\<lparr>an_right := Some c\<rparr>" l c "Some a" x "Node y b rr"]
        d sz r rl by auto
    moreover from this(3) have "same_off (set_tree (Node l a r)) m m'"
      using m1(3) r rl by (auto simp: same_off_def)
    ultimately show ?thesis
      using m1(1) a1 m r rl True hs hw by (auto simp: avl_fix_right_def fix_right_def run_simps)
  qed
qed


subsection \<open>The path to the root\<close>

definition ctx_ok :: "ctx \<Rightarrow> bool" where
  "ctx_ok c \<longleftrightarrow> distinct (ctx_left c @ ctx_right c)"

lemma ctx_ok_Cons [simp]:
  "ctx_ok (FL a r # c) \<longleftrightarrow> distinct (inorder r) \<and> a \<notin> set_tree r \<and> a \<notin> ctx_set c \<and>
     set_tree r \<inter> ctx_set c = {} \<and> ctx_ok c"
  "ctx_ok (FR l a # c) \<longleftrightarrow> distinct (inorder l) \<and> a \<notin> set_tree l \<and> a \<notin> ctx_set c \<and>
     set_tree l \<inter> ctx_set c = {} \<and> ctx_ok c"
  by (auto simp: ctx_ok_def ctx_set_lists)

lemma distinct_plug:
  "distinct (inorder (plug t c)) \<longleftrightarrow> distinct (inorder t) \<and> ctx_ok c \<and> set_tree t \<inter> ctx_set c = {}"
  by (auto simp: inorder_plug ctx_ok_def ctx_set_lists)

text \<open>The slot \<open>from\<close> found for a node is the one whose pointer the path's hole holds.\<close>

lemma slot_ctx:
  assumes "rep_ctx m (Some a) c" "a \<notin> ctx_set c" "ctx_ok c"
  shows "\<exists>fr. (case ctx_ptr c of None \<Rightarrow> Some Local | Some p \<Rightarrow> child_slot m p a) = Some fr \<and>
    (\<forall>m2 q. rep_ctx m2 (Some a) c \<longrightarrow>
       (\<exists>m3. write_slot m2 fr q = Some m3 \<and> rep_ctx m3 q c \<and> same_off (ctx_set c) m2 m3))"
proof (cases c rule: ctx_ptr.cases)
  case 1
  then show ?thesis by simp
next
  case (2 p s c')
  have "child_slot m p a = Some (LeftOf p)" using assms(1) 2 by (auto simp: links_def child_slot_def)
  moreover have "\<exists>m3. write_slot m2 (LeftOf p) q = Some m3 \<and> rep_ctx m3 q c \<and> same_off (ctx_set c) m2 m3"
    if "rep_ctx m2 (Some a) c" for m2 q
    using that 2 assms(3) by (auto simp: links_def run_simps)
  ultimately show ?thesis using 2 by auto
next
  case (3 s p c')
  have "root_ptr s \<noteq> Some a" using assms(2) 3 by (cases s) auto
  then have "child_slot m p a = Some (RightOf p)" using assms(1) 3 by (auto simp: links_def child_slot_def)
  moreover have "\<exists>m3. write_slot m2 (RightOf p) q = Some m3 \<and> rep_ctx m3 q c \<and> same_off (ctx_set c) m2 m3"
    if "rep_ctx m2 (Some a) c" for m2 q
    using that 3 assms(3) by (auto simp: links_def run_simps)
  ultimately show ?thesis using 3 by auto
qed

text \<open>One round of the loop of \<open>avl_fix\<close>.\<close>

lemma avl_fix_round:
  assumes n: "m a = Some n" "an_parent n = ctx_ptr c" "an_left n = root_ptr l" "an_right n = root_ptr r"
    and reps: "rep m (Some a) l" "rep m (Some a) r" "rep_ctx m (Some a) c"
    and d: "distinct (inorder (plug (Node l a r) c))"
    and sz: "size (Node l a r) < 2 ^ 32 - 2"
  shows "\<exists>m3 b. avl_fix m a = (case ctx_ptr c of None \<Rightarrow> Some (b, m3) | Some p \<Rightarrow> avl_fix m3 p) \<and>
    root_ptr (fix_node l a r) = Some b \<and> rep m3 (ctx_ptr c) (fix_node l a r) \<and>
    rep_ctx m3 (Some b) c \<and> same_off (set_tree (Node l a r) \<union> ctx_set c) m m3"
proof -
  let ?t = "Node l a r" and ?m1 = "m(a \<mapsto> node_rec (ctx_ptr c) l r)"
  have dt: "distinct (inorder ?t)" "ctx_ok c" "set_tree ?t \<inter> ctx_set c = {}"
    using d distinct_plug by blast+
  have up: "avl_update m a = Some ?m1"
    using avl_update_rep [OF n(1,3,4) reps(1,2)] dt(1) sz n(2) by simp
  have r1: "rep ?m1 (ctx_ptr c) ?t" "rep_ctx ?m1 (Some a) c" using reps dt by auto
  have hw: "avl_height ?m1 (root_ptr l) = Some (w32 (height l))"
    "avl_height ?m1 (root_ptr r) = Some (w32 (height r))"
    using r1(1) by (auto intro: avl_height_rep)
  have hs: "height l + 2 < 2 ^ 32" "height r + 2 < 2 ^ 32"
    using height_le_size [of l] height_le_size [of r] sz by simp_all
  have two: "w32 (height l) = w32 (height r) + 2 \<longleftrightarrow> height l = height r + 2"
    "w32 (height r) = w32 (height l) + 2 \<longleftrightarrow> height r = height l + 2"
    using hs by (simp_all add: w32_add_2)
  obtain fr where slot: "(case ctx_ptr c of None \<Rightarrow> Some Local | Some p \<Rightarrow> child_slot m p a) = Some fr"
    "\<And>m2 q. rep_ctx m2 (Some a) c \<Longrightarrow>
       \<exists>m3. write_slot m2 fr q = Some m3 \<and> rep_ctx m3 q c \<and> same_off (ctx_set c) m2 m3"
    using slot_ctx [OF reps(3) _ dt(2)] dt(3) by auto
  have wr: "\<exists>m3. write_slot m2 fr (Some b) = Some m3 \<and> rep m3 (ctx_ptr c) (fix_node l a r) \<and>
      rep_ctx m3 (Some b) c \<and> same_off (set_tree ?t \<union> ctx_set c) m m3"
    if m2: "rep m2 (ctx_ptr c) (fix_node l a r)" "same_off (set_tree ?t) ?m1 m2" for m2 b
  proof -
    have "rep_ctx m2 (Some a) c"
      using r1(2) same_off_on [OF m2(2) dt(3)] by (rule rep_ctx_same_on)
    then obtain m3 where m3: "write_slot m2 fr (Some b) = Some m3" "rep_ctx m3 (Some b) c"
      "same_off (ctx_set c) m2 m3" using slot(2) by blast
    have "rep m3 (ctx_ptr c) (fix_node l a r)"
      using rep_same_off [OF m2(1) m3(3)] dt(3) by auto
    moreover have "same_off (set_tree ?t \<union> ctx_set c) m m3"
      using m2(2) m3(3) by (auto simp: same_off_def)
    ultimately show ?thesis using m3 by blast
  qed
  consider (left) "height l = height r + 2" | (right) "height r = height l + 2"
    | (none) "height l \<noteq> height r + 2" "height r \<noteq> height l + 2" by blast
  then show ?thesis
  proof cases
    case left
    then obtain m2 b where m2: "avl_fix_left ?m1 a = Some (b, m2)" "root_ptr (fix_left l a r) = Some b"
      "rep m2 (ctx_ptr c) (fix_left l a r)" "same_off (set_tree ?t) ?m1 m2"
      using avl_fix_left_rep [OF r1(1) dt(1)] sz by auto
    then show ?thesis
      using wr [of m2 b] left n up hw two slot(1)
      by (subst avl_fix.simps) (auto simp: fix_node_def)
  next
    case right
    then obtain m2 b where m2: "avl_fix_right ?m1 a = Some (b, m2)" "root_ptr (fix_right l a r) = Some b"
      "rep m2 (ctx_ptr c) (fix_right l a r)" "same_off (set_tree ?t) ?m1 m2"
      using avl_fix_right_rep [OF r1(1) dt(1)] sz by auto
    then show ?thesis
      using wr [of m2 b] right n up hw two slot(1)
      by (subst avl_fix.simps) (auto simp: fix_node_def)
  next
    case none
    then show ?thesis
      using n up hw two slot(1) r1 by (subst avl_fix.simps) (auto simp: fix_node_def)
  qed
qed

lemma avl_fix_rep:
  assumes "m a = Some n" "an_parent n = ctx_ptr c" "an_left n = root_ptr l" "an_right n = root_ptr r"
    and "rep m (Some a) l" "rep m (Some a) r" "rep_ctx m (Some a) c"
    and "distinct (inorder (plug (Node l a r) c))" and "small (plug (Node l a r) c)"
  shows "\<exists>m' b. avl_fix m a = Some (b, m') \<and> root_ptr (fixup (fix_node l a r) c) = Some b \<and>
    rep m' None (fixup (fix_node l a r) c) \<and> same_off (set_tree (Node l a r) \<union> ctx_set c) m m'"
  using assms
proof (induction c arbitrary: m a n l r rule: ctx_set.induct)
  case 1
  then show ?case
    using avl_fix_round [of m a n "[]" l r] by (auto simp: small_def)
next
  case (2 p s c)
  let ?t = "fix_node l a r"
  have io: "inorder (plug (Node ?t p s) c) = inorder (plug (Node l a r) (FL p s # c))"
    by (simp add: inorder_plug)
  then have sz: "size (plug (Node ?t p s) c) = size (plug (Node l a r) (FL p s # c))"
    by (metis length_inorder)
  obtain m3 b where m3: "avl_fix m a = avl_fix m3 p" "root_ptr ?t = Some b" "rep m3 (Some p) ?t"
    "rep_ctx m3 (Some b) (FL p s # c)" "same_off (set_tree (Node l a r) \<union> ctx_set (FL p s # c)) m m3"
    using avl_fix_round [OF 2(2-9)] 2(10) by (auto simp: small_def size_plug)
  then obtain n' where "m3 p = Some n'" "an_parent n' = ctx_ptr c" "an_left n' = root_ptr ?t"
    "an_right n' = root_ptr s" "rep m3 (Some p) s" "rep_ctx m3 (Some p) c"
    by (auto simp: links_def)
  then obtain m' b' where "avl_fix m3 p = Some (b', m')" "root_ptr (fixup (fix_node ?t p s) c) = Some b'"
    "rep m' None (fixup (fix_node ?t p s) c)" "same_off (set_tree (Node ?t p s) \<union> ctx_set c) m3 m'"
    using 2(1)[of m3 p n' ?t s] m3(3) 2(9,10) io sz by (auto simp: small_def)
  moreover from this(4) m3(5) have "same_off (set_tree (Node l a r) \<union> ctx_set (FL p s # c)) m m'"
    by (auto simp: same_off_def)
  ultimately show ?case using m3(1) by auto
next
  case (3 s p c)
  let ?t = "fix_node l a r"
  have io: "inorder (plug (Node s p ?t) c) = inorder (plug (Node l a r) (FR s p # c))"
    by (simp add: inorder_plug)
  then have sz: "size (plug (Node s p ?t) c) = size (plug (Node l a r) (FR s p # c))"
    by (metis length_inorder)
  obtain m3 b where m3: "avl_fix m a = avl_fix m3 p" "root_ptr ?t = Some b" "rep m3 (Some p) ?t"
    "rep_ctx m3 (Some b) (FR s p # c)" "same_off (set_tree (Node l a r) \<union> ctx_set (FR s p # c)) m m3"
    using avl_fix_round [OF 3(2-9)] 3(10) by (auto simp: small_def size_plug)
  then obtain n' where "m3 p = Some n'" "an_parent n' = ctx_ptr c" "an_right n' = root_ptr ?t"
    "an_left n' = root_ptr s" "rep m3 (Some p) s" "rep_ctx m3 (Some p) c"
    by (auto simp: links_def)
  then obtain m' b' where "avl_fix m3 p = Some (b', m')" "root_ptr (fixup (fix_node s p ?t) c) = Some b'"
    "rep m' None (fixup (fix_node s p ?t) c)" "same_off (set_tree (Node s p ?t) \<union> ctx_set c) m3 m'"
    using 3(1)[of m3 p n' s ?t] m3(3) 3(9,10) io sz by (auto simp: small_def)
  moreover from this(4) m3(5) have "same_off (set_tree (Node l a r) \<union> ctx_set (FR s p # c)) m m'"
    by (auto simp: same_off_def)
  ultimately show ?case using m3(1) by auto
qed


subsection \<open>Deletion of a node with at most one child\<close>

lemma avl_del_easy_rep:
  assumes m: "rep m None (plug (Node l a r) c)" and d: "distinct (inorder (plug (Node l a r) c))"
    and sz: "small (plug (Node l a r) c)" and easy: "l = Leaf \<or> r = Leaf"
  defines "t \<equiv> (if l = Leaf then r else l)"
  shows "\<exists>m'. avl_del_easy m a = Some (root_ptr (fixup t c), m') \<and> rep m' None (fixup t c) \<and>
    same_off (set_tree t \<union> ctx_set c) m m'"
proof -
  have n: "m a = Some (node_rec (ctx_ptr c) l r)" "rep m (Some a) t" "rep_ctx m (Some a) c"
    using rep_plug [OF m] by (auto simp: t_def)
  have dt: "distinct (inorder t)" "ctx_ok c" "set_tree t \<inter> ctx_set c = {}" "a \<notin> set_tree t" "a \<notin> ctx_set c"
    using d distinct_plug [of "Node l a r" c] by (auto simp: t_def)
  obtain m1 where m1: "set_parent m (root_ptr t) (ctx_ptr c) = Some m1" "rep m1 (ctx_ptr c) t"
    "same_off (set_tree t) m m1"
    using set_parent_rep [OF n(2) dt(1)] by blast
  have c1: "rep_ctx m1 (Some a) c" using rep_ctx_same_on [OF n(3)] same_off_on [OF m1(3) dt(3)] .
  have unfold: "avl_del_easy m a = (case ctx_ptr c of None \<Rightarrow> Some (root_ptr t, m1)
     | Some p \<Rightarrow> do { from \<leftarrow> child_slot m1 p a; m2 \<leftarrow> write_slot m1 from (root_ptr t);
                    (root, m3) \<leftarrow> avl_fix m2 p; Some (Some root, m3) })"
    using n(1) m1(1) easy
    by (cases "ctx_ptr c"; cases l; cases r) (simp_all add: avl_del_easy_def Let_def t_def)
  have szt: "size (plug t c) < 2 ^ 32 - 2"
    using sz easy by (auto simp: small_def size_plug t_def split: if_splits)
  obtain fr where slot: "(case ctx_ptr c of None \<Rightarrow> Some Local | Some p \<Rightarrow> child_slot m1 p a) = Some fr"
    "\<And>q. \<exists>m2. write_slot m1 fr q = Some m2 \<and> rep_ctx m2 q c \<and> same_off (ctx_set c) m1 m2"
    using slot_ctx [OF c1 dt(5) dt(2)] c1 by auto
  obtain m2 where m2: "write_slot m1 fr (root_ptr t) = Some m2" "rep_ctx m2 (root_ptr t) c"
    "same_off (ctx_set c) m1 m2" using slot(2) by blast
  have t2: "rep m2 (ctx_ptr c) t" using rep_same_off [OF m1(2) m2(3)] dt(3) by auto
  have off: "same_off (set_tree t \<union> ctx_set c) m m2" using m1(3) m2(3) by (auto simp: same_off_def)
  have dp: "distinct (inorder (plug t c))" using dt distinct_plug by blast
  show ?thesis
  proof (cases c rule: ctx_ptr.cases)
    case 1
    then show ?thesis using unfold m1 by auto
  next
    case (2 p s c')
    then obtain n' where n': "m2 p = Some n'" "an_parent n' = ctx_ptr c'" "an_left n' = root_ptr t"
      "an_right n' = root_ptr s" "rep m2 (Some p) s" "rep_ctx m2 (Some p) c'"
      using m2(2) by (auto simp: links_def)
    obtain m3 b where m3: "avl_fix m2 p = Some (b, m3)" "root_ptr (fixup (fix_node t p s) c') = Some b"
      "rep m3 None (fixup (fix_node t p s) c')" "same_off (set_tree (Node t p s) \<union> ctx_set c') m2 m3"
      using avl_fix_rep [OF n'(1-4) _ n'(5,6)] t2 dp szt 2 by (auto simp: small_def)
    moreover have "same_off (set_tree t \<union> ctx_set c) m m3"
      using off m3(4) 2 by (auto simp: same_off_def)
    ultimately show ?thesis using unfold slot(1) m2(1) 2 by auto
  next
    case (3 s p c')
    then obtain n' where n': "m2 p = Some n'" "an_parent n' = ctx_ptr c'" "an_left n' = root_ptr s"
      "an_right n' = root_ptr t" "rep m2 (Some p) s" "rep_ctx m2 (Some p) c'"
      using m2(2) by (auto simp: links_def)
    obtain m3 b where m3: "avl_fix m2 p = Some (b, m3)" "root_ptr (fixup (fix_node s p t) c') = Some b"
      "rep m3 None (fixup (fix_node s p t) c')" "same_off (set_tree (Node s p t) \<union> ctx_set c') m2 m3"
      using avl_fix_rep [OF n'(1-4) n'(5) _ n'(6)] t2 dp szt 3 by (auto simp: small_def)
    moreover have "same_off (set_tree t \<union> ctx_set c) m m3"
      using off m3(4) 3 by (auto simp: same_off_def)
    ultimately show ?thesis using unfold slot(1) m2(1) 3 by auto
  qed
qed


subsection \<open>The in-order successor takes the place of the deleted node\<close>

lemma avl_leftmost_rep:
  "rep m par t \<Longrightarrow> root_ptr t = Some a \<Longrightarrow>
   \<exists>v r c. avl_leftmost m a = Some v \<and> t = plug (Node Leaf v r) c \<and> ctx_left c = []"
proof (induction t arbitrary: par a)
  case (Node l b s)
  show ?case
  proof (cases "root_ptr l")
    case None
    then have "Node l b s = plug (Node Leaf b s) []" by (cases l) auto
    moreover have "avl_leftmost m a = Some b"
      using Node.prems None by (subst avl_leftmost.simps) auto
    ultimately show ?thesis by (metis ctx_left.simps(1))
  next
    case (Some x)
    then obtain v r c where v: "avl_leftmost m x = Some v" "l = plug (Node Leaf v r) c" "ctx_left c = []"
      using Node.IH(1) [of "Some b" x] Node.prems by auto
    have "avl_leftmost m a = Some v"
      using Node.prems Some v(1) by (subst avl_leftmost.simps) auto
    moreover have "Node l b s = plug (Node Leaf v r) (c @ [FL b s])" using v(2) by (simp add: plug_append)
    moreover have "ctx_left (c @ [FL b s]) = []" using v(3) by (simp add: ctx_append)
    ultimately show ?thesis by blast
  qed
qed simp

text \<open>A path whose cached heights and sizes are those of a whole tree.\<close>

fun xrep :: "avl_mem \<Rightarrow> addr tree \<Rightarrow> ctx \<Rightarrow> bool" where
  "xrep m t [] = True"
| "xrep m t (FL a r # c) = (m a = Some (node_rec (ctx_ptr c) t r) \<and> rep m (Some a) r \<and> xrep m (Node t a r) c)"
| "xrep m t (FR l a # c) = (m a = Some (node_rec (ctx_ptr c) l t) \<and> rep m (Some a) l \<and> xrep m (Node l a t) c)"

lemma rep_plug_iff: "rep m None (plug t c) \<longleftrightarrow> rep m (ctx_ptr c) t \<and> xrep m t c"
  by (induction t c rule: plug.induct) auto

lemma xrep_upd_other [simp]: "a \<notin> ctx_set c \<Longrightarrow> xrep (m(a := n)) t c = xrep m t c"
  by (induction t c rule: plug.induct) auto

lemma xrep_same_off: "xrep m t c \<Longrightarrow> same_off A m m' \<Longrightarrow> A \<inter> ctx_set c = {} \<Longrightarrow> xrep m' t c"
proof (induction t c rule: plug.induct)
  case (2 t a r c)
  have "m' a = m a" using same_off_at [OF 2(3)] 2(4) by simp
  moreover have "rep m' (Some a) r" by (rule rep_same_off [OF _ 2(3)]) (use 2 in auto)
  moreover have "xrep m' (Node t a r) c" by (rule 2(1)) (use 2 in auto)
  ultimately show ?case using 2(2) by simp
next
  case (3 t l a c)
  have "m' a = m a" using same_off_at [OF 3(3)] 3(4) by simp
  moreover have "rep m' (Some a) l" by (rule rep_same_off [OF _ 3(3)]) (use 3 in auto)
  moreover have "xrep m' (Node l a t) c" by (rule 3(1)) (use 3 in auto)
  ultimately show ?case using 3(2) by simp
qed simp

lemma xrep_cong:
  "height t = height t' \<Longrightarrow> size t = size t' \<Longrightarrow> root_ptr t = root_ptr t' \<Longrightarrow> xrep m t c = xrep m t' c"
proof (induction t c arbitrary: t' rule: plug.induct)
  case (2 t a r c)
  then show ?case using "2.IH" [of "Node t' a r"] by (simp add: node_rec_def)
next
  case (3 t l a c)
  then show ?case using "3.IH" [of "Node l a t'"] by (simp add: node_rec_def)
qed simp

lemma xrep_swap:
  assumes m: "xrep m t c" "root_ptr t = Some a"
    and t': "height t' = height t" "size t' = size t" "root_ptr t' = Some v"
    and ok: "a \<notin> ctx_set c" "ctx_ok c"
  shows "\<exists>fr m'. (case ctx_ptr c of None \<Rightarrow> Some Local | Some p \<Rightarrow> child_slot m p a) = Some fr \<and>
    write_slot m fr (Some v) = Some m' \<and> xrep m' t' c \<and> same_off (ctx_set c) m m'"
proof (cases c rule: ctx_ptr.cases)
  case 1
  then show ?thesis by simp
next
  case (2 p s c')
  then have "xrep m (Node t' p s) c'"
    using m xrep_cong [of "Node t' p s" "Node t p s" m c'] t' by simp
  then show ?thesis
    using 2 m t' ok by (auto simp: child_slot_def run_simps node_rec_def)
next
  case (3 s p c')
  then have "xrep m (Node s p t') c'"
    using m xrep_cong [of "Node s p t'" "Node s p t" m c'] t' by simp
  moreover have "root_ptr s \<noteq> Some a" using ok(1) 3 by (cases s) auto
  ultimately show ?thesis
    using 3 m t' ok by (auto simp: child_slot_def run_simps node_rec_def)
qed

lemma root_ptr_plug: "root_ptr t' = root_ptr t \<or> c \<noteq> [] \<Longrightarrow> root_ptr (plug t' c) = root_ptr (plug t c)"
proof (induction t c arbitrary: t' rule: plug.induct)
  case (2 t a r c)
  show ?case using 2(1) [of "Node t' a r"] by simp
next
  case (3 t l a c)
  show ?case using 3(1) [of "Node l a t'"] by simp
qed simp


subsection \<open>Deletion\<close>

text \<open>The copy of the record and the relinking that put \<open>v\<close> in the place of \<open>a\<close>.\<close>

lemma avl_replace_rep:
  assumes m: "rep m None (plug (Node l a r) c)" and d: "distinct (inorder (plug (Node l a r) c))"
    and v: "m v \<noteq> None" "v \<notin> set_tree (plug (Node l a r) c)"
  shows "\<exists>m2 m3 m4 fr m5. m a = Some (node_rec (ctx_ptr c) l r) \<and>
    store_at m v (node_rec (ctx_ptr c) l r) = Some m2 \<and>
    set_parent m2 (root_ptr l) (Some v) = Some m3 \<and> set_parent m3 (root_ptr r) (Some v) = Some m4 \<and>
    m4 a = m a \<and>
    (case ctx_ptr c of None \<Rightarrow> Some Local | Some p \<Rightarrow> child_slot m4 p a) = Some fr \<and>
    write_slot m4 fr (Some v) = Some m5 \<and> rep m5 None (plug (Node l v r) c) \<and>
    same_off (insert v (set_tree (plug (Node l a r) c))) m m5"
proof -
  have dt: "distinct (inorder l)" "distinct (inorder r)" "set_tree l \<inter> set_tree r = {}"
    "a \<notin> set_tree l" "a \<notin> set_tree r" "ctx_ok c" "a \<notin> ctx_set c"
    "set_tree l \<inter> ctx_set c = {}" "set_tree r \<inter> ctx_set c = {}"
    using d distinct_plug [of "Node l a r" c] by auto
  have vn: "v \<notin> set_tree l" "v \<notin> set_tree r" "v \<noteq> a" "v \<notin> ctx_set c"
    using v(2) by (auto simp: set_plug)
  have reps: "m a = Some (node_rec (ctx_ptr c) l r)" "rep m (Some a) l" "rep m (Some a) r"
    "xrep m (Node l a r) c" using m by (auto simp: rep_plug_iff)
  let ?nr = "node_rec (ctx_ptr c) l r"
  let ?m2 = "m(v \<mapsto> ?nr)"
  have s2: "store_at m v ?nr = Some ?m2" using v(1) by (simp add: run_simps)
  have "rep ?m2 (Some a) l" using reps vn by simp
  then obtain m3 where m3: "set_parent ?m2 (root_ptr l) (Some v) = Some m3" "rep m3 (Some v) l"
    "same_off (set_tree l) ?m2 m3" using set_parent_rep dt(1) by blast
  have "rep m3 (Some a) r" by (rule rep_same_off [OF _ m3(3)]) (use reps vn dt in auto)
  then obtain m4 where m4: "set_parent m3 (root_ptr r) (Some v) = Some m4" "rep m4 (Some v) r"
    "same_off (set_tree r) m3 m4" using set_parent_rep dt(2) by blast
  have off: "same_off (insert v (set_tree l \<union> set_tree r)) m m4"
    using m3(3) m4(3) by (auto simp: same_off_def)
  have a4: "m4 a = m a" using same_off_at [OF off, of a] vn dt by auto
  have v4: "m4 v = Some ?nr" using same_off_at [OF m3(3)] same_off_at [OF m4(3)] vn by simp
  have l4: "rep m4 (Some v) l" by (rule rep_same_off [OF m3(2) m4(3)]) (use dt in auto)
  have "xrep m4 (Node l a r) c" by (rule xrep_same_off [OF reps(4) off]) (use dt vn in auto)
  then obtain fr m5 where m5:
    "(case ctx_ptr c of None \<Rightarrow> Some Local | Some p \<Rightarrow> child_slot m4 p a) = Some fr"
    "write_slot m4 fr (Some v) = Some m5" "xrep m5 (Node l v r) c" "same_off (ctx_set c) m4 m5"
    using xrep_swap [of m4 "Node l a r" c a "Node l v r" v] dt by auto
  have "rep m4 (ctx_ptr c) (Node l v r)" using v4 l4 m4(2) by simp
  then have "rep m5 (ctx_ptr c) (Node l v r)"
    using m5(4) by (rule rep_same_off) (use dt vn in auto)
  then have "rep m5 None (plug (Node l v r) c)" using m5(3) by (simp add: rep_plug_iff)
  moreover have "same_off (insert v (set_tree (plug (Node l a r) c))) m m5"
    using off m5(4) by (auto simp: same_off_def set_plug)
  ultimately show ?thesis using reps(1) s2 m3(1) m4(1) a4 m5(1,2) by blast
qed

definition avl_tree :: "avl_mem \<Rightarrow> ptr \<Rightarrow> addr tree \<Rightarrow> bool" where
  "avl_tree m p t \<longleftrightarrow> rep m None t \<and> p = root_ptr t \<and> distinct (inorder t) \<and> avl t \<and> small t"

lemma remove1_split: "a \<notin> set xs \<Longrightarrow> remove1 a (xs @ a # ys) = xs @ ys"
  by (simp add: remove1_append)

lemma small_inorder: "small t \<Longrightarrow> length (inorder t') \<le> length (inorder t) \<Longrightarrow> small t'"
  by (simp add: small_def)

lemma avl_del_easy_tree:
  assumes t: "avl_tree m p (plug (Node l a r) c)" and easy: "l = Leaf \<or> r = Leaf"
  shows "\<exists>p' m' t'. avl_del_easy m a = Some (p', m') \<and> avl_tree m' p' t' \<and>
    inorder t' = ctx_left c @ inorder l @ inorder r @ ctx_right c \<and>
    same_off (set_tree (plug (Node l a r) c) - {a}) m m'"
proof -
  let ?s = "if l = Leaf then r else l" and ?T = "plug (Node l a r) c"
  have T: "rep m None ?T" "distinct (inorder ?T)" "avl ?T" "small ?T"
    using t by (simp_all add: avl_tree_def)
  obtain m' where m': "avl_del_easy m a = Some (root_ptr (fixup ?s c), m')" "rep m' None (fixup ?s c)"
    "same_off (set_tree ?s \<union> ctx_set c) m m'"
    using avl_del_easy_rep [OF T(1,2,4) easy] by blast
  have io: "inorder (fixup ?s c) = ctx_left c @ inorder l @ inorder r @ ctx_right c"
    using easy by (auto simp: inorder_fixup)
  have "avl ?s" "avl_ctx (height (Node l a r)) c" "height (Node l a r) = Suc (height ?s)"
    using T(3) easy by (auto simp: avl_plug)
  then have "avl (fixup ?s c)" by (intro avl_fixup [of _ "height (Node l a r)"]) auto
  moreover have "distinct (inorder (fixup ?s c))" using T(2) io by (auto simp: inorder_plug)
  moreover have "small (fixup ?s c)"
    by (rule small_inorder [OF T(4)]) (unfold io inorder_plug, simp)
  moreover have "set_tree ?s \<union> ctx_set c \<subseteq> set_tree ?T - {a}"
    using T(2) distinct_plug [of "Node l a r" c] by (auto simp: set_plug)
  ultimately show ?thesis
    using m' io same_off_mono by (auto simp: avl_tree_def)
qed

lemma avl_del_full:
  assumes t: "avl_tree m p (plug (Node l a r) c)" and full: "l \<noteq> Leaf" "r \<noteq> Leaf"
  shows "\<exists>p' m' t'. avl_del m a = Some (p', m') \<and> avl_tree m' p' t' \<and>
    inorder t' = ctx_left c @ inorder l @ inorder r @ ctx_right c \<and>
    same_off (set_tree (plug (Node l a r) c)) m m'"
proof -
  let ?T = "plug (Node l a r) c"
  have T: "rep m None ?T" "distinct (inorder ?T)" "small ?T" using t by (simp_all add: avl_tree_def)
  obtain x y where xy: "root_ptr l = Some x" "root_ptr r = Some y" using full by (cases l; cases r) auto
  have ma: "m a = Some (node_rec (ctx_ptr c) l r)" "rep m (Some a) r"
    using rep_plug [OF T(1)] by auto
  obtain v vr cr where v: "avl_leftmost m y = Some v" "r = plug (Node Leaf v vr) cr" "ctx_left cr = []"
    using avl_leftmost_rep [OF ma(2) xy(2)] by blast
  let ?c = "cr @ FR l a # c"
  have T': "?T = plug (Node Leaf v vr) ?c" by (simp add: v(2) plug_append)
  obtain p1 m1 t1 where d1: "avl_del_easy m v = Some (p1, m1)" "avl_tree m1 p1 t1"
    "inorder t1 = ctx_left ?c @ inorder vr @ ctx_right ?c" "same_off (set_tree ?T - {v}) m m1"
    using avl_del_easy_tree [of m p Leaf v vr ?c] t unfolding T' by auto
  let ?A = "ctx_left c @ inorder l" and ?B = "inorder vr @ ctx_right cr @ ctx_right c"
  have io1: "inorder t1 = ?A @ a # ?B" using d1(3) v(3) by (simp add: ctx_append)
  have ioT: "inorder ?T = ?A @ a # v # ?B" using v(2,3) by (simp add: inorder_plug)
  then have dis: "distinct (?A @ a # v # ?B)" using T(2) by simp
  have "a \<in> set (inorder t1)" unfolding io1 by simp
  then have "a \<in> set_tree t1" by simp
  then obtain l1 r1 c1 where t1: "t1 = plug (Node l1 a r1) c1" using node_plug by blast
  have "?A @ a # ?B = (ctx_left c1 @ inorder l1) @ a # (inorder r1 @ ctx_right c1)"
    using io1 t1 by (simp add: inorder_plug)
  then have split: "?A = ctx_left c1 @ inorder l1" "?B = inorder r1 @ ctx_right c1"
    using dis by (subst (asm) append_Cons_eq_iff; simp)+
  let ?T2 = "plug (Node l1 v r1) c1"
  have R1: "rep m1 None t1" "p1 = root_ptr t1" "distinct (inorder t1)" "avl t1" "small t1"
    using d1(2) by (simp_all add: avl_tree_def)
  have "v \<notin> set (inorder t1)" using dis io1 by auto
  then have vt1: "v \<notin> set_tree t1" by simp
  have "v \<in> set_tree ?T" unfolding T' by (simp add: set_plug)
  have "m v \<noteq> None" using T(1) rep_plug [of m "Node Leaf v vr" ?c] unfolding T' by auto
  then have mv: "m1 v \<noteq> None" using same_off_at [OF d1(4), of v] by simp
  obtain m2 m3 m4 fr m5 where r: "m1 a = Some (node_rec (ctx_ptr c1) l1 r1)"
    "store_at m1 v (node_rec (ctx_ptr c1) l1 r1) = Some m2"
    "set_parent m2 (root_ptr l1) (Some v) = Some m3" "set_parent m3 (root_ptr r1) (Some v) = Some m4"
    "m4 a = m1 a"
    "(case ctx_ptr c1 of None \<Rightarrow> Some Local | Some p \<Rightarrow> child_slot m4 p a) = Some fr"
    "write_slot m4 fr (Some v) = Some m5" "rep m5 None ?T2" "same_off (insert v (set_tree t1)) m1 m5"
    using avl_replace_rep [of m1 l1 a r1 c1 v] R1 mv vt1 unfolding t1 by auto
  have root: "avl_del m a = Some (root_ptr ?T2, m5)"
  proof (cases c1 rule: ctx_ptr.cases)
    case 1
    then show ?thesis using ma xy v(1) d1(1) r by (simp add: avl_del_def)
  next
    case (2 q s c')
    then show ?thesis using ma xy v(1) d1(1) r R1(2) t1 root_ptr_plug [of "Node l1 v r1" "Node l1 a r1" c1]
      by (simp add: avl_del_def)
  next
    case (3 s q c')
    then show ?thesis using ma xy v(1) d1(1) r R1(2) t1 root_ptr_plug [of "Node l1 v r1" "Node l1 a r1" c1]
      by (simp add: avl_del_def)
  qed
  have io2: "inorder ?T2 = ?A @ v # ?B" using split by (simp add: inorder_plug)
  moreover have "avl ?T2" using R1(4) t1 by (simp add: avl_plug)
  moreover have "small ?T2" using R1(5) t1 by (simp add: small_def size_plug)
  moreover have "distinct (inorder ?T2)" using dis io2 by auto
  ultimately have "avl_tree m5 (root_ptr ?T2) ?T2" using r(8) by (simp add: avl_tree_def)
  moreover have "insert v (set_tree t1) \<subseteq> set_tree ?T"
    using \<open>v \<in> set_tree ?T\<close> arg_cong [OF io1, of set] arg_cong [OF ioT, of set] by auto
  then have "same_off (set_tree ?T) m m5"
    using d1(4) r(9) by (auto simp: same_off_def)
  moreover have "inorder ?T2 = ctx_left c @ inorder l @ inorder r @ ctx_right c"
    using io2 v(2,3) by (simp add: inorder_plug)
  ultimately show ?thesis using root by blast
qed

lemma avl_del_tree:
  assumes t: "avl_tree m p t" and a: "a \<in> set_tree t"
  shows "\<exists>p' m' t'. avl_del m a = Some (p', m') \<and> avl_tree m' p' t' \<and>
    inorder t' = remove1 a (inorder t) \<and> same_off (set_tree t) m m'"
proof -
  obtain l r c where T: "t = plug (Node l a r) c" using node_plug [OF a] by blast
  have "distinct (inorder t)" using t by (simp add: avl_tree_def)
  then have "a \<notin> set (ctx_left c @ inorder l)" by (auto simp: T inorder_plug)
  then have io: "remove1 a (inorder t) = ctx_left c @ inorder l @ inorder r @ ctx_right c"
    using remove1_split [of a "ctx_left c @ inorder l" "inorder r @ ctx_right c"]
    by (simp add: T inorder_plug)
  show ?thesis
  proof (cases "l = Leaf \<or> r = Leaf")
    case True
    have "m a = Some (node_rec (ctx_ptr c) l r)"
      using t rep_plug [of m "Node l a r" c] by (auto simp: T avl_tree_def)
    then have "avl_del m a = avl_del_easy m a" using True by (auto simp: avl_del_def)
    then show ?thesis
      using avl_del_easy_tree [OF t [unfolded T] True] io same_off_mono unfolding T by fastforce
  next
    case False
    then show ?thesis using avl_del_full [OF t [unfolded T]] io unfolding T by auto
  qed
qed

end
