(* ===== verification/AvlRank.thy ===== *)
theory AvlRank
  imports AvlProofs Interfaces
begin

text \<open>
  Attaching a new node, and the rank queries of \<open>avl.cc\<close>: \<open>avl_rank\<close> is the position of
  a node in the in-order sequence, \<open>avl_offset\<close> moves along that sequence. Both walk
  parent and child pointers and the cached subtree sizes.
\<close>


subsection \<open>Attaching a leaf\<close>

fun slot_of :: "ctx \<Rightarrow> slot" where
  "slot_of [] = Local"
| "slot_of (FL a r # c) = LeftOf a"
| "slot_of (FR l a # c) = RightOf a"

lemma write_slot_ctx:
  assumes "rep_ctx m p c" "ctx_ok c"
  shows "\<exists>m'. write_slot m (slot_of c) q = Some m' \<and> rep_ctx m' q c \<and> same_off (ctx_set c) m m'"
  using assms by (cases c rule: slot_of.cases) (auto simp: links_def run_simps)

text \<open>
  The code that every insertion ends with: store the new node in the slot found by the
  search, set its parent, and fix the path.
\<close>

lemma avl_attach_tree:
  assumes t: "avl_tree m p (plug Leaf c)" and x: "x \<notin> ctx_set c"
    and n: "m x = Some n" "an_left n = None" "an_right n = None"
    and sz: "Suc (size (plug Leaf c)) < 2 ^ 32 - 2"
  shows "\<exists>m1 m2 m3 b t'. write_slot m (slot_of c) (Some x) = Some m1 \<and>
    set_parent m1 (Some x) (ctx_ptr c) = Some m2 \<and> avl_fix m2 x = Some (b, m3) \<and>
    avl_tree m3 (Some b) t' \<and> inorder t' = ctx_left c @ x # ctx_right c \<and>
    same_off (insert x (ctx_set c)) m m3"
proof -
  have T: "rep m None (plug Leaf c)" "ctx_ok c" "avl_ctx 0 c"
    using t distinct_plug [of Leaf c] by (auto simp: avl_tree_def avl_plug)
  obtain m1 where m1: "write_slot m (slot_of c) (Some x) = Some m1" "rep_ctx m1 (Some x) c"
    "same_off (ctx_set c) m m1"
    using write_slot_ctx [OF _ T(2)] rep_plug [OF T(1)] by blast
  have x1: "m1 x = Some n" using same_off_at [OF m1(3) x] n(1) by simp
  let ?n = "n\<lparr>an_parent := ctx_ptr c\<rparr>"
  let ?m2 = "m1(x \<mapsto> ?n)"
  have d: "distinct (inorder (plug (Node Leaf x Leaf) c))" using T(2) x by (simp add: distinct_plug)
  have "small (plug (Node Leaf x Leaf) c)" using sz by (simp add: small_def size_plug)
  then obtain m3 b where m3: "avl_fix ?m2 x = Some (b, m3)"
    "root_ptr (fixup (fix_node Leaf x Leaf) c) = Some b" "rep m3 None (fixup (fix_node Leaf x Leaf) c)"
    "same_off (set_tree (Node Leaf x Leaf) \<union> ctx_set c) ?m2 m3"
    using avl_fix_rep [of ?m2 x ?n c Leaf Leaf] n m1(2) x d by auto
  have one: "fix_node Leaf x Leaf = Node Leaf x Leaf" by (simp add: fix_node_def)
  let ?t = "fixup (Node Leaf x Leaf) c"
  have io: "inorder ?t = ctx_left c @ x # ctx_right c" by (simp add: inorder_fixup)
  have "avl ?t" using T(3) by (intro avl_fixup [of _ 0]) auto
  moreover have "distinct (inorder ?t)" using d io by (simp add: inorder_plug)
  moreover have "small ?t"
    using sz arg_cong [OF io, of length] by (simp add: small_def size_plug)
  ultimately have "avl_tree m3 (Some b) ?t" using m3(2,3) one by (simp add: avl_tree_def)
  moreover have "set_parent m1 (Some x) (ctx_ptr c) = Some ?m2" using x1 by (simp add: run_simps)
  moreover have "same_off (insert x (ctx_set c)) m m3"
    using m1(3) m3(4) by (auto simp: same_off_def)
  ultimately show ?thesis using m1(1) m3(1) io by blast
qed


subsection \<open>Ranks\<close>

lemma uint_w32_Suc: "n < 2 ^ 32 - 1 \<Longrightarrow> uint (1 + w32 n) = int (Suc n)"
  by (simp add: w32_Suc)

lemma child_not_sibling: "a \<notin> set_tree s \<Longrightarrow> root_ptr s \<noteq> Some a"
  by (cases s) auto

lemma avl_rank_loop_rep:
  assumes "m a = Some n" "an_parent n = ctx_ptr c" "rep_ctx m (Some a) c" "a \<notin> ctx_set c" "ctx_ok c"
    and "length (ctx_left c) < 2 ^ 32 - 2" "length (ctx_right c) < 2 ^ 32 - 2"
    and "0 \<le> k" "k + int (length (ctx_left c)) < 2 ^ 32"
  shows "avl_rank_loop m a k = Some (k + int (length (ctx_left c)))"
  using assms
proof (induction c arbitrary: a n k rule: ctx_set.induct)
  case 1
  then show ?case by (subst avl_rank_loop.simps) simp
next
  case (2 p s c)
  obtain np where np: "m p = Some np" "an_parent np = ctx_ptr c" "an_left np = Some a"
    "an_right np = root_ptr s" using 2(4) by (auto simp: links_def)
  have "avl_size m (Some a) = Some (ucast (an_size n))" using 2(2) by (simp add: avl_size_def)
  moreover have "avl_rank_loop m p k = Some (k + int (length (ctx_left c)))"
    using 2 np by (intro "2.IH" [of p np]) auto
  ultimately show ?case
    using 2 np child_not_sibling [of a s] by (subst avl_rank_loop.simps) auto
next
  case (3 s p c)
  obtain np where np: "m p = Some np" "an_parent np = ctx_ptr c" "an_right np = Some a"
    "an_left np = root_ptr s" using 3(4) by (auto simp: links_def)
  have "avl_size m (root_ptr s) = Some (w32 (size s))" using 3(4) by (auto intro: avl_size_rep)
  moreover have "avl_rank_loop m p (k + int (Suc (size s))) =
      Some (k + int (Suc (size s)) + int (length (ctx_left c)))"
    using 3 np by (intro "3.IH" [of p np]) auto
  moreover have "s64 (k + uint (1 + w32 (size s))) = Some (k + int (Suc (size s)))"
    using 3 by (simp add: uint_w32_Suc run_simps)
  ultimately show ?case
    using 3 np by (subst avl_rank_loop.simps) auto
qed

lemma plug_node_facts:
  assumes "rep m None (plug (Node l a r) c)" "distinct (inorder (plug (Node l a r) c))"
  shows "m a = Some (node_rec (ctx_ptr c) l r)" "rep m (Some a) l" "rep m (Some a) r"
    and "rep_ctx m (Some a) c" "ctx_ok c" "a \<notin> ctx_set c"
    and "a \<notin> set_tree l" "a \<notin> set_tree r"
  using rep_plug [OF assms(1)] assms(2) distinct_plug [of "Node l a r" c] by auto

lemma avl_rank_plug:
  assumes "rep m None (plug (Node l a r) c)" "distinct (inorder (plug (Node l a r) c))"
    and "small (plug (Node l a r) c)"
  shows "avl_rank m a = Some (int (length (ctx_left c) + size l))"
proof -
  note f = plug_node_facts [OF assms(1,2)]
  have sz: "Suc (size l + size r) + length (ctx_left c) + length (ctx_right c) < 2 ^ 32 - 2"
    using assms(3) by (simp add: small_def size_plug)
  have "avl_rank_loop m a (int (size l)) = Some (int (size l) + int (length (ctx_left c)))"
    using f sz by (intro avl_rank_loop_rep [of m a]) auto
  then show ?thesis
    using f(1) avl_size_rep [OF f(2)] sz by (simp add: avl_rank_def)
qed

lemma nth_plug: "inorder (plug (Node l a r) c) ! (length (ctx_left c) + size l) = a"
  by (simp add: inorder_plug nth_append)

text \<open>A position in the in-order sequence is a node on a path.\<close>

lemma plug_at:
  assumes "i < size t"
  shows "\<exists>l a r c. t = plug (Node l a r) c \<and> a = inorder t ! i \<and> i = length (ctx_left c) + size l"
  using assms
proof (induction t arbitrary: i)
  case (Node l b r)
  consider "i < size l" | "i = size l" | "size l < i" by linarith
  then show ?case
  proof cases
    case 1
    then obtain l' a r' c where z: "l = plug (Node l' a r') c" "a = inorder l ! i"
      "i = length (ctx_left c) + size l'" using Node.IH(1) by blast
    then have "Node l b r = plug (Node l' a r') (c @ [FL b r])" by (simp add: plug_append)
    moreover have "a = inorder (Node l b r) ! i" using z(2) 1 by (simp add: nth_append)
    moreover have "i = length (ctx_left (c @ [FL b r])) + size l'" using z(3) by (simp add: ctx_append)
    ultimately show ?thesis by blast
  next
    case 2
    then have "Node l b r = plug (Node l b r) []" "b = inorder (Node l b r) ! i" "i = length (ctx_left []) + size l"
      by (simp_all add: nth_append)
    then show ?thesis by blast
  next
    case 3
    define j where "j = i - Suc (size l)"
    have ij: "i = size l + Suc j" using 3 by (simp add: j_def)
    then have "j < size r" using Node.prems by simp
    then obtain l' a r' c where z: "r = plug (Node l' a r') c" "a = inorder r ! j"
      "j = length (ctx_left c) + size l'" using Node.IH(2) by blast
    then have "Node l b r = plug (Node l' a r') (c @ [FR l b])" by (simp add: plug_append)
    moreover have "a = inorder (Node l b r) ! i" using z(2) ij by (simp add: nth_append)
    moreover have "i = length (ctx_left (c @ [FR l b])) + size l'" using z(3) ij by (simp add: ctx_append)
    ultimately show ?thesis by blast
  qed
qed simp


subsection \<open>Moving along the order\<close>

text \<open>
  The loop of \<open>avl_offset\<close> at a node: \<open>i0\<close> is the index of the node it started from,
  \<open>J\<close> the index it looks for; \<open>pos\<close> is kept as the difference of the current index to
  \<open>i0\<close>. First the way down, when the node looked for lies in the subtree.
\<close>

lemma avl_offset_down:
  assumes "rep m None (plug (Node l a r) c)" "distinct (inorder (plug (Node l a r) c))"
    and "small (plug (Node l a r) c)"
    and "0 \<le> i0" "i0 < 2 ^ 32" "- (2 ^ 63) \<le> J - i0" "J - i0 < 2 ^ 63"
    and "int (length (ctx_left c)) \<le> J" "J < int (length (ctx_left c) + size (Node l a r))"
  shows "avl_offset_loop m (J - i0) a (int (length (ctx_left c) + size l) - i0) =
    Some (Some (inorder (plug (Node l a r) c) ! nat J))"
  using assms
proof (induction "Node l a r" arbitrary: l a r c rule: tree.induct)
  case (Node l a r)
  note f = plug_node_facts [OF Node.prems(1,2)]
  let ?i = "int (length (ctx_left c) + size l)"
  have sz: "Suc (size l + size r) + length (ctx_left c) + length (ctx_right c) < 2 ^ 32 - 2"
    using Node.prems(3) by (simp add: small_def size_plug)
  have ls: "avl_size m (root_ptr l) = Some (w32 (size l))" "avl_size m (root_ptr r) = Some (w32 (size r))"
    using f by (auto intro: avl_size_rep)
  have e: "s64 (?i - i0 + uint (w32 (size r))) = Some (?i - i0 + int (size r))"
    "s64 (?i - i0 - uint (w32 (size l))) = Some (?i - i0 - int (size l))"
    using sz Node.prems(4,5) by (simp_all add: run_simps)
  consider (here) "J = ?i" | (right) "?i < J" | (left) "J < ?i" by linarith
  then show ?case
  proof cases
    case here
    then have "nat J = length (ctx_left c) + size l" by (simp only: nat_int)
    then show ?thesis
      using here nth_plug [of l a r c] by (subst avl_offset_loop.simps) simp
  next
    case right
    then obtain rl b rr where r: "r = Node rl b rr" using Node.prems(9) by (cases r) auto
    let ?c = "FR l a # c"
    have IH: "avl_offset_loop m (J - i0) b (int (length (ctx_left ?c) + size rl) - i0) =
      Some (Some (inorder (plug (Node rl b rr) ?c) ! nat J))"
      by (rule Node.hyps(2) [OF r]) (use Node.prems right r in auto)
    have "m b = Some (node_rec (Some a) rl rr)" "avl_size m (root_ptr rl) = Some (w32 (size rl))"
      using f(3) r by (auto intro: avl_size_rep)
    moreover have "s64 (?i - i0 + uint (1 + w32 (size rl))) = Some (int (length (ctx_left ?c) + size rl) - i0)"
      using sz r Node.prems(4,5) by (simp add: uint_w32_Suc run_simps)
    ultimately show ?thesis
      using IH f(1) ls e right Node.prems(9) r by (subst avl_offset_loop.simps) auto
  next
    case left
    then obtain ll b lr where l: "l = Node ll b lr" using Node.prems(8) by (cases l) auto
    let ?c = "FL a r # c"
    have IH: "avl_offset_loop m (J - i0) b (int (length (ctx_left ?c) + size ll) - i0) =
      Some (Some (inorder (plug (Node ll b lr) ?c) ! nat J))"
      by (rule Node.hyps(1) [OF l]) (use Node.prems left l in auto)
    have "m b = Some (node_rec (Some a) ll lr)" "avl_size m (root_ptr lr) = Some (w32 (size lr))"
      using f(2) l by (auto intro: avl_size_rep)
    moreover have "s64 (?i - i0 - uint (1 + w32 (size lr))) = Some (int (length (ctx_left ?c) + size ll) - i0)"
      using sz l Node.prems(4,5) by (simp add: uint_w32_Suc run_simps)
    ultimately show ?thesis
      using IH f(1) ls e left Node.prems(8) l by (subst avl_offset_loop.simps) auto
  qed
qed

text \<open>The way up: the node looked for is outside the subtree, or does not exist.\<close>

definition offset_result :: "addr list \<Rightarrow> int \<Rightarrow> ptr" where
  "offset_result xs J = (if 0 \<le> J \<and> J < int (length xs) then Some (xs ! nat J) else None)"

lemma avl_offset_up:
  assumes "rep m None (plug (Node l a r) c)" "distinct (inorder (plug (Node l a r) c))"
    and "small (plug (Node l a r) c)"
    and "0 \<le> i0" "i0 < 2 ^ 32" "- (2 ^ 63) \<le> J - i0" "J - i0 < 2 ^ 63"
  shows "avl_offset_loop m (J - i0) a (int (length (ctx_left c) + size l) - i0) =
    Some (offset_result (inorder (plug (Node l a r) c)) J)"
  using assms
proof (induction c arbitrary: l a r rule: ctx_set.induct)
  case 1
  note f = plug_node_facts [OF 1(1,2)]
  show ?case
  proof (cases "0 \<le> J \<and> J < int (size (Node l a r))")
    case True
    then show ?thesis using avl_offset_down [OF 1] by (simp add: offset_result_def)
  next
    case False
    have "avl_size m (root_ptr l) = Some (w32 (size l))" "avl_size m (root_ptr r) = Some (w32 (size r))"
      using f by (auto intro: avl_size_rep)
    moreover have "s64 (int (size l) - i0 + uint (w32 (size r))) = Some (int (size l) - i0 + int (size r))"
      "s64 (int (size l) - i0 - uint (w32 (size l))) = Some (int (size l) - i0 - int (size l))"
      using 1(3-5) by (simp_all add: small_def run_simps)
    ultimately show ?thesis
      using f(1) False by (subst avl_offset_loop.simps) (auto simp: offset_result_def)
  qed
next
  case (2 p s c)
  let ?c = "FL p s # c"
  note f = plug_node_facts [OF 2(2,3)]
  show ?case
  proof (cases "int (length (ctx_left ?c)) \<le> J \<and> J < int (length (ctx_left ?c) + size (Node l a r))")
    case True
    have "J < int (length (inorder (plug (Node l a r) ?c)))"
      using True by (simp add: size_plug del: plug.simps)
    then show ?thesis
      using avl_offset_down [OF 2(2-8)] True by (simp add: offset_result_def)
  next
    case False
    have sz: "Suc (size l + size r) + length (ctx_left ?c) + length (ctx_right ?c) < 2 ^ 32 - 2"
      using 2(4) unfolding small_def size_plug by simp
    obtain np where np: "m p = Some np" "an_right np = root_ptr s" using f(4) by (auto simp: links_def)
    have ls: "avl_size m (root_ptr l) = Some (w32 (size l))" "avl_size m (root_ptr r) = Some (w32 (size r))"
      using f by (auto intro: avl_size_rep)
    let ?i = "int (length (ctx_left c) + size l)"
    have e: "s64 (?i - i0 + uint (w32 (size r))) = Some (?i - i0 + int (size r))"
      "s64 (?i - i0 - uint (w32 (size l))) = Some (?i - i0 - int (size l))"
      "s64 (?i - i0 + uint (1 + w32 (size r))) = Some (int (length (ctx_left c) + size (Node l a r)) - i0)"
      using sz 2(5,6) by (simp_all add: uint_w32_Suc run_simps)
    have IH: "avl_offset_loop m (J - i0) p (int (length (ctx_left c) + size (Node l a r)) - i0) =
      Some (offset_result (inorder (plug (Node l a r) ?c)) J)"
      using 2(1)[of "Node l a r" p s] 2(2-8) by simp
    then show ?thesis
      using IH f(1,6) np child_not_sibling [of a s] ls e False
      by (subst avl_offset_loop.simps) auto
  qed
next
  case (3 s p c)
  let ?c = "FR s p # c"
  note f = plug_node_facts [OF 3(2,3)]
  show ?case
  proof (cases "int (length (ctx_left ?c)) \<le> J \<and> J < int (length (ctx_left ?c) + size (Node l a r))")
    case True
    have "J < int (length (inorder (plug (Node l a r) ?c)))"
      using True by (simp add: size_plug del: plug.simps)
    then show ?thesis
      using avl_offset_down [OF 3(2-8)] True by (simp add: offset_result_def)
  next
    case False
    have sz: "Suc (size l + size r) + length (ctx_left ?c) + length (ctx_right ?c) < 2 ^ 32 - 2"
      using 3(4) unfolding small_def size_plug by simp
    obtain np where np: "m p = Some np" "an_right np = Some a" using f(4) by (auto simp: links_def)
    have ls: "avl_size m (root_ptr l) = Some (w32 (size l))" "avl_size m (root_ptr r) = Some (w32 (size r))"
      using f by (auto intro: avl_size_rep)
    let ?i = "int (length (ctx_left ?c) + size l)"
    have e: "s64 (?i - i0 + uint (w32 (size r))) = Some (?i - i0 + int (size r))"
      "s64 (?i - i0 - uint (w32 (size l))) = Some (?i - i0 - int (size l))"
      "s64 (?i - i0 - uint (1 + w32 (size l))) = Some (int (length (ctx_left c) + size s) - i0)"
      using sz 3(5,6) by (simp_all add: uint_w32_Suc run_simps)
    have IH: "avl_offset_loop m (J - i0) p (int (length (ctx_left c) + size s) - i0) =
      Some (offset_result (inorder (plug (Node l a r) ?c)) J)"
      using 3(1)[of s p "Node l a r"] 3(2-8) by simp
    then show ?thesis
      using IH f(1) np ls e False
      by (subst avl_offset_loop.simps) auto
  qed
qed


subsection \<open>The tree provides the ordered index\<close>

definition avl_holds :: "avl_mem \<Rightarrow> ptr \<Rightarrow> addr list \<Rightarrow> bool" where
  "avl_holds m p xs \<longleftrightarrow> (\<exists>t. avl_tree m p t \<and> inorder t = xs)"

lemma avl_rank_tree:
  assumes "avl_tree m p t" "i < size t"
  shows "avl_rank m (inorder t ! i) = Some (int i)"
proof -
  obtain l a r c where "t = plug (Node l a r) c" "a = inorder t ! i" "i = length (ctx_left c) + size l"
    using plug_at [OF assms(2)] by blast
  then show ?thesis
    using avl_rank_plug [of m l a r c] assms(1) by (simp add: avl_tree_def)
qed

lemma avl_offset_tree:
  assumes "avl_tree m p t" "i < size t" "- (2 ^ 63) \<le> off" "off < 2 ^ 63"
  shows "avl_offset m (inorder t ! i) off = Some (offset_result (inorder t) (int i + off))"
proof -
  obtain l a r c where t: "t = plug (Node l a r) c" "a = inorder t ! i" "i = length (ctx_left c) + size l"
    using plug_at [OF assms(2)] by blast
  have "rep m None t" "distinct (inorder t)" "small t" using assms(1) by (simp_all add: avl_tree_def)
  moreover from this(3) have "int i < 2 ^ 32" using assms(2) by (simp add: small_def)
  ultimately have "avl_offset_loop m (int i + off - int i) a (int (length (ctx_left c) + size l) - int i) =
      Some (offset_result (inorder t) (int i + off))"
    using avl_offset_up [of m l a r c "int i" "int i + off"] assms(3,4) unfolding t(1) by linarith
  then show ?thesis unfolding t(2,3) [symmetric] by (simp add: avl_offset_def)
qed

interpretation avlx: ordered_index avl_holds avl_del avl_rank avl_offset
proof (unfold_locales, goal_cases)
  case (1 m p xs) then show ?case by (auto simp: avl_holds_def avl_tree_def)
next
  case (2 m p xs)
  then obtain t where "avl_tree m p t" "inorder t = xs" by (auto simp: avl_holds_def)
  then show ?case using length_inorder [of t] by (simp add: avl_tree_def small_def)
next
  case (3 m p xs a)
  then obtain t where t: "avl_tree m p t" "inorder t = xs" by (auto simp: avl_holds_def)
  then have "a \<in> set_tree t" using 3(2) by auto
  then show ?case using avl_del_tree [OF t(1)] t(2) unfolding avl_holds_def by blast
next
  case (4 m p xs i)
  then obtain t where t: "avl_tree m p t" "inorder t = xs" by (auto simp: avl_holds_def)
  then show ?case using avl_rank_tree [OF t(1), of i] 4(2) by auto
next
  case (5 m p xs i off)
  then obtain t where t: "avl_tree m p t" "inorder t = xs" by (auto simp: avl_holds_def)
  then show ?case using avl_offset_tree [OF t(1), of i off] 5(2-4) by (auto simp: offset_result_def)
qed


subsection \<open>The height is logarithmic\<close>

lemma avl_height_size: "avl t \<Longrightarrow> 2 ^ (height t div 2) \<le> size1 t"
proof (induction t rule: measure_induct_rule [of size])
  case (less t)
  show ?case
  proof (cases "height t \<le> 1")
    case True
    then have "height t div 2 = 0" by simp
    then show ?thesis by (simp add: size1_size)
  next
    case False
    then obtain l a r where t: "t = Node l a r" by (cases t) auto
    have IH: "2 ^ (height l div 2) \<le> size1 l" "2 ^ (height r div 2) \<le> size1 r"
      using less.IH [of l] less.IH [of r] less.prems t by auto
    let ?k = "(height t - 2) div 2"
    have "?k \<le> height l div 2" "?k \<le> height r div 2"
      using less.prems t by (auto intro!: div_le_mono)
    then have "2 ^ ?k \<le> size1 l" "2 ^ ?k \<le> size1 r"
      using IH by (meson one_le_numeral order_trans power_increasing)+
    then have "2 ^ Suc ?k \<le> size1 t" using t by simp
    moreover have "height t div 2 = Suc ?k" using False by linarith
    ultimately show ?thesis by metis
  qed
qed

end
