(* ===== verification/AvlSpec.thy ===== *)
theory AvlSpec
  imports AvlRank
begin

text \<open>
  The properties of the intrusive AVL tree: deletion, insertion, rank, offset and the
  height bound, each over every store that represents a balanced tree
  (\<open>avl_holds m p xs\<close>: root \<open>p\<close>, in-order nodes \<open>xs\<close>).
\<close>

subsection \<open>A concrete tree for the witnesses\<close>

definition sample_tree :: "addr tree" where
  "sample_tree = Node (Node Leaf 1 Leaf) 2 (Node Leaf 3 (Node Leaf 4 Leaf))"

definition sample_avl :: avl_mem where
  "sample_avl = [1 \<mapsto> node_rec (Some 2) Leaf Leaf,
     2 \<mapsto> node_rec None (Node Leaf 1 Leaf) (Node Leaf 3 (Node Leaf 4 Leaf)),
     3 \<mapsto> node_rec (Some 2) Leaf (Node Leaf 4 Leaf), 4 \<mapsto> node_rec (Some 3) Leaf Leaf,
     9 \<mapsto> node_rec None Leaf Leaf]"

lemma sample_avl_tree: "avl_tree sample_avl (Some 2) sample_tree"
  by (simp add: avl_tree_def sample_avl_def sample_tree_def small_def)

lemma sample_avl_holds: "avl_holds sample_avl (Some 2) [1, 2, 3, 4]"
  using sample_avl_tree by (auto simp: avl_holds_def sample_tree_def intro!: exI [of _ sample_tree])


subsection \<open>Properties\<close>

text \<open>
  C12. Deleting any node of a balanced tree runs to completion without a null
  dereference or a failed assertion, leaves a balanced tree with correct parent
  pointers, heights and sizes that holds the other nodes in the same order, and
  writes no node outside the tree.
\<close>

theorem avl_del_correct:
  assumes "avl_holds m p xs" and "a \<in> set xs"
  shows "\<exists>p' m'. avl_del m a = Some (p', m') \<and> avl_holds m' p' (remove1 a xs) \<and>
    same_off (set xs) m m'"
proof -
  obtain t where t: "avl_tree m p t" "inorder t = xs" using assms(1) by (auto simp: avl_holds_def)
  then have "a \<in> set_tree t" using assms(2) by auto
  then obtain p' m' t' where "avl_del m a = Some (p', m')" "avl_tree m' p' t'"
    "inorder t' = remove1 a xs" "same_off (set_tree t) m m'"
    using avl_del_tree [OF t(1)] t(2) by blast
  moreover have "set_tree t = set xs" using t(2) by auto
  ultimately show ?thesis unfolding avl_holds_def by metis
qed

theorem avl_del_correct_witness:
  "\<exists>p' m'. avl_del sample_avl 2 = Some (p', m') \<and> avl_holds m' p' [1, 3, 4] \<and>
    same_off {1, 2, 3, 4} sample_avl m'"
  using avl_del_correct [OF sample_avl_holds, of 2] by simp

text \<open>
  C20. Storing a fresh node in an empty child slot of a balanced tree, setting its
  parent and calling \<open>avl_fix\<close> on it (what every insertion does) gives a balanced tree
  with the new node exactly at that place of the order.
\<close>

theorem avl_insert_correct:
  assumes "avl_tree m p (plug Leaf c)" and "x \<notin> ctx_set c"
    and "m x = Some n" and "an_left n = None" and "an_right n = None"
    and "Suc (size (plug Leaf c)) < 2 ^ 32 - 2"
  shows "\<exists>b m'. (do { m1 \<leftarrow> write_slot m (slot_of c) (Some x);
                    m2 \<leftarrow> set_parent m1 (Some x) (ctx_ptr c); avl_fix m2 x }) = Some (b, m') \<and>
    avl_holds m' (Some b) (ctx_left c @ x # ctx_right c) \<and> same_off (insert x (ctx_set c)) m m'"
  using avl_attach_tree [OF assms] unfolding avl_holds_def by auto

theorem avl_insert_correct_witness:
  "\<exists>b m'. (do { m1 \<leftarrow> write_slot sample_avl (RightOf 4) (Some 9);
                m2 \<leftarrow> set_parent m1 (Some 9) (Some 4); avl_fix m2 9 }) = Some (b, m') \<and>
    avl_holds m' (Some b) [1, 2, 3, 4, 9]"
proof -
  let ?c = "[FR Leaf 4, FR Leaf 3, FR (Node Leaf 1 Leaf) 2]"
  have "avl_tree sample_avl (Some 2) (plug Leaf ?c)"
    using sample_avl_tree by (simp add: sample_tree_def)
  then show ?thesis
    using avl_insert_correct [of sample_avl "Some 2" ?c 9 "node_rec None Leaf Leaf"]
    by (auto simp: sample_avl_def)
qed

text \<open>
  \<open>avl_rank\<close> of a node is its index in the order, for every node of the tree.
\<close>

theorem avl_rank_correct:
  assumes "avl_holds m p xs" and "i < length xs"
  shows "avl_rank m (xs ! i) = Some (int i)"
  using avlx.rank_seq [OF assms] .

theorem avl_rank_correct_witness: "avl_rank sample_avl 3 = Some 2"
  using avl_rank_correct [OF sample_avl_holds, of 2] by simp

text \<open>
  C26. \<open>avl_offset\<close> terminates for every node and every 64-bit offset without a signed
  overflow, and returns the node that lies that many places ahead or behind, or the
  null pointer when there is none.
\<close>

theorem avl_offset_correct:
  assumes "avl_holds m p xs" and "i < length xs" and "- (2 ^ 63) \<le> off" and "off < 2 ^ 63"
  shows "avl_offset m (xs ! i) off =
    Some (if 0 \<le> int i + off \<and> int i + off < int (length xs) then Some (xs ! nat (int i + off)) else None)"
  using avlx.offset_seq [OF assms] .

theorem avl_offset_correct_witness:
  "avl_offset sample_avl 1 3 = Some (Some 4) \<and> avl_offset sample_avl 4 (- 2) = Some (Some 2) \<and>
   avl_offset sample_avl 3 2 = Some None"
  using avl_offset_correct [OF sample_avl_holds, of 0 3] avl_offset_correct [OF sample_avl_holds, of 3 "- 2"]
    avl_offset_correct [OF sample_avl_holds, of 2 2] by simp

text \<open>
  Rank and offset are inverse: moving from one node by the difference of the ranks
  reaches the other node.
\<close>

theorem avl_rank_offset:
  assumes "avl_holds m p xs" and "a \<in> set xs" and "b \<in> set xs"
  shows "\<exists>i j. avl_rank m a = Some i \<and> avl_rank m b = Some j \<and> avl_offset m a (j - i) = Some (Some b)"
  using avlx.rank_offset [OF assms] .

theorem avl_rank_offset_witness:
  "\<exists>i j. avl_rank sample_avl 4 = Some i \<and> avl_rank sample_avl 1 = Some j \<and>
    avl_offset sample_avl 4 (j - i) = Some (Some 1)"
  using avl_rank_offset [OF sample_avl_holds, of 4 1] by simp

text \<open>
  The cached height of the root is logarithmic in the number of nodes, so every
  walk along a path, up or down, takes a logarithmic number of steps.
\<close>

theorem avl_height_log:
  assumes "avl_holds m p xs"
  shows "\<exists>h. avl_height m p = Some h \<and> 2 ^ (unat h div 2) \<le> length xs + 1"
proof -
  obtain t where t: "avl_tree m p t" "inorder t = xs" using assms by (auto simp: avl_holds_def)
  then have "avl_height m p = Some (w32 (height t))" using avl_height_rep by (auto simp: avl_tree_def)
  moreover have "height t < 2 ^ 32"
    using t(1) height_le_size [of t] by (simp add: avl_tree_def small_def)
  moreover have "2 ^ (height t div 2) \<le> size t + 1"
    using avl_height_size [of t] t(1) by (simp add: avl_tree_def size1_size)
  ultimately show ?thesis using length_inorder [of t] t(2) by auto
qed

theorem avl_height_log_witness:
  "\<exists>h. avl_height sample_avl (Some 2) = Some h \<and> 2 ^ (unat h div 2) \<le> length [1, 2, 3, 4 :: addr] + 1"
  using avl_height_log [OF sample_avl_holds] .

end
