(* ===== verification/HashTable.thy ===== *)
theory HashTable
  imports Prelude
begin

text \<open>
  The chaining hash table with progressive rehashing of \<open>src/ds/hashtable.cc\<close> and
  \<open>include/byoredis/ds/hashtable.hh\<close>, pointer by pointer. A node lives in the store
  \<open>addr \<rightharpoonup> HNode\<close>; a table is a vector of bucket heads, \<open>None\<close> being the null table. The
  result \<open>None\<close> of an operation is a null dereference, an index outside a table or the
  failed assertion of \<open>h_init\<close>. \<open>calloc\<close> gives zeroed slots (the code does not check it
  for failure); \<open>free\<close> drops the vector. The callbacks are arguments, as in the code.
\<close>

record HNode =
  hn_next :: ptr
  hn_hcode :: u64

record HTab =
  ht_tab :: "ptr list option"
  ht_mask :: u64
  ht_size :: u64

record HMap =
  hm_newer :: HTab
  hm_older :: HTab
  hm_migrate_pos :: u64

type_synonym hn_mem = "addr \<rightharpoonup> HNode"

definition htab_zero :: HTab where
  "htab_zero = \<lparr>ht_tab = None, ht_mask = 0, ht_size = 0\<rparr>"

definition hmap_zero :: HMap where
  "hmap_zero = \<lparr>hm_newer = htab_zero, hm_older = htab_zero, hm_migrate_pos = 0\<rparr>"

definition k_max_load_factor :: u64 where
  "k_max_load_factor = 8"

definition k_rehashing_work :: nat where
  "k_rehashing_work = 128"


subsection \<open>Fixed-size tables\<close>

definition round_up_power_of_2 :: "u64 \<Rightarrow> u64" where
  "round_up_power_of_2 n0 =
     (let n = n0 - 1;
          n = n OR drop_bit 1 n;
          n = n OR drop_bit 2 n;
          n = n OR drop_bit 4 n;
          n = n OR drop_bit 8 n;
          n = n OR drop_bit 16 n;
          n = n OR drop_bit 32 n
      in n + 1)"

definition h_init :: "u64 \<Rightarrow> HTab option" where
  "h_init n0 =
     (let n = round_up_power_of_2 n0 in
      if 0 < n \<and> (n - 1) AND n = 0
      then Some \<lparr>ht_tab = Some (replicate (unat n) None), ht_mask = n - 1, ht_size = 0\<rparr>
      else None)"

definition h_insert :: "hn_mem \<Rightarrow> HTab \<Rightarrow> addr \<Rightarrow> (hn_mem \<times> HTab) option" where
  "h_insert m htab node = do {
     n \<leftarrow> m node;
     tab \<leftarrow> ht_tab htab;
     let pos = unat (hn_hcode n AND ht_mask htab);
     next \<leftarrow> vec_get tab pos;
     m1 \<leftarrow> modify_at m node (\<lambda>k. k\<lparr>hn_next := next\<rparr>);
     tab1 \<leftarrow> vec_set tab pos (Some node);
     Some (m1, htab\<lparr>ht_tab := Some tab1, ht_size := ht_size htab + 1\<rparr>)
   }"

text \<open>
  An incoming pointer (\<open>HNode **\<close>): a bucket head of the table or the \<open>next\<close> field of a node.
\<close>

datatype hslot = Bucket nat | NextOf addr

fun slot_read :: "hn_mem \<Rightarrow> HTab \<Rightarrow> hslot \<Rightarrow> ptr option" where
  "slot_read m htab (Bucket i) = do { tab \<leftarrow> ht_tab htab; vec_get tab i }"
| "slot_read m htab (NextOf a) = map_option hn_next (m a)"

fun slot_write :: "hn_mem \<Rightarrow> HTab \<Rightarrow> hslot \<Rightarrow> ptr \<Rightarrow> (hn_mem \<times> HTab) option" where
  "slot_write m htab (Bucket i) p = do {
     tab \<leftarrow> ht_tab htab; tab1 \<leftarrow> vec_set tab i p; Some (m, htab\<lparr>ht_tab := Some tab1\<rparr>) }"
| "slot_write m htab (NextOf a) p = do {
     m1 \<leftarrow> modify_at m a (\<lambda>k. k\<lparr>hn_next := p\<rparr>); Some (m1, htab) }"

partial_function (option) h_lookup_loop ::
  "hn_mem \<Rightarrow> HTab \<Rightarrow> addr \<Rightarrow> (addr \<Rightarrow> addr \<Rightarrow> bool) \<Rightarrow> hslot \<Rightarrow> hslot option option"
where
  "h_lookup_loop m htab key eq slot = do {
     cur \<leftarrow> slot_read m htab slot;
     (case cur of
        None \<Rightarrow> Some None
      | Some c \<Rightarrow> do {
          n \<leftarrow> m c;
          k \<leftarrow> m key;
          (if hn_hcode n = hn_hcode k \<and> eq c key then Some (Some slot)
           else h_lookup_loop m htab key eq (NextOf c))
        })
   }"

declare h_lookup_loop.simps [code]

definition h_lookup ::
  "hn_mem \<Rightarrow> HTab \<Rightarrow> addr \<Rightarrow> (addr \<Rightarrow> addr \<Rightarrow> bool) \<Rightarrow> hslot option option"
where
  "h_lookup m htab key eq =
     (if ht_tab htab = None then Some None
      else do {
        k \<leftarrow> m key;
        h_lookup_loop m htab key eq (Bucket (unat (hn_hcode k AND ht_mask htab)))
      })"

definition h_detach :: "hn_mem \<Rightarrow> HTab \<Rightarrow> hslot \<Rightarrow> (addr \<times> hn_mem \<times> HTab) option" where
  "h_detach m htab slot = do {
     cur \<leftarrow> slot_read m htab slot;
     node \<leftarrow> cur;
     n \<leftarrow> m node;
     (m1, htab1) \<leftarrow> slot_write m htab slot (hn_next n);
     Some (node, m1, htab1\<lparr>ht_size := ht_size htab1 - 1\<rparr>)
   }"


subsection \<open>The resizable map\<close>

definition hm_trigger_rehashing :: "HMap \<Rightarrow> HMap option" where
  "hm_trigger_rehashing hmap = do {
     newer \<leftarrow> h_init ((ht_mask (hm_newer hmap) + 1) * 2);
     Some \<lparr>hm_newer = newer, hm_older = hm_newer hmap, hm_migrate_pos = 0\<rparr>
   }"

partial_function (option) hm_migrate_loop :: "hn_mem \<Rightarrow> HMap \<Rightarrow> nat \<Rightarrow> (hn_mem \<times> HMap) option" where
  "hm_migrate_loop m hmap nwork =
     (if nwork < k_rehashing_work \<and> 0 < ht_size (hm_older hmap) then do {
        let slot = Bucket (unat (hm_migrate_pos hmap));
        head \<leftarrow> slot_read m (hm_older hmap) slot;
        (case head of
           None \<Rightarrow> hm_migrate_loop m (hmap\<lparr>hm_migrate_pos := hm_migrate_pos hmap + 1\<rparr>) nwork
         | Some _ \<Rightarrow> do {
             (node, m1, older) \<leftarrow> h_detach m (hm_older hmap) slot;
             (m2, newer) \<leftarrow> h_insert m1 (hm_newer hmap) node;
             hm_migrate_loop m2 (hmap\<lparr>hm_newer := newer, hm_older := older\<rparr>) (nwork + 1)
           })
      } else Some (m, hmap))"

declare hm_migrate_loop.simps [code]

definition hm_help_rehashing :: "hn_mem \<Rightarrow> HMap \<Rightarrow> (hn_mem \<times> HMap) option" where
  "hm_help_rehashing m hmap = do {
     (m1, hmap1) \<leftarrow> hm_migrate_loop m hmap 0;
     (if ht_size (hm_older hmap1) = 0 \<and> ht_tab (hm_older hmap1) \<noteq> None
      then Some (m1, hmap1\<lparr>hm_older := htab_zero\<rparr>)
      else Some (m1, hmap1))
   }"

definition hm_lookup ::
  "hn_mem \<Rightarrow> HMap \<Rightarrow> addr \<Rightarrow> (addr \<Rightarrow> addr \<Rightarrow> bool) \<Rightarrow> (ptr \<times> hn_mem \<times> HMap) option"
where
  "hm_lookup m hmap key eq = do {
     (m1, h1) \<leftarrow> hm_help_rehashing m hmap;
     from1 \<leftarrow> h_lookup m1 (hm_newer h1) key eq;
     (case from1 of
        Some slot \<Rightarrow> do { p \<leftarrow> slot_read m1 (hm_newer h1) slot; Some (p, m1, h1) }
      | None \<Rightarrow> do {
          from2 \<leftarrow> h_lookup m1 (hm_older h1) key eq;
          (case from2 of
             Some slot \<Rightarrow> do { p \<leftarrow> slot_read m1 (hm_older h1) slot; Some (p, m1, h1) }
           | None \<Rightarrow> Some (None, m1, h1))
        })
   }"

definition hm_delete ::
  "hn_mem \<Rightarrow> HMap \<Rightarrow> addr \<Rightarrow> (addr \<Rightarrow> addr \<Rightarrow> bool) \<Rightarrow> (ptr \<times> hn_mem \<times> HMap) option"
where
  "hm_delete m hmap key eq = do {
     (m1, h1) \<leftarrow> hm_help_rehashing m hmap;
     from1 \<leftarrow> h_lookup m1 (hm_newer h1) key eq;
     (case from1 of
        Some slot \<Rightarrow> do {
          (node, m2, t) \<leftarrow> h_detach m1 (hm_newer h1) slot;
          Some (Some node, m2, h1\<lparr>hm_newer := t\<rparr>) }
      | None \<Rightarrow> do {
          from2 \<leftarrow> h_lookup m1 (hm_older h1) key eq;
          (case from2 of
             Some slot \<Rightarrow> do {
               (node, m2, t) \<leftarrow> h_detach m1 (hm_older h1) slot;
               Some (Some node, m2, h1\<lparr>hm_older := t\<rparr>) }
           | None \<Rightarrow> Some (None, m1, h1))
        })
   }"

definition hm_insert :: "hn_mem \<Rightarrow> HMap \<Rightarrow> addr \<Rightarrow> (hn_mem \<times> HMap) option" where
  "hm_insert m hmap node = do {
     h0 \<leftarrow> (if ht_tab (hm_newer hmap) = None
            then do { t \<leftarrow> h_init 4; Some (hmap\<lparr>hm_newer := t\<rparr>) } else Some hmap);
     (m1, t) \<leftarrow> h_insert m (hm_newer h0) node;
     let h1 = h0\<lparr>hm_newer := t\<rparr>;
     h2 \<leftarrow> (if ht_tab (hm_older h1) = None \<and>
               (ht_mask (hm_newer h1) + 1) * k_max_load_factor \<le> ht_size (hm_newer h1)
            then hm_trigger_rehashing h1 else Some h1);
     hm_help_rehashing m1 h2
   }"

definition hm_clear :: "HMap \<Rightarrow> HMap" where
  "hm_clear hmap = hmap_zero"

definition hm_size :: "HMap \<Rightarrow> u64" where
  "hm_size hmap = ht_size (hm_newer hmap) + ht_size (hm_older hmap)"


subsection \<open>Iteration\<close>

text \<open>
  The callback gets the node and the state behind its \<open>void *\<close> argument; it reads the
  table at most.
\<close>

partial_function (option) h_foreach_chain ::
  "hn_mem \<Rightarrow> (addr \<Rightarrow> 's \<Rightarrow> bool \<times> 's) \<Rightarrow> ptr \<Rightarrow> 's \<Rightarrow> (bool \<times> 's) option"
where
  "h_foreach_chain m cb node arg =
     (case node of
        None \<Rightarrow> Some (True, arg)
      | Some a \<Rightarrow>
          (let (go, arg1) = cb a arg in
           if \<not> go then Some (False, arg1)
           else do { n \<leftarrow> m a; h_foreach_chain m cb (hn_next n) arg1 }))"

declare h_foreach_chain.simps [code]

partial_function (option) h_foreach_loop ::
  "hn_mem \<Rightarrow> HTab \<Rightarrow> (addr \<Rightarrow> 's \<Rightarrow> bool \<times> 's) \<Rightarrow> u64 \<Rightarrow> 's \<Rightarrow> (bool \<times> 's) option"
where
  "h_foreach_loop m htab cb i arg =
     (if ht_mask htab \<noteq> 0 \<and> i \<le> ht_mask htab then do {
        head \<leftarrow> slot_read m htab (Bucket (unat i));
        (go, arg1) \<leftarrow> h_foreach_chain m cb head arg;
        (if \<not> go then Some (False, arg1) else h_foreach_loop m htab cb (i + 1) arg1)
      } else Some (True, arg))"

declare h_foreach_loop.simps [code]

definition h_foreach ::
  "hn_mem \<Rightarrow> HTab \<Rightarrow> (addr \<Rightarrow> 's \<Rightarrow> bool \<times> 's) \<Rightarrow> 's \<Rightarrow> (bool \<times> 's) option"
where
  "h_foreach m htab cb arg = h_foreach_loop m htab cb 0 arg"

definition hm_foreach ::
  "hn_mem \<Rightarrow> HMap \<Rightarrow> (addr \<Rightarrow> 's \<Rightarrow> bool \<times> 's) \<Rightarrow> 's \<Rightarrow> 's option"
where
  "hm_foreach m hmap cb arg = do {
     (go, arg1) \<leftarrow> h_foreach m (hm_newer hmap) cb arg;
     (if go then do { (_, arg2) \<leftarrow> h_foreach m (hm_older hmap) cb arg1; Some arg2 }
      else Some arg1)
   }"

end
