(* ===== verification/RoundUp.thy ===== *)
theory RoundUp
  imports HashTable
begin

text \<open>
  \<open>round_up_power_of_2\<close> computes the least power of two that is not below its argument:
  after the shifts by 1, 2, 4, \<dots>, 32 every bit below the highest set bit is set.
\<close>

text \<open>\<open>smeared j x y\<close>: every bit of \<open>x\<close> has been spread over the \<open>j\<close> places from its own downwards.\<close>

definition smeared :: "nat \<Rightarrow> u64 \<Rightarrow> u64 \<Rightarrow> bool" where
  "smeared j x y \<longleftrightarrow> (\<forall>i. bit y i \<longleftrightarrow> (\<exists>d<j. bit x (i + d)))"

lemma smeared_start: "smeared 1 x x"
  by (simp add: smeared_def)

lemma smeared_step:
  assumes "smeared j x y"
  shows "smeared (j + j) x (y OR drop_bit j y)"
  unfolding smeared_def
proof (intro allI)
  fix i
  have "(\<exists>d<j + j. bit x (i + d)) \<longleftrightarrow> (\<exists>d<j. bit x (i + d)) \<or> (\<exists>d<j. bit x (j + i + d))"
  proof
    assume "\<exists>d<j + j. bit x (i + d)"
    then obtain d where d: "d < j + j" "bit x (i + d)" by blast
    show "(\<exists>d<j. bit x (i + d)) \<or> (\<exists>d<j. bit x (j + i + d))"
    proof (cases "d < j")
      case False
      then have "d - j < j" "j + i + (d - j) = i + d" using d(1) by auto
      then show ?thesis using d(2) by metis
    qed (use d in blast)
  next
    assume "(\<exists>d<j. bit x (i + d)) \<or> (\<exists>d<j. bit x (j + i + d))"
    then show "\<exists>d<j + j. bit x (i + d)"
      by (metis add.assoc add.commute add_less_mono1 trans_less_add1)
  qed
  then show "bit (y OR drop_bit j y) i \<longleftrightarrow> (\<exists>d<j + j. bit x (i + d))"
    using assms by (simp add: smeared_def bit_simps add.commute)
qed

text \<open>A fully smeared word is a mask.\<close>

lemma smeared_mask:
  assumes s: "smeared 64 x y" and x: "x \<noteq> 0"
  shows "\<exists>k<64. y = mask (Suc k) \<and> 2 ^ k \<le> unat x \<and> unat x < 2 ^ Suc k"
proof -
  define k where "k = Max {i. bit x i}"
  have fin: "finite {i. bit x i}"
    by (rule finite_subset [of _ "{..<64}"]) (auto dest: bit_imp_le_length)
  have ne: "{i. bit x i} \<noteq> {}" using x by (auto simp: bit_eq_iff)
  have k: "bit x k" "\<And>i. bit x i \<Longrightarrow> i \<le> k"
    using Max_in [OF fin ne] Max_ge [OF fin] by (auto simp: k_def)
  then have lt: "k < 64" by (auto dest: bit_imp_le_length)
  have b: "bit y i \<longleftrightarrow> i < Suc k" for i
  proof
    assume "bit y i"
    then obtain d where "bit x (i + d)" using s by (auto simp: smeared_def)
    then show "i < Suc k" using k(2) by fastforce
  next
    assume "i < Suc k"
    then have "k - i < 64" "bit x (i + (k - i))" using k(1) lt by auto
    then show "bit y i" using s unfolding smeared_def by blast
  qed
  have "y = mask (Suc k)" using b lt by (intro bit_word_eqI) (simp add: bit_mask_iff)
  moreover have "take_bit (Suc k) x = x"
    by (rule bit_word_eqI) (use k(2) in \<open>auto simp: bit_simps less_Suc_eq_le\<close>)
  then have "unat x < 2 ^ Suc k"
    by (metis take_bit_nat_less_exp unsigned_take_bit_eq)
  moreover have "2 ^ k \<le> unat x"
  proof (rule ccontr)
    assume "\<not> 2 ^ k \<le> unat x"
    then have "take_bit k (unat x) = unat x" by (simp add: take_bit_nat_eq_self)
    then have "bit (take_bit k (unat x)) k" using k(1) by (simp add: bit_unsigned_iff)
    then show False by (simp add: bit_take_bit_iff)
  qed
  ultimately show ?thesis using lt by blast
qed

lemma round_up_run:
  "\<exists>y. smeared 64 (n - 1) y \<and> round_up_power_of_2 n = y + 1"
proof -
  let ?n0 = "n - 1"
  let ?n1 = "?n0 OR drop_bit 1 ?n0"
  let ?n2 = "?n1 OR drop_bit 2 ?n1"
  let ?n3 = "?n2 OR drop_bit 4 ?n2"
  let ?n4 = "?n3 OR drop_bit 8 ?n3"
  let ?n5 = "?n4 OR drop_bit 16 ?n4"
  let ?n6 = "?n5 OR drop_bit 32 ?n5"
  have "smeared 2 ?n0 ?n1" using smeared_step [OF smeared_start [of ?n0]] by (simp add: numeral_2_eq_2)
  then have "smeared 4 ?n0 ?n2" using smeared_step by fastforce
  then have "smeared 8 ?n0 ?n3" using smeared_step by fastforce
  then have "smeared 16 ?n0 ?n4" using smeared_step by fastforce
  then have "smeared 32 ?n0 ?n5" using smeared_step by fastforce
  then have "smeared 64 ?n0 ?n6" using smeared_step by fastforce
  moreover have "round_up_power_of_2 n = ?n6 + 1" by (simp add: round_up_power_of_2_def Let_def)
  ultimately show ?thesis by blast
qed

lemma unat_mask_Suc: "k < 63 \<Longrightarrow> unat ((mask (Suc k) :: u64) + 1) = 2 ^ Suc k"
proof -
  assume k: "k < 63"
  then have "(2::nat) ^ Suc k < 2 ^ 64" by (intro power_strict_increasing) auto
  moreover have "(mask (Suc k) :: u64) + 1 = w64 (2 ^ Suc k)"
    by (simp add: mask_eq_decr_exp w64_def)
  ultimately show ?thesis by (metis unat_w64)
qed

lemma round_up_least:
  assumes "0 < n" "n \<le> 2 ^ 63"
  shows "\<exists>k\<le>63. unat (round_up_power_of_2 n) = 2 ^ k \<and> unat n \<le> 2 ^ k \<and> 2 ^ k < 2 * unat n"
proof -
  obtain y where y: "smeared 64 (n - 1) y" "round_up_power_of_2 n = y + 1"
    using round_up_run by blast
  have un: "unat (n - 1) = unat n - 1" "0 < unat n"
    using assms(1) by (metis unat_minus_one word_gt_0, simp add: word_less_nat_alt)
  show ?thesis
  proof (cases "n - 1 = 0")
    case True
    then have "smeared 64 0 y" using y(1) by simp
    then have "y = 0" by (simp add: smeared_def bit_eq_iff)
    moreover have "n = 1" using True by simp
    ultimately show ?thesis using y(2) by (intro exI [of _ 0]) simp
  next
    case False
    then obtain k where k: "y = mask (Suc k)" "2 ^ k \<le> unat (n - 1)" "unat (n - 1) < 2 ^ Suc k"
      using smeared_mask [OF y(1)] by blast
    have "unat n \<le> 2 ^ 63" using assms(2) by (simp add: word_le_nat_alt)
    then have "(2::nat) ^ k < 2 ^ 63" using k(2) un by linarith
    then have "k < 63" by (rule power_less_imp_less_exp [rotated]) simp
    then have "unat (round_up_power_of_2 n) = 2 ^ Suc k"
      using y(2) k(1) unat_mask_Suc by simp
    moreover have "unat n \<le> 2 ^ Suc k" "2 ^ Suc k < 2 * unat n" using k(2,3) un by simp_all
    ultimately show ?thesis using \<open>k < 63\<close> by (intro exI [of _ "Suc k"]) simp
  qed
qed

text \<open>On a power of two it is the identity, so \<open>h_init\<close> passes its assertion.\<close>

lemma round_up_exact:
  assumes "k \<le> 63"
  shows "round_up_power_of_2 (w64 (2 ^ k)) = w64 (2 ^ k)"
proof -
  have lt: "(2::nat) ^ k < 2 ^ 64" using assms by (intro power_strict_increasing) auto
  then have u: "unat (w64 (2 ^ k)) = 2 ^ k" by simp
  then have "0 < w64 (2 ^ k)" by (simp add: word_less_nat_alt)
  moreover have "(2::nat) ^ k \<le> 2 ^ 63" using assms by (intro power_increasing) auto
  then have "w64 (2 ^ k) \<le> 2 ^ 63" using u by (simp add: word_le_nat_alt)
  ultimately obtain j where j: "unat (round_up_power_of_2 (w64 (2 ^ k))) = 2 ^ j" "(2::nat) ^ k \<le> 2 ^ j"
    "(2::nat) ^ j < 2 * 2 ^ k"
    using round_up_least u by metis
  then have "k \<le> j" "j < Suc k" using power_strict_increasing_iff [of 2 j "Suc k"] by (auto simp del: power_Suc simp: power_Suc [symmetric])
  then have "j = k" by simp
  then show ?thesis using j(1) u by (metis word_unat_eq_iff)
qed

lemma h_init_power:
  assumes "k \<le> 63"
  shows "h_init (w64 (2 ^ k)) =
    Some \<lparr>ht_tab = Some (replicate (2 ^ k) None), ht_mask = w64 (2 ^ k) - 1, ht_size = 0\<rparr>"
proof -
  have lt: "(2::nat) ^ k < 2 ^ 64" using assms by (intro power_strict_increasing) auto
  then have u: "unat (w64 (2 ^ k)) = 2 ^ k" by simp
  have "0 < w64 (2 ^ k)" using u by (simp add: word_less_nat_alt)
  moreover have "w64 (2 ^ k) = 2 ^ k" by (simp add: w64_def)
  then have "w64 (2 ^ k) - 1 = mask k" by (simp add: mask_eq_decr_exp)
  then have "(w64 (2 ^ k) - 1) AND w64 (2 ^ k) = 0"
    using \<open>w64 (2 ^ k) = 2 ^ k\<close> by (intro bit_word_eqI) (auto simp: bit_simps bit_exp_iff)
  ultimately show ?thesis using round_up_exact [OF assms] u by (simp add: h_init_def)
qed

end
