(* ===== verification/HashProofs.thy ===== *)
theory HashProofs
  imports RoundUp
begin

text \<open>
  The pointer code of the hash table against buckets as lists. \<open>chain m p xs\<close> says that
  following \<open>next\<close> from \<open>p\<close> runs through \<open>xs\<close>; \<open>htab_rep m t bss\<close> that the table \<open>t\<close> has the
  buckets \<open>bss\<close> (the null table has none), with every node in the bucket of its hash,
  no node twice and the size right.
\<close>

subsection \<open>Chains\<close>

primrec chain :: "hn_mem \<Rightarrow> ptr \<Rightarrow> addr list \<Rightarrow> bool" where
  "chain m p [] \<longleftrightarrow> p = None"
| "chain m p (x # xs) \<longleftrightarrow> p = Some x \<and> (\<exists>n. m x = Some n \<and> chain m (hn_next n) xs)"

lemma chain_cong: "(\<And>x. x \<in> set xs \<Longrightarrow> m' x = m x) \<Longrightarrow> chain m' p xs \<longleftrightarrow> chain m p xs"
  by (induction xs arbitrary: p) auto

lemma chain_nil [simp]: "chain m None xs \<longleftrightarrow> xs = []"
  by (cases xs) auto

lemma chain_unlink:
  assumes "chain m p (ys @ c # zs)" "distinct (ys @ c # zs)" "ys \<noteq> []"
    "m (last ys) = Some l" "m c = Some n"
  shows "chain (m(last ys \<mapsto> l\<lparr>hn_next := hn_next n\<rparr>)) p (ys @ zs)"
  using assms
proof (induction ys arbitrary: p)
  case (Cons y ys)
  show ?case
  proof (cases "ys = []")
    case True
    let ?m' = "m(y \<mapsto> l\<lparr>hn_next := hn_next n\<rparr>)"
    have c: "chain m (hn_next n) zs" "y \<notin> set zs" using True Cons.prems by auto
    have "chain ?m' (hn_next n) zs = chain m (hn_next n) zs"
      using c(2) by (intro chain_cong) auto
    then show ?thesis using True Cons.prems c(1) by (simp del: fun_upd_apply add: fun_upd_same)
  next
    case False
    then have "y \<noteq> last ys" using Cons.prems(2) by (auto simp: last_in_set)
    then show ?thesis using False Cons by auto
  qed
qed simp

text \<open>What the operations may write: the \<open>next\<close> fields of the nodes of a set.\<close>

definition next_frame :: "addr set \<Rightarrow> hn_mem \<Rightarrow> hn_mem \<Rightarrow> bool" where
  "next_frame S m m' \<longleftrightarrow> (\<forall>y. y \<notin> S \<longrightarrow> m' y = m y) \<and>
     (\<forall>y. map_option hn_hcode (m' y) = map_option hn_hcode (m y))"

lemma next_frame_refl [simp]: "next_frame S m m"
  by (simp add: next_frame_def)

lemma next_frame_trans: "next_frame S m m' \<Longrightarrow> next_frame S m' m'' \<Longrightarrow> next_frame S m m''"
  by (simp add: next_frame_def)

lemma next_frame_mono: "next_frame S m m' \<Longrightarrow> S \<subseteq> T \<Longrightarrow> next_frame T m m'"
  by (auto simp: next_frame_def)

lemma next_frame_write:
  "m a = Some n \<Longrightarrow> a \<in> S \<Longrightarrow> next_frame S m (m(a \<mapsto> n\<lparr>hn_next := p\<rparr>))"
  by (auto simp: next_frame_def)

lemma next_frame_alloc: "next_frame S m m' \<Longrightarrow> m' y = None \<longleftrightarrow> m y = None"
  unfolding next_frame_def by (metis map_option_is_None)

definition hcode_is :: "hn_mem \<Rightarrow> addr \<Rightarrow> u64 \<Rightarrow> bool" where
  "hcode_is m x h \<longleftrightarrow> map_option hn_hcode (m x) = Some h"

lemma hcode_is_frame: "next_frame S m m' \<Longrightarrow> hcode_is m' x h = hcode_is m x h"
  by (simp add: hcode_is_def next_frame_def)

text \<open>Which node a lookup is after: the same hash code and the callback says yes.\<close>

definition hits :: "hn_mem \<Rightarrow> addr \<Rightarrow> (addr \<Rightarrow> addr \<Rightarrow> bool) \<Rightarrow> addr \<Rightarrow> bool" where
  "hits m key eq x \<longleftrightarrow> map_option hn_hcode (m x) = map_option hn_hcode (m key) \<and> eq x key"

lemma hits_frame: "next_frame S m m' \<Longrightarrow> hits m' key eq x = hits m key eq x"
  by (simp add: hits_def next_frame_def)


subsection \<open>Tables\<close>

definition bucket_ok :: "hn_mem \<Rightarrow> u64 \<Rightarrow> nat \<Rightarrow> addr list \<Rightarrow> bool" where
  "bucket_ok m msk i xs \<longleftrightarrow> (\<forall>x\<in>set xs. \<exists>h. hcode_is m x h \<and> unat (h AND msk) = i)"

definition buckets :: "hn_mem \<Rightarrow> ptr list \<Rightarrow> u64 \<Rightarrow> addr list list \<Rightarrow> bool" where
  "buckets m tab msk bss \<longleftrightarrow> length tab = length bss \<and>
     (\<forall>i<length bss. chain m (tab ! i) (bss ! i) \<and> bucket_ok m msk i (bss ! i))"

definition htab_rep :: "hn_mem \<Rightarrow> HTab \<Rightarrow> addr list list \<Rightarrow> bool" where
  "htab_rep m t bss \<longleftrightarrow>
     (if bss = [] then t = htab_zero
      else \<exists>tab k. t = \<lparr>ht_tab = Some tab, ht_mask = w64 (2 ^ k) - 1, ht_size = w64 (length (concat bss))\<rparr> \<and>
        length bss = 2 ^ k \<and> 2 \<le> k \<and> k \<le> 60 \<and> buckets m tab (w64 (2 ^ k) - 1) bss \<and>
        distinct (concat bss) \<and> length (concat bss) < 2 ^ 62)"

lemma bucket_ok_frame: "next_frame S m m' \<Longrightarrow> bucket_ok m' msk i xs = bucket_ok m msk i xs"
  by (simp add: bucket_ok_def hcode_is_frame)

lemma in_bucket: "i < length bss \<Longrightarrow> x \<in> set (bss ! i) \<Longrightarrow> x \<in> set (concat bss)"
  by auto

lemma in_some_bucket: "x \<in> set (concat bss) \<Longrightarrow> \<exists>i<length bss. x \<in> set (bss ! i)"
  by (metis in_set_conv_nth set_concat UN_E)

lemma htab_rep_frame:
  assumes "htab_rep m t bss" "next_frame S m m'" "S \<inter> set (concat bss) = {}"
  shows "htab_rep m' t bss"
proof -
  have eq: "m' x = m x" if "i < length bss" "x \<in> set (bss ! i)" for i x
    using assms(2,3) that unfolding next_frame_def by (metis in_bucket disjoint_iff)
  have "chain m' p (bss ! i) = chain m p (bss ! i)" if "i < length bss" for i p
    using eq [OF that] by (rule chain_cong)
  then have "buckets m' tab msk bss = buckets m tab msk bss" for tab msk
    by (simp add: buckets_def bucket_ok_frame [OF assms(2)])
  then show ?thesis using assms(1) by (simp only: htab_rep_def)
qed


text \<open>Replacing one bucket.\<close>

lemma concat_split:
  assumes "i < length bss"
  shows "concat bss = concat (take i bss) @ bss ! i @ concat (drop (Suc i) bss)"
    and "concat (bss[i := ys]) = concat (take i bss) @ ys @ concat (drop (Suc i) bss)"
proof -
  show "concat bss = concat (take i bss) @ bss ! i @ concat (drop (Suc i) bss)"
    using id_take_nth_drop [OF assms] by (metis concat.simps(2) concat_append)
  show "concat (bss[i := ys]) = concat (take i bss) @ ys @ concat (drop (Suc i) bss)"
    using assms by (simp add: upd_conv_take_nth_drop)
qed

lemma other_bucket:
  assumes "distinct (concat bss)" "i < length bss" "j < length bss" "i \<noteq> j" "x \<in> set (bss ! i)"
  shows "x \<notin> set (bss ! j)"
proof -
  have "\<And>i j. i < j \<Longrightarrow> j < length bss \<Longrightarrow> set (bss ! i) \<inter> set (bss ! j) = {}"
  proof -
    fix i j assume ij: "i < j" "j < length bss"
    then have "bss ! i \<in> set (take j bss)"
      by (metis in_set_conv_nth length_take min.absorb4 nth_take)
    then show "set (bss ! i) \<inter> set (bss ! j) = {}"
      using assms(1) concat_split(1) [OF ij(2)] by auto
  qed
  then show ?thesis using assms by (metis disjoint_iff nat_neq_iff)
qed

lemma buckets_update:
  assumes "buckets m tab msk bss" "i < length bss"
    and "\<And>j. j < length bss \<Longrightarrow> j \<noteq> i \<Longrightarrow> (\<forall>x\<in>set (bss ! j). x \<notin> S)"
    and "next_frame S m m'" "chain m' p ys" "bucket_ok m msk i ys"
  shows "buckets m' (tab[i := p]) msk (bss[i := ys])"
  unfolding buckets_def
proof (intro conjI allI impI)
  fix j assume j: "j < length (bss[i := ys])"
  have "chain m' (tab ! j) (bss ! j) = chain m (tab ! j) (bss ! j)" if "j \<noteq> i"
    using assms(3,4) j that by (intro chain_cong) (auto simp: next_frame_def)
  then show "chain m' (tab[i := p] ! j) (bss[i := ys] ! j)"
    using assms(1,2,5) j by (auto simp: buckets_def nth_list_update)
  show "bucket_ok m' msk j (bss[i := ys] ! j)"
    using assms(1,2,6) j by (auto simp: buckets_def nth_list_update bucket_ok_frame [OF assms(4)])
qed (use assms(1) in \<open>simp add: buckets_def\<close>)

lemma unat_and_mask: "k \<le> 60 \<Longrightarrow> unat (h AND (w64 (2 ^ k) - 1)) < 2 ^ k"
proof -
  assume "k \<le> 60"
  then have "(2::nat) ^ k < 2 ^ 64" by (intro power_strict_increasing) auto
  then have "unat (w64 (2 ^ k)) = 2 ^ k" by simp
  then have "unat (w64 (2 ^ k) - 1) = 2 ^ k - 1" by (subst unat_minus_one) auto
  moreover have "h AND (w64 (2 ^ k) - 1) \<le> w64 (2 ^ k) - 1" by (rule word_and_le1)
  ultimately have "unat (h AND (w64 (2 ^ k) - 1)) \<le> 2 ^ k - 1" by (simp add: word_le_nat_alt)
  then show ?thesis by (simp add: less_eq_Suc_le le_diff_conv2)
qed

lemma htab_repE:
  assumes "htab_rep m t bss" "bss \<noteq> []"
  obtains tab k where "t = \<lparr>ht_tab = Some tab, ht_mask = w64 (2 ^ k) - 1, ht_size = w64 (length (concat bss))\<rparr>"
    "length bss = 2 ^ k" "2 \<le> k" "k \<le> 60" "buckets m tab (w64 (2 ^ k) - 1) bss"
    "distinct (concat bss)" "length (concat bss) < 2 ^ 62"
  using assms unfolding htab_rep_def by meson

lemma htab_repI:
  assumes "length bss = 2 ^ k" "2 \<le> k" "k \<le> 60" "buckets m tab (w64 (2 ^ k) - 1) bss"
    "distinct (concat bss)" "length (concat bss) < 2 ^ 62"
  shows "htab_rep m \<lparr>ht_tab = Some tab, ht_mask = w64 (2 ^ k) - 1, ht_size = w64 (length (concat bss))\<rparr> bss"
proof -
  have "bss \<noteq> []" using assms(1) by auto
  then show ?thesis
    unfolding htab_rep_def if_not_P [OF \<open>bss \<noteq> []\<close>] using assms by blast
qed

lemma h_insert_rep:
  assumes "htab_rep m t bss" "bss \<noteq> []" "m x = Some n" "x \<notin> set (concat bss)"
    "Suc (length (concat bss)) < 2 ^ 62"
  shows "\<exists>m' t' bss'. h_insert m t x = Some (m', t') \<and> htab_rep m' t' bss' \<and>
    length bss' = length bss \<and> mset (concat bss') = add_mset x (mset (concat bss)) \<and>
    next_frame {x} m m'"
proof -
  obtain tab k where r: "t = \<lparr>ht_tab = Some tab, ht_mask = w64 (2 ^ k) - 1, ht_size = w64 (length (concat bss))\<rparr>"
    "length bss = 2 ^ k" "2 \<le> k" "k \<le> 60" "buckets m tab (w64 (2 ^ k) - 1) bss"
    "distinct (concat bss)" "length (concat bss) < 2 ^ 62"
    using htab_repE [OF assms(1,2)] by blast
  define i where "i = unat (hn_hcode n AND (w64 (2 ^ k) - 1))"
  define bss' where "bss' = bss[i := x # bss ! i]"
  define m' where "m' = m(x \<mapsto> n\<lparr>hn_next := tab ! i\<rparr>)"
  have i: "i < length bss" "i < length tab"
    using unat_and_mask [OF r(4)] r(2,5) by (simp_all add: i_def buckets_def)
  have fr: "next_frame {x} m m'" unfolding m'_def using assms(3) by (intro next_frame_write) auto
  have "chain m (tab ! i) (bss ! i)" "bucket_ok m (w64 (2 ^ k) - 1) i (bss ! i)"
    using r(5) i(1) by (auto simp: buckets_def)
  moreover have "x \<notin> set (bss ! i)" using in_bucket [OF i(1)] assms(4) by blast
  moreover from this have "chain m' p (bss ! i) = chain m p (bss ! i)" for p
    by (intro chain_cong) (auto simp: m'_def)
  moreover have "m' x = Some (n\<lparr>hn_next := tab ! i\<rparr>)" by (simp add: m'_def)
  moreover have "hcode_is m x (hn_hcode n)" using assms(3) by (simp add: hcode_is_def)
  ultimately have "chain m' (Some x) (x # bss ! i)" "bucket_ok m (w64 (2 ^ k) - 1) i (x # bss ! i)"
    unfolding bucket_ok_def i_def by auto
  then have "buckets m' (tab[i := Some x]) (w64 (2 ^ k) - 1) bss'"
    unfolding bss'_def using in_bucket [of _ bss x] assms(4)
    by (intro buckets_update [OF r(5) i(1) _ fr]) blast+
  moreover have ms: "mset (concat bss') = add_mset x (mset (concat bss))"
    unfolding bss'_def using concat_split [OF i(1)] by simp
  moreover have "distinct (concat bss')"
    using r(6) assms(4) concat_split [OF i(1)] unfolding bss'_def by auto
  moreover have len: "length (concat bss') = Suc (length (concat bss))"
    using ms by (metis size_add_mset size_mset)
  moreover have "length bss' = 2 ^ k" using r(2) by (simp add: bss'_def)
  ultimately have "htab_rep m' \<lparr>ht_tab = Some (tab[i := Some x]), ht_mask = w64 (2 ^ k) - 1,
      ht_size = w64 (length (concat bss'))\<rparr> bss'"
    using r(3,4) assms(5) by (intro htab_repI) simp_all
  moreover have "h_insert m t x = Some (m', \<lparr>ht_tab = Some (tab[i := Some x]), ht_mask = w64 (2 ^ k) - 1,
      ht_size = w64 (length (concat bss'))\<rparr>)"
    using assms(3) r(1) i len by (simp add: h_insert_def run_simps i_def m'_def w64_Suc Let_def)
  ultimately show ?thesis using ms fr by (auto simp: bss'_def)
qed


subsection \<open>Lookup and detaching\<close>

text \<open>The incoming pointer of the node that follows the nodes \<open>ys\<close> of a chain.\<close>

definition slot_after :: "hslot \<Rightarrow> addr list \<Rightarrow> hslot" where
  "slot_after s ys = (if ys = [] then s else NextOf (last ys))"

lemma slot_after_read:
  assumes "slot_read m t s = Some p" "chain m p (ys @ zs)"
  shows "\<exists>q. slot_read m t (slot_after s ys) = Some q \<and> chain m q zs"
  using assms
proof (induction ys arbitrary: p s)
  case (Cons y ys)
  then obtain n where "m y = Some n" "chain m (hn_next n) (ys @ zs)" by auto
  then show ?case using Cons.IH [of "NextOf y" "hn_next n"] by (auto simp: slot_after_def)
qed (simp add: slot_after_def)

lemma h_lookup_loop_rep:
  assumes "slot_read m t s = Some p" "chain m p xs" "m key = Some k"
  shows "\<exists>r. h_lookup_loop m t key eq s = Some r \<and>
    (case r of None \<Rightarrow> \<forall>x\<in>set xs. \<not> hits m key eq x
     | Some s' \<Rightarrow> \<exists>ys c zs. xs = ys @ c # zs \<and> hits m key eq c \<and> s' = slot_after s ys)"
  using assms(1,2)
proof (induction xs arbitrary: p s)
  case Nil
  then show ?case by (subst h_lookup_loop.simps) simp
next
  case (Cons x xs)
  then obtain n where n: "p = Some x" "m x = Some n" "chain m (hn_next n) xs" by auto
  show ?case
  proof (cases "hits m key eq x")
    case True
    then have "hn_hcode n = hn_hcode k \<and> eq x key" using n(2) assms(3) by (simp add: hits_def)
    then have "h_lookup_loop m t key eq s = Some (Some s)"
      using Cons.prems(1) n assms(3) by (subst h_lookup_loop.simps) simp
    moreover have "s = slot_after s []" by (simp add: slot_after_def)
    ultimately show ?thesis
      using True by (intro exI [of _ "Some s"]) (simp, metis append_Nil)
  next
    case False
    then have "\<not> (hn_hcode n = hn_hcode k \<and> eq x key)" using n(2) assms(3) by (simp add: hits_def)
    then have step: "h_lookup_loop m t key eq s = h_lookup_loop m t key eq (NextOf x)"
      using Cons.prems(1) n assms(3) by (subst h_lookup_loop.simps) auto
    obtain r where r: "h_lookup_loop m t key eq (NextOf x) = Some r"
      "case r of None \<Rightarrow> \<forall>x\<in>set xs. \<not> hits m key eq x
       | Some s' \<Rightarrow> \<exists>ys c zs. xs = ys @ c # zs \<and> hits m key eq c \<and> s' = slot_after (NextOf x) ys"
      using Cons.IH [of "NextOf x" "hn_next n"] n by auto
    show ?thesis
    proof (cases r)
      case None
      then show ?thesis using r step False by auto
    next
      case (Some s')
      then obtain ys c zs where "xs = ys @ c # zs" "hits m key eq c" "s' = slot_after (NextOf x) ys"
        using r(2) by auto
      then have "x # xs = (x # ys) @ c # zs \<and> hits m key eq c \<and> s' = slot_after s (x # ys)"
        by (simp add: slot_after_def)
      then have "\<exists>ys c zs. x # xs = ys @ c # zs \<and> hits m key eq c \<and> s' = slot_after s ys"
        by blast
      then show ?thesis using r(1) step Some by (intro exI [of _ "Some s'"]) simp
    qed
  qed
qed

definition found :: "hn_mem \<Rightarrow> addr \<Rightarrow> (addr \<Rightarrow> addr \<Rightarrow> bool) \<Rightarrow> addr list list \<Rightarrow> hslot \<Rightarrow> addr \<Rightarrow> bool" where
  "found m key eq bss slot c \<longleftrightarrow> hits m key eq c \<and>
     (\<exists>i ys zs. i < length bss \<and> bss ! i = ys @ c # zs \<and> slot = slot_after (Bucket i) ys)"

lemma h_lookup_rep:
  assumes "htab_rep m t bss" "m key = Some k"
  shows "(h_lookup m t key eq = Some None \<and> (\<forall>x\<in>set (concat bss). \<not> hits m key eq x)) \<or>
    (\<exists>slot c. h_lookup m t key eq = Some (Some slot) \<and> found m key eq bss slot c)"
proof (cases "bss = []")
  case True
  then show ?thesis using assms(1) by (simp add: htab_rep_def h_lookup_def htab_zero_def)
next
  case False
  then obtain tab j where r: "t = \<lparr>ht_tab = Some tab, ht_mask = w64 (2 ^ j) - 1, ht_size = w64 (length (concat bss))\<rparr>"
    "length bss = 2 ^ j" "j \<le> 60" "buckets m tab (w64 (2 ^ j) - 1) bss"
    using htab_repE [OF assms(1)] by metis
  define i where "i = unat (hn_hcode k AND (w64 (2 ^ j) - 1))"
  have i: "i < length bss" "i < length tab"
    using unat_and_mask [OF r(3)] r(2,4) by (simp_all add: i_def buckets_def)
  then have "slot_read m t (Bucket i) = Some (tab ! i)" "chain m (tab ! i) (bss ! i)"
    using r(1,4) by (auto simp: run_simps buckets_def)
  then obtain res where res: "h_lookup_loop m t key eq (Bucket i) = Some res"
    "case res of None \<Rightarrow> \<forall>x\<in>set (bss ! i). \<not> hits m key eq x
     | Some s' \<Rightarrow> \<exists>ys c zs. bss ! i = ys @ c # zs \<and> hits m key eq c \<and> s' = slot_after (Bucket i) ys"
    using h_lookup_loop_rep [of m t "Bucket i" "tab ! i" "bss ! i" key k eq] assms(2) by blast
  have h: "h_lookup m t key eq = Some res"
    using res(1) r(1) assms(2) by (simp add: h_lookup_def i_def)
  show ?thesis
  proof (cases res)
    case None
    have "\<not> hits m key eq x" if x: "x \<in> set (concat bss)" for x
    proof
      assume hit: "hits m key eq x"
      obtain l where l: "l < length bss" "x \<in> set (bss ! l)" using in_some_bucket [OF x] by blast
      then obtain hc where "hcode_is m x hc" "unat (hc AND (w64 (2 ^ j) - 1)) = l"
        using r(4) unfolding buckets_def bucket_ok_def by blast
      then have "l = i" using hit assms(2) by (auto simp: hits_def hcode_is_def i_def)
      then show False using hit l(2) res(2) None by auto
    qed
    then show ?thesis using h None by blast
  next
    case (Some s')
    then show ?thesis using h res(2) i(1) unfolding found_def by auto
  qed
qed

lemma found_node: "found m key eq bss slot c \<Longrightarrow> hits m key eq c \<and> c \<in> set (concat bss)"
  unfolding found_def using in_bucket [where x = c and bss = bss] by force

lemma found_read:
  assumes "htab_rep m t bss" "found m key eq bss slot c"
  shows "slot_read m t slot = Some (Some c)"
proof -
  obtain i ys zs where i: "i < length bss" "bss ! i = ys @ c # zs" "slot = slot_after (Bucket i) ys"
    using assms(2) by (auto simp: found_def)
  then have "bss \<noteq> []" by auto
  then obtain tab k where r: "t = \<lparr>ht_tab = Some tab, ht_mask = w64 (2 ^ k) - 1, ht_size = w64 (length (concat bss))\<rparr>"
    "buckets m tab (w64 (2 ^ k) - 1) bss" using htab_repE [OF assms(1)] by metis
  then have "slot_read m t (Bucket i) = Some (tab ! i)" "chain m (tab ! i) (ys @ c # zs)"
    using i by (auto simp: run_simps buckets_def)
  then obtain q where "slot_read m t slot = Some q" "chain m q (c # zs)"
    using slot_after_read i(3) by blast
  then show ?thesis by simp
qed

lemma slot_write_rep:
  assumes "tab = tb" "length tab = length bss" "i < length bss" "chain m (tab ! i) (ys @ c # zs)"
    "distinct (ys @ c # zs)" "m c = Some n"
  shows "\<exists>m' p. slot_write m \<lparr>ht_tab = Some tab, ht_mask = msk, ht_size = sz\<rparr> (slot_after (Bucket i) ys) (hn_next n) =
      Some (m', \<lparr>ht_tab = Some (tab[i := p]), ht_mask = msk, ht_size = sz\<rparr>) \<and>
    chain m' p (ys @ zs) \<and> next_frame (set ys) m m'"
proof (cases "ys = []")
  case True
  then show ?thesis using assms by (auto simp: slot_after_def run_simps)
next
  case False
  have "\<exists>l. m (last ys) = Some l"
  proof -
    obtain n' where "chain m n' (c # zs)" "slot_read m \<lparr>ht_tab = Some tab, ht_mask = msk, ht_size = sz\<rparr> (slot_after (Bucket i) ys) = Some n'"
      using slot_after_read [of m "\<lparr>ht_tab = Some tab, ht_mask = msk, ht_size = sz\<rparr>" "Bucket i" "tab ! i" ys "c # zs"]
        assms(2,3,4) by (auto simp: run_simps)
    then show ?thesis using False by (auto simp: slot_after_def)
  qed
  then obtain l where l: "m (last ys) = Some l" by blast
  have "chain (m(last ys \<mapsto> l\<lparr>hn_next := hn_next n\<rparr>)) (tab ! i) (ys @ zs)"
    by (rule chain_unlink) (use assms False l in auto)
  moreover have "next_frame (set ys) m (m(last ys \<mapsto> l\<lparr>hn_next := hn_next n\<rparr>))"
    using l False by (intro next_frame_write) auto
  moreover have "slot_write m \<lparr>ht_tab = Some tab, ht_mask = msk, ht_size = sz\<rparr> (slot_after (Bucket i) ys) (hn_next n) =
      Some (m(last ys \<mapsto> l\<lparr>hn_next := hn_next n\<rparr>), \<lparr>ht_tab = Some (tab[i := tab ! i]), ht_mask = msk, ht_size = sz\<rparr>)"
    using False l by (simp add: slot_after_def run_simps)
  ultimately show ?thesis by blast
qed


lemma w64_pred: "w64 (Suc n) - 1 = w64 n"
  by (simp add: w64_def)

lemma mset_detach:
  assumes "i < length bss" "bss ! i = ys @ c # zs"
  shows "mset (concat bss) = add_mset c (mset (concat (bss[i := ys @ zs])))"
  using concat_split [OF assms(1)] assms(2) by simp

text \<open>Detaching a found node takes exactly this node out of its bucket.\<close>

lemma h_detach_rep:
  assumes "htab_rep m t bss" "i < length bss" "bss ! i = ys @ c # zs"
  shows "\<exists>m' t'. h_detach m t (slot_after (Bucket i) ys) = Some (c, m', t') \<and>
    htab_rep m' t' (bss[i := ys @ zs]) \<and> next_frame (set ys) m m'"
proof -
  have "bss \<noteq> []" using assms(2) by auto
  then obtain tab k where r: "t = \<lparr>ht_tab = Some tab, ht_mask = w64 (2 ^ k) - 1, ht_size = w64 (length (concat bss))\<rparr>"
    "length bss = 2 ^ k" "2 \<le> k" "k \<le> 60" "buckets m tab (w64 (2 ^ k) - 1) bss"
    "distinct (concat bss)" "length (concat bss) < 2 ^ 62"
    using htab_repE [OF assms(1)] by blast
  have tab: "length tab = length bss" "chain m (tab ! i) (ys @ c # zs)" "bucket_ok m (w64 (2 ^ k) - 1) i (ys @ c # zs)"
    using r(5) assms(2,3) by (auto simp: buckets_def)
  have "distinct (bss ! i)" using r(6) assms(2) by (simp add: distinct_concat_iff)
  then have d: "distinct (ys @ c # zs)" by (simp only: assms(3))
  have s: "slot_read m t (Bucket i) = Some (tab ! i)" using r(1) tab(1) assms(2) by (simp add: run_simps)
  obtain q where q: "slot_read m t (slot_after (Bucket i) ys) = Some q" "chain m q (c # zs)"
    using slot_after_read [OF s tab(2)] by blast
  then obtain n where n: "q = Some c" "m c = Some n" by auto
  obtain m' p where w: "slot_write m t (slot_after (Bucket i) ys) (hn_next n) =
      Some (m', \<lparr>ht_tab = Some (tab[i := p]), ht_mask = w64 (2 ^ k) - 1, ht_size = w64 (length (concat bss))\<rparr>)"
    "chain m' p (ys @ zs)" "next_frame (set ys) m m'"
    using slot_write_rep [OF refl tab(1) assms(2) tab(2) d n(2), of "w64 (2 ^ k) - 1" "w64 (length (concat bss))"] r(1) by blast
  have len: "length (concat bss) = Suc (length (concat (bss[i := ys @ zs])))"
    using concat_split [OF assms(2)] assms(3) by simp
  have "buckets m' (tab[i := p]) (w64 (2 ^ k) - 1) (bss[i := ys @ zs])"
  proof (rule buckets_update [OF r(5) assms(2) _ w(3,2)])
    show "\<forall>x\<in>set (bss ! j). x \<notin> set ys" if "j < length bss" "j \<noteq> i" for j
      using other_bucket [OF r(6) assms(2) that(1)] that(2) assms(3) by auto
    show "bucket_ok m (w64 (2 ^ k) - 1) i (ys @ zs)" using tab(3) by (auto simp: bucket_ok_def)
  qed
  moreover have "mset (concat bss) = mset (c # concat (bss[i := ys @ zs]))"
    using mset_detach [OF assms(2,3)] by simp
  then have "distinct (concat (bss[i := ys @ zs]))"
    using r(6) mset_eq_imp_distinct_iff distinct.simps(2) by metis
  ultimately have "htab_rep m' \<lparr>ht_tab = Some (tab[i := p]), ht_mask = w64 (2 ^ k) - 1,
      ht_size = w64 (length (concat (bss[i := ys @ zs])))\<rparr> (bss[i := ys @ zs])"
    using r(2,3,4,7) len by (intro htab_repI) simp_all
  moreover have "h_detach m t (slot_after (Bucket i) ys) =
      Some (c, m', \<lparr>ht_tab = Some (tab[i := p]), ht_mask = w64 (2 ^ k) - 1,
        ht_size = w64 (length (concat (bss[i := ys @ zs])))\<rparr>)"
    using q(1) n w(1) len by (simp add: h_detach_def w64_pred)
  ultimately show ?thesis using w(3) by blast
qed

lemma found_detach:
  assumes "htab_rep m t bss" "found m key eq bss slot c"
  shows "\<exists>m' t' bss'. h_detach m t slot = Some (c, m', t') \<and> htab_rep m' t' bss' \<and>
    length bss' = length bss \<and> mset (concat bss) = add_mset c (mset (concat bss')) \<and>
    (\<forall>i<length bss. bss ! i = [] \<longrightarrow> bss' ! i = []) \<and> next_frame (set (concat bss)) m m'"
proof -
  obtain i ys zs where i: "i < length bss" "bss ! i = ys @ c # zs" "slot = slot_after (Bucket i) ys"
    using assms(2) by (auto simp: found_def)
  have "set ys \<subseteq> set (concat bss)"
    using concat_split(1) [OF i(1)] i(2) by auto
  then show ?thesis
    using h_detach_rep [OF assms(1) i(1,2)] mset_detach [OF i(1,2)] i next_frame_mono
    by (metis length_list_update list.distinct(1) Nil_is_append_conv nth_list_update_neq)
qed

lemma htab_rep_size: "htab_rep m t bss \<Longrightarrow> ht_size t = w64 (length (concat bss)) \<and> length (concat bss) < 2 ^ 62"
  by (auto simp: htab_rep_def htab_zero_def split: if_splits)

lemma htab_rep_tab: "htab_rep m t bss \<Longrightarrow> ht_tab t = None \<longleftrightarrow> bss = []"
  by (auto simp: htab_rep_def htab_zero_def split: if_splits)

lemma htab_rep_nonempty: "htab_rep m t bss \<Longrightarrow> 0 < ht_size t \<longleftrightarrow> concat bss \<noteq> []"
proof -
  assume a: "htab_rep m t bss"
  have "length (concat bss) < 2 ^ 64" using htab_rep_size [OF a] by simp
  then show ?thesis using htab_rep_size [OF a] w64_less_iff [of 0 "length (concat bss)"] by simp
qed

lemma htab_rep_distinct: "htab_rep m t bss \<Longrightarrow> distinct (concat bss)"
  by (auto simp: htab_rep_def split: if_splits)

lemma htab_rep_read:
  assumes "htab_rep m t bss" "i < length bss"
  shows "\<exists>p. slot_read m t (Bucket i) = Some p \<and> chain m p (bss ! i)"
proof -
  have "bss \<noteq> []" using assms(2) by auto
  then obtain tab k where r: "t = \<lparr>ht_tab = Some tab, ht_mask = w64 (2 ^ k) - 1, ht_size = w64 (length (concat bss))\<rparr>"
    "buckets m tab (w64 (2 ^ k) - 1) bss" using htab_repE [OF assms(1)] by metis
  then show ?thesis using assms(2) by (auto simp: run_simps buckets_def)
qed

lemma htab_rep_node:
  assumes "htab_rep m t bss" "x \<in> set (concat bss)"
  shows "m x \<noteq> None"
proof -
  obtain i where i: "i < length bss" "x \<in> set (bss ! i)" using in_some_bucket [OF assms(2)] by blast
  then have "bss \<noteq> []" by auto
  then obtain tab k where "buckets m tab (w64 (2 ^ k) - 1) bss" using htab_repE [OF assms(1)] by metis
  then have "bucket_ok m (w64 (2 ^ k) - 1) i (bss ! i)" using i(1) by (simp add: buckets_def)
  then obtain h where "hcode_is m x h" using i(2) unfolding bucket_ok_def by blast
  then show ?thesis by (auto simp: hcode_is_def)
qed

end
