(* ===== verification/HashMapProofs.thy ===== *)
theory HashMapProofs
  imports HashProofs
begin

text \<open>
  The resizable map: the two tables of an \<open>HMap\<close> hold disjoint nodes, every bucket of
  the older table below \<open>migrate_pos\<close> is empty, and the load invariant \<open>hm_load\<close>
  bounds the newer table's load at every moment. Each call migrates 128 nodes, so
  the migration ends long before the next doubling is due.
\<close>

definition hm_core :: "hn_mem \<Rightarrow> HMap \<Rightarrow> addr list list \<Rightarrow> addr list list \<Rightarrow> bool" where
  "hm_core m h ns os \<longleftrightarrow> htab_rep m (hm_newer h) ns \<and> htab_rep m (hm_older h) os \<and>
     distinct (concat ns @ concat os) \<and> length (concat ns @ concat os) < 2 ^ 60 \<and>
     (os \<noteq> [] \<longrightarrow> ns \<noteq> []) \<and> (\<forall>i<length os. i < unat (hm_migrate_pos h) \<longrightarrow> os ! i = [])"

definition hm_load :: "addr list list \<Rightarrow> addr list list \<Rightarrow> bool" where
  "hm_load ns os \<longleftrightarrow>
     (if os = [] then ns = [] \<or> length (concat ns) < 8 * length ns
      else length ns = 2 * length os \<and>
        128 * length (concat ns @ concat os) + length (concat os) \<le> 1032 * length os)"

definition hm_nodes :: "addr list list \<Rightarrow> addr list list \<Rightarrow> addr set" where
  "hm_nodes ns os = set (concat ns @ concat os)"

text \<open>\<open>hm_holds m h S\<close>: the map is consistent and holds exactly the nodes of \<open>S\<close>.\<close>

definition hm_holds :: "hn_mem \<Rightarrow> HMap \<Rightarrow> addr set \<Rightarrow> bool" where
  "hm_holds m h S \<longleftrightarrow> (\<exists>ns os. hm_core m h ns os \<and> hm_load ns os \<and> S = hm_nodes ns os)"


subsection \<open>Migration\<close>

lemma unat_w64_pos:
  assumes "i < 2 ^ 60" "unat (p :: u64) = i"
  shows "unat (p + 1) = Suc i"
proof -
  have "unat p = unat (w64 i)" using assms by simp
  then have "p = w64 i" by (rule word_eq_iff_unsigned [THEN iffD2])
  then show ?thesis using assms(1) by (simp add: w64_Suc)
qed

lemma migrate_step:
  assumes core: "hm_core m h ns os" and i: "i = unat (hm_migrate_pos h)" "i < length os"
    and b: "os ! i = c # zs"
  shows "\<exists>m1 m2 t1 t2 ns'. h_detach m (hm_older h) (Bucket i) = Some (c, m1, t1) \<and>
    h_insert m1 (hm_newer h) c = Some (m2, t2) \<and>
    hm_core m2 (h\<lparr>hm_newer := t2, hm_older := t1\<rparr>) ns' (os[i := zs]) \<and>
    length ns' = length ns \<and>
    mset (concat ns' @ concat (os[i := zs])) = mset (concat ns @ concat os) \<and>
    length (concat os) = Suc (length (concat (os[i := zs]))) \<and>
    next_frame (hm_nodes ns os) m m2"
proof -
  have c: "htab_rep m (hm_newer h) ns" "htab_rep m (hm_older h) os" "distinct (concat ns @ concat os)"
    "length (concat ns @ concat os) < 2 ^ 60" "ns \<noteq> []"
    "\<forall>j<length os. j < unat (hm_migrate_pos h) \<longrightarrow> os ! j = []"
    using core i(2) by (auto simp: hm_core_def)
  obtain m1 t1 where d: "h_detach m (hm_older h) (Bucket i) = Some (c, m1, t1)"
    "htab_rep m1 t1 (os[i := zs])" "next_frame {} m m1"
    using h_detach_rep [OF c(2) i(2), of "[]" c zs] b by (auto simp: slot_after_def)
  have mos: "mset (concat os) = add_mset c (mset (concat (os[i := zs])))"
    using mset_detach [OF i(2), of "[]" c zs] b by simp
  then have sos: "set (concat os) = insert c (set (concat (os[i := zs])))"
    by (metis set_mset_add_mset_insert set_mset_mset)
  have dis: "distinct (c # concat (os[i := zs]))"
    using c(3) mos by (metis distinct_append mset.simps(2) mset_eq_imp_distinct_iff)
  have n1: "htab_rep m1 (hm_newer h) ns" using htab_rep_frame [OF c(1) d(3)] by simp
  have new: "c \<notin> set (concat ns)" using c(3) sos by auto
  obtain n where n: "m1 c = Some n"
    using htab_rep_node [OF c(2)] sos next_frame_alloc [OF d(3)] by (metis insertI1 not_Some_eq)
  have "length (concat os) = Suc (length (concat (os[i := zs])))"
    using mos by (metis size_add_mset size_mset)
  then have "Suc (length (concat ns)) < 2 ^ 62" using c(4) by simp
  then obtain m2 t2 ns' where r: "h_insert m1 (hm_newer h) c = Some (m2, t2)" "htab_rep m2 t2 ns'"
    "length ns' = length ns" "mset (concat ns') = add_mset c (mset (concat ns))" "next_frame {c} m1 m2"
    using h_insert_rep [OF n1 c(5) n new] by blast
  have o2: "htab_rep m2 t1 (os[i := zs])"
    using htab_rep_frame [OF d(2) r(5)] dis by simp
  have ms: "mset (concat ns' @ concat (os[i := zs])) = mset (concat ns @ concat os)"
    using r(4) mos by simp
  then have "distinct (concat ns' @ concat (os[i := zs]))" "length (concat ns' @ concat (os[i := zs])) < 2 ^ 60"
    using c(3,4) mset_eq_imp_distinct_iff mset_eq_length by metis+
  moreover have "ns' \<noteq> []" using r(3) c(5) by auto
  moreover have "\<forall>j<length os. j < i \<longrightarrow> os[i := zs] ! j = []" using c(6) i(1) by simp
  ultimately have "hm_core m2 (h\<lparr>hm_newer := t2, hm_older := t1\<rparr>) ns' (os[i := zs])"
    using r(2) o2 i(1) by (simp add: hm_core_def)
  moreover have "next_frame (hm_nodes ns os) m m2"
    using next_frame_trans next_frame_mono [OF d(3), of "hm_nodes ns os"] next_frame_mono [OF r(5), of "hm_nodes ns os"] sos
    by (simp add: hm_nodes_def) blast
  ultimately show ?thesis using d(1) r(1,3) ms \<open>length (concat os) = _\<close> by blast
qed


text \<open>A non-empty table has a non-empty bucket at or after \<open>migrate_pos\<close>.\<close>

lemma migrate_pos_less:
  assumes "hm_core m h ns os" "concat os \<noteq> []"
  shows "unat (hm_migrate_pos h) < length os"
proof (rule ccontr)
  assume "\<not> unat (hm_migrate_pos h) < length os"
  then have "\<forall>i<length os. os ! i = []" using assms(1) by (simp add: hm_core_def)
  then have "concat os = []" by (metis concat_eq_Nil_conv in_set_conv_nth)
  then show False using assms(2) by simp
qed

lemma htab_rep_len: "htab_rep m t bss \<Longrightarrow> length bss \<le> 2 ^ 60"
  by (cases "bss = []") (simp, metis htab_repE one_le_numeral power_increasing)

lemma hm_core_len: "hm_core m h ns os \<Longrightarrow> length os \<le> 2 ^ 60"
  using htab_rep_len by (auto simp: hm_core_def)

definition migrated :: "nat \<Rightarrow> addr list list \<Rightarrow> addr list list \<Rightarrow> addr list list \<Rightarrow> addr list list \<Rightarrow> bool" where
  "migrated w ns os ns' os' \<longleftrightarrow> length ns' = length ns \<and> length os' = length os \<and>
     mset (concat ns' @ concat os') = mset (concat ns @ concat os) \<and>
     length (concat os') = length (concat os) - w"

lemma migrated_nodes: "migrated w ns os ns' os' \<Longrightarrow> hm_nodes ns' os' = hm_nodes ns os"
  unfolding migrated_def hm_nodes_def by (metis set_mset_mset)

lemma hm_migrate_run:
  assumes "hm_core m h ns os" "nwork \<le> 128"
  shows "\<exists>m' h' ns' os'. hm_migrate_loop m h nwork = Some (m', h') \<and> hm_core m' h' ns' os' \<and>
    migrated (128 - nwork) ns os ns' os' \<and> next_frame (hm_nodes ns os) m m'"
  using assms
proof (induction "length os - unat (hm_migrate_pos h) + (128 - nwork)" arbitrary: m h ns os nwork rule: less_induct)
  case less
  have ne: "0 < ht_size (hm_older h) \<longleftrightarrow> concat os \<noteq> []"
    using less.prems(1) htab_rep_nonempty by (auto simp: hm_core_def)
  let ?i = "unat (hm_migrate_pos h)"
  show ?case
  proof (cases "nwork < 128 \<and> concat os \<noteq> []")
    case False
    then have "hm_migrate_loop m h nwork = Some (m, h)"
      using ne by (subst hm_migrate_loop.simps) (auto simp: k_rehashing_work_def)
    moreover have "length (concat os) = length (concat os) - (128 - nwork)"
      using False less.prems(2) by (metis add_0_right diff_self_eq_0 le_neq_implies_less length_0_conv minus_nat.diff_0 zero_diff)
    then have "migrated (128 - nwork) ns os ns os" by (simp only: migrated_def)
    ultimately show ?thesis using less.prems(1) by force
  next
    case True
    have i: "?i < length os" using migrate_pos_less less.prems(1) True by blast
    obtain p where p: "slot_read m (hm_older h) (Bucket ?i) = Some p" "chain m p (os ! ?i)"
      using htab_rep_read [OF _ i] less.prems(1) unfolding hm_core_def by blast
    show ?thesis
    proof (cases "os ! ?i")
      case Nil
      let ?h = "h\<lparr>hm_migrate_pos := hm_migrate_pos h + 1\<rparr>"
      have pos: "unat (hm_migrate_pos ?h) = Suc ?i"
        using unat_w64_pos [of ?i "hm_migrate_pos h"] i hm_core_len [OF less.prems(1)] by simp
      have core: "hm_core m ?h ns os"
        using less.prems(1) Nil pos unfolding hm_core_def by (auto simp: less_Suc_eq)
      have "hm_migrate_loop m h nwork = hm_migrate_loop m ?h nwork"
        using True ne p Nil by (subst hm_migrate_loop.simps) (simp add: k_rehashing_work_def Let_def)
      then show ?thesis using less.hyps [OF _ core less.prems(2)] pos i by simp
    next
      case (Cons c zs)
      obtain m1 m2 t1 t2 ns1 where s: "h_detach m (hm_older h) (Bucket ?i) = Some (c, m1, t1)"
        "h_insert m1 (hm_newer h) c = Some (m2, t2)"
        "hm_core m2 (h\<lparr>hm_newer := t2, hm_older := t1\<rparr>) ns1 (os[?i := zs])" "length ns1 = length ns"
        "mset (concat ns1 @ concat (os[?i := zs])) = mset (concat ns @ concat os)"
        "length (concat os) = Suc (length (concat (os[?i := zs])))" "next_frame (hm_nodes ns os) m m2"
        using migrate_step [OF less.prems(1) refl i Cons] by blast
      let ?h = "h\<lparr>hm_newer := t2, hm_older := t1\<rparr>"
      have "p = Some c" using p(2) Cons by simp
      then have step: "hm_migrate_loop m h nwork = hm_migrate_loop m2 ?h (nwork + 1)"
        using True ne p(1) s(1,2) by (subst hm_migrate_loop.simps) (simp add: k_rehashing_work_def Let_def)
      have "length (os[?i := zs]) - unat (hm_migrate_pos ?h) + (128 - (nwork + 1)) < length os - ?i + (128 - nwork)"
        "nwork + 1 \<le> 128" using conjunct1 [OF True] by simp_all
      then obtain m' h' ns' os' where r: "hm_migrate_loop m2 ?h (nwork + 1) = Some (m', h')"
        "hm_core m' h' ns' os'" "migrated (128 - (nwork + 1)) ns1 (os[?i := zs]) ns' os'"
        "next_frame (hm_nodes ns1 (os[?i := zs])) m2 m'"
        using less.hyps [OF _ s(3)] by blast
      have "migrated (128 - nwork) ns os ns' os'"
        using r(3) s(4,5,6) True unfolding migrated_def by simp
      moreover have "hm_nodes ns1 (os[?i := zs]) = hm_nodes ns os"
        using s(5) unfolding hm_nodes_def by (metis set_mset_mset)
      ultimately show ?thesis using r(1,2,4) step s(7) next_frame_trans by metis
    qed
  qed
qed


text \<open>A whole helping step: it moves 128 nodes or empties and frees the older table.\<close>

definition helped :: "nat \<Rightarrow> addr list list \<Rightarrow> addr list list \<Rightarrow> addr list list \<Rightarrow> addr list list \<Rightarrow> bool" where
  "helped w ns os ns' os' \<longleftrightarrow> length ns' = length ns \<and> (os' \<noteq> [] \<longrightarrow> length os' = length os \<and> concat os' \<noteq> []) \<and>
     mset (concat ns' @ concat os') = mset (concat ns @ concat os) \<and>
     length (concat os') = length (concat os) - w"

lemma helped_nodes: "helped w ns os ns' os' \<Longrightarrow> hm_nodes ns' os' = hm_nodes ns os"
  unfolding helped_def hm_nodes_def by (metis set_mset_mset)

lemma hm_help_run:
  assumes "hm_core m h ns os"
  shows "\<exists>m' h' ns' os'. hm_help_rehashing m h = Some (m', h') \<and> hm_core m' h' ns' os' \<and>
    helped 128 ns os ns' os' \<and> next_frame (hm_nodes ns os) m m'"
proof -
  obtain m1 h1 ns1 os1 where r: "hm_migrate_loop m h 0 = Some (m1, h1)" "hm_core m1 h1 ns1 os1"
    "migrated 128 ns os ns1 os1" "next_frame (hm_nodes ns os) m m1"
    using hm_migrate_run [OF assms, of 0] by auto
  have t: "ht_size (hm_older h1) = 0 \<longleftrightarrow> concat os1 = []" "ht_tab (hm_older h1) = None \<longleftrightarrow> os1 = []"
    using r(2) htab_rep_nonempty htab_rep_tab word_neq_0_conv unfolding hm_core_def by metis+
  show ?thesis
  proof (cases "concat os1 = [] \<and> os1 \<noteq> []")
    case True
    have "htab_rep m1 htab_zero []" by (simp add: htab_rep_def)
    then have "hm_core m1 (h1\<lparr>hm_older := htab_zero\<rparr>) ns1 []"
      using r(2) True by (simp add: hm_core_def)
    moreover have "helped 128 ns os ns1 []"
      using r(3) True by (simp add: helped_def migrated_def)
    moreover have "hm_help_rehashing m h = Some (m1, h1\<lparr>hm_older := htab_zero\<rparr>)"
      using r(1) t True by (simp add: hm_help_rehashing_def)
    ultimately show ?thesis using r(4) by blast
  next
    case False
    then have "helped 128 ns os ns1 os1"
      using r(3) unfolding helped_def migrated_def by blast
    moreover have "hm_help_rehashing m h = Some (m1, h1)"
      using r(1) t False by (auto simp: hm_help_rehashing_def)
    ultimately show ?thesis using r(2,4) by blast
  qed
qed

text \<open>
  The load invariant survives a helping step even after one more insertion. This is
  the arithmetic behind progressive rehashing: an older table of \<open>P\<close> buckets starts with
  \<open>8 P\<close> nodes and is drained within \<open>P / 16\<close> calls, in which at most that many nodes arrive.
\<close>

definition hm_load_plus :: "addr list list \<Rightarrow> addr list list \<Rightarrow> bool" where
  "hm_load_plus ns os \<longleftrightarrow>
     (if os = [] then ns = [] \<or> length (concat ns) < 8 * length ns
      else length ns = 2 * length os \<and> 4 \<le> length os \<and>
        128 * length (concat ns @ concat os) + length (concat os) \<le> 1032 * length os + 128)"

lemma helped_load:
  assumes "hm_load_plus ns os" "helped 128 ns os ns' os'"
  shows "hm_load ns' os'"
proof -
  have h: "length ns' = length ns" "length (concat ns' @ concat os') = length (concat ns @ concat os)"
    "length (concat os') = length (concat os) - 128" "os' \<noteq> [] \<longrightarrow> length os' = length os \<and> concat os' \<noteq> []"
    using assms(2) mset_eq_length unfolding helped_def by blast+
  show ?thesis
  proof (cases "os' = []")
    case True
    then have "length (concat ns') = length (concat ns @ concat os)" using h(2) by simp
    then show ?thesis using True assms(1) h(1) by (auto simp: hm_load_def hm_load_plus_def split: if_splits)
  next
    case False
    then have "0 < length (concat os')" using h(4) by simp
    then have "length (concat os) = length (concat os') + 128" using h(3) by arith
    moreover from this have "os \<noteq> []" by auto
    then have "length ns = 2 * length os"
      "128 * length (concat ns @ concat os) + length (concat os) \<le> 1032 * length os + 128"
      using assms(1) by (simp_all only: hm_load_plus_def if_False)
    moreover have "length os' = length os" using h(4) False by blast
    ultimately show ?thesis
      unfolding hm_load_def if_not_P [OF False] h(1,2) by linarith
  qed
qed

lemma hm_load_plus: "hm_core m h ns os \<Longrightarrow> hm_load ns os \<Longrightarrow> hm_load_plus ns os"
proof -
  assume a: "hm_core m h ns os" "hm_load ns os"
  have "4 \<le> length os" if ne: "os \<noteq> []"
  proof -
    have "htab_rep m (hm_older h) os" using a(1) by (simp add: hm_core_def)
    then obtain k where "length os = 2 ^ k" "2 \<le> k" using htab_repE [OF _ ne] by blast
    then show ?thesis using power_increasing [of 2 k "2 :: nat"] by simp
  qed
  then show ?thesis using a(2) by (auto simp: hm_load_def hm_load_plus_def)
qed

lemma hm_help_holds:
  assumes "hm_core m h ns os" "hm_load_plus ns os"
  shows "\<exists>m' h' ns' os'. hm_help_rehashing m h = Some (m', h') \<and> hm_core m' h' ns' os' \<and> hm_load ns' os' \<and>
    hm_nodes ns' os' = hm_nodes ns os \<and> next_frame (hm_nodes ns os) m m'"
  using hm_help_run [OF assms(1)] helped_load [OF assms(2)] helped_nodes by metis


subsection \<open>Lookup, deletion, insertion\<close>

lemma hm_core_key:
  assumes "m key = Some k" "next_frame S m m'"
  shows "\<exists>k'. m' key = Some k'"
  using next_frame_alloc [OF assms(2), of key] assms(1) by auto

text \<open>Help, then look in both tables: the common first half of lookup and deletion.\<close>

lemma hm_find:
  assumes "hm_holds m h S" "m key \<noteq> None"
  obtains m1 h1 ns1 os1 where "hm_help_rehashing m h = Some (m1, h1)" "hm_core m1 h1 ns1 os1" "hm_load ns1 os1"
    "hm_nodes ns1 os1 = S" "next_frame S m m1"
    "(\<exists>slot c. h_lookup m1 (hm_newer h1) key eq = Some (Some slot) \<and> found m1 key eq ns1 slot c) \<or>
     (\<exists>slot c. h_lookup m1 (hm_newer h1) key eq = Some None \<and>
        h_lookup m1 (hm_older h1) key eq = Some (Some slot) \<and> found m1 key eq os1 slot c) \<or>
     (h_lookup m1 (hm_newer h1) key eq = Some None \<and> h_lookup m1 (hm_older h1) key eq = Some None \<and>
        (\<forall>x\<in>S. \<not> hits m1 key eq x))"
proof -
  obtain ns os where r: "hm_core m h ns os" "hm_load ns os" "S = hm_nodes ns os"
    using assms(1) by (auto simp: hm_holds_def)
  obtain m1 h1 ns1 os1 where s: "hm_help_rehashing m h = Some (m1, h1)" "hm_core m1 h1 ns1 os1" "hm_load ns1 os1"
    "hm_nodes ns1 os1 = S" "next_frame S m m1"
    using hm_help_holds [OF r(1) hm_load_plus [OF r(1,2)]] r(3) by metis
  obtain k where k: "m1 key = Some k" using hm_core_key [OF _ s(5)] assms(2) by auto
  have t: "htab_rep m1 (hm_newer h1) ns1" "htab_rep m1 (hm_older h1) os1" using s(2) by (auto simp: hm_core_def)
  have "S = set (concat ns1) \<union> set (concat os1)" using s(4) by (auto simp: hm_nodes_def)
  then show thesis
    using that [OF s] h_lookup_rep [OF t(1) k, of eq] h_lookup_rep [OF t(2) k, of eq] by blast
qed

lemma hm_lookup_run:
  assumes "hm_holds m h S" "m key \<noteq> None"
  shows "\<exists>p m' h'. hm_lookup m h key eq = Some (p, m', h') \<and> hm_holds m' h' S \<and> next_frame S m m' \<and>
    (case p of None \<Rightarrow> \<forall>x\<in>S. \<not> hits m key eq x | Some x \<Rightarrow> x \<in> S \<and> hits m key eq x)"
proof -
  obtain m1 h1 ns1 os1 where s: "hm_help_rehashing m h = Some (m1, h1)" "hm_core m1 h1 ns1 os1" "hm_load ns1 os1"
    "hm_nodes ns1 os1 = S" "next_frame S m m1"
    and cases: "(\<exists>slot c. h_lookup m1 (hm_newer h1) key eq = Some (Some slot) \<and> found m1 key eq ns1 slot c) \<or>
     (\<exists>slot c. h_lookup m1 (hm_newer h1) key eq = Some None \<and>
        h_lookup m1 (hm_older h1) key eq = Some (Some slot) \<and> found m1 key eq os1 slot c) \<or>
     (h_lookup m1 (hm_newer h1) key eq = Some None \<and> h_lookup m1 (hm_older h1) key eq = Some None \<and>
        (\<forall>x\<in>S. \<not> hits m1 key eq x))"
    using hm_find [OF assms] by blast
  have hold: "hm_holds m1 h1 S" using s(2,3,4) by (auto simp: hm_holds_def)
  have t: "htab_rep m1 (hm_newer h1) ns1" "htab_rep m1 (hm_older h1) os1" using s(2) by (auto simp: hm_core_def)
  have S: "S = set (concat ns1) \<union> set (concat os1)" using s(4) by (auto simp: hm_nodes_def)
  note hit = hits_frame [OF s(5), of key eq]
  consider (new) slot c where "h_lookup m1 (hm_newer h1) key eq = Some (Some slot)" "found m1 key eq ns1 slot c"
    | (old) slot c where "h_lookup m1 (hm_newer h1) key eq = Some None"
        "h_lookup m1 (hm_older h1) key eq = Some (Some slot)" "found m1 key eq os1 slot c"
    | (none) "h_lookup m1 (hm_newer h1) key eq = Some None" "h_lookup m1 (hm_older h1) key eq = Some None"
        "\<forall>x\<in>S. \<not> hits m1 key eq x"
    using cases by blast
  then show ?thesis
  proof cases
    case new
    then have "hm_lookup m h key eq = Some (Some c, m1, h1)"
      using s(1) found_read [OF t(1)] by (simp add: hm_lookup_def)
    then show ?thesis using hold s(5) found_node [OF new(2)] S hit by auto
  next
    case old
    then have "hm_lookup m h key eq = Some (Some c, m1, h1)"
      using s(1) found_read [OF t(2)] by (simp add: hm_lookup_def)
    then show ?thesis using hold s(5) found_node [OF old(3)] S hit by auto
  next
    case none
    then have "hm_lookup m h key eq = Some (None, m1, h1)" using s(1) by (simp add: hm_lookup_def)
    then show ?thesis using hold s(5) none(3) hit by auto
  qed
qed


lemma mset_remove_set:
  assumes "mset xs = add_mset c (mset ys)" "distinct xs"
  shows "set ys = set xs - {c}" "distinct ys" "length xs = Suc (length ys)"
proof -
  have m: "mset xs = mset (c # ys)" using assms(1) by simp
  then have "distinct (c # ys)" "set xs = set (c # ys)" "length xs = length (c # ys)"
    using assms(2) mset_eq_imp_distinct_iff mset_eq_setD mset_eq_length by blast+
  then show "set ys = set xs - {c}" "distinct ys" "length xs = Suc (length ys)" by auto
qed

lemma hm_detach_new:
  assumes c: "hm_core m h ns os" "hm_load ns os" and f: "found m key eq ns slot c"
  shows "\<exists>m' t. h_detach m (hm_newer h) slot = Some (c, m', t) \<and>
    hm_holds m' (h\<lparr>hm_newer := t\<rparr>) (hm_nodes ns os - {c}) \<and> next_frame (hm_nodes ns os) m m'"
proof -
  have r: "htab_rep m (hm_newer h) ns" "htab_rep m (hm_older h) os" "distinct (concat ns @ concat os)"
    using c(1) by (auto simp: hm_core_def)
  obtain m' t ns' where d: "h_detach m (hm_newer h) slot = Some (c, m', t)" "htab_rep m' t ns'"
    "length ns' = length ns" "mset (concat ns) = add_mset c (mset (concat ns'))"
    "next_frame (set (concat ns)) m m'"
    using found_detach [OF r(1) f] by blast
  have o: "htab_rep m' (hm_older h) os" using htab_rep_frame [OF r(2) d(5)] r(3) by auto
  have "mset (concat ns @ concat os) = add_mset c (mset (concat ns' @ concat os))" using d(4) by simp
  note x = mset_remove_set [OF this r(3)]
  have ne: "ns' \<noteq> [] \<longleftrightarrow> ns \<noteq> []" using d(3) by auto
  have "hm_core m' (h\<lparr>hm_newer := t\<rparr>) ns' os"
    using c(1) d(2) o x ne unfolding hm_core_def by simp
  moreover have "length (concat ns) = Suc (length (concat ns'))" using d(4) by (metis size_add_mset size_mset)
  then have "hm_load ns' os" using c(2) d(3) ne by (auto simp: hm_load_def)
  moreover have "next_frame (hm_nodes ns os) m m'"
    using next_frame_mono [OF d(5)] by (simp add: hm_nodes_def)
  ultimately show ?thesis using d(1) x(1) unfolding hm_holds_def hm_nodes_def by blast
qed

lemma hm_detach_old:
  assumes c: "hm_core m h ns os" "hm_load ns os" and f: "found m key eq os slot c"
  shows "\<exists>m' t. h_detach m (hm_older h) slot = Some (c, m', t) \<and>
    hm_holds m' (h\<lparr>hm_older := t\<rparr>) (hm_nodes ns os - {c}) \<and> next_frame (hm_nodes ns os) m m'"
proof -
  have r: "htab_rep m (hm_newer h) ns" "htab_rep m (hm_older h) os" "distinct (concat ns @ concat os)"
    using c(1) by (auto simp: hm_core_def)
  obtain m' t os' where d: "h_detach m (hm_older h) slot = Some (c, m', t)" "htab_rep m' t os'"
    "length os' = length os" "mset (concat os) = add_mset c (mset (concat os'))"
    "\<forall>i<length os. os ! i = [] \<longrightarrow> os' ! i = []" "next_frame (set (concat os)) m m'"
    using found_detach [OF r(2) f] by blast
  have n: "htab_rep m' (hm_newer h) ns" using htab_rep_frame [OF r(1) d(6)] r(3) by auto
  have "mset (concat ns @ concat os) = add_mset c (mset (concat ns @ concat os'))" using d(4) by simp
  note x = mset_remove_set [OF this r(3)]
  have ne: "os' \<noteq> [] \<longleftrightarrow> os \<noteq> []" using d(3) by auto
  have "hm_core m' (h\<lparr>hm_older := t\<rparr>) ns os'"
    using c(1) d(2,3,5) n x ne unfolding hm_core_def by simp
  moreover have "length (concat os) = Suc (length (concat os'))" using d(4) by (metis size_add_mset size_mset)
  then have "hm_load ns os'" using c(2) d(3) ne by (auto simp: hm_load_def)
  moreover have "next_frame (hm_nodes ns os) m m'"
    using next_frame_mono [OF d(6)] by (simp add: hm_nodes_def)
  ultimately show ?thesis using d(1) x(1) unfolding hm_holds_def hm_nodes_def by blast
qed

lemma hm_delete_run:
  assumes "hm_holds m h S" "m key \<noteq> None"
  shows "\<exists>p m' h'. hm_delete m h key eq = Some (p, m', h') \<and> next_frame S m m' \<and>
    (case p of None \<Rightarrow> hm_holds m' h' S \<and> (\<forall>x\<in>S. \<not> hits m key eq x)
     | Some x \<Rightarrow> hm_holds m' h' (S - {x}) \<and> x \<in> S \<and> hits m key eq x)"
proof -
  obtain m1 h1 ns1 os1 where s: "hm_help_rehashing m h = Some (m1, h1)" "hm_core m1 h1 ns1 os1" "hm_load ns1 os1"
    "hm_nodes ns1 os1 = S" "next_frame S m m1"
    and cases: "(\<exists>slot c. h_lookup m1 (hm_newer h1) key eq = Some (Some slot) \<and> found m1 key eq ns1 slot c) \<or>
     (\<exists>slot c. h_lookup m1 (hm_newer h1) key eq = Some None \<and>
        h_lookup m1 (hm_older h1) key eq = Some (Some slot) \<and> found m1 key eq os1 slot c) \<or>
     (h_lookup m1 (hm_newer h1) key eq = Some None \<and> h_lookup m1 (hm_older h1) key eq = Some None \<and>
        (\<forall>x\<in>S. \<not> hits m1 key eq x))"
    using hm_find [OF assms] by blast
  have hold: "hm_holds m1 h1 S" using s(2,3,4) by (auto simp: hm_holds_def)
  have t: "htab_rep m1 (hm_newer h1) ns1" "htab_rep m1 (hm_older h1) os1" using s(2) by (auto simp: hm_core_def)
  have S: "S = set (concat ns1) \<union> set (concat os1)" using s(4) by (auto simp: hm_nodes_def)
  note hit = hits_frame [OF s(5), of key eq]
  consider (new) slot c where "h_lookup m1 (hm_newer h1) key eq = Some (Some slot)" "found m1 key eq ns1 slot c"
    | (old) slot c where "h_lookup m1 (hm_newer h1) key eq = Some None"
        "h_lookup m1 (hm_older h1) key eq = Some (Some slot)" "found m1 key eq os1 slot c"
    | (none) "h_lookup m1 (hm_newer h1) key eq = Some None" "h_lookup m1 (hm_older h1) key eq = Some None"
        "\<forall>x\<in>S. \<not> hits m1 key eq x"
    using cases by blast
  then show ?thesis
  proof cases
    case new
    obtain m2 t where d: "h_detach m1 (hm_newer h1) slot = Some (c, m2, t)"
      "hm_holds m2 (h1\<lparr>hm_newer := t\<rparr>) (S - {c})" "next_frame S m1 m2"
      using hm_detach_new [OF s(2,3) new(2)] s(4) by blast
    then have "hm_delete m h key eq = Some (Some c, m2, h1\<lparr>hm_newer := t\<rparr>)"
      using s(1) new(1) by (simp add: hm_delete_def)
    then show ?thesis using d next_frame_trans [OF s(5) d(3)] found_node [OF new(2)] S hit by auto
  next
    case old
    obtain m2 t where d: "h_detach m1 (hm_older h1) slot = Some (c, m2, t)"
      "hm_holds m2 (h1\<lparr>hm_older := t\<rparr>) (S - {c})" "next_frame S m1 m2"
      using hm_detach_old [OF s(2,3) old(3)] s(4) by blast
    then have "hm_delete m h key eq = Some (Some c, m2, h1\<lparr>hm_older := t\<rparr>)"
      using s(1) old(1,2) by (simp add: hm_delete_def)
    then show ?thesis using d next_frame_trans [OF s(5) d(3)] found_node [OF old(3)] S hit by auto
  next
    case none
    then have "hm_delete m h key eq = Some (None, m1, h1)" using s(1) by (simp add: hm_delete_def)
    then show ?thesis using hold s(5) none(3) hit by auto
  qed
qed


lemma h_init_rep:
  assumes "2 \<le> k" "k \<le> 60"
  shows "\<exists>t. h_init (w64 (2 ^ k)) = Some t \<and> htab_rep m t (replicate (2 ^ k) [])"
proof -
  have "concat (replicate (2 ^ k) []) = ([] :: addr list)" by simp
  moreover have "buckets m (replicate (2 ^ k) None) (w64 (2 ^ k) - 1) (replicate (2 ^ k) [])"
    by (simp add: buckets_def bucket_ok_def)
  ultimately have "htab_rep m \<lparr>ht_tab = Some (replicate (2 ^ k) None), ht_mask = w64 (2 ^ k) - 1, ht_size = 0\<rparr>
      (replicate (2 ^ k) [])"
    using htab_repI [of "replicate (2 ^ k) []" k m "replicate (2 ^ k) None"] assms by simp
  then show ?thesis using h_init_power [of k] assms(2) by simp
qed

lemma hm_core_card: "hm_core m h ns os \<Longrightarrow> card (hm_nodes ns os) = length (concat ns @ concat os)"
  unfolding hm_core_def hm_nodes_def using distinct_card by blast

text \<open>The load test of \<open>hm_insert\<close> compares the true numbers.\<close>

lemma load_test:
  assumes "htab_rep m t bss" "bss \<noteq> []"
  shows "(ht_mask t + 1) * k_max_load_factor \<le> ht_size t \<longleftrightarrow> 8 * length bss \<le> length (concat bss)"
proof -
  obtain tab k where r: "t = \<lparr>ht_tab = Some tab, ht_mask = w64 (2 ^ k) - 1, ht_size = w64 (length (concat bss))\<rparr>"
    "length bss = 2 ^ k" "k \<le> 60" "length (concat bss) < 2 ^ 62"
    using htab_repE [OF assms] by metis
  have "(2::nat) ^ k \<le> 2 ^ 60" using r(3) by (intro power_increasing) auto
  then have b: "8 * length bss < 2 ^ 64" using r(2) by simp
  have "(ht_mask t + 1) * k_max_load_factor = w64 (8 * length bss)"
    using r(1,2) by (simp add: k_max_load_factor_def w64_def)
  moreover have "ht_size t = w64 (length (concat bss))" using r(1) by simp
  ultimately show ?thesis using b r(4) by (simp add: word_le_nat_alt)
qed

text \<open>Doubling: the full table becomes the older one, with nothing migrated yet.\<close>

lemma hm_trigger_run:
  assumes core: "hm_core m h ns []" and full: "length (concat ns) = 8 * length ns" and ne: "ns \<noteq> []"
  shows "\<exists>h'. hm_trigger_rehashing h = Some h' \<and> hm_core m h' (replicate (2 * length ns) []) ns \<and>
    hm_load_plus (replicate (2 * length ns) []) ns"
proof -
  have n: "htab_rep m (hm_newer h) ns" "length (concat ns) < 2 ^ 60" "distinct (concat ns)"
    using core by (auto simp: hm_core_def)
  obtain tab k where r: "hm_newer h = \<lparr>ht_tab = Some tab, ht_mask = w64 (2 ^ k) - 1, ht_size = w64 (length (concat ns))\<rparr>"
    "length ns = 2 ^ k" "2 \<le> k" "k \<le> 60" using htab_repE [OF n(1) ne] by metis
  have "8 * (2 :: nat) ^ k < 2 ^ 60" using full r(2) n(2) by linarith
  then have "(2 :: nat) ^ (k + 3) < 2 ^ 60" by (simp add: power_add)
  then have "k + 3 < 60" by (rule power_less_imp_less_exp [rotated]) simp
  then obtain t where t: "h_init (w64 (2 ^ Suc k)) = Some t" "htab_rep m t (replicate (2 ^ Suc k) [])"
    using h_init_rep [of "Suc k" m] r(3) by auto
  have mask: "(ht_mask (hm_newer h) + 1) * 2 = w64 (2 ^ Suc k)" using r(1) by (simp add: w64_def)
  have len: "2 * length ns = 2 ^ Suc k" using r(2) by simp
  let ?h = "\<lparr>hm_newer = t, hm_older = hm_newer h, hm_migrate_pos = 0\<rparr>"
  have "concat (replicate (2 * length ns) []) = ([] :: addr list)" by simp
  moreover have "replicate (2 * length ns) [] \<noteq> ([] :: addr list list)" using ne by simp
  ultimately have "hm_core m ?h (replicate (2 * length ns) []) ns"
    using t(2) n len by (simp add: hm_core_def)
  moreover have "4 \<le> length ns" using power_increasing [OF r(3), of "2 :: nat"] r(2) by simp
  then have "hm_load_plus (replicate (2 * length ns) []) ns"
    using full ne by (simp add: hm_load_plus_def)
  ultimately show ?thesis using t(1) mask by (simp add: hm_trigger_rehashing_def)
qed


lemma hm_init_run:
  assumes "hm_core m h ns os" "hm_load ns os"
  shows "\<exists>h0 ns0. (if ht_tab (hm_newer h) = None
      then do { t \<leftarrow> h_init 4; Some (h\<lparr>hm_newer := t\<rparr>) } else Some h) = Some h0 \<and>
    hm_core m h0 ns0 os \<and> hm_load ns0 os \<and> ns0 \<noteq> [] \<and> concat ns0 = concat ns"
proof (cases "ns = []")
  case True
  then have os: "os = []" "htab_rep m (hm_older h) []" and tab: "ht_tab (hm_newer h) = None"
    using assms(1) by (auto simp: hm_core_def htab_rep_tab)
  obtain t where t: "h_init 4 = Some t" "htab_rep m t (replicate 4 [])"
    using h_init_rep [of 2 m] by (auto simp: w64_def)
  have e: "concat (replicate 4 []) = ([] :: addr list)" "replicate 4 [] \<noteq> ([] :: addr list list)" by simp_all
  have "hm_core m (h\<lparr>hm_newer := t\<rparr>) (replicate 4 []) os"
    using t(2) os e by (simp add: hm_core_def)
  moreover have "hm_load (replicate 4 []) os" using os(1) by (simp add: hm_load_def)
  ultimately show ?thesis using t(1) tab True e by (intro exI [of _ "h\<lparr>hm_newer := t\<rparr>"] exI [of _ "replicate 4 []"]) simp
next
  case False
  then have "ht_tab (hm_newer h) \<noteq> None" using assms(1) htab_rep_tab by (auto simp: hm_core_def)
  then show ?thesis using assms False by auto
qed

text \<open>Inserting into the newer table; the load may now be one over.\<close>

lemma hm_put_run:
  assumes core: "hm_core m h ns os" and ne: "ns \<noteq> []" and x: "m x = Some n" "x \<notin> hm_nodes ns os"
    and small: "Suc (card (hm_nodes ns os)) < 2 ^ 60"
  shows "\<exists>m' t ns'. h_insert m (hm_newer h) x = Some (m', t) \<and> hm_core m' (h\<lparr>hm_newer := t\<rparr>) ns' os \<and>
    length ns' = length ns \<and> length (concat ns') = Suc (length (concat ns)) \<and>
    hm_nodes ns' os = insert x (hm_nodes ns os) \<and> next_frame {x} m m'"
proof -
  have r: "htab_rep m (hm_newer h) ns" "htab_rep m (hm_older h) os" "distinct (concat ns @ concat os)"
    using core by (auto simp: hm_core_def)
  have len: "Suc (length (concat ns @ concat os)) < 2 ^ 60" using small hm_core_card [OF core] by simp
  then have "x \<notin> set (concat ns)" "Suc (length (concat ns)) < 2 ^ 62" using x(2) by (simp_all add: hm_nodes_def)
  then obtain m' t ns' where i: "h_insert m (hm_newer h) x = Some (m', t)" "htab_rep m' t ns'"
    "length ns' = length ns" "mset (concat ns') = add_mset x (mset (concat ns))" "next_frame {x} m m'"
    using h_insert_rep [OF r(1) ne x(1)] by blast
  have o: "htab_rep m' (hm_older h) os" using htab_rep_frame [OF r(2) i(5)] x(2) by (auto simp: hm_nodes_def)
  have ms: "mset (concat ns' @ concat os) = mset (x # concat ns @ concat os)" using i(4) by simp
  have "distinct (x # concat ns @ concat os)" using r(3) x(2) by (simp add: hm_nodes_def)
  then have "distinct (concat ns' @ concat os)" using mset_eq_imp_distinct_iff [OF ms] by simp
  moreover have "length (concat ns' @ concat os) < 2 ^ 60" using mset_eq_length [OF ms] len by simp
  ultimately have "hm_core m' (h\<lparr>hm_newer := t\<rparr>) ns' os"
    using core i(2,3) o by (simp add: hm_core_def) (metis length_0_conv)
  moreover have "length (concat ns') = Suc (length (concat ns))" using i(4) by (metis size_add_mset size_mset)
  moreover have "hm_nodes ns' os = insert x (hm_nodes ns os)"
    using mset_eq_setD [OF ms] by (simp add: hm_nodes_def)
  ultimately show ?thesis using i(1,3,5) by blast
qed

lemma hm_insert_run:
  assumes "hm_holds m h S" "m x \<noteq> None" "x \<notin> S" "Suc (card S) < 2 ^ 60"
  shows "\<exists>m' h'. hm_insert m h x = Some (m', h') \<and> hm_holds m' h' (insert x S) \<and> next_frame (insert x S) m m'"
proof -
  obtain ns os n where r: "hm_core m h ns os" "hm_load ns os" "S = hm_nodes ns os" "m x = Some n"
    using assms(1,2) by (auto simp: hm_holds_def)
  obtain h0 ns0 where h0: "(if ht_tab (hm_newer h) = None
      then do { t \<leftarrow> h_init 4; Some (h\<lparr>hm_newer := t\<rparr>) } else Some h) = Some h0"
    "hm_core m h0 ns0 os" "hm_load ns0 os" "ns0 \<noteq> []" "concat ns0 = concat ns"
    using hm_init_run [OF r(1,2)] by blast
  have S: "hm_nodes ns0 os = S" using h0(5) r(3) by (simp add: hm_nodes_def)
  obtain m1 t ns1 where p: "h_insert m (hm_newer h0) x = Some (m1, t)" "hm_core m1 (h0\<lparr>hm_newer := t\<rparr>) ns1 os"
    "length ns1 = length ns0" "length (concat ns1) = Suc (length (concat ns0))"
    "hm_nodes ns1 os = insert x S" "next_frame {x} m m1"
    using hm_put_run [OF h0(2,4) r(4)] assms(3,4) S by metis
  let ?h1 = "h0\<lparr>hm_newer := t\<rparr>"
  have ne: "ns1 \<noteq> []" using p(3) h0(4) by auto
  have t: "htab_rep m1 (hm_newer ?h1) ns1" "ht_tab (hm_older ?h1) = None \<longleftrightarrow> os = []"
    using p(2) htab_rep_tab unfolding hm_core_def by blast+
  have "\<exists>h2 ns2 os2. (if ht_tab (hm_older ?h1) = None \<and>
        (ht_mask (hm_newer ?h1) + 1) * k_max_load_factor \<le> ht_size (hm_newer ?h1)
      then hm_trigger_rehashing ?h1 else Some ?h1) = Some h2 \<and>
    hm_core m1 h2 ns2 os2 \<and> hm_load_plus ns2 os2 \<and> hm_nodes ns2 os2 = insert x S"
  proof (cases "os = [] \<and> 8 * length ns1 \<le> length (concat ns1)")
    case True
    then have full: "length (concat ns1) = 8 * length ns1"
      using h0(3,4) p(3,4) by (auto simp: hm_load_def)
    obtain h2 where "hm_trigger_rehashing ?h1 = Some h2" "hm_core m1 h2 (replicate (2 * length ns1) []) ns1"
      "hm_load_plus (replicate (2 * length ns1) []) ns1"
      using hm_trigger_run [OF _ full ne] p(2) True by blast
    moreover have "hm_nodes (replicate (2 * length ns1) []) ns1 = insert x S"
      using p(5) True by (simp add: hm_nodes_def)
    ultimately show ?thesis using load_test [OF t(1) ne] t(2) True by auto
  next
    case False
    have "hm_load_plus ns1 os"
      using h0(3) hm_load_plus [OF h0(2,3)] False p(3,4) by (auto simp: hm_load_def hm_load_plus_def)
    then show ?thesis using load_test [OF t(1) ne] t(2) False p(2,5) by auto
  qed
  then obtain h2 ns2 os2 where g: "(if ht_tab (hm_older ?h1) = None \<and>
        (ht_mask (hm_newer ?h1) + 1) * k_max_load_factor \<le> ht_size (hm_newer ?h1)
      then hm_trigger_rehashing ?h1 else Some ?h1) = Some h2"
    "hm_core m1 h2 ns2 os2" "hm_load_plus ns2 os2" "hm_nodes ns2 os2 = insert x S" by blast
  obtain m' h' ns' os' where e: "hm_help_rehashing m1 h2 = Some (m', h')" "hm_core m' h' ns' os'" "hm_load ns' os'"
    "hm_nodes ns' os' = insert x S" "next_frame (insert x S) m1 m'"
    using hm_help_holds [OF g(2,3)] g(4) by metis
  have "hm_insert m h x = Some (m', h')"
    unfolding hm_insert_def using h0(1) p(1) g(1) e(1) by (simp only: Option.bind.bind_lunit prod.case Let_def)
  moreover have "hm_holds m' h' (insert x S)" using e(2,3,4) by (auto simp: hm_holds_def)
  moreover have "next_frame (insert x S) m m'"
    using next_frame_trans [OF next_frame_mono [OF p(6)] e(5)] by simp
  ultimately show ?thesis by blast
qed


subsection \<open>Size and iteration\<close>

lemma hm_size_holds:
  assumes "hm_holds m h S"
  shows "finite S" "unat (hm_size h) = card S" "card S < 2 ^ 60"
proof -
  obtain ns os where r: "hm_core m h ns os" "S = hm_nodes ns os"
    using assms by (auto simp: hm_holds_def)
  then have c: "card S = length (concat ns) + length (concat os)" using hm_core_card by auto
  moreover have "length (concat ns @ concat os) < 2 ^ 60" using r(1) by (simp add: hm_core_def)
  ultimately show lt: "card S < 2 ^ 60" by simp
  have "hm_size h = w64 (card S)"
    using r(1) c htab_rep_size by (auto simp: hm_core_def hm_size_def w64_add)
  then show "unat (hm_size h) = card S" using lt by simp
  show "finite S" using r(2) by (simp add: hm_nodes_def)
qed

text \<open>The order of iteration, and what a run of the callback over a list of nodes does.\<close>

fun cb_run :: "(addr \<Rightarrow> 's \<Rightarrow> bool \<times> 's) \<Rightarrow> addr list \<Rightarrow> 's \<Rightarrow> bool \<times> 's" where
  "cb_run cb [] s = (True, s)"
| "cb_run cb (x # xs) s = (let (go, s') = cb x s in if go then cb_run cb xs s' else (False, s'))"

lemma cb_run_append:
  "cb_run cb (xs @ ys) s = (let (go, s') = cb_run cb xs s in if go then cb_run cb ys s' else (False, s'))"
  by (induction xs arbitrary: s) (auto split: prod.splits)

lemma h_foreach_chain_run: "chain m p xs \<Longrightarrow> h_foreach_chain m cb p s = Some (cb_run cb xs s)"
proof (induction xs arbitrary: p s)
  case Nil
  then show ?case by (subst h_foreach_chain.simps) simp
next
  case (Cons x xs)
  then obtain n where "p = Some x" "m x = Some n" "chain m (hn_next n) xs" by auto
  then show ?case using Cons.IH by (subst h_foreach_chain.simps) (auto split: prod.splits)
qed

lemma h_foreach_loop_run:
  assumes "htab_rep m t bss" "bss \<noteq> []" "i \<le> length bss"
  shows "h_foreach_loop m t cb (w64 i) s = Some (cb_run cb (concat (drop i bss)) s)"
  using assms(3)
proof (induction "length bss - i" arbitrary: i s)
  obtain tab k where r: "t = \<lparr>ht_tab = Some tab, ht_mask = w64 (2 ^ k) - 1, ht_size = w64 (length (concat bss))\<rparr>"
    "length bss = 2 ^ k" "2 \<le> k" "k \<le> 60" using htab_repE [OF assms(1,2)] by metis
  have "(2::nat) ^ k \<le> 2 ^ 60" "(2::nat) ^ 2 \<le> 2 ^ k" using power_increasing [OF r(4), of "2::nat"] power_increasing [OF r(3), of "2::nat"] by simp_all
  then have len: "4 \<le> length bss" "length bss \<le> 2 ^ 60" using r(2) by simp_all
  obtain l where l: "length bss = Suc l" using len(1) by (cases "length bss") auto
  have "2 ^ k = Suc l" using r(2) l by simp
  then have mask: "ht_mask t = w64 l" using r(1) by (simp add: w64_pred)
  have nz: "ht_mask t \<noteq> 0" using mask l len w64_eq_iff [of l 0] by simp
  {
    case 0
    then have i: "i = length bss" by simp
    have "\<not> w64 i \<le> ht_mask t" using mask i l len by (simp add: not_le)
    then show ?case using i by (subst h_foreach_loop.simps) simp
  next
    case (Suc d)
    then have i: "i < length bss" by simp
    have le: "w64 i \<le> ht_mask t" using mask i l len by (simp add: word_le_nat_alt)
    have u: "unat (w64 i) = i" using i len by simp
    obtain p where p: "slot_read m t (Bucket i) = Some p" "chain m p (bss ! i)"
      using htab_rep_read [OF assms(1) i] by blast
    have next_i: "h_foreach_loop m t cb (w64 i + 1) s' = Some (cb_run cb (concat (drop (Suc i) bss)) s')" for s'
      using Suc.hyps(1) [of "Suc i"] Suc.hyps(2) i by (simp add: w64_Suc)
    have "concat (drop i bss) = bss ! i @ concat (drop (Suc i) bss)"
      using i by (metis Cons_nth_drop_Suc concat.simps(2))
    then show ?case
      using nz le u p next_i h_foreach_chain_run [OF p(2), of cb s]
      by (subst h_foreach_loop.simps) (auto simp: cb_run_append split: prod.splits)
  }
qed

lemma h_foreach_run:
  assumes "htab_rep m t bss"
  shows "h_foreach m t cb s = Some (cb_run cb (concat bss) s)"
proof (cases "bss = []")
  case True
  then have "ht_mask t = 0" using assms by (simp add: htab_rep_def htab_zero_def)
  then show ?thesis using True by (simp add: h_foreach_def h_foreach_loop.simps)
next
  case False
  then show ?thesis using h_foreach_loop_run [OF assms False, of 0] by (simp add: h_foreach_def)
qed

lemma hm_foreach_run:
  assumes "hm_holds m h S"
  shows "\<exists>xs. distinct xs \<and> set xs = S \<and> (\<forall>cb s. hm_foreach m h cb s = Some (snd (cb_run cb xs s)))"
proof -
  obtain ns os where r: "hm_core m h ns os" "S = hm_nodes ns os"
    using assms by (auto simp: hm_holds_def)
  have t: "htab_rep m (hm_newer h) ns" "htab_rep m (hm_older h) os"
    using r(1) by (simp_all add: hm_core_def)
  have "hm_foreach m h cb s = Some (snd (cb_run cb (concat ns @ concat os) s))" for cb s
    by (simp add: hm_foreach_def h_foreach_run [OF t(1)] h_foreach_run [OF t(2)] cb_run_append split: prod.splits)
  moreover have "distinct (concat ns @ concat os)" using r(1) by (simp add: hm_core_def)
  ultimately show ?thesis using r(2) unfolding hm_nodes_def by blast
qed


subsection \<open>Progress of the migration\<close>

lemma hm_lookup_helps:
  "hm_lookup m h key eq = Some (p, m', h') \<Longrightarrow> hm_help_rehashing m h = Some (m', h')"
  by (auto simp: hm_lookup_def bind_eq_Some_conv split: option.splits)

lemma hm_help_progress:
  assumes "hm_holds m h S" "hm_help_rehashing m h = Some (m', h')"
  shows "unat (ht_size (hm_older h')) = unat (ht_size (hm_older h)) - 128 \<and>
    (ht_size (hm_older h') = 0 \<longrightarrow> hm_older h' = htab_zero)"
proof -
  obtain ns os where r: "hm_core m h ns os" using assms(1) by (auto simp: hm_holds_def)
  then obtain ns' os' where s: "hm_core m' h' ns' os'" "helped 128 ns os ns' os'"
    using hm_help_run [OF r] assms(2) by auto
  have unat_size: "unat (ht_size t) = length (concat bss)" if "htab_rep m t bss" for m t bss
    using htab_rep_size [OF that] by simp
  have size: "unat (ht_size (hm_older h)) = length (concat os)" "unat (ht_size (hm_older h')) = length (concat os')"
    using r s(1) unat_size unfolding hm_core_def by blast+
  have t: "htab_rep m' (hm_older h') os'" using s(1) by (simp add: hm_core_def)
  have "hm_older h' = htab_zero" if z: "ht_size (hm_older h') = 0"
  proof -
    have "length (concat os') = 0" using size(2) z by simp
    then have "os' = []" using s(2) unfolding helped_def by auto
    then show ?thesis using t by (simp add: htab_rep_def)
  qed
  then show ?thesis using s(2) size by (simp add: helped_def)
qed

fun hm_lookups :: "hn_mem \<Rightarrow> HMap \<Rightarrow> addr list \<Rightarrow> (addr \<Rightarrow> addr \<Rightarrow> bool) \<Rightarrow> (hn_mem \<times> HMap) option" where
  "hm_lookups m h [] eq = Some (m, h)"
| "hm_lookups m h (k # ks) eq = do { (_, m1, h1) \<leftarrow> hm_lookup m h k eq; hm_lookups m1 h1 ks eq }"

lemma hm_lookups_run:
  assumes "hm_holds m h S" "\<forall>k\<in>set ks. m k \<noteq> None" "ks \<noteq> []"
  shows "\<exists>m' h'. hm_lookups m h ks eq = Some (m', h') \<and> hm_holds m' h' S \<and>
    unat (ht_size (hm_older h')) = unat (ht_size (hm_older h)) - 128 * length ks \<and>
    (ht_size (hm_older h') = 0 \<longrightarrow> hm_older h' = htab_zero)"
  using assms
proof (induction ks arbitrary: m h)
  case (Cons k ks)
  then have "m k \<noteq> None" by simp
  then obtain p m1 h1 where l: "hm_lookup m h k eq = Some (p, m1, h1)" "hm_holds m1 h1 S" "next_frame S m m1"
    using hm_lookup_run [OF Cons.prems(1)] by blast
  note pr = hm_help_progress [OF Cons.prems(1) hm_lookup_helps [OF l(1)]]
  show ?case
  proof (cases "ks = []")
    case True
    then show ?thesis using l pr by simp
  next
    case False
    have "\<forall>k\<in>set ks. m1 k \<noteq> None" using Cons.prems(2) next_frame_alloc [OF l(3)] by simp
    then obtain m' h' where "hm_lookups m1 h1 ks eq = Some (m', h')" "hm_holds m' h' S"
      "unat (ht_size (hm_older h')) = unat (ht_size (hm_older h1)) - 128 * length ks"
      "ht_size (hm_older h') = 0 \<longrightarrow> hm_older h' = htab_zero"
      using Cons.IH [OF l(2) _ False] by blast
    then show ?thesis using l(1) pr by simp
  qed
qed simp

text \<open>The representation reads the nodes of the map only.\<close>

lemma htab_rep_cong:
  assumes "htab_rep m t bss" "\<And>x. x \<in> set (concat bss) \<Longrightarrow> m' x = m x"
  shows "htab_rep m' t bss"
proof -
  have eq: "m' x = m x" if "i < length bss" "x \<in> set (bss ! i)" for i x
    using assms(2) in_bucket [OF that] by simp
  have "chain m' p (bss ! i) = chain m p (bss ! i)" if "i < length bss" for i p
    using eq [OF that] by (rule chain_cong)
  moreover have "bucket_ok m' msk i (bss ! i) = bucket_ok m msk i (bss ! i)" if "i < length bss" for i msk
    using eq [OF that] by (simp add: bucket_ok_def hcode_is_def)
  ultimately have "buckets m' tab msk bss = buckets m tab msk bss" for tab msk
    by (simp add: buckets_def)
  then show ?thesis using assms(1) by (simp only: htab_rep_def)
qed

lemma hm_holds_cong:
  assumes "hm_holds m h S" "\<And>x. x \<in> S \<Longrightarrow> m' x = m x"
  shows "hm_holds m' h S"
proof -
  obtain ns os where r: "hm_core m h ns os" "hm_load ns os" "S = hm_nodes ns os"
    using assms(1) by (auto simp: hm_holds_def)
  have n: "m' x = m x" if "x \<in> set (concat ns)" for x
    using assms(2) [of x] that r(3) unfolding hm_nodes_def set_append by blast
  have o: "m' x = m x" if "x \<in> set (concat os)" for x
    using assms(2) [of x] that r(3) unfolding hm_nodes_def set_append by blast
  have c: "htab_rep m (hm_newer h) ns" "htab_rep m (hm_older h) os"
    using r(1) unfolding hm_core_def by blast+
  have "hm_core m' h ns os"
    using r(1) htab_rep_cong [OF c(1) n] htab_rep_cong [OF c(2) o] unfolding hm_core_def by blast
  then show ?thesis using r(2,3) unfolding hm_holds_def by blast
qed

end
