(* ===== verification/HashSpec.thy ===== *)
theory HashSpec
  imports HashMapProofs Interfaces
begin

text \<open>
  The hash map as an implementation of a set of nodes (\<open>hm_holds m h S\<close>): the
  interface it provides, and its properties.
\<close>

interpretation hmap: node_index hm_holds "\<lambda>m x. map_option hn_hcode (m x)" next_frame
  hm_insert hm_lookup hm_delete
proof (unfold_locales, goal_cases)
  case (1 S m m' x) then show ?case by (simp add: next_frame_def)
next
  case (2 m t S x) then show ?case using hm_insert_run by simp
next
  case (3 m t S key eq)
  then have "m key \<noteq> None" by simp
  then show ?case using hm_lookup_run [OF 3(1), of key eq] unfolding hits_def by blast
next
  case (4 m t S key eq)
  then have "m key \<noteq> None" by simp
  then show ?case using hm_delete_run [OF 4(1), of key eq] unfolding hits_def by blast
qed

lemma hmap_answers: "hmap.answers m key eq x \<longleftrightarrow> hits m key eq x"
  by (simp add: hmap.answers_def hits_def)


subsection \<open>A concrete map for the witnesses\<close>

definition sample_hmem :: hn_mem where
  "sample_hmem = [1 \<mapsto> \<lparr>hn_next = Some 2, hn_hcode = 5\<rparr>, 2 \<mapsto> \<lparr>hn_next = None, hn_hcode = 9\<rparr>,
     3 \<mapsto> \<lparr>hn_next = None, hn_hcode = 9\<rparr>, 4 \<mapsto> \<lparr>hn_next = None, hn_hcode = 6\<rparr>]"

definition sample_hmap :: HMap where
  "sample_hmap = \<lparr>hm_newer = \<lparr>ht_tab = Some [None, Some 1, None, None], ht_mask = 3, ht_size = 2\<rparr>,
     hm_older = htab_zero, hm_migrate_pos = 0\<rparr>"

lemma sample_hmap_holds: "hm_holds sample_hmem sample_hmap {1, 2}"
proof -
  have "buckets sample_hmem [None, Some 1, None, None] (w64 (2 ^ 2) - 1) [[], [1, 2], [], []]"
    by (auto simp: buckets_def sample_hmem_def bucket_ok_def hcode_is_def All_less_Suc w64_def)
  then have "htab_rep sample_hmem (hm_newer sample_hmap) [[], [1, 2], [], []]"
    using htab_repI [of "[[], [1, 2], [], []]" 2 sample_hmem "[None, Some 1, None, None]"]
    by (simp add: sample_hmap_def w64_def)
  then have "hm_core sample_hmem sample_hmap [[], [1, 2], [], []] []"
    by (simp add: hm_core_def htab_rep_def sample_hmap_def)
  then show ?thesis
    unfolding hm_holds_def by (intro exI conjI) (auto simp: hm_load_def hm_nodes_def)
qed


lemma hm_zero_holds: "hm_holds m hmap_zero {}"
  unfolding hm_holds_def
  by (intro exI [of _ "[]"]) (simp add: hm_core_def htab_rep_def hmap_zero_def hm_load_def hm_nodes_def)

text \<open>A map in the middle of a migration: one node is still in the older table.\<close>

definition sample_split :: HMap where
  "sample_split = \<lparr>hm_newer = \<lparr>ht_tab = Some [None, None, None, None, None, Some 1, None, None], ht_mask = 7, ht_size = 2\<rparr>,
     hm_older = \<lparr>ht_tab = Some [None, None, Some 4, None], ht_mask = 3, ht_size = 1\<rparr>, hm_migrate_pos = 1\<rparr>"

definition sample_split_mem :: hn_mem where
  "sample_split_mem = [1 \<mapsto> \<lparr>hn_next = Some 2, hn_hcode = 5\<rparr>, 2 \<mapsto> \<lparr>hn_next = None, hn_hcode = 13\<rparr>,
     3 \<mapsto> \<lparr>hn_next = None, hn_hcode = 6\<rparr>, 4 \<mapsto> \<lparr>hn_next = None, hn_hcode = 6\<rparr>]"

lemma sample_split_holds: "hm_holds sample_split_mem sample_split {1, 2, 4}"
proof -
  have "buckets sample_split_mem [None, None, None, None, None, Some 1, None, None] (w64 (2 ^ 3) - 1)
      [[], [], [], [], [], [1, 2], [], []]"
    by (auto simp: buckets_def sample_split_mem_def bucket_ok_def hcode_is_def All_less_Suc w64_def)
  then have n: "htab_rep sample_split_mem (hm_newer sample_split) [[], [], [], [], [], [1, 2], [], []]"
    using htab_repI [of "[[], [], [], [], [], [1, 2], [], []]" 3 sample_split_mem
        "[None, None, None, None, None, Some 1, None, None]"]
    by (simp add: sample_split_def w64_def)
  have "buckets sample_split_mem [None, None, Some 4, None] (w64 (2 ^ 2) - 1) [[], [], [4], []]"
    by (auto simp: buckets_def sample_split_mem_def bucket_ok_def hcode_is_def All_less_Suc w64_def)
  then have o: "htab_rep sample_split_mem (hm_older sample_split) [[], [], [4], []]"
    using htab_repI [of "[[], [], [4], []]" 2 sample_split_mem "[None, None, Some 4, None]"]
    by (simp add: sample_split_def w64_def)
  have "hm_core sample_split_mem sample_split [[], [], [], [], [], [1, 2], [], []] [[], [], [4], []]"
    using n o by (simp add: hm_core_def sample_split_def)
  then show ?thesis
    unfolding hm_holds_def by (intro exI conjI) (auto simp: hm_load_def hm_nodes_def)
qed


subsection \<open>Properties\<close>

text \<open>
  C13. Inserting a node that is not in the map succeeds and adds exactly this node,
  whether it creates the first table, starts a doubling or happens during a migration;
  the hash codes and the nodes of other containers are untouched.
\<close>

theorem hm_insert_correct:
  assumes "hm_holds m h S" and "m x \<noteq> None" and "x \<notin> S" and "Suc (card S) < 2 ^ 60"
  shows "\<exists>m' h'. hm_insert m h x = Some (m', h') \<and> hm_holds m' h' (insert x S) \<and>
    next_frame (insert x S) m m'"
  using hm_insert_run [OF assms] .

theorem hm_insert_correct_witness:
  "(\<exists>m' h'. hm_insert sample_hmem hmap_zero 4 = Some (m', h') \<and> hm_holds m' h' {4}) \<and>
   (\<exists>m' h'. hm_insert sample_split_mem sample_split 3 = Some (m', h') \<and> hm_holds m' h' {3, 1, 2, 4})"
  using hm_insert_correct [OF hm_zero_holds, of sample_hmem 4] hm_insert_correct [OF sample_split_holds, of 3]
  by (auto simp: sample_hmem_def sample_split_mem_def)

text \<open>
  A lookup succeeds at every stage of a migration, changes nothing of the set, and
  returns a node that has the key's hash code and for which the callback says yes,
  or the null pointer when the map holds no such node in either table.
\<close>

theorem hm_lookup_correct:
  assumes "hm_holds m h S" and "m key \<noteq> None"
  shows "\<exists>p m' h'. hm_lookup m h key eq = Some (p, m', h') \<and> hm_holds m' h' S \<and> next_frame S m m' \<and>
    (case p of None \<Rightarrow> \<forall>x\<in>S. \<not> hits m key eq x | Some x \<Rightarrow> x \<in> S \<and> hits m key eq x)"
  using hm_lookup_run [OF assms] .

theorem hm_lookup_correct_witness:
  "\<exists>m' h'. hm_lookup sample_split_mem sample_split 3 (\<lambda>x k. True) = Some (Some 4, m', h') \<and>
    hm_holds m' h' {1, 2, 4}"
proof -
  have k: "sample_split_mem 3 \<noteq> None" by (simp add: sample_split_mem_def)
  have hits: "hits sample_split_mem 3 (\<lambda>x k. True) x \<longleftrightarrow> x = 4" if "x \<in> {1, 2, 4}" for x
    using that by (auto simp: hits_def sample_split_mem_def)
  obtain p m' h' where r: "hm_lookup sample_split_mem sample_split 3 (\<lambda>x k. True) = Some (p, m', h')"
    "hm_holds m' h' {1, 2, 4}" "case p of None \<Rightarrow> \<forall>x\<in>{1, 2, 4}. \<not> hits sample_split_mem 3 (\<lambda>x k. True) x
      | Some x \<Rightarrow> x \<in> {1, 2, 4} \<and> hits sample_split_mem 3 (\<lambda>x k. True) x"
    using hm_lookup_correct [OF sample_split_holds k, of "\<lambda>x k. True"] by blast
  then have "p = Some 4" using hits by (cases p) auto
  then show ?thesis using r by blast
qed

text \<open>
  C21. A deletion detaches one node that matches the key, from whichever table it is in,
  and leaves exactly the others; without a match it leaves the set as it is.
\<close>

theorem hm_delete_correct:
  assumes "hm_holds m h S" and "m key \<noteq> None"
  shows "\<exists>p m' h'. hm_delete m h key eq = Some (p, m', h') \<and> next_frame S m m' \<and>
    (case p of None \<Rightarrow> hm_holds m' h' S \<and> (\<forall>x\<in>S. \<not> hits m key eq x)
     | Some x \<Rightarrow> hm_holds m' h' (S - {x}) \<and> x \<in> S \<and> hits m key eq x)"
  using hm_delete_run [OF assms] .

theorem hm_delete_correct_witness:
  "\<exists>m' h'. hm_delete sample_hmem sample_hmap 3 (\<lambda>x k. x = 2) = Some (Some 2, m', h') \<and> hm_holds m' h' {1}"
proof -
  have k: "sample_hmem 3 \<noteq> None" by (simp add: sample_hmem_def)
  have hits: "hits sample_hmem 3 (\<lambda>x k. x = 2) x \<longleftrightarrow> x = 2" if "x \<in> {1, 2}" for x
    using that by (auto simp: hits_def sample_hmem_def)
  obtain p m' h' where r: "hm_delete sample_hmem sample_hmap 3 (\<lambda>x k. x = 2) = Some (p, m', h')"
    "case p of None \<Rightarrow> hm_holds m' h' {1, 2} \<and> (\<forall>x\<in>{1, 2}. \<not> hits sample_hmem 3 (\<lambda>x k. x = 2) x)
      | Some x \<Rightarrow> hm_holds m' h' ({1, 2} - {x}) \<and> x \<in> {1, 2} \<and> hits sample_hmem 3 (\<lambda>x k. x = 2) x"
    using hm_delete_correct [OF sample_hmap_holds k, of "\<lambda>x k. x = 2"] by blast
  then have p: "p = Some 2" using hits by (cases p) auto
  have "{1, 2} - {2} = {1 :: nat}" by auto
  then show ?thesis using r p by auto
qed

text \<open>
  An inserted node is found by the next lookup with its key, when no other node of
  the map answers to that key.
\<close>

theorem hm_insert_lookup:
  assumes "hm_holds m h S" and "m x \<noteq> None" and "x \<notin> S" and "Suc (card S) < 2 ^ 60"
    and "m key \<noteq> None" and "hits m key eq x" and "\<forall>y\<in>S. \<not> hits m key eq y"
  shows "\<exists>m1 h1 m2 h2. hm_insert m h x = Some (m1, h1) \<and>
    hm_lookup m1 h1 key eq = Some (Some x, m2, h2) \<and> hm_holds m2 h2 (insert x S)"
proof -
  have "map_option hn_hcode (m x) \<noteq> None" "map_option hn_hcode (m key) \<noteq> None" using assms(2,5) by simp_all
  from hmap.put_find [unfolded hmap_answers, OF assms(1) this(1) assms(3,4) this(2) assms(6,7)] show ?thesis .
qed

theorem hm_insert_lookup_witness:
  "\<exists>m1 h1 m2 h2. hm_insert sample_hmem sample_hmap 4 = Some (m1, h1) \<and>
    hm_lookup m1 h1 4 (\<lambda>x k. x = k) = Some (Some 4, m2, h2) \<and> hm_holds m2 h2 {4, 1, 2}"
proof -
  have "hits sample_hmem 4 (\<lambda>x k. x = k) 4" "\<forall>y\<in>{1, 2}. \<not> hits sample_hmem 4 (\<lambda>x k. x = k) y"
    by (simp_all add: hits_def)
  then show ?thesis
    using hm_insert_lookup [OF sample_hmap_holds, of 4 4 "\<lambda>x k. x = k"] by (simp add: sample_hmem_def)
qed

text \<open>
  A deleted node is not found again: after deleting the only node that answers to a
  key, a lookup with the key returns the null pointer.
\<close>

theorem hm_delete_lookup:
  assumes "hm_holds m h S" and "m key \<noteq> None" and "x \<in> S" and "hits m key eq x"
    and "\<forall>y\<in>S. hits m key eq y \<longrightarrow> y = x"
  shows "\<exists>m1 h1 m2 h2. hm_delete m h key eq = Some (Some x, m1, h1) \<and>
    hm_lookup m1 h1 key eq = Some (None, m2, h2) \<and> hm_holds m2 h2 (S - {x})"
proof -
  have "map_option hn_hcode (m key) \<noteq> None" using assms(2) by simp
  from hmap.take_find [unfolded hmap_answers, OF assms(1) this assms(3-5)] show ?thesis .
qed

theorem hm_delete_lookup_witness:
  "\<exists>m1 h1 m2 h2. hm_delete sample_split_mem sample_split 3 (\<lambda>x k. True) = Some (Some 4, m1, h1) \<and>
    hm_lookup m1 h1 3 (\<lambda>x k. True) = Some (None, m2, h2) \<and> hm_holds m2 h2 ({1, 2, 4} - {4})"
proof -
  have "hits sample_split_mem 3 (\<lambda>x k. True) 4"
    "\<forall>y\<in>{1, 2, 4}. hits sample_split_mem 3 (\<lambda>x k. True) y \<longrightarrow> y = 4"
    "sample_split_mem 3 \<noteq> None" "4 \<in> {1, 2, 4 :: addr}"
    by (auto simp: hits_def sample_split_mem_def)
  then show ?thesis
    by (intro hm_delete_lookup [OF sample_split_holds, of 3 4 "\<lambda>x k. True"])
qed

text \<open>
  C23. Progressive rehashing ends: each call migrates 128 nodes (or what is left), and a
  sequence of calls at least one and at least one per 128 remaining nodes long
  empties and frees the older table while the map keeps its nodes.
\<close>

theorem hm_rehashing_drains:
  assumes "hm_holds m h S" and "\<forall>k\<in>set ks. m k \<noteq> None" and "ks \<noteq> []"
    and "unat (ht_size (hm_older h)) \<le> 128 * length ks"
  shows "\<exists>m' h'. hm_lookups m h ks eq = Some (m', h') \<and> hm_older h' = htab_zero \<and> hm_holds m' h' S"
proof -
  obtain m' h' where r: "hm_lookups m h ks eq = Some (m', h')" "hm_holds m' h' S"
    "unat (ht_size (hm_older h')) = unat (ht_size (hm_older h)) - 128 * length ks"
    "ht_size (hm_older h') = 0 \<longrightarrow> hm_older h' = htab_zero"
    using hm_lookups_run [OF assms(1-3)] by blast
  then have "ht_size (hm_older h') = 0" using assms(4) by (simp add: unsigned_eq_0_iff)
  then show ?thesis using r by blast
qed

theorem hm_rehashing_drains_witness:
  "\<exists>m' h'. hm_lookups sample_split_mem sample_split [3] (\<lambda>x k. False) = Some (m', h') \<and>
    hm_older h' = htab_zero \<and> hm_holds m' h' {1, 2, 4}"
  using hm_rehashing_drains [OF sample_split_holds, of "[3]" "\<lambda>x k. False"]
  by (simp add: sample_split_mem_def sample_split_def)

text \<open>
  A client of the map: it sets up nodes of its own outside the map, inserts them, looks nodes
  up and deletes them with any callback. The set is its own record of what is in the map: the
  nodes it has inserted and \<open>hm_delete\<close> has not returned since.
\<close>

datatype hm_op = NewNode addr u64 | MapInsert addr
  | MapLookup addr "addr \<Rightarrow> addr \<Rightarrow> bool" | MapDelete addr "addr \<Rightarrow> addr \<Rightarrow> bool"

fun hm_step :: "hm_op \<Rightarrow> hn_mem \<times> HMap \<times> addr set \<Rightarrow> (hn_mem \<times> HMap \<times> addr set) option" where
  "hm_step (NewNode x code) (m, h, S) = Some (m(x \<mapsto> \<lparr>hn_next = None, hn_hcode = code\<rparr>), h, S)"
| "hm_step (MapInsert x) (m, h, S) = do { (m', h') \<leftarrow> hm_insert m h x; Some (m', h', insert x S) }"
| "hm_step (MapLookup key eq) (m, h, S) = do { (p, m', h') \<leftarrow> hm_lookup m h key eq; Some (m', h', S) }"
| "hm_step (MapDelete key eq) (m, h, S) = do {
     (p, m', h') \<leftarrow> hm_delete m h key eq; Some (m', h', S - set_option p) }"

fun hm_run :: "hm_op list \<Rightarrow> hn_mem \<times> HMap \<times> addr set \<Rightarrow> (hn_mem \<times> HMap \<times> addr set) option" where
  "hm_run [] st = Some st"
| "hm_run (op # ops) st = do { st' \<leftarrow> hm_step op st; hm_run ops st' }"

text \<open>
  What the client owes at each operation: no writing to a node inside the map, no inserting
  a node that is in the map already, no node or key that is not there.
\<close>

fun hm_owed :: "hm_op \<Rightarrow> hn_mem \<times> HMap \<times> addr set \<Rightarrow> bool" where
  "hm_owed (NewNode x code) (m, h, S) = (x \<notin> S)"
| "hm_owed (MapInsert x) (m, h, S) = (m x \<noteq> None \<and> x \<notin> S)"
| "hm_owed (MapLookup key eq) (m, h, S) = (m key \<noteq> None)"
| "hm_owed (MapDelete key eq) (m, h, S) = (m key \<noteq> None)"

fun hm_client :: "hm_op list \<Rightarrow> hn_mem \<times> HMap \<times> addr set \<Rightarrow> bool" where
  "hm_client [] st = True"
| "hm_client (op # ops) st = (hm_owed op st \<and> (case hm_step op st of None \<Rightarrow> True | Some st' \<Rightarrow> hm_client ops st'))"

lemma hm_step_holds:
  assumes "hm_holds m h S" and "hm_owed op (m, h, S)" and "Suc (card S) < 2 ^ 60"
  shows "\<exists>m' h' S'. hm_step op (m, h, S) = Some (m', h', S') \<and> hm_holds m' h' S' \<and> card S' \<le> Suc (card S)"
proof (cases op)
  case (NewNode x code)
  let ?m = "m(x \<mapsto> \<lparr>hn_next = None, hn_hcode = code\<rparr>)"
  have "hm_holds ?m h S" using assms(2) NewNode by (intro hm_holds_cong [OF assms(1)]) auto
  then show ?thesis using NewNode by simp
next
  case (MapInsert x)
  then have "m x \<noteq> None" "x \<notin> S" using assms(2) by simp_all
  from hm_insert_run [OF assms(1) this assms(3)] show ?thesis
    using MapInsert card_insert_le_m1 card_insert_if [OF hm_size_holds(1) [OF assms(1)]] by fastforce
next
  case (MapLookup key eq)
  then have "m key \<noteq> None" using assms(2) by simp
  from hm_lookup_run [OF assms(1) this, of eq] show ?thesis using MapLookup by fastforce
next
  case (MapDelete key eq)
  then have "m key \<noteq> None" using assms(2) by simp
  from hm_delete_run [OF assms(1) this, of eq] obtain p m' h' where d: "hm_delete m h key eq = Some (p, m', h')"
    "case p of None \<Rightarrow> hm_holds m' h' S | Some x \<Rightarrow> hm_holds m' h' (S - {x})"
    by (auto split: option.splits)
  then have "hm_holds m' h' (S - set_option p)" by (cases p) simp_all
  moreover have "card (S - set_option p) \<le> card S" using hm_size_holds(1) [OF assms(1)] by (simp add: card_mono)
  ultimately show ?thesis using d(1) MapDelete by simp
qed

lemma hm_run_holds:
  assumes "hm_holds m h S" and "hm_client ops (m, h, S)" and "card S + length ops < 2 ^ 60"
  shows "\<exists>m' h' S'. hm_run ops (m, h, S) = Some (m', h', S') \<and> hm_holds m' h' S'"
  using assms
proof (induction ops arbitrary: m h S)
  case (Cons op ops)
  then obtain m1 h1 S1 where s: "hm_step op (m, h, S) = Some (m1, h1, S1)" "hm_holds m1 h1 S1" "card S1 \<le> Suc (card S)"
    using hm_step_holds [of m h S op] by auto
  then have "hm_client ops (m1, h1, S1)" "card S1 + length ops < 2 ^ 60" using Cons.prems by simp_all
  from Cons.IH [OF s(2) this] s(1) show ?case by simp
qed simp

lemma hm_holds_load:
  assumes "hm_holds m h S" and "S \<noteq> {}"
  shows "ht_tab (hm_newer h) \<noteq> None \<and> card S < 8 * (unat (ht_mask (hm_newer h)) + 1)"
proof -
  obtain ns os where r: "hm_core m h ns os" "hm_load ns os" "S = hm_nodes ns os"
    using assms(1) by (auto simp: hm_holds_def)
  then have t: "htab_rep m (hm_newer h) ns" "os \<noteq> [] \<longrightarrow> ns \<noteq> []" by (auto simp: hm_core_def)
  have ne: "ns \<noteq> []" using t(2) assms(2) r(3) by (auto simp: hm_nodes_def)
  then obtain tab k where k: "hm_newer h = \<lparr>ht_tab = Some tab, ht_mask = w64 (2 ^ k) - 1, ht_size = w64 (length (concat ns))\<rparr>"
    "length ns = 2 ^ k" "k \<le> 60" using htab_repE [OF t(1)] by metis
  have "(2::nat) ^ k < 2 ^ 64" using k(3) by (intro power_strict_increasing) auto
  then have "unat (w64 (2 ^ k)) = 2 ^ k" by simp
  then have "unat (w64 (2 ^ k) - 1) + 1 = 2 ^ k" by (subst unat_minus_one) auto
  then have "unat (ht_mask (hm_newer h)) + 1 = length ns" using k(1,2) by simp
  moreover have "length (concat ns @ concat os) < 8 * length ns"
  proof (cases "os = []")
    case False
    then have "0 < length os" "length ns = 2 * length os"
      "128 * length (concat ns @ concat os) + length (concat os) \<le> 1032 * length os"
      using r(2) by (simp_all only: hm_load_def if_False length_greater_0_conv not_False_eq_True)
    then show ?thesis by linarith
  qed (use r(2) ne in \<open>simp add: hm_load_def\<close>)
  then have "card S < 8 * length ns" using hm_core_card [OF r(1)] r(3) by simp
  ultimately show ?thesis using htab_rep_tab [OF t(1)] ne by simp
qed

text \<open>
  C22. The load factor stays below 8 at every moment, also in the middle of a migration: from
  an empty map, every sequence of insertions, lookups and deletions by a client that keeps its
  side of the bargain runs to its end, the size the map reports is the number of nodes inserted
  and not deleted, and these nodes, in both tables together, are fewer than 8 per bucket of the
  newer table. So the doubling is never late although it waits for the migration to end. (The
  sequence has fewer than \<open>2 ^ 60\<close> operations, which keeps the mask arithmetic below 64 bits.)
\<close>

theorem hm_load_bound:
  assumes "hm_client ops (m, hmap_zero, {})" and "length ops < 2 ^ 60"
  shows "\<exists>m' h S. hm_run ops (m, hmap_zero, {}) = Some (m', h, S) \<and> unat (hm_size h) = card S \<and>
    card S < 8 * (unat (ht_mask (hm_newer h)) + 1)"
proof -
  obtain m' h S where r: "hm_run ops (m, hmap_zero, {}) = Some (m', h, S)" "hm_holds m' h S"
    using hm_run_holds [OF hm_zero_holds assms(1)] assms(2) by auto
  moreover have "card S < 8 * (unat (ht_mask (hm_newer h)) + 1)"
    using hm_holds_load [OF r(2)] by (cases "S = {}") auto
  ultimately show ?thesis using hm_size_holds(2) [OF r(2)] by blast
qed

text \<open>Thirty-three insertions, one more than the first table may hold.\<close>

definition sample_ops :: "hm_op list" where
  "sample_ops = concat (map (\<lambda>i. [NewNode i (of_nat i), MapInsert i]) [1..<34])"

lemma sample_ops_client: "hm_client sample_ops (Map.empty, hmap_zero, {})"
  by code_simp

theorem hm_load_bound_witness:
  "\<exists>m h S. hm_run sample_ops (Map.empty, hmap_zero, {}) = Some (m, h, S) \<and> unat (hm_size h) = card S \<and>
    card S < 8 * (unat (ht_mask (hm_newer h)) + 1)"
proof (rule hm_load_bound [OF sample_ops_client])
  have "length sample_ops = 66" by code_simp
  then show "length sample_ops < 2 ^ 60" by simp
qed

text \<open>
  \<open>hm_foreach\<close> calls the callback on every node of the map exactly once, in an order
  that does not depend on the callback, until the callback says stop.
\<close>

theorem hm_foreach_correct:
  assumes "hm_holds m h S"
  shows "\<exists>xs. distinct xs \<and> set xs = S \<and> (\<forall>cb s. hm_foreach m h cb s = Some (snd (cb_run cb xs s)))"
  using hm_foreach_run [OF assms] .

theorem hm_foreach_correct_witness:
  "\<exists>xs. distinct xs \<and> set xs = {1, 2, 4} \<and>
    hm_foreach sample_split_mem sample_split (\<lambda>x n. (True, x + n)) 0 = Some (snd (cb_run (\<lambda>x n. (True, x + n)) xs 0))"
proof -
  obtain xs where "distinct xs" "set xs = {1, 2, 4}"
    and run: "\<forall>cb s. hm_foreach sample_split_mem sample_split cb s = Some (snd (cb_run cb xs s :: bool \<times> nat))"
    using hm_foreach_correct [OF sample_split_holds] by (elim exE conjE)
  then show ?thesis by (intro exI conjI) (assumption | rule run [rule_format])+
qed

text \<open>
  \<open>hm_size\<close> is the number of nodes, without overflow, at every stage of a migration.
\<close>

theorem hm_size_correct:
  assumes "hm_holds m h S"
  shows "unat (hm_size h) = card S"
  using hm_size_holds(2) [OF assms] .

theorem hm_size_correct_witness: "unat (hm_size sample_split) = card {1, 2, 4 :: addr}"
  using hm_size_correct [OF sample_split_holds] .

text \<open>
  \<open>round_up_power_of_2\<close> returns the least power of two that is not below its
  argument, for every argument from 1 to \<open>2 ^ 63\<close>.
\<close>

theorem round_up_correct:
  assumes "0 < n" and "n \<le> 2 ^ 63"
  shows "\<exists>k\<le>63. unat (round_up_power_of_2 n) = 2 ^ k \<and> unat n \<le> 2 ^ k \<and> 2 ^ k < 2 * unat n"
  using round_up_least [OF assms] .

theorem round_up_correct_witness:
  "\<exists>k. k \<le> 63 \<and> unat (round_up_power_of_2 100) = 2 ^ k \<and> 100 \<le> (2 ^ k :: nat)"
  using round_up_correct [of 100] by auto

end
