(* ===== verification/ZSet.thy ===== *)
theory ZSet
  imports Avl HashTable Bytes
begin

text \<open>
  The sorted set of \<open>src/ds/zset.cc\<close> and \<open>include/byoredis/ds/zset.hh\<close>: one set of
  \<open>ZNode\<close> objects with two indexes, the AVL tree by (score, name) and the hash map by
  name. The three parts of a \<open>ZNode\<close> (\<open>tree\<close>, \<open>hmap\<close> and the data) live at one address in
  the three stores of \<open>zmem\<close>, which all sorted sets share; \<open>malloc\<close> takes the next
  address and does not fail, \<open>free\<close> removes the object, so that a later access through
  a stale pointer is the result \<open>None\<close>. The local variable \<open>HKey key\<close> is the object at
  \<open>stack_key\<close>. A pair \<open>(name, len)\<close> of arguments is the list of its bytes, and a \<open>double\<close>
  is its 64 bits; comparisons are those of IEEE 754.
\<close>

subsection \<open>Doubles\<close>

definition dbl_mag :: "u64 \<Rightarrow> int" where
  "dbl_mag x = uint (x AND 0x7FFFFFFFFFFFFFFF)"

definition dbl_isnan :: "u64 \<Rightarrow> bool" where
  "dbl_isnan x \<longleftrightarrow> 0x7FF0000000000000 < dbl_mag x"

text \<open>Off the NaNs the order of doubles is the order of sign and magnitude; both zeros are equal.\<close>

definition dbl_key :: "u64 \<Rightarrow> int" where
  "dbl_key x = (if bit x 63 then - dbl_mag x else dbl_mag x)"

definition dbl_less :: "u64 \<Rightarrow> u64 \<Rightarrow> bool" where
  "dbl_less x y \<longleftrightarrow> \<not> dbl_isnan x \<and> \<not> dbl_isnan y \<and> dbl_key x < dbl_key y"

definition dbl_neq :: "u64 \<Rightarrow> u64 \<Rightarrow> bool" where
  "dbl_neq x y \<longleftrightarrow> dbl_isnan x \<or> dbl_isnan y \<or> dbl_key x \<noteq> dbl_key y"


subsection \<open>Nodes, sets and memory\<close>

record ZNode =
  zn_score :: u64
  zn_len :: nat
  zn_name :: bytes

record ZSet =
  zs_root :: ptr
  zs_hmap :: HMap

record zmem =
  zm_tree :: avl_mem
  zm_hmap :: hn_mem
  zm_node :: "addr \<rightharpoonup> ZNode"
  zm_next :: addr

definition zset_zero :: ZSet where
  "zset_zero = \<lparr>zs_root = None, zs_hmap = hmap_zero\<rparr>"

definition stack_key :: addr where
  "stack_key = 0"


subsection \<open>Lookup by name\<close>

definition str_hash :: "bytes \<Rightarrow> u64" where
  "str_hash data = ucast (fold (\<lambda>d h. (h + ucast d) * 0x1000193) data (0x811C9DC5 :: u32))"

text \<open>\<open>memcmp\<close>: the sign of the first difference; a read past either object is \<open>None\<close>.\<close>

fun memcmp :: "bytes \<Rightarrow> bytes \<Rightarrow> nat \<Rightarrow> int option" where
  "memcmp xs ys 0 = Some 0"
| "memcmp (x # xs) (y # ys) (Suc n) = (if x < y then Some (- 1) else if y < x then Some 1 else memcmp xs ys n)"
| "memcmp _ _ (Suc n) = None"

text \<open>The callback; \<open>name\<close> is what the key holds. It is only called on nodes of the set.\<close>

definition hcmp :: "(addr \<rightharpoonup> ZNode) \<Rightarrow> bytes \<Rightarrow> addr \<Rightarrow> addr \<Rightarrow> bool" where
  "hcmp nodes name node key = (case nodes node of
     None \<Rightarrow> False
   | Some z \<Rightarrow> if zn_len z \<noteq> length name then False else memcmp (zn_name z) name (zn_len z) = Some 0)"

text \<open>A key on the stack for the duration of a call.\<close>

definition push_key :: "hn_mem \<Rightarrow> u64 \<Rightarrow> hn_mem" where
  "push_key m hcode = m(stack_key \<mapsto> \<lparr>hn_next = None, hn_hcode = hcode\<rparr>)"

definition pop_key :: "hn_mem \<Rightarrow> hn_mem" where
  "pop_key m = m(stack_key := None)"

definition zset_lookup :: "zmem \<Rightarrow> ZSet \<Rightarrow> bytes \<Rightarrow> (ptr \<times> zmem \<times> ZSet) option" where
  "zset_lookup zm zset name =
     (if zs_root zset = None then Some (None, zm, zset)
      else do {
        (found, m1, h1) \<leftarrow> hm_lookup (push_key (zm_hmap zm) (str_hash name)) (zs_hmap zset)
           stack_key (hcmp (zm_node zm) name);
        Some (found, zm\<lparr>zm_hmap := pop_key m1\<rparr>, zset\<lparr>zs_hmap := h1\<rparr>)
      })"


subsection \<open>The order\<close>

definition zless :: "zmem \<Rightarrow> addr \<Rightarrow> addr \<Rightarrow> bool option" where
  "zless zm lhs rhs = do {
     zl \<leftarrow> zm_node zm lhs;
     zr \<leftarrow> zm_node zm rhs;
     (if dbl_neq (zn_score zl) (zn_score zr) then Some (dbl_less (zn_score zl) (zn_score zr))
      else do {
        rv \<leftarrow> memcmp (zn_name zl) (zn_name zr) (min (zn_len zl) (zn_len zr));
        Some (if rv \<noteq> 0 then rv < 0 else zn_len zl < zn_len zr)
      })
   }"

definition zless_tuple :: "zmem \<Rightarrow> addr \<Rightarrow> u64 \<Rightarrow> bytes \<Rightarrow> bool option" where
  "zless_tuple zm lhs score name = do {
     zl \<leftarrow> zm_node zm lhs;
     (if dbl_neq (zn_score zl) score then Some (dbl_less (zn_score zl) score)
      else do {
        rv \<leftarrow> memcmp (zn_name zl) name (min (zn_len zl) (length name));
        Some (if rv \<noteq> 0 then rv < 0 else zn_len zl < length name)
      })
   }"


subsection \<open>Insertion and update\<close>

text \<open>The loop of \<open>tree_insert\<close>: from the pointer \<open>*from\<close>, here \<open>cur\<close>, down to a null pointer.\<close>

partial_function (option) tree_insert_loop ::
  "zmem \<Rightarrow> addr \<Rightarrow> ptr \<Rightarrow> ptr \<Rightarrow> slot \<Rightarrow> (ptr \<times> slot) option"
where
  "tree_insert_loop zm node cur parent from =
     (case cur of
        None \<Rightarrow> Some (parent, from)
      | Some p \<Rightarrow> do {
          lt \<leftarrow> zless zm node p;
          pn \<leftarrow> zm_tree zm p;
          (if lt then tree_insert_loop zm node (an_left pn) (Some p) (LeftOf p)
           else tree_insert_loop zm node (an_right pn) (Some p) (RightOf p))
        })"

declare tree_insert_loop.simps [code]

definition tree_insert :: "zmem \<Rightarrow> ZSet \<Rightarrow> addr \<Rightarrow> (zmem \<times> ZSet) option" where
  "tree_insert zm zset node = do {
     (parent, from) \<leftarrow> tree_insert_loop zm node (zs_root zset) None Local;
     m1 \<leftarrow> write_slot (zm_tree zm) from (Some node);
     m2 \<leftarrow> set_parent m1 (Some node) parent;
     (root, m3) \<leftarrow> avl_fix m2 node;
     Some (zm\<lparr>zm_tree := m3\<rparr>, zset\<lparr>zs_root := Some root\<rparr>)
   }"

definition zset_update :: "zmem \<Rightarrow> ZSet \<Rightarrow> addr \<Rightarrow> u64 \<Rightarrow> (zmem \<times> ZSet) option" where
  "zset_update zm zset node score = do {
     (root, m1) \<leftarrow> avl_del (zm_tree zm) node;
     m2 \<leftarrow> avl_init m1 node;
     nodes \<leftarrow> modify_at (zm_node zm) node (\<lambda>z. z\<lparr>zn_score := score\<rparr>);
     tree_insert (zm\<lparr>zm_tree := m2, zm_node := nodes\<rparr>) (zset\<lparr>zs_root := root\<rparr>) node
   }"

definition znode_new :: "zmem \<Rightarrow> bytes \<Rightarrow> u64 \<Rightarrow> addr \<times> zmem" where
  "znode_new zm name score =
     (let node = zm_next zm in
      (node, \<lparr>zm_tree = (zm_tree zm)(node \<mapsto>
                 \<lparr>an_parent = None, an_left = None, an_right = None, an_height = 1, an_size = 1\<rparr>),
              zm_hmap = (zm_hmap zm)(node \<mapsto> \<lparr>hn_next = None, hn_hcode = str_hash name\<rparr>),
              zm_node = (zm_node zm)(node \<mapsto> \<lparr>zn_score = score, zn_len = length name, zn_name = name\<rparr>),
              zm_next = node + 1\<rparr>))"

definition znode_free :: "zmem \<Rightarrow> addr \<Rightarrow> zmem option" where
  "znode_free zm node =
     (if zm_node zm node = None then None
      else Some (zm\<lparr>zm_tree := (zm_tree zm)(node := None), zm_hmap := (zm_hmap zm)(node := None),
                    zm_node := (zm_node zm)(node := None)\<rparr>))"

definition zset_insert :: "zmem \<Rightarrow> ZSet \<Rightarrow> bytes \<Rightarrow> u64 \<Rightarrow> (bool \<times> zmem \<times> ZSet) option" where
  "zset_insert zm zset name score = do {
     (found, zm1, zset1) \<leftarrow> zset_lookup zm zset name;
     (case found of
        Some node \<Rightarrow> do {
          (zm2, zset2) \<leftarrow> zset_update zm1 zset1 node score;
          Some (False, zm2, zset2)
        }
      | None \<Rightarrow> do {
          let (node, zm2) = znode_new zm1 name score;
          (m3, h3) \<leftarrow> hm_insert (zm_hmap zm2) (zs_hmap zset1) node;
          (zm4, zset4) \<leftarrow> tree_insert (zm2\<lparr>zm_hmap := m3\<rparr>) (zset1\<lparr>zs_hmap := h3\<rparr>) node;
          Some (True, zm4, zset4)
        })
   }"


subsection \<open>Deletion\<close>

definition zset_delete :: "zmem \<Rightarrow> ZSet \<Rightarrow> addr \<Rightarrow> (zmem \<times> ZSet) option" where
  "zset_delete zm zset node = do {
     hn \<leftarrow> zm_hmap zm node;
     z \<leftarrow> zm_node zm node;
     (found, m1, h1) \<leftarrow> hm_delete (push_key (zm_hmap zm) (hn_hcode hn)) (zs_hmap zset)
        stack_key (hcmp (zm_node zm) (take (zn_len z) (zn_name z)));
     (if found = None then None
      else do {
        (root, m2) \<leftarrow> avl_del (zm_tree zm) node;
        zm1 \<leftarrow> znode_free (zm\<lparr>zm_tree := m2, zm_hmap := pop_key m1\<rparr>) node;
        Some (zm1, zset\<lparr>zs_root := root, zs_hmap := h1\<rparr>)
      })
   }"

partial_function (option) tree_dispose :: "zmem \<Rightarrow> ptr \<Rightarrow> zmem option" where
  "tree_dispose zm node =
     (case node of
        None \<Rightarrow> Some zm
      | Some a \<Rightarrow> do {
          n \<leftarrow> zm_tree zm a;
          zm1 \<leftarrow> tree_dispose zm (an_left n);
          n1 \<leftarrow> zm_tree zm1 a;
          zm2 \<leftarrow> tree_dispose zm1 (an_right n1);
          znode_free zm2 a
        })"

declare tree_dispose.simps [code]

definition zset_clear :: "zmem \<Rightarrow> ZSet \<Rightarrow> (zmem \<times> ZSet) option" where
  "zset_clear zm zset = do {
     let h1 = hm_clear (zs_hmap zset);
     zm1 \<leftarrow> tree_dispose zm (zs_root zset);
     Some (zm1, zset\<lparr>zs_root := None, zs_hmap := h1\<rparr>)
   }"


subsection \<open>Queries\<close>

partial_function (option) zset_seekge_loop ::
  "zmem \<Rightarrow> u64 \<Rightarrow> bytes \<Rightarrow> ptr \<Rightarrow> ptr \<Rightarrow> ptr option"
where
  "zset_seekge_loop zm score name node found =
     (case node of
        None \<Rightarrow> Some found
      | Some a \<Rightarrow> do {
          lt \<leftarrow> zless_tuple zm a score name;
          n \<leftarrow> zm_tree zm a;
          (if lt then zset_seekge_loop zm score name (an_right n) found
           else zset_seekge_loop zm score name (an_left n) (Some a))
        })"

declare zset_seekge_loop.simps [code]

definition zset_seekge :: "zmem \<Rightarrow> ZSet \<Rightarrow> u64 \<Rightarrow> bytes \<Rightarrow> ptr option" where
  "zset_seekge zm zset score name = zset_seekge_loop zm score name (zs_root zset) None"

definition znode_offset :: "zmem \<Rightarrow> ptr \<Rightarrow> int \<Rightarrow> ptr option" where
  "znode_offset zm node offset =
     (case node of None \<Rightarrow> Some None | Some a \<Rightarrow> avl_offset (zm_tree zm) a offset)"

end
