(* ===== verification/ZSetProofs.thy ===== *)
theory ZSetProofs
  imports ZSet AvlRank HashMapProofs "HOL-Library.List_Lexorder" "HOL-Library.Product_Lexorder"
begin

text \<open>
  The sorted set keeps both indexes over the same nodes: a representation predicate
  (\<open>zset_rep zm zs xs\<close>: the nodes \<open>xs\<close> in the order of their keys, both indexes hold
  exactly them, names are unique), its frame lemmas, and one lemma per operation.
  The abstract value is the list of entries (score, name), sorted by \<open>ekey\<close>.
\<close>

subsection \<open>Frames: what an unrelated write leaves alone\<close>

lemma avl_holds_cong:
  assumes "avl_holds m p xs" "\<And>x. x \<in> set xs \<Longrightarrow> m' x = m x"
  shows "avl_holds m' p xs"
proof -
  obtain t where t: "avl_tree m p t" "inorder t = xs" using assms(1) by (auto simp: avl_holds_def)
  have "same_on (set_tree t) m m'" using assms(2) t(2) by (auto simp: same_on_def)
  then have "avl_tree m' p t" using t(1) rep_same_on by (auto simp: avl_tree_def)
  then show ?thesis using t(2) unfolding avl_holds_def by blast
qed

lemma avl_holds_None: "avl_holds m None xs \<longleftrightarrow> xs = []"
proof
  assume "avl_holds m None xs"
  then obtain t where "avl_tree m None t" "inorder t = xs" by (auto simp: avl_holds_def)
  then show "xs = []" by (cases t) (auto simp: avl_tree_def)
next
  assume "xs = []"
  then show "avl_holds m None xs"
    unfolding avl_holds_def by (intro exI [of _ Leaf]) (simp add: avl_tree_def small_def)
qed

lemma avl_del_holds:
  assumes "avl_holds m p xs" "a \<in> set xs"
  shows "\<exists>p' m'. avl_del m a = Some (p', m') \<and> avl_holds m' p' (remove1 a xs) \<and> same_off (set xs) m m'"
proof -
  obtain t where t: "avl_tree m p t" "inorder t = xs" using assms(1) by (auto simp: avl_holds_def)
  then have s: "set_tree t = set xs" by auto
  obtain p' m' t' where "avl_del m a = Some (p', m')" "avl_tree m' p' t'"
    "inorder t' = remove1 a (inorder t)" "same_off (set_tree t) m m'"
    using avl_del_tree [OF t(1)] s assms(2) by blast
  then show ?thesis using t(2) s unfolding avl_holds_def by metis
qed


subsection \<open>The two comparisons\<close>

lemma memcmp_min:
  "\<exists>rv. memcmp xs ys (min (length xs) (length ys)) = Some rv \<and>
     (if rv \<noteq> 0 then rv < 0 else length xs < length ys) = (xs < ys)"
proof (induction xs arbitrary: ys)
  case Nil
  then show ?case by (cases ys) simp_all
next
  case (Cons x xs)
  show ?case
  proof (cases ys)
    case Nil
    then show ?thesis by simp
  next
    case ys: (Cons y ys')
    consider "x < y" | "y < x" | "x = y" by fastforce
    then show ?thesis
    proof cases
      case 1
      then show ?thesis by (simp add: ys)
    next
      case 2
      then have "\<not> x < y" "x \<noteq> y" by auto
      then show ?thesis using 2 by (simp add: ys)
    next
      case 3
      obtain rv where "memcmp xs ys' (min (length xs) (length ys')) = Some rv"
        "(if rv \<noteq> 0 then rv < 0 else length xs < length ys') = (xs < ys')"
        using Cons.IH [of ys'] by blast
      then show ?thesis using 3 by (intro exI [of _ rv]) (simp add: ys split: if_splits)
    qed
  qed
qed

lemma memcmp_eq: "length ys = length xs \<Longrightarrow> memcmp xs ys (length xs) = Some 0 \<longleftrightarrow> xs = ys"
proof (induction xs arbitrary: ys)
  case (Cons x xs)
  then obtain y ys' where "ys = y # ys'" by (cases ys) auto
  then show ?case using Cons by auto
qed simp

definition ekey :: "u64 \<times> bytes \<Rightarrow> int \<times> bytes" where
  "ekey e = (dbl_key (fst e), snd e)"

definition zent :: "zmem \<Rightarrow> addr \<Rightarrow> u64 \<times> bytes" where
  "zent zm a = (case zm_node zm a of None \<Rightarrow> (0, []) | Some z \<Rightarrow> (zn_score z, zn_name z))"

definition node_ok :: "zmem \<Rightarrow> addr \<Rightarrow> bool" where
  "node_ok zm a \<longleftrightarrow> (\<exists>z n. zm_node zm a = Some z \<and> zn_len z = length (zn_name z) \<and>
     \<not> dbl_isnan (zn_score z) \<and> zm_hmap zm a = Some n \<and> hn_hcode n = str_hash (zn_name z))"

lemma node_okE:
  assumes "node_ok zm a"
  obtains z n where "zm_node zm a = Some z" "zent zm a = (zn_score z, zn_name z)"
    "zn_len z = length (zn_name z)" "\<not> dbl_isnan (zn_score z)"
    "zm_hmap zm a = Some n" "hn_hcode n = str_hash (zn_name z)"
  using assms by (auto simp: node_ok_def zent_def)

lemma zless_tuple_run:
  assumes "node_ok zm a" "\<not> dbl_isnan score"
  shows "zless_tuple zm a score name = Some (ekey (zent zm a) < ekey (score, name))"
proof -
  obtain z n where z: "zm_node zm a = Some z" "zent zm a = (zn_score z, zn_name z)"
    "zn_len z = length (zn_name z)" "\<not> dbl_isnan (zn_score z)"
    using assms(1) by (elim node_okE)
  obtain rv where "memcmp (zn_name z) name (min (length (zn_name z)) (length name)) = Some rv"
    "(if rv \<noteq> 0 then rv < 0 else length (zn_name z) < length name) = (zn_name z < name)"
    using memcmp_min by blast
  then show ?thesis
    using z assms(2) by (auto simp: zless_tuple_def dbl_neq_def dbl_less_def ekey_def)
qed

lemma zless_run:
  assumes "node_ok zm a" "node_ok zm b"
  shows "zless zm a b = Some (ekey (zent zm a) < ekey (zent zm b))"
proof -
  obtain z n where z: "zm_node zm b = Some z" "zent zm b = (zn_score z, zn_name z)"
    "zn_len z = length (zn_name z)" "\<not> dbl_isnan (zn_score z)"
    using assms(2) by (elim node_okE)
  have "zless zm a b = zless_tuple zm a (zn_score z) (zn_name z)"
    unfolding zless_def zless_tuple_def z(1) z(3) [symmetric] by simp
  then show ?thesis using zless_tuple_run [OF assms(1) z(4)] z(2) by simp
qed


subsection \<open>Representation\<close>

text \<open>The entries of the nodes of an index.\<close>

definition entries :: "zmem \<Rightarrow> addr list \<Rightarrow> (u64 \<times> bytes) list" where
  "entries zm xs = map (zent zm) xs"

definition zset_rep :: "zmem \<Rightarrow> ZSet \<Rightarrow> addr list \<Rightarrow> bool" where
  "zset_rep zm zs xs \<longleftrightarrow> avl_holds (zm_tree zm) (zs_root zs) xs \<and>
     hm_holds (zm_hmap zm) (zs_hmap zs) (set xs) \<and> (\<forall>a\<in>set xs. node_ok zm a) \<and>
     sorted_wrt (<) (map ekey (entries zm xs)) \<and> distinct (map snd (entries zm xs))"

text \<open>The memory between two operations: nothing beyond the allocator, no key on the stack.\<close>

definition zmem_ok :: "zmem \<Rightarrow> bool" where
  "zmem_ok zm \<longleftrightarrow> 0 < zm_next zm \<and> (\<forall>a. a = stack_key \<or> zm_next zm \<le> a \<longrightarrow>
     zm_tree zm a = None \<and> zm_hmap zm a = None \<and> zm_node zm a = None)"

lemma zmem_okD:
  assumes "zmem_ok zm"
  shows "0 < zm_next zm" "a = stack_key \<or> zm_next zm \<le> a \<Longrightarrow> zm_tree zm a = None"
    "a = stack_key \<or> zm_next zm \<le> a \<Longrightarrow> zm_hmap zm a = None"
    "a = stack_key \<or> zm_next zm \<le> a \<Longrightarrow> zm_node zm a = None"
  using conjunct1 [OF assms [unfolded zmem_ok_def]]
    mp [OF spec [OF conjunct2 [OF assms [unfolded zmem_ok_def]]], of a] by iprover+

definition zframe :: "addr set \<Rightarrow> zmem \<Rightarrow> zmem \<Rightarrow> bool" where
  "zframe S zm zm' \<longleftrightarrow> (\<forall>a. a \<notin> S \<longrightarrow>
     zm_tree zm' a = zm_tree zm a \<and> zm_hmap zm' a = zm_hmap zm a \<and> zm_node zm' a = zm_node zm a)"

lemma zframe_refl [simp]: "zframe S zm zm"
  by (simp add: zframe_def)

lemma zframeD:
  assumes "zframe S zm zm'" "a \<notin> S"
  shows "zm_tree zm' a = zm_tree zm a" "zm_hmap zm' a = zm_hmap zm a" "zm_node zm' a = zm_node zm a"
  using assms by (simp_all add: zframe_def)

lemma zframe_trans: "zframe S zm zm' \<Longrightarrow> zframe T zm' zm'' \<Longrightarrow> zframe (S \<union> T) zm zm''"
  by (simp add: zframe_def)

lemma zframe_mono: "zframe S zm zm' \<Longrightarrow> S \<subseteq> T \<Longrightarrow> zframe T zm zm'"
  by (auto simp: zframe_def)

lemma node_ok_cong:
  "zm_node zm' a = zm_node zm a \<Longrightarrow> map_option hn_hcode (zm_hmap zm' a) = map_option hn_hcode (zm_hmap zm a) \<Longrightarrow>
   node_ok zm a \<Longrightarrow> node_ok zm' a"
  unfolding node_ok_def by auto

lemma zent_cong: "zm_node zm' a = zm_node zm a \<Longrightarrow> zent zm' a = zent zm a"
  by (simp add: zent_def)

lemma entries_cong: "(\<And>a. a \<in> set xs \<Longrightarrow> zm_node zm' a = zm_node zm a) \<Longrightarrow> entries zm' xs = entries zm xs"
  unfolding entries_def by (rule map_cong [OF refl]) (rule zent_cong)

lemma zset_rep_frame:
  assumes "zset_rep zm zs xs" "zframe S zm zm'" "S \<inter> set xs = {}"
  shows "zset_rep zm' zs xs" "entries zm' xs = entries zm xs"
proof -
  have eq: "zm_tree zm' a = zm_tree zm a" "zm_hmap zm' a = zm_hmap zm a" "zm_node zm' a = zm_node zm a"
    if "a \<in> set xs" for a
  proof -
    have "a \<notin> S" using that assms(3) by blast
    then show "zm_tree zm' a = zm_tree zm a" "zm_hmap zm' a = zm_hmap zm a" "zm_node zm' a = zm_node zm a"
      using assms(2) unfolding zframe_def by blast+
  qed
  show e: "entries zm' xs = entries zm xs" using eq(3) by (rule entries_cong)
  have "\<forall>a\<in>set xs. node_ok zm' a"
  proof
    fix a assume a: "a \<in> set xs"
    then have "node_ok zm a" using assms(1) unfolding zset_rep_def by blast
    then show "node_ok zm' a" using eq [OF a] by (intro node_ok_cong [of zm' a zm]) simp_all
  qed
  moreover have r: "avl_holds (zm_tree zm) (zs_root zs) xs" "hm_holds (zm_hmap zm) (zs_hmap zs) (set xs)"
    using assms(1) unfolding zset_rep_def by blast+
  moreover note avl_holds_cong [OF r(1) eq(1)] hm_holds_cong [OF r(2) eq(2)]
  ultimately show "zset_rep zm' zs xs" using assms(1) e unfolding zset_rep_def by simp
qed

lemma zset_rep_alloc:
  assumes "zset_rep zm zs xs" "zmem_ok zm" "a \<in> set xs"
  shows "a \<noteq> stack_key" "a < zm_next zm" "zm_node zm a \<noteq> None"
proof -
  have "node_ok zm a" using assms(1,3) unfolding zset_rep_def by blast
  then show n: "zm_node zm a \<noteq> None" by (auto simp: node_ok_def)
  have "a \<noteq> stack_key \<and> \<not> zm_next zm \<le> a" using n zmem_okD(4) [OF assms(2), of a] by iprover
  then show "a \<noteq> stack_key" "a < zm_next zm" by simp_all
qed

lemma zset_rep_zero: "zset_rep zm zset_zero []"
proof -
  have "hm_holds (zm_hmap zm) hmap_zero {}"
    unfolding hm_holds_def
    by (intro exI [of _ "[]"]) (simp add: hm_core_def htab_rep_def hmap_zero_def hm_load_def hm_nodes_def)
  then show ?thesis by (simp add: zset_rep_def zset_zero_def avl_holds_None entries_def)
qed


subsection \<open>Lookup\<close>

text \<open>Which node a name selects.\<close>

lemma name_hit:
  assumes "node_ok zm x" "zm_node zm' = zm_node zm" "x \<noteq> stack_key"
    and "map_option hn_hcode (m x) = map_option hn_hcode (zm_hmap zm x)"
    and "map_option hn_hcode (m stack_key) = Some (str_hash name)"
  shows "hits m stack_key (hcmp (zm_node zm') name) x \<longleftrightarrow> snd (zent zm x) = name"
proof -
  obtain z n where z: "zm_node zm x = Some z" "zent zm x = (zn_score z, zn_name z)"
    "zn_len z = length (zn_name z)" "zm_hmap zm x = Some n" "hn_hcode n = str_hash (zn_name z)"
    using assms(1) by (elim node_okE)
  show ?thesis
  proof (cases "length (zn_name z) = length name")
    case True
    then show ?thesis
      using z assms(2,4,5) memcmp_eq [of name "zn_name z"] by (auto simp: hits_def hcmp_def)
  next
    case False
    then have "zn_name z \<noteq> name" by auto
    then show ?thesis using z assms(2) False by (simp add: hits_def hcmp_def)
  qed
qed

text \<open>The hash index with a key pushed on the stack, and popped again.\<close>

lemma push_key_at [simp]:
  "push_key m h stack_key = Some \<lparr>hn_next = None, hn_hcode = h\<rparr>" "x \<noteq> stack_key \<Longrightarrow> push_key m h x = m x"
  by (simp_all add: push_key_def)

lemma hm_push:
  assumes "zset_rep zm zs xs" "zmem_ok zm"
  shows "hm_holds (push_key (zm_hmap zm) h) (zs_hmap zs) (set xs)"
proof -
  have h: "hm_holds (zm_hmap zm) (zs_hmap zs) (set xs)" using assms(1) unfolding zset_rep_def by blast
  have "push_key (zm_hmap zm) h x = zm_hmap zm x" if "x \<in> set xs" for x
    using zset_rep_alloc(1) [OF assms that] by simp
  then show ?thesis by (rule hm_holds_cong [OF h])
qed

lemma pop_frame:
  assumes "next_frame S (push_key m h) m1" "S \<inter> {stack_key} = {}" "m stack_key = None"
  shows "next_frame S m (pop_key m1)"
proof -
  have "m1 y = push_key m h y" if "y \<notin> S" for y using assms(1) that by (simp add: next_frame_def)
  moreover have "map_option hn_hcode (m1 y) = map_option hn_hcode (push_key m h y)" for y
    using assms(1) by (simp add: next_frame_def)
  ultimately show ?thesis using assms(3) by (auto simp: next_frame_def pop_key_def push_key_def)
qed

lemma hm_pop:
  assumes "hm_holds m1 h S" "stack_key \<notin> S"
  shows "hm_holds (pop_key m1) h S"
proof (rule hm_holds_cong [OF assms(1)])
  fix x assume "x \<in> S"
  then have "x \<noteq> stack_key" using assms(2) by blast
  then show "pop_key m1 x = m1 x" by (simp add: pop_key_def)
qed

lemma zset_rep_hmap:
  assumes "zset_rep zm zs xs" "hm_holds m h (set xs)" "next_frame (set xs) (zm_hmap zm) m"
  shows "zset_rep (zm\<lparr>zm_hmap := m\<rparr>) (zs\<lparr>zs_hmap := h\<rparr>) xs"
    "entries (zm\<lparr>zm_hmap := m\<rparr>) xs = entries zm xs" "zframe (set xs) zm (zm\<lparr>zm_hmap := m\<rparr>)"
proof -
  let ?zm = "zm\<lparr>zm_hmap := m\<rparr>"
  show e: "entries ?zm xs = entries zm xs" by (rule entries_cong) simp
  have "\<forall>a\<in>set xs. node_ok ?zm a"
  proof
    fix a assume "a \<in> set xs"
    then have "node_ok zm a" using assms(1) unfolding zset_rep_def by blast
    then show "node_ok ?zm a"
      using assms(3) by (intro node_ok_cong [of ?zm a zm]) (simp_all add: next_frame_def)
  qed
  then show "zset_rep ?zm (zs\<lparr>zs_hmap := h\<rparr>) xs"
    using assms(1,2) e unfolding zset_rep_def by simp
  show "zframe (set xs) zm ?zm" using assms(3) by (simp add: zframe_def next_frame_def)
qed

lemma zmem_ok_frame:
  assumes "zmem_ok zm" "zframe S zm zm'" "zm_next zm' = zm_next zm" "S \<subseteq> {0<..<zm_next zm}"
  shows "zmem_ok zm'"
proof -
  have "a \<notin> S" if "a = stack_key \<or> zm_next zm \<le> a" for a
    using that assms(4) by (auto simp: stack_key_def)
  then show ?thesis using assms(1-3) unfolding zmem_ok_def zframe_def by simp
qed

lemma zset_rep_range: "zset_rep zm zs xs \<Longrightarrow> zmem_ok zm \<Longrightarrow> set xs \<subseteq> {0<..<zm_next zm}"
  using zset_rep_alloc by (auto simp: stack_key_def)

text \<open>The node a name selects, as a function of the entries.\<close>

definition by_name :: "zmem \<Rightarrow> bytes \<Rightarrow> addr list \<Rightarrow> ptr" where
  "by_name zm name xs = find (\<lambda>a. snd (zent zm a) = name) xs"

lemma by_name_Some:
  assumes "distinct (map snd (entries zm xs))" "a \<in> set xs" "snd (zent zm a) = name"
  shows "by_name zm name xs = Some a"
  using assms
proof (induction xs)
  case (Cons x xs)
  show ?case
  proof (cases "x = a")
    case False
    then have "snd (zent zm x) \<noteq> name" using Cons.prems by (auto simp: entries_def)
    then show ?thesis using Cons False by (simp add: by_name_def entries_def)
  qed (use Cons.prems in \<open>simp add: by_name_def\<close>)
qed simp

lemma by_name_None: "by_name zm name xs = None \<longleftrightarrow> name \<notin> snd ` set (entries zm xs)"
  by (auto simp: by_name_def find_None_iff entries_def)

lemma by_nameD: "by_name zm name xs = Some a \<Longrightarrow> a \<in> set xs \<and> snd (zent zm a) = name"
  unfolding by_name_def find_Some_iff by auto

end
