(* ===== verification/AvlAlloc.thy ===== *)
theory AvlAlloc
  imports AvlRank
begin

text \<open>
  No operation of the AVL tree allocates or frees a node: the set of allocated addresses
  is the same before and after. A node that was taken out of a tree can therefore be
  initialised and inserted again.
\<close>

lemma bindE:
  assumes "Option.bind x f = Some y"
  obtains a where "x = Some a" "f a = Some y"
  using assms by (auto simp: bind_eq_Some_conv)

definition allocated :: "avl_mem \<Rightarrow> addr \<Rightarrow> bool" where
  "allocated m a \<longleftrightarrow> m a \<noteq> None"

lemma dom_prims:
  "store_at m a v = Some m' \<Longrightarrow> allocated m' = allocated m"
  "modify_at m a f = Some m' \<Longrightarrow> allocated m' = allocated m"
  by (rule ext; cases "m a"; auto simp: store_at_def modify_at_def allocated_def split: if_splits)+

lemma dom_set_parent: "set_parent m p q = Some m' \<Longrightarrow> allocated m' = allocated m"
  by (auto simp: set_parent_def dest!: dom_prims split: option.splits)

lemma dom_write_slot: "write_slot m s p = Some m' \<Longrightarrow> allocated m' = allocated m"
  by (cases s) (auto dest!: dom_prims)

lemma dom_avl_update: "avl_update m a = Some m' \<Longrightarrow> allocated m' = allocated m"
  by (auto simp: avl_update_def bind_eq_Some_conv dest!: dom_prims(2))

lemma dom_rot:
  "rot_left m a = Some (b, m') \<Longrightarrow> allocated m' = allocated m"
  "rot_right m a = Some (b, m') \<Longrightarrow> allocated m' = allocated m"
  unfolding rot_left_def rot_right_def
  by (auto simp: bind_eq_Some_conv dest!: dom_prims(2) dom_set_parent dom_avl_update)

lemma dom_fix_side:
  "avl_fix_left m a = Some (b, m') \<Longrightarrow> allocated m' = allocated m"
  "avl_fix_right m a = Some (b, m') \<Longrightarrow> allocated m' = allocated m"
  unfolding avl_fix_left_def avl_fix_right_def
  by (auto simp: bind_eq_Some_conv dest!: dom_prims(2) dom_rot split: if_splits)

lemma dom_avl_fix:
  assumes "avl_fix m a = Some r"
  shows "allocated (snd r) = allocated m"
proof (rule avl_fix.raw_induct [where P = "\<lambda>m a r. allocated (snd r) = allocated m", OF _ assms])
  fix rec :: "avl_mem \<Rightarrow> addr \<Rightarrow> (addr \<times> avl_mem) option" and m node and r :: "addr \<times> avl_mem"
  assume IH: "\<And>m a (r :: addr \<times> avl_mem). rec m a = Some r \<Longrightarrow> allocated (snd r) = allocated m"
  let ?thesis = "allocated (snd r) = allocated m"
  assume step: "do {
     n \<leftarrow> m node;
     from \<leftarrow> (case an_parent n of None \<Rightarrow> Some Local | Some p \<Rightarrow> child_slot m p node);
     m1 \<leftarrow> avl_update m node;
     lh \<leftarrow> avl_height m1 (an_left n);
     rh \<leftarrow> avl_height m1 (an_right n);
     (root, m3) \<leftarrow>
       (if lh = rh + 2 then do {
          (s, m2) \<leftarrow> avl_fix_left m1 node; m3 \<leftarrow> write_slot m2 from (Some s); Some (s, m3)
        } else if rh = lh + 2 then do {
          (s, m2) \<leftarrow> avl_fix_right m1 node; m3 \<leftarrow> write_slot m2 from (Some s); Some (s, m3)
        } else Some (node, m1));
     (case an_parent n of None \<Rightarrow> Some (root, m3) | Some p \<Rightarrow> rec m3 p)
   } = Some r"
  obtain n fr m1 and lh rh :: u32 and q where n: "m node = Some n" and b: "avl_update m node = Some m1"
    "(if lh = rh + 2 then do { (s, m2) \<leftarrow> avl_fix_left m1 node; m3 \<leftarrow> write_slot m2 fr (Some s); Some (s, m3) }
      else if rh = lh + 2 then do { (s, m2) \<leftarrow> avl_fix_right m1 node; m3 \<leftarrow> write_slot m2 fr (Some s); Some (s, m3) }
      else Some (node, m1)) = Some q"
    "(case q of (root, m3) \<Rightarrow> (case an_parent n of None \<Rightarrow> Some (root, m3) | Some p \<Rightarrow> rec m3 p)) = Some r"
    using step by (elim bindE) (rule that, assumption+)
  obtain root m3 where q: "q = (root, m3)" by (cases q)
  have m3: "allocated m3 = allocated m"
    using b(2) dom_avl_update [OF b(1)] unfolding q
    by (auto simp: bind_eq_Some_conv dest!: dom_fix_side dom_write_slot split: if_splits)
  show ?thesis
  proof (cases "an_parent n")
    case None
    then show ?thesis using b(3) m3 q by auto
  next
    case (Some p)
    then have "rec m3 p = Some r" using b(3) q by simp
    then have "allocated (snd r) = allocated m3" by (rule IH)
    then show ?thesis using m3 by (rule trans)
  qed
qed

lemma dom_avl_del_easy: "avl_del_easy m a = Some (p, m') \<Longrightarrow> allocated m' = allocated m"
  by (auto simp: avl_del_easy_def Let_def bind_eq_Some_conv dest!: dom_set_parent dom_write_slot dom_avl_fix
      split: if_splits option.splits)

lemma dom_avl_del: "avl_del m a = Some (p, m') \<Longrightarrow> allocated m' = allocated m"
  by (auto simp: avl_del_def bind_eq_Some_conv dest!: dom_prims(1) dom_set_parent dom_write_slot dom_avl_del_easy
      split: if_splits option.splits)

end
