(* ===== verification/ZSetOps.thy ===== *)
theory ZSetOps
  imports ZSetProofs AvlAlloc
begin

text \<open>
  The operations of the sorted set, run on a represented set: lookup, the walk of
  \<open>tree_insert\<close>, insertion of a new name and update of a known one, and deletion. Each
  lemma states the entries afterwards (\<open>zs_add\<close>, \<open>zs_remove\<close>) and what was not written.
\<close>

subsection \<open>Lookup\<close>

lemma zset_lookup_run:
  assumes rep: "zset_rep zm zs xs" and ok: "zmem_ok zm"
  shows "\<exists>m' h'. zset_lookup zm zs name = Some (by_name zm name xs, zm\<lparr>zm_hmap := m'\<rparr>, zs\<lparr>zs_hmap := h'\<rparr>) \<and>
    hm_holds m' h' (set xs) \<and> next_frame (set xs) (zm_hmap zm) m'"
proof (cases "zs_root zs")
  case None
  then have xs: "xs = []" using rep by (simp add: zset_rep_def avl_holds_None)
  then show ?thesis
    using None rep by (intro exI [of _ "zm_hmap zm"] exI [of _ "zs_hmap zs"])
      (simp add: zset_lookup_def by_name_def zset_rep_def)
next
  case (Some r)
  let ?m = "push_key (zm_hmap zm) (str_hash name)" and ?eq = "hcmp (zm_node zm) name"
  have sk: "stack_key \<notin> set xs" using zset_rep_alloc(1) [OF rep ok] by blast
  have k: "?m stack_key \<noteq> None" by simp
  obtain p m1 h1 where l: "hm_lookup ?m (zs_hmap zs) stack_key ?eq = Some (p, m1, h1)"
    "hm_holds m1 h1 (set xs)" "next_frame (set xs) ?m m1"
    and p: "case p of None \<Rightarrow> \<forall>x\<in>set xs. \<not> hits ?m stack_key ?eq x | Some x \<Rightarrow> x \<in> set xs \<and> hits ?m stack_key ?eq x"
    using hm_lookup_run [OF hm_push [OF rep ok] k, of ?eq] by blast
  have hit: "hits ?m stack_key ?eq x \<longleftrightarrow> snd (zent zm x) = name" if "x \<in> set xs" for x
  proof (rule name_hit)
    show "node_ok zm x" using rep that unfolding zset_rep_def by blast
    show "x \<noteq> stack_key" using that sk by blast
    then show "map_option hn_hcode (?m x) = map_option hn_hcode (zm_hmap zm x)" by simp
  qed simp_all
  have "p = by_name zm name xs"
  proof (cases p)
    case None
    then have "\<forall>x\<in>set xs. snd (zent zm x) \<noteq> name" using p hit by simp
    then have "by_name zm name xs = None" by (auto simp: by_name_None entries_def)
    then show ?thesis using None by simp
  next
    case (Some x)
    then have x: "x \<in> set xs" "hits ?m stack_key ?eq x" using p by simp_all
    then have "snd (zent zm x) = name" using hit [OF x(1)] by blast
    moreover note x(1)
    moreover have "distinct (map snd (entries zm xs))" using rep unfolding zset_rep_def by blast
    ultimately show ?thesis using Some by_name_Some [of zm xs x name] by simp
  qed
  moreover have "next_frame (set xs) (zm_hmap zm) (pop_key m1)"
    using pop_frame [OF l(3)] sk zmem_okD(3) [OF ok, of stack_key] by simp
  ultimately show ?thesis
    using Some l(1) hm_pop [OF l(2) sk] by (auto simp: zset_lookup_def)
qed

subsection \<open>Insertion into the tree\<close>

lemma sorted_wrt_split:
  "sorted_wrt P (xs @ a # ys) \<longleftrightarrow> sorted_wrt P (xs @ ys) \<and> (\<forall>x\<in>set xs. P x a) \<and> (\<forall>y\<in>set ys. P a y)"
  by (auto simp: sorted_wrt_append)

text \<open>The walk reaches the leaf between the smaller and the greater nodes.\<close>

lemma tree_insert_loop_run:
  assumes "rep (zm_tree zm) (ctx_ptr c) t" and "\<forall>a\<in>set_tree t. node_ok zm a" and "node_ok zm x"
    and "sorted_wrt (<) (map (\<lambda>a. ekey (zent zm a)) (inorder (plug t c)))"
    and "\<forall>a\<in>set (ctx_left c). ekey (zent zm a) \<le> ekey (zent zm x)"
    and "\<forall>a\<in>set (ctx_right c). ekey (zent zm x) < ekey (zent zm a)"
  shows "\<exists>c'. tree_insert_loop zm x (root_ptr t) (ctx_ptr c) (slot_of c) = Some (ctx_ptr c', slot_of c') \<and>
    plug Leaf c' = plug t c \<and> (\<forall>a\<in>set (ctx_left c'). ekey (zent zm a) \<le> ekey (zent zm x)) \<and>
    (\<forall>a\<in>set (ctx_right c'). ekey (zent zm x) < ekey (zent zm a))"
  using assms
proof (induction t arbitrary: c)
  case Leaf
  then show ?case by (intro exI [of _ c]) (simp add: tree_insert_loop.simps)
next
  case (Node l a r)
  let ?k = "\<lambda>a. ekey (zent zm a)"
  have m: "zm_tree zm a = Some (node_rec (ctx_ptr c) l r)" "rep (zm_tree zm) (Some a) l" "rep (zm_tree zm) (Some a) r"
    using Node.prems(1) by simp_all
  have ok: "node_ok zm a" "\<forall>a\<in>set_tree l. node_ok zm a" "\<forall>a\<in>set_tree r. node_ok zm a"
    using Node.prems(2) by simp_all
  have z: "zless zm x a = Some (?k x < ?k a)" using Node.prems(3) ok(1) by (rule zless_run)
  have "sorted_wrt (<) (map ?k (ctx_left c @ inorder l) @ ?k a # map ?k (inorder r @ ctx_right c))"
    using Node.prems(4) by (simp add: inorder_plug)
  then have s: "\<forall>b\<in>set (ctx_left c @ inorder l). ?k b < ?k a" "\<forall>b\<in>set (inorder r @ ctx_right c). ?k a < ?k b"
    unfolding sorted_wrt_split by (simp_all add: ball_Un)
  show ?case
  proof (cases "?k x < ?k a")
    case True
    have "\<forall>b\<in>set (ctx_right (FL a r # c)). ?k x < ?k b"
      using True s(2) Node.prems(6) by (auto intro: less_trans [OF True])
    then obtain c' where "tree_insert_loop zm x (root_ptr l) (ctx_ptr (FL a r # c)) (slot_of (FL a r # c)) =
        Some (ctx_ptr c', slot_of c')" "plug Leaf c' = plug l (FL a r # c)"
      "\<forall>a\<in>set (ctx_left c'). ?k a \<le> ?k x" "\<forall>a\<in>set (ctx_right c'). ?k x < ?k a"
      using Node.IH(1) [of "FL a r # c"] m(2) ok(2) Node.prems(3,4,5) by auto
    then show ?thesis using True z m(1) by (subst tree_insert_loop.simps) (intro exI [of _ c'], simp)
  next
    case False
    have "\<forall>b\<in>set (ctx_left (FR l a # c)). ?k b \<le> ?k x"
      using False s(1) Node.prems(5) by fastforce
    then obtain c' where "tree_insert_loop zm x (root_ptr r) (ctx_ptr (FR l a # c)) (slot_of (FR l a # c)) =
        Some (ctx_ptr c', slot_of c')" "plug Leaf c' = plug r (FR l a # c)"
      "\<forall>a\<in>set (ctx_left c'). ?k a \<le> ?k x" "\<forall>a\<in>set (ctx_right c'). ?k x < ?k a"
      using Node.IH(2) [of "FR l a # c"] m(3) ok(3) Node.prems(3,4,6) by auto
    then show ?thesis using False z m(1) by (subst tree_insert_loop.simps) (intro exI [of _ c'], simp)
  qed
qed


text \<open>The entry in its place.\<close>

definition zs_add :: "u64 \<times> bytes \<Rightarrow> (u64 \<times> bytes) list \<Rightarrow> (u64 \<times> bytes) list" where
  "zs_add e es = takeWhile (\<lambda>d. ekey d < ekey e) es @ e # dropWhile (\<lambda>d. ekey d < ekey e) es"

definition zs_remove :: "bytes \<Rightarrow> (u64 \<times> bytes) list \<Rightarrow> (u64 \<times> bytes) list" where
  "zs_remove name es = filter (\<lambda>e. snd e \<noteq> name) es"

lemma zs_add_place:
  assumes "\<forall>d\<in>set xs. ekey d < ekey e" "\<forall>d\<in>set ys. ekey e < ekey d"
  shows "zs_add e (xs @ ys) = xs @ e # ys"
proof -
  have "takeWhile (\<lambda>d. ekey d < ekey e) ys = []" "dropWhile (\<lambda>d. ekey d < ekey e) ys = ys"
    using assms(2) by (cases ys; auto)+
  then show ?thesis using assms(1) by (simp add: zs_add_def takeWhile_append dropWhile_append)
qed

lemma avl_tree_set: "avl_holds m p xs \<Longrightarrow> \<exists>t. avl_tree m p t \<and> inorder t = xs \<and> set_tree t = set xs"
  unfolding avl_holds_def by (metis set_inorder)

lemma tree_insert_run:
  assumes h: "avl_holds (zm_tree zm) (zs_root zs) xs" and ok: "\<forall>a\<in>set xs. node_ok zm a" "node_ok zm x"
    and s: "sorted_wrt (<) (map ekey (entries zm xs))" and d: "distinct (map snd (entries zm xs))"
    and x: "x \<notin> set xs" "snd (zent zm x) \<notin> snd ` set (entries zm xs)"
    and n: "zm_tree zm x = Some n" "an_left n = None" "an_right n = None"
    and sz: "Suc (length xs) < 2 ^ 32 - 2"
  shows "\<exists>m' p' xs'. tree_insert zm zs x = Some (zm\<lparr>zm_tree := m'\<rparr>, zs\<lparr>zs_root := p'\<rparr>) \<and>
    avl_holds m' p' xs' \<and> set xs' = insert x (set xs) \<and> same_off (insert x (set xs)) (zm_tree zm) m' \<and>
    entries zm xs' = zs_add (zent zm x) (entries zm xs) \<and>
    sorted_wrt (<) (map ekey (entries zm xs')) \<and> distinct (map snd (entries zm xs'))"
proof -
  let ?k = "\<lambda>a. ekey (zent zm a)"
  obtain t where t: "avl_tree (zm_tree zm) (zs_root zs) t" "inorder t = xs" "set_tree t = set xs"
    using avl_tree_set [OF h] by blast
  have "rep (zm_tree zm) (ctx_ptr []) t" using t(1) by (simp add: avl_tree_def)
  moreover have "\<forall>a\<in>set_tree t. node_ok zm a" using ok(1) t(3) by simp
  moreover note ok(2)
  moreover have "sorted_wrt (<) (map ?k (inorder (plug t [])))"
    using s t(2) by (simp add: entries_def comp_def)
  moreover have "\<forall>a\<in>set (ctx_left []). ?k a \<le> ?k x" "\<forall>a\<in>set (ctx_right []). ?k x < ?k a" by simp_all
  ultimately obtain c where c: "tree_insert_loop zm x (root_ptr t) (ctx_ptr []) (slot_of []) = Some (ctx_ptr c, slot_of c)"
    "plug Leaf c = plug t []" "\<forall>a\<in>set (ctx_left c). ?k a \<le> ?k x" "\<forall>a\<in>set (ctx_right c). ?k x < ?k a"
    using tree_insert_loop_run [of zm "[]" t x] by blast
  have xs: "xs = ctx_left c @ ctx_right c" using arg_cong [OF c(2), of inorder] t(2) by (simp add: inorder_plug)
  have cs: "ctx_set c = set xs" by (simp add: xs ctx_set_lists)
  have "avl_tree (zm_tree zm) (zs_root zs) (plug Leaf c)" using t(1) c(2) by simp
  moreover have "x \<notin> ctx_set c" using x(1) cs by simp
  moreover note n
  moreover have "Suc (size (plug Leaf c)) < 2 ^ 32 - 2" using sz by (simp add: size_plug xs)
  ultimately obtain m1 m2 m3 b t' where r: "write_slot (zm_tree zm) (slot_of c) (Some x) = Some m1"
    "set_parent m1 (Some x) (ctx_ptr c) = Some m2" "avl_fix m2 x = Some (b, m3)"
    "avl_tree m3 (Some b) t'" "inorder t' = ctx_left c @ x # ctx_right c" "same_off (insert x (ctx_set c)) (zm_tree zm) m3"
    using avl_attach_tree [of "zm_tree zm" "zs_root zs" c x n] by blast
  have "zs_root zs = root_ptr t" using t(1) by (simp add: avl_tree_def)
  then have run: "tree_insert zm zs x = Some (zm\<lparr>zm_tree := m3\<rparr>, zs\<lparr>zs_root := Some b\<rparr>)"
    using c(1) r(1-3) by (simp add: tree_insert_def)
  let ?xs = "ctx_left c @ x # ctx_right c"
  have "?k a \<noteq> ?k x" if "a \<in> set xs" for a
  proof
    assume "?k a = ?k x"
    then have "snd (zent zm x) = snd (zent zm a)" by (simp add: ekey_def)
    moreover have "zent zm a \<in> set (entries zm xs)" using that by (simp add: entries_def)
    ultimately show False using x(2) by (metis imageI)
  qed
  then have "\<forall>a\<in>set (ctx_left c). ?k a < ?k x" using c(3) xs by (metis in_set_conv_decomp append.assoc append_Cons order_le_less)
  then have lt: "\<forall>d\<in>set (entries zm (ctx_left c)). ekey d < ekey (zent zm x)" by (simp add: entries_def)
  have gt: "\<forall>d\<in>set (entries zm (ctx_right c)). ekey (zent zm x) < ekey d" using c(4) by (simp add: entries_def)
  have split: "entries zm xs = entries zm (ctx_left c) @ entries zm (ctx_right c)"
    "entries zm ?xs = entries zm (ctx_left c) @ zent zm x # entries zm (ctx_right c)"
    by (simp_all add: entries_def xs)
  have "entries zm ?xs = zs_add (zent zm x) (entries zm xs)"
    unfolding split using zs_add_place [OF lt gt] by simp
  moreover have "sorted_wrt (<) (map ekey (entries zm ?xs))"
    using s lt gt unfolding split by (simp add: sorted_wrt_split sorted_wrt_append)
  moreover have "distinct (map snd (entries zm ?xs))"
    using d x(2) unfolding split by auto
  moreover have "avl_holds m3 (Some b) ?xs" using r(4,5) unfolding avl_holds_def by blast
  moreover have "set ?xs = insert x (set xs)" by (simp add: xs)
  ultimately show ?thesis using run r(6) [unfolded cs] by blast
qed


subsection \<open>Insertion of a new name\<close>

text \<open>What the operations that change a set promise.\<close>

definition zset_step :: "zmem \<Rightarrow> addr list \<Rightarrow> zmem \<Rightarrow> ZSet \<Rightarrow> addr list \<Rightarrow> (u64 \<times> bytes) list \<Rightarrow> bool" where
  "zset_step zm xs zm' zs' xs' es \<longleftrightarrow> zset_rep zm' zs' xs' \<and> zmem_ok zm' \<and> entries zm' xs' = es \<and>
     set xs' \<subseteq> set xs \<union> {zm_next zm..<zm_next zm'} \<and> zm_next zm \<le> zm_next zm' \<and>
     zframe (set xs \<union> set xs') zm zm'"

lemma zmem_ok_grow:
  assumes "zmem_ok zm" "zframe (insert (zm_next zm) S) zm zm'" "zm_next zm' = zm_next zm + 1" "S \<subseteq> {0<..<zm_next zm}"
  shows "zmem_ok zm'"
proof -
  have "zm_tree zm' a = None \<and> zm_hmap zm' a = None \<and> zm_node zm' a = None"
    if "a = stack_key \<or> zm_next zm' \<le> a" for a
  proof -
    have "a \<notin> insert (zm_next zm) S" "a = stack_key \<or> zm_next zm \<le> a"
      using that assms(3,4) zmem_okD(1) [OF assms(1)] by (auto simp: stack_key_def)
    then show ?thesis using zmem_okD(2-4) [OF assms(1), of a] zframeD [OF assms(2), of a] by simp
  qed
  then show ?thesis using assms(3) unfolding zmem_ok_def by simp
qed

lemma zset_repD:
  assumes "zset_rep zm zs xs"
  shows "avl_holds (zm_tree zm) (zs_root zs) xs" "hm_holds (zm_hmap zm) (zs_hmap zs) (set xs)"
    "\<forall>a\<in>set xs. node_ok zm a" "sorted_wrt (<) (map ekey (entries zm xs))" "distinct (map snd (entries zm xs))"
    "distinct xs"
  using assms avlx.distinct_seq unfolding zset_rep_def by blast+

lemma zset_insert_new:
  assumes rep: "zset_rep zm zs xs" and ok: "zmem_ok zm" and nan: "\<not> dbl_isnan score"
    and new: "name \<notin> snd ` set (entries zm xs)" and sz: "Suc (length xs) < 2 ^ 32 - 2"
  shows "\<exists>zm' zs' xs'. (do {
        let (node, zm2) = znode_new zm name score;
        (m3, h3) \<leftarrow> hm_insert (zm_hmap zm2) (zs_hmap zs) node;
        tree_insert (zm2\<lparr>zm_hmap := m3\<rparr>) (zs\<lparr>zs_hmap := h3\<rparr>) node }) = Some (zm', zs') \<and>
    zset_step zm xs zm' zs' xs' (zs_add (score, name) (entries zm xs))"
proof -
  let ?x = "zm_next zm"
  obtain zm2 where zm2: "znode_new zm name score = (?x, zm2)" by (simp add: znode_new_def Let_def)
  let ?n = "\<lparr>an_parent = None, an_left = None, an_right = None, an_height = 1, an_size = 1\<rparr>"
  have z2: "zm_tree zm2 ?x = Some ?n" "zm_next zm2 = ?x + 1" "zframe {?x} zm zm2"
    "zm_hmap zm2 ?x = Some \<lparr>hn_next = None, hn_hcode = str_hash name\<rparr>"
    "zm_node zm2 ?x = Some \<lparr>zn_score = score, zn_len = length name, zn_name = name\<rparr>"
    using zm2 by (auto simp: znode_new_def Let_def zframe_def)
  have x: "?x \<notin> set xs" using zset_rep_range [OF rep ok] by auto
  then have dis: "{?x} \<inter> set xs = {}" by simp
  note r2 = zset_rep_frame [OF rep z2(3) dis]
  note d2 = zset_repD [OF r2(1)]
  have c: "Suc (card (set xs)) < 2 ^ 60" using sz card_length [of xs] by (simp add: le_less_trans)
  have "zm_hmap zm2 ?x \<noteq> None" using z2(4) by simp
  then obtain m3 h3 where h: "hm_insert (zm_hmap zm2) (zs_hmap zs) ?x = Some (m3, h3)"
    "hm_holds m3 h3 (insert ?x (set xs))" "next_frame (insert ?x (set xs)) (zm_hmap zm2) m3"
    using hm_insert_run [OF d2(2) _ x c] by blast
  let ?zm3 = "zm2\<lparr>zm_hmap := m3\<rparr>" and ?zs3 = "zs\<lparr>zs_hmap := h3\<rparr>"
  have hc: "map_option hn_hcode (m3 a) = map_option hn_hcode (zm_hmap zm2 a)" for a
    using h(3) by (simp add: next_frame_def)
  have ok3: "\<forall>a\<in>set xs. node_ok ?zm3 a"
  proof
    fix a assume "a \<in> set xs"
    then have "node_ok zm2 a" using d2(3) by blast
    then show "node_ok ?zm3 a" using hc by (intro node_ok_cong [of ?zm3 a zm2]) simp_all
  qed
  have "map_option hn_hcode (m3 ?x) = Some (str_hash name)" using hc [of ?x] z2(4) by simp
  then have okx: "node_ok ?zm3 ?x" using z2(5) nan by (auto simp: node_ok_def)
  have e3: "entries ?zm3 xs = entries zm xs" using r2(2) entries_cong [of xs ?zm3 zm2] by simp
  have ex: "zent ?zm3 ?x = (score, name)" using z2(5) by (simp add: zent_def)
  have "avl_holds (zm_tree ?zm3) (zs_root ?zs3) xs" using d2(1) by simp
  moreover note ok3 okx
  moreover have "sorted_wrt (<) (map ekey (entries ?zm3 xs))" "distinct (map snd (entries ?zm3 xs))"
    using d2(4,5) e3 r2(2) by simp_all
  moreover note x
  moreover have "snd (zent ?zm3 ?x) \<notin> snd ` set (entries ?zm3 xs)" using new ex e3 by simp
  moreover have "zm_tree ?zm3 ?x = Some ?n" using z2(1) by simp
  moreover have "an_left ?n = None" "an_right ?n = None" by simp_all
  moreover note sz
  ultimately obtain m' p' xs' where t: "tree_insert ?zm3 ?zs3 ?x = Some (?zm3\<lparr>zm_tree := m'\<rparr>, ?zs3\<lparr>zs_root := p'\<rparr>)"
    "avl_holds m' p' xs'" "set xs' = insert ?x (set xs)" "same_off (insert ?x (set xs)) (zm_tree ?zm3) m'"
    "entries ?zm3 xs' = zs_add (zent ?zm3 ?x) (entries ?zm3 xs)"
    "sorted_wrt (<) (map ekey (entries ?zm3 xs'))" "distinct (map snd (entries ?zm3 xs'))"
    using tree_insert_run [of ?zm3 ?zs3 xs ?x ?n] by blast
  let ?zm4 = "?zm3\<lparr>zm_tree := m'\<rparr>" and ?zs4 = "?zs3\<lparr>zs_root := p'\<rparr>"
  have e4: "entries ?zm4 xs' = entries ?zm3 xs'" by (rule entries_cong) simp
  have ok4: "\<forall>a\<in>set xs'. node_ok ?zm4 a"
  proof
    fix a assume "a \<in> set xs'"
    then have "node_ok ?zm3 a" using ok3 okx t(3) by auto
    then show "node_ok ?zm4 a" by (intro node_ok_cong [of ?zm4 a ?zm3]) simp_all
  qed
  have rep4: "zset_rep ?zm4 ?zs4 xs'"
    using t(2,3,6,7) h(2) ok4 e4 unfolding zset_rep_def by simp
  have fr: "zframe (insert ?x (set xs)) zm ?zm4"
    using z2(3) h(3) t(4) by (auto simp: zframe_def next_frame_def same_off_def)
  have "zmem_ok ?zm4"
    using zset_rep_range [OF rep ok] by (intro zmem_ok_grow [OF ok fr]) (simp_all add: z2(2))
  then have "zset_step zm xs ?zm4 ?zs4 xs' (zs_add (score, name) (entries zm xs))"
    using rep4 fr t(3,5) e4 ex e3 z2(2) zframe_mono [OF fr]
    by (auto simp: zset_step_def)
  moreover have "(do {
        let (node, zm2) = znode_new zm name score;
        (m3, h3) \<leftarrow> hm_insert (zm_hmap zm2) (zs_hmap zs) node;
        tree_insert (zm2\<lparr>zm_hmap := m3\<rparr>) (zs\<lparr>zs_hmap := h3\<rparr>) node }) = Some (?zm4, ?zs4)"
    using zm2 h(1) t(1) by simp
  ultimately show ?thesis by blast
qed


subsection \<open>Update of a known name\<close>

lemma entries_remove1:
  assumes "distinct (map snd (entries zm xs))" "x \<in> set xs"
  shows "entries zm (remove1 x xs) = zs_remove (snd (zent zm x)) (entries zm xs)"
  using assms
proof (induction xs)
  case (Cons a xs)
  show ?case
  proof (cases "a = x")
    case True
    have "snd (zent zm x) \<notin> snd ` set (entries zm xs)"
      using Cons.prems(1) True by (simp add: entries_def image_image)
    then have "snd e \<noteq> snd (zent zm x)" if "e \<in> set (entries zm xs)" for e using that by (metis imageI)
    then have "zs_remove (snd (zent zm x)) (entries zm xs) = entries zm xs"
      unfolding zs_remove_def by (simp add: filter_True)
    then show ?thesis using True by (simp add: entries_def zs_remove_def)
  next
    case False
    then have "x \<in> set xs" using Cons.prems(2) by simp
    then have "snd (zent zm a) \<noteq> snd (zent zm x)" using Cons.prems(1) by (auto simp: entries_def)
    then show ?thesis using Cons False by (simp add: entries_def zs_remove_def)
  qed
qed simp

lemma sorted_filter: "sorted_wrt P (map f xs) \<Longrightarrow> sorted_wrt P (map f (filter Q xs))"
  by (induction xs) auto

lemma distinct_filter_map: "distinct (map f xs) \<Longrightarrow> distinct (map f (filter Q xs))"
  by (induction xs) auto

lemma zset_update_run:
  assumes rep: "zset_rep zm zs xs" and ok: "zmem_ok zm" and nan: "\<not> dbl_isnan score" and x: "x \<in> set xs"
  shows "\<exists>zm' zs' xs'. zset_update zm zs x score = Some (zm', zs') \<and>
    zset_step zm xs zm' zs' xs' (zs_add (score, snd (zent zm x)) (zs_remove (snd (zent zm x)) (entries zm xs))) \<and>
    length xs' = length xs"
proof -
  note d = zset_repD [OF rep]
  let ?name = "snd (zent zm x)" and ?ys = "remove1 x xs"
  obtain p1 m1 where del: "avl_del (zm_tree zm) x = Some (p1, m1)" "avl_holds m1 p1 ?ys" "same_off (set xs) (zm_tree zm) m1"
    using avl_del_holds [OF d(1) x] by blast
  obtain z n where z: "zm_node zm x = Some z" "zent zm x = (zn_score z, zn_name z)" "zn_len z = length (zn_name z)"
    "zm_hmap zm x = Some n" "hn_hcode n = str_hash (zn_name z)"
    using d(3) x by (meson node_okE)
  have ys: "set ?ys = set xs - {x}" "x \<notin> set ?ys" using d(6) by simp_all
  obtain t where t: "avl_tree (zm_tree zm) (zs_root zs) t" "set_tree t = set xs" using avl_tree_set [OF d(1)] by blast
  have "zm_tree zm x \<noteq> None"
  proof -
    obtain l r c where "t = plug (Node l x r) c" using node_plug x t(2) by metis
    then show ?thesis using t(1) rep_plug [of "zm_tree zm" "Node l x r" c] by (auto simp: avl_tree_def)
  qed
  then have "m1 x \<noteq> None" using dom_avl_del [OF del(1)] by (metis allocated_def)
  let ?n = "\<lparr>an_parent = None, an_left = None, an_right = None, an_height = 1, an_size = 1\<rparr> :: AVLNode"
  have init: "avl_init m1 x = Some (m1(x \<mapsto> ?n))" using \<open>m1 x \<noteq> None\<close> by (simp add: avl_init_def run_simps)
  let ?z = "z\<lparr>zn_score := score\<rparr>"
  let ?zm = "zm\<lparr>zm_tree := m1(x \<mapsto> ?n), zm_node := (zm_node zm)(x \<mapsto> ?z)\<rparr>" and ?zs = "zs\<lparr>zs_root := p1\<rparr>"
  have "avl_holds (zm_tree ?zm) (zs_root ?zs) ?ys"
  proof -
    have "(m1(x \<mapsto> ?n)) a = m1 a" if "a \<in> set ?ys" for a using that ys(2) by auto
    from avl_holds_cong [OF del(2) this] show ?thesis by (simp add: fun_upd_def)
  qed
  moreover have e: "entries ?zm ?ys = zs_remove ?name (entries zm xs)"
  proof -
    have "entries ?zm ?ys = entries zm ?ys" using ys(2) by (intro entries_cong) auto
    then show ?thesis using entries_remove1 [OF d(5) x] by simp
  qed
  moreover have ok1: "\<forall>a\<in>set ?ys. node_ok ?zm a"
  proof
    fix a assume a: "a \<in> set ?ys"
    then have "a \<noteq> x" "node_ok zm a" using ys d(3) by auto
    then show "node_ok ?zm a" by (intro node_ok_cong [of ?zm a zm]) simp_all
  qed
  moreover have okx: "node_ok ?zm x" using z nan by (auto simp: node_ok_def)
  moreover have "sorted_wrt (<) (map ekey (entries ?zm ?ys))" "distinct (map snd (entries ?zm ?ys))"
    unfolding e zs_remove_def using d(4,5) by (simp_all add: sorted_filter distinct_filter_map)
  moreover have ex: "zent ?zm x = (score, ?name)" using z(2) by (simp add: zent_def)
  then have "snd (zent ?zm x) \<notin> snd ` set (entries ?zm ?ys)" unfolding e by (auto simp: zs_remove_def)
  moreover note ys(2)
  moreover have "zm_tree ?zm x = Some ?n" "an_left ?n = None" "an_right ?n = None" by simp_all
  moreover have "Suc (length ?ys) < 2 ^ 32 - 2"
  proof -
    have "length xs < 2 ^ 32 - 2"
      using d(1) by (auto simp: avl_holds_def avl_tree_def small_def)
    then show ?thesis using x by (simp add: length_remove1)
  qed
  ultimately obtain m' p' xs' where r: "tree_insert ?zm ?zs x = Some (?zm\<lparr>zm_tree := m'\<rparr>, ?zs\<lparr>zs_root := p'\<rparr>)"
    "avl_holds m' p' xs'" "set xs' = insert x (set ?ys)" "same_off (insert x (set ?ys)) (zm_tree ?zm) m'"
    "entries ?zm xs' = zs_add (zent ?zm x) (entries ?zm ?ys)"
    "sorted_wrt (<) (map ekey (entries ?zm xs'))" "distinct (map snd (entries ?zm xs'))"
    using tree_insert_run [of ?zm ?zs ?ys x ?n] by blast
  let ?zm' = "?zm\<lparr>zm_tree := m'\<rparr>" and ?zs' = "?zs\<lparr>zs_root := p'\<rparr>"
  have s: "set xs' = set xs" using r(3) ys(1) x by auto
  have e': "entries ?zm' xs' = entries ?zm xs'" by (rule entries_cong) simp
  have "\<forall>a\<in>set xs'. node_ok ?zm' a"
  proof
    fix a assume "a \<in> set xs'"
    then have "node_ok ?zm a" using ok1 okx r(3) by auto
    then show "node_ok ?zm' a" by (intro node_ok_cong [of ?zm' a ?zm]) simp_all
  qed
  then have rep': "zset_rep ?zm' ?zs' xs'"
    using r(2,6,7) d(2) s e' unfolding zset_rep_def by simp
  have fr: "zframe (set xs) zm ?zm'"
    using del(3) r(4) x unfolding ys(1) by (auto simp: zframe_def same_off_def)
  have "zmem_ok ?zm'"
    using zset_rep_range [OF rep ok] by (intro zmem_ok_frame [OF ok fr]) simp_all
  then have "zset_step zm xs ?zm' ?zs' xs' (zs_add (score, ?name) (zs_remove ?name (entries zm xs)))"
    using rep' fr s e' e ex r(5) by (simp add: zset_step_def)
  moreover have "zset_update zm zs x score = Some (?zm', ?zs')"
    using del(1) init z(1) r(1) by (simp add: zset_update_def run_simps)
  moreover have "length xs' = length xs"
    using s d(6) distinct_card [of xs] distinct_card [of xs'] zset_repD(6) [OF rep'] by simp
  ultimately show ?thesis by blast
qed


subsection \<open>Insertion or update\<close>

lemma zset_step_frame:
  assumes "zset_step zm1 xs zm' zs' xs' es" "zframe (set xs) zm zm1" "zm_next zm1 = zm_next zm"
  shows "zset_step zm xs zm' zs' xs' es"
proof -
  have "zframe (set xs \<union> set xs') zm1 zm'" using assms(1) by (simp add: zset_step_def)
  then have "zframe (set xs \<union> (set xs \<union> set xs')) zm zm'" by (rule zframe_trans [OF assms(2)])
  then have "zframe (set xs \<union> set xs') zm zm'" by simp
  then show ?thesis using assms(1,3) by (simp add: zset_step_def)
qed

lemma zset_insert_run:
  assumes rep: "zset_rep zm zs xs" and ok: "zmem_ok zm" and nan: "\<not> dbl_isnan score"
    and sz: "Suc (length xs) < 2 ^ 32 - 2"
  shows "\<exists>zm' zs' xs'. zset_insert zm zs name score =
      Some (name \<notin> snd ` set (entries zm xs), zm', zs') \<and>
    zset_step zm xs zm' zs' xs' (zs_add (score, name) (zs_remove name (entries zm xs))) \<and>
    length xs' \<le> Suc (length xs)"
proof -
  obtain m1 h1 where l: "zset_lookup zm zs name = Some (by_name zm name xs, zm\<lparr>zm_hmap := m1\<rparr>, zs\<lparr>zs_hmap := h1\<rparr>)"
    "hm_holds m1 h1 (set xs)" "next_frame (set xs) (zm_hmap zm) m1"
    using zset_lookup_run [OF rep ok] by blast
  let ?zm = "zm\<lparr>zm_hmap := m1\<rparr>" and ?zs = "zs\<lparr>zs_hmap := h1\<rparr>"
  note r1 = zset_rep_hmap [OF rep l(2,3)]
  have ok1: "zmem_ok ?zm"
    using zset_rep_range [OF rep ok] by (intro zmem_ok_frame [OF ok r1(3)]) simp_all
  show ?thesis
  proof (cases "by_name zm name xs")
    case None
    then have new: "name \<notin> snd ` set (entries zm xs)" by (simp add: by_name_None)
    then have "snd e \<noteq> name" if "e \<in> set (entries zm xs)" for e using that by (metis imageI)
    then have rm: "zs_remove name (entries zm xs) = entries zm xs"
      unfolding zs_remove_def by (simp add: filter_True)
    have "name \<notin> snd ` set (entries ?zm xs)" unfolding r1(2) by (rule new)
    then obtain zm' zs' xs' where i: "(do {
        let (node, zm2) = znode_new ?zm name score;
        (m3, h3) \<leftarrow> hm_insert (zm_hmap zm2) (zs_hmap ?zs) node;
        tree_insert (zm2\<lparr>zm_hmap := m3\<rparr>) (?zs\<lparr>zs_hmap := h3\<rparr>) node }) = Some (zm', zs')"
      "zset_step ?zm xs zm' zs' xs' (zs_add (score, name) (entries ?zm xs))"
      using zset_insert_new [OF r1(1) ok1 nan _ sz] by blast
    have st: "zset_step zm xs zm' zs' xs' (zs_add (score, name) (zs_remove name (entries zm xs)))"
      using zset_step_frame [OF i(2) r1(3)] rm r1(2) by simp
    obtain node zm2 where n: "znode_new ?zm name score = (node, zm2)" by fastforce
    have "zset_insert zm zs name score = Some (True, zm', zs')"
      using l(1) None i(1) n by (auto simp: zset_insert_def bind_eq_Some_conv)
    moreover have "length xs' = Suc (length xs)"
    proof -
      have "length xs' = length (zs_add (score, name) (entries zm xs))"
        using st rm by (metis entries_def length_map zset_step_def)
      also have "\<dots> = Suc (length (entries zm xs))"
        by (simp add: zs_add_def) (metis length_append takeWhile_dropWhile_id)
      finally show ?thesis by (simp add: entries_def)
    qed
    ultimately show ?thesis using st new by (intro exI [of _ zm'] exI [of _ zs'] exI [of _ xs']) simp
  next
    case (Some x)
    then have x: "x \<in> set xs" "snd (zent zm x) = name" using by_nameD by blast+
    have zx: "snd (zent ?zm x) = name" using x(2) by (simp add: zent_def)
    obtain zm' zs' xs' where u: "zset_update ?zm ?zs x score = Some (zm', zs')"
      "zset_step ?zm xs zm' zs' xs' (zs_add (score, name) (zs_remove name (entries ?zm xs)))" "length xs' = length xs"
      using zset_update_run [OF r1(1) ok1 nan x(1)] unfolding zx by blast
    have "zset_step zm xs zm' zs' xs' (zs_add (score, name) (zs_remove name (entries zm xs)))"
      using zset_step_frame [OF u(2) r1(3)] r1(2) by simp
    moreover have "zset_insert zm zs name score = Some (False, zm', zs')"
      using l(1) Some u(1) by (simp add: zset_insert_def)
    moreover have "name \<in> snd ` set (entries zm xs)"
      using Some by_name_None [of zm name xs] by auto
    ultimately show ?thesis
      using u(3) by (intro exI [of _ zm'] exI [of _ zs'] exI [of _ xs']) simp
  qed
qed


subsection \<open>Deletion\<close>

lemma zset_delete_run:
  assumes rep: "zset_rep zm zs xs" and ok: "zmem_ok zm" and x: "x \<in> set xs"
  shows "\<exists>zm' zs'. zset_delete zm zs x = Some (zm', zs') \<and>
    zset_step zm xs zm' zs' (remove1 x xs) (zs_remove (snd (zent zm x)) (entries zm xs))"
proof -
  note d = zset_repD [OF rep]
  let ?ys = "remove1 x xs"
  obtain z n where z: "zm_node zm x = Some z" "zent zm x = (zn_score z, zn_name z)" "zn_len z = length (zn_name z)"
    "zm_hmap zm x = Some n" "hn_hcode n = str_hash (zn_name z)"
    using d(3) x by (meson node_okE)
  let ?m = "push_key (zm_hmap zm) (str_hash (zn_name z))" and ?eq = "hcmp (zm_node zm) (zn_name z)"
  have sk: "stack_key \<notin> set xs" using zset_rep_alloc(1) [OF rep ok] by blast
  have k: "?m stack_key \<noteq> None" by simp
  obtain p m1 h1 where l: "hm_delete ?m (zs_hmap zs) stack_key ?eq = Some (p, m1, h1)" "next_frame (set xs) ?m m1"
    and p: "case p of None \<Rightarrow> hm_holds m1 h1 (set xs) \<and> (\<forall>y\<in>set xs. \<not> hits ?m stack_key ?eq y)
      | Some y \<Rightarrow> hm_holds m1 h1 (set xs - {y}) \<and> y \<in> set xs \<and> hits ?m stack_key ?eq y"
    using hm_delete_run [OF hm_push [OF rep ok] k, of ?eq] by blast
  have hit: "hits ?m stack_key ?eq y \<longleftrightarrow> snd (zent zm y) = zn_name z" if "y \<in> set xs" for y
  proof (rule name_hit)
    show "node_ok zm y" using d(3) that by blast
    show "y \<noteq> stack_key" using that sk by blast
    then show "map_option hn_hcode (?m y) = map_option hn_hcode (zm_hmap zm y)" by simp
  qed simp_all
  have px: "p = Some x"
  proof (cases p)
    case None
    then have "\<not> hits ?m stack_key ?eq x" using p x by simp
    then show ?thesis using hit [OF x] z(2) by simp
  next
    case (Some y)
    then have y: "y \<in> set xs" "hits ?m stack_key ?eq y" using p by simp_all
    then have "snd (zent zm y) = zn_name z" using hit [OF y(1)] by blast
    then have "by_name zm (zn_name z) xs = Some y" using by_name_Some [OF d(5) y(1)] by simp
    moreover have "by_name zm (zn_name z) xs = Some x" using by_name_Some [OF d(5) x] z(2) by simp
    ultimately show ?thesis using Some by simp
  qed
  then have h1: "hm_holds m1 h1 (set xs - {x})" using p by simp
  have nf: "next_frame (set xs) (zm_hmap zm) (pop_key m1)"
    using pop_frame [OF l(2)] sk zmem_okD(3) [OF ok, of stack_key] by simp
  obtain p2 m2 where del: "avl_del (zm_tree zm) x = Some (p2, m2)" "avl_holds m2 p2 ?ys" "same_off (set xs) (zm_tree zm) m2"
    using avl_del_holds [OF d(1) x] by blast
  have ys: "set ?ys = set xs - {x}" "x \<notin> set ?ys" using d(6) by simp_all
  let ?zm = "zm\<lparr>zm_tree := m2(x := None), zm_hmap := (pop_key m1)(x := None), zm_node := (zm_node zm)(x := None)\<rparr>"
  let ?zs = "zs\<lparr>zs_root := p2, zs_hmap := h1\<rparr>"
  have run: "zset_delete zm zs x = Some (?zm, ?zs)"
    using z l(1) px del(1) by (simp add: zset_delete_def znode_free_def)
  have e: "entries ?zm ?ys = zs_remove (snd (zent zm x)) (entries zm xs)"
  proof -
    have "entries ?zm ?ys = entries zm ?ys" using ys(2) by (intro entries_cong) auto
    then show ?thesis using entries_remove1 [OF d(5) x] by simp
  qed
  have "\<forall>a\<in>set ?ys. node_ok ?zm a"
  proof
    fix a assume a: "a \<in> set ?ys"
    then have "a \<noteq> x" "node_ok zm a" using ys d(3) by auto
    then show "node_ok ?zm a"
      using nf by (intro node_ok_cong [of ?zm a zm]) (simp_all add: next_frame_def)
  qed
  moreover have "avl_holds (m2(x := None)) p2 ?ys"
  proof -
    have "(m2(x := None)) a = m2 a" if "a \<in> set ?ys" for a using that ys(2) by auto
    from avl_holds_cong [OF del(2) this] show ?thesis by (simp add: fun_upd_def)
  qed
  moreover have "hm_holds ((pop_key m1)(x := None)) h1 (set ?ys)"
  proof -
    have "stack_key \<notin> set ?ys" using sk ys(1) by simp
    then have "((pop_key m1)(x := None)) a = m1 a" if "a \<in> set ?ys" for a
      using that ys(2) by (auto simp: pop_key_def)
    from hm_holds_cong [OF h1 [folded ys(1)] this] show ?thesis by (simp add: fun_upd_def)
  qed
  moreover have "sorted_wrt (<) (map ekey (entries ?zm ?ys))" "distinct (map snd (entries ?zm ?ys))"
    unfolding e zs_remove_def using d(4,5) by (simp_all add: sorted_filter distinct_filter_map)
  ultimately have rep': "zset_rep ?zm ?zs ?ys" unfolding zset_rep_def by simp
  have fr: "zframe (set xs) zm ?zm"
    using nf del(3) x by (auto simp: zframe_def next_frame_def same_off_def)
  have "zmem_ok ?zm"
    using zset_rep_range [OF rep ok] by (intro zmem_ok_frame [OF ok fr]) simp_all
  moreover have "set xs \<union> set ?ys = set xs" using ys(1) by auto
  ultimately have "zset_step zm xs ?zm ?zs ?ys (zs_remove (snd (zent zm x)) (entries zm xs))"
    using rep' fr e ys(1) by (simp add: zset_step_def)
  then show ?thesis using run by blast
qed

end
