(* ===== verification/ZSetQuery.thy ===== *)
theory ZSetQuery
  imports ZSetOps
begin

text \<open>
  Queries on the order, and destruction: \<open>zset_seekge\<close> is the first node whose entry is
  not below the key, \<open>znode_offset\<close> moves along the order, \<open>zset_clear\<close> frees exactly the
  nodes of the set.
\<close>

lemma find_append: "find P (xs @ ys) = (case find P xs of None \<Rightarrow> find P ys | Some x \<Rightarrow> Some x)"
  by (induction xs) auto

lemma find_none: "(\<And>x. x \<in> set xs \<Longrightarrow> \<not> P x) \<Longrightarrow> find P xs = None"
  by (simp add: find_None_iff)

lemma seekge_loop_run:
  assumes "rep (zm_tree zm) par t" and "\<forall>a\<in>set_tree t. node_ok zm a" and "\<not> dbl_isnan score"
    and "sorted_wrt (<) (map (\<lambda>a. ekey (zent zm a)) (inorder t))"
  shows "zset_seekge_loop zm score name (root_ptr t) best =
    Some (case find (\<lambda>a. \<not> ekey (zent zm a) < ekey (score, name)) (inorder t) of None \<Rightarrow> best | Some a \<Rightarrow> Some a)"
  using assms
proof (induction t arbitrary: par best)
  case Leaf
  then show ?case by (subst zset_seekge_loop.simps) simp
next
  case (Node l a r)
  let ?k = "\<lambda>a. ekey (zent zm a)" and ?P = "\<lambda>a. \<not> ekey (zent zm a) < ekey (score, name)"
  have m: "zm_tree zm a = Some (node_rec par l r)" "rep (zm_tree zm) (Some a) l" "rep (zm_tree zm) (Some a) r"
    using Node.prems(1) by simp_all
  have ok: "node_ok zm a" "\<forall>a\<in>set_tree l. node_ok zm a" "\<forall>a\<in>set_tree r. node_ok zm a"
    using Node.prems(2) by simp_all
  have lt: "zless_tuple zm a score name = Some (?k a < ekey (score, name))"
    using ok(1) Node.prems(3) by (rule zless_tuple_run)
  have "sorted_wrt (<) (map ?k (inorder l) @ ?k a # map ?k (inorder r))" using Node.prems(4) by simp
  then have s: "sorted_wrt (<) (map ?k (inorder l))" "sorted_wrt (<) (map ?k (inorder r))"
    "\<And>b. b \<in> set (inorder l) \<Longrightarrow> ?k b < ?k a"
    by (simp_all add: sorted_wrt_append)
  show ?case
  proof (cases "?k a < ekey (score, name)")
    case True
    have "\<not> ?P b" if "b \<in> set (inorder l)" for b using less_trans [OF s(3) [OF that] True] by simp
    then have "find ?P (inorder l) = None" by (rule find_none)
    then have "find ?P (inorder (Node l a r)) = find ?P (inorder r)" using True by (simp add: find_append)
    moreover have "zset_seekge_loop zm score name (root_ptr (Node l a r)) best =
        zset_seekge_loop zm score name (root_ptr r) best"
      using m(1) lt True by (subst zset_seekge_loop.simps) simp
    ultimately show ?thesis using Node.IH(2) [OF m(3) ok(3) Node.prems(3) s(2), of best] by simp
  next
    case False
    have "find ?P (inorder (Node l a r)) = (case find ?P (inorder l) of None \<Rightarrow> Some a | Some x \<Rightarrow> Some x)"
      using False by (simp add: find_append split: option.splits)
    moreover have "zset_seekge_loop zm score name (root_ptr (Node l a r)) best =
        zset_seekge_loop zm score name (root_ptr l) (Some a)"
      using m(1) lt False by (subst zset_seekge_loop.simps) simp
    ultimately show ?thesis
      using Node.IH(1) [OF m(2) ok(2) Node.prems(3) s(1), of "Some a"] by (simp split: option.splits)
  qed
qed

lemma zset_seekge_run:
  assumes "zset_rep zm zs xs" "\<not> dbl_isnan score"
  shows "zset_seekge zm zs score name = Some (find (\<lambda>a. \<not> ekey (zent zm a) < ekey (score, name)) xs)"
proof -
  note d = zset_repD [OF assms(1)]
  obtain t where t: "avl_tree (zm_tree zm) (zs_root zs) t" "inorder t = xs" "set_tree t = set xs"
    using avl_tree_set [OF d(1)] by blast
  have "rep (zm_tree zm) None t" "zs_root zs = root_ptr t" using t(1) by (simp_all add: avl_tree_def)
  then show ?thesis
    using seekge_loop_run [of zm None t score name None] assms(2) d(3,4) t(2,3)
    by (simp add: zset_seekge_def entries_def comp_def split: option.splits)
qed

lemma zset_seekge_at:
  assumes "zset_rep zm zs xs" "\<not> dbl_isnan score"
    and i: "i = length (takeWhile (\<lambda>e. ekey e < ekey (score, name)) (entries zm xs))"
  shows "zset_seekge zm zs score name = Some (if i < length xs then Some (xs ! i) else None)"
proof -
  have "find (\<lambda>a. \<not> Q a) xs = (if length (takeWhile Q xs) < length xs then Some (xs ! length (takeWhile Q xs)) else None)"
    for Q :: "addr \<Rightarrow> bool"
    by (induction xs) auto
  moreover have "i = length (takeWhile (\<lambda>a. ekey (zent zm a) < ekey (score, name)) xs)"
    unfolding i entries_def by (simp add: takeWhile_map comp_def)
  ultimately show ?thesis using zset_seekge_run [OF assms(1,2)] by simp
qed

lemma znode_offset_at:
  assumes "zset_rep zm zs xs" "i < length xs" "- (2 ^ 63) \<le> off" "off < 2 ^ 63"
  shows "znode_offset zm (Some (xs ! i)) off =
    Some (if 0 \<le> int i + off \<and> int i + off < int (length xs) then Some (xs ! nat (int i + off)) else None)"
  using avlx.offset_seq [OF zset_repD(1) [OF assms(1)] assms(2-4)] by (simp add: znode_offset_def)

lemma zset_rank_at:
  assumes "zset_rep zm zs xs" "i < length xs"
  shows "avl_rank (zm_tree zm) (xs ! i) = Some (int i)"
  using avlx.rank_seq [OF zset_repD(1) [OF assms(1)] assms(2)] .


subsection \<open>Destruction\<close>

definition zm_drop :: "addr set \<Rightarrow> zmem \<Rightarrow> zmem" where
  "zm_drop S zm = zm\<lparr>zm_tree := zm_tree zm |` (- S), zm_hmap := zm_hmap zm |` (- S), zm_node := zm_node zm |` (- S)\<rparr>"

lemma zm_drop_empty [simp]: "zm_drop {} zm = zm"
  by (simp add: zm_drop_def restrict_map_def)

lemma zm_drop_drop: "zm_drop T (zm_drop S zm) = zm_drop (S \<union> T) zm"
  by (simp add: zm_drop_def Int_commute)

lemma zm_drop_sel:
  "a \<notin> S \<Longrightarrow> zm_tree (zm_drop S zm) a = zm_tree zm a" "a \<notin> S \<Longrightarrow> zm_node (zm_drop S zm) a = zm_node zm a"
  "a \<notin> S \<Longrightarrow> zm_hmap (zm_drop S zm) a = zm_hmap zm a" "zm_next (zm_drop S zm) = zm_next zm"
  by (simp_all add: zm_drop_def)

lemma znode_free_drop: "zm_node zm a \<noteq> None \<Longrightarrow> znode_free zm a = Some (zm_drop {a} zm)"
  by (auto simp: znode_free_def zm_drop_def restrict_map_def fun_eq_iff)

lemma tree_dispose_run:
  assumes "rep (zm_tree zm) par t" and "distinct (inorder t)" and "\<forall>a\<in>set_tree t. zm_node zm a \<noteq> None"
  shows "tree_dispose zm (root_ptr t) = Some (zm_drop (set_tree t) zm)"
  using assms
proof (induction t arbitrary: zm par)
  case Leaf
  then show ?case by (subst tree_dispose.simps) simp
next
  case (Node l a r)
  let ?z1 = "zm_drop (set_tree l) zm" and ?z2 = "zm_drop (set_tree l \<union> set_tree r) zm"
  have m: "zm_tree zm a = Some (node_rec par l r)" "rep (zm_tree zm) (Some a) l" "rep (zm_tree zm) (Some a) r"
    using Node.prems(1) by simp_all
  have dis: "a \<notin> set_tree l" "a \<notin> set_tree r" "set_tree l \<inter> set_tree r = {}" "distinct (inorder l)" "distinct (inorder r)"
    using Node.prems(2) by auto
  have l: "tree_dispose zm (root_ptr l) = Some ?z1" using Node.IH(1) [OF m(2) dis(4)] Node.prems(3) by simp
  have "same_on (set_tree r) (zm_tree zm) (zm_tree ?z1)" unfolding same_on_def
  proof
    fix b assume "b \<in> set_tree r"
    then have "b \<notin> set_tree l" using dis(3) by auto
    then show "zm_tree ?z1 b = zm_tree zm b" by (rule zm_drop_sel)
  qed
  then have "rep (zm_tree ?z1) (Some a) r" by (rule rep_same_on [OF m(3)])
  moreover have "\<forall>b\<in>set_tree r. zm_node ?z1 b \<noteq> None"
  proof
    fix b assume "b \<in> set_tree r"
    then have "b \<notin> set_tree l" "zm_node zm b \<noteq> None" using dis(3) Node.prems(3) by auto
    then show "zm_node ?z1 b \<noteq> None" by (simp add: zm_drop_sel)
  qed
  ultimately have r: "tree_dispose ?z1 (root_ptr r) = Some ?z2"
    using Node.IH(2) [of ?z1 "Some a"] dis(5) by (simp add: zm_drop_drop)
  have "zm_node ?z2 a \<noteq> None" using Node.prems(3) dis(1,2) by (simp add: zm_drop_sel)
  then have "znode_free ?z2 a = Some (zm_drop (set_tree (Node l a r)) zm)"
    by (simp add: znode_free_drop zm_drop_drop Un_commute Un_left_commute insert_commute)
  then show ?case
    using m(1) l r dis(1) by (subst tree_dispose.simps) (simp add: zm_drop_sel)
qed

lemma zset_clear_run:
  assumes rep: "zset_rep zm zs xs" and ok: "zmem_ok zm"
  shows "zset_clear zm zs = Some (zm_drop (set xs) zm, zset_zero)" "zmem_ok (zm_drop (set xs) zm)"
    "zframe (set xs) zm (zm_drop (set xs) zm)"
proof -
  note d = zset_repD [OF rep]
  obtain t where t: "avl_tree (zm_tree zm) (zs_root zs) t" "inorder t = xs" "set_tree t = set xs"
    using avl_tree_set [OF d(1)] by blast
  have "rep (zm_tree zm) None t" "zs_root zs = root_ptr t" using t(1) by (simp_all add: avl_tree_def)
  moreover have "\<forall>a\<in>set_tree t. zm_node zm a \<noteq> None"
    using zset_rep_alloc(3) [OF rep ok] t(3) by blast
  ultimately have "tree_dispose zm (zs_root zs) = Some (zm_drop (set xs) zm)"
    using tree_dispose_run [of zm None t] d(6) t(2,3) by simp
  then show "zset_clear zm zs = Some (zm_drop (set xs) zm, zset_zero)"
    by (simp add: zset_clear_def hm_clear_def zset_zero_def)
  show fr: "zframe (set xs) zm (zm_drop (set xs) zm)" by (simp add: zframe_def zm_drop_sel)
  show "zmem_ok (zm_drop (set xs) zm)"
    using zset_rep_range [OF rep ok] by (intro zmem_ok_frame [OF ok fr]) (simp_all add: zm_drop_sel)
qed

end
