(* ===== verification/ZSetSpec.thy ===== *)
theory ZSetSpec
  imports ZSetQuery
begin

text \<open>
  The properties of the sorted set. \<open>zset_holds zm zs es\<close>: the set is consistent and its
  entries, in the order of the tree, are \<open>es\<close>; \<open>scores es\<close> is the map from names to
  scores it stands for.
\<close>

definition zset_holds :: "zmem \<Rightarrow> ZSet \<Rightarrow> (u64 \<times> bytes) list \<Rightarrow> bool" where
  "zset_holds zm zs es \<longleftrightarrow> zmem_ok zm \<and> (\<exists>xs. zset_rep zm zs xs \<and> entries zm xs = es)"

definition scores :: "(u64 \<times> bytes) list \<Rightarrow> (bytes \<rightharpoonup> u64)" where
  "scores es = map_of (map prod.swap es)"

lemma dom_scores: "dom (scores es) = snd ` set es"
  by (simp add: scores_def dom_map_of_conv_image_fst image_image)

lemma scores_append: "scores (xs @ ys) = scores ys ++ scores xs"
  by (simp add: scores_def map_of_append)

lemma scores_remove: "scores (zs_remove name es) = (scores es)(name := None)"
proof (induction es)
  case Nil
  show ?case by (simp add: scores_def zs_remove_def)
next
  case (Cons e es)
  have "scores (e # es) = (scores es)(snd e \<mapsto> fst e)" by (cases e) (simp add: scores_def)
  moreover have "scores (zs_remove name (e # es)) =
      (if snd e = name then scores (zs_remove name es) else (scores (zs_remove name es))(snd e \<mapsto> fst e))"
    by (cases e) (simp add: scores_def zs_remove_def)
  ultimately show ?case using Cons by (auto simp: fun_eq_iff)
qed

lemma set_takeWhile_subset: "set (takeWhile P xs) \<subseteq> set xs"
  using set_takeWhileD by fastforce

lemma scores_add:
  assumes "name \<notin> snd ` set es"
  shows "scores (zs_add (score, name) es) = (scores es)(name \<mapsto> score)"
proof -
  let ?P = "\<lambda>d. ekey d < ekey (score, name)"
  have "scores es = scores (dropWhile ?P es) ++ scores (takeWhile ?P es)"
    using scores_append [of "takeWhile ?P es" "dropWhile ?P es"] by simp
  moreover have "scores (zs_add (score, name) es) = (scores (dropWhile ?P es))(name \<mapsto> score) ++ scores (takeWhile ?P es)"
    unfolding zs_add_def scores_append by (simp add: scores_def)
  moreover have "name \<notin> dom (scores (takeWhile ?P es))"
    using assms image_mono [OF set_takeWhile_subset [of ?P es], of snd] unfolding dom_scores by blast
  ultimately show ?thesis by (simp add: map_add_upd_left)
qed

lemma scores_put: "scores (zs_add (score, name) (zs_remove name es)) = (scores es)(name \<mapsto> score)"
proof -
  have "name \<notin> snd ` set (zs_remove name es)" by (auto simp: zs_remove_def)
  then show ?thesis by (simp add: scores_add scores_remove)
qed

lemma zset_holds_sorted:
  "zset_holds zm zs es \<Longrightarrow> sorted_wrt (<) (map ekey es) \<and> distinct (map snd es)"
  unfolding zset_holds_def zset_rep_def by blast


subsection \<open>Properties\<close>

text \<open>
  C11. \<open>zset_insert\<close> adds a new name or moves a known one to its new score: it returns
  whether the name is new, no assertion or pointer fails, both indexes hold the same nodes
  again, the entries stay sorted by (score, name), and the map from names to scores changes
  at this name only. The nodes of the set afterwards are nodes it had or freshly allocated
  ones, and every other set in the memory keeps its tree, its hash index and its entries and
  shares no node with this one.
\<close>

theorem zset_insert_correct:
  assumes "zset_rep zm zs xs" and "zmem_ok zm" and "\<not> dbl_isnan score" and "Suc (length xs) < 2 ^ 32 - 2"
  shows "\<exists>zm' zs' xs'.
    zset_insert zm zs name score = Some (name \<notin> dom (scores (entries zm xs)), zm', zs') \<and>
    zset_rep zm' zs' xs' \<and> zmem_ok zm' \<and>
    entries zm' xs' = zs_add (score, name) (zs_remove name (entries zm xs)) \<and>
    sorted_wrt (<) (map ekey (entries zm' xs')) \<and>
    scores (entries zm' xs') = (scores (entries zm xs))(name \<mapsto> score) \<and>
    set xs' \<subseteq> set xs \<union> {zm_next zm..<zm_next zm'} \<and>
    (\<forall>ws ys. zset_rep zm ws ys \<and> set xs \<inter> set ys = {} \<longrightarrow>
      zset_rep zm' ws ys \<and> entries zm' ys = entries zm ys \<and> set xs' \<inter> set ys = {})"
proof -
  obtain zm' zs' xs' where r: "zset_insert zm zs name score = Some (name \<notin> snd ` set (entries zm xs), zm', zs')"
    "zset_step zm xs zm' zs' xs' (zs_add (score, name) (zs_remove name (entries zm xs)))"
    using zset_insert_run [OF assms, of name] by blast
  have st: "zset_rep zm' zs' xs'" "zmem_ok zm'" "zframe (set xs \<union> set xs') zm zm'"
    "entries zm' xs' = zs_add (score, name) (zs_remove name (entries zm xs))"
    "set xs' \<subseteq> set xs \<union> {zm_next zm..<zm_next zm'}"
    using r(2) by (simp_all add: zset_step_def)
  have others: "zset_rep zm' ws ys \<and> entries zm' ys = entries zm ys \<and> set xs' \<inter> set ys = {}"
    if "zset_rep zm ws ys" "set xs \<inter> set ys = {}" for ws ys
  proof -
    have apart: "set xs' \<inter> set ys = {}"
      using zset_rep_range [OF that(1) assms(2)] that(2) st(5) by fastforce
    then have "(set xs \<union> set xs') \<inter> set ys = {}" using that(2) by blast
    from zset_rep_frame [OF that(1) st(3) this] apart show ?thesis by blast
  qed
  have "scores (entries zm' xs') = (scores (entries zm xs))(name \<mapsto> score)" by (simp add: st(4) scores_put)
  moreover have "name \<notin> snd ` set (entries zm xs) \<longleftrightarrow> name \<notin> dom (scores (entries zm xs))" by (simp add: dom_scores)
  ultimately have "zset_insert zm zs name score = Some (name \<notin> dom (scores (entries zm xs)), zm', zs')"
    "scores (entries zm' xs') = (scores (entries zm xs))(name \<mapsto> score)"
    using r(1) by simp_all
  then show ?thesis using st(1,2,4,5) zset_repD(4) [OF st(1)] others by blast
qed

definition no_zmem :: zmem where
  "no_zmem = \<lparr>zm_tree = Map.empty, zm_hmap = Map.empty, zm_node = Map.empty, zm_next = 1\<rparr>"

lemma no_zmem_holds: "zset_holds no_zmem zset_zero []"
  using zset_rep_zero [of no_zmem]
  by (auto simp: zset_holds_def zmem_ok_def no_zmem_def entries_def intro!: exI [of _ "[]"])

theorem zset_insert_correct_witness:
  "\<exists>zm' zs' xs'. zset_insert no_zmem zset_zero [97] 0x3FF0000000000000 = Some (True, zm', zs') \<and>
    zset_rep zm' zs' xs' \<and> entries zm' xs' = [(0x3FF0000000000000, [97])] \<and>
    zset_rep zm' zset_zero []"
proof -
  have "\<not> dbl_isnan 0x3FF0000000000000" by (simp add: dbl_isnan_def dbl_mag_def)
  moreover have "zset_rep no_zmem zset_zero []" "zmem_ok no_zmem"
    using zset_rep_zero [of no_zmem] by (simp_all add: zmem_ok_def no_zmem_def)
  ultimately obtain zm' zs' xs' where r:
    "zset_insert no_zmem zset_zero [97] 0x3FF0000000000000 = Some ([97] \<notin> dom (scores (entries no_zmem [])), zm', zs')"
    "zset_rep zm' zs' xs'"
    "entries zm' xs' = zs_add (0x3FF0000000000000, [97]) (zs_remove [97] (entries no_zmem []))"
    "\<forall>ws ys. zset_rep no_zmem ws ys \<and> set [] \<inter> set ys = {} \<longrightarrow> zset_rep zm' ws ys \<and>
      entries zm' ys = entries no_zmem ys \<and> set xs' \<inter> set ys = {}"
    using zset_insert_correct [of no_zmem zset_zero "[]" "0x3FF0000000000000" "[97]"] by auto
  have "zset_rep zm' zset_zero []" using r(4) zset_rep_zero [of no_zmem] by auto
  then show ?thesis using r(1-3) by (auto simp: entries_def scores_def zs_add_def zs_remove_def)
qed

text \<open>
  \<open>zset_lookup\<close> finds exactly the names of the set, returns the node that holds the
  score, and changes no entry (it may move nodes between the tables of the hash index).
\<close>

theorem zset_lookup_correct:
  assumes "zset_holds zm zs es"
  shows "\<exists>p zm' zs'. zset_lookup zm zs name = Some (p, zm', zs') \<and> zset_holds zm' zs' es \<and>
    map_option (zent zm') p = map_option (\<lambda>s. (s, name)) (scores es name)"
proof -
  obtain xs where xs: "zset_rep zm zs xs" "entries zm xs = es" and ok: "zmem_ok zm"
    using assms by (auto simp: zset_holds_def)
  obtain m1 h1 where l: "zset_lookup zm zs name = Some (by_name zm name xs, zm\<lparr>zm_hmap := m1\<rparr>, zs\<lparr>zs_hmap := h1\<rparr>)"
    "hm_holds m1 h1 (set xs)" "next_frame (set xs) (zm_hmap zm) m1"
    using zset_lookup_run [OF xs(1) ok] by blast
  let ?zm = "zm\<lparr>zm_hmap := m1\<rparr>"
  note r1 = zset_rep_hmap [OF xs(1) l(2,3)]
  have "zmem_ok ?zm"
    using zset_rep_range [OF xs(1) ok] by (intro zmem_ok_frame [OF ok r1(3)]) simp_all
  then have h: "zset_holds ?zm (zs\<lparr>zs_hmap := h1\<rparr>) es"
    using r1(1,2) xs(2) unfolding zset_holds_def by blast
  have "map_option (zent ?zm) (by_name zm name xs) = map_option (\<lambda>s. (s, name)) (scores es name)"
  proof (cases "by_name zm name xs")
    case None
    then have "name \<notin> dom (scores es)" using xs(2) by (simp add: by_name_None dom_scores)
    then show ?thesis using None by (simp add: domIff)
  next
    case (Some x)
    then have x: "x \<in> set xs" "snd (zent zm x) = name" using by_nameD by blast+
    have "distinct (map fst (map prod.swap es))"
      using zset_repD(5) [OF xs(1)] xs(2) by (simp add: comp_def)
    moreover have "zent zm x \<in> set es" using x(1) xs(2) by (auto simp: entries_def)
    then have "(name, fst (zent zm x)) \<in> set (map prod.swap es)" using x(2) by force
    ultimately have "scores es name = Some (fst (zent zm x))" unfolding scores_def by (rule map_of_is_SomeI)
    moreover have "zent ?zm x = zent zm x" by (rule zent_cong) simp
    ultimately show ?thesis using Some x(2) by (simp add: prod_eq_iff)
  qed
  then show ?thesis using l(1) h by blast
qed

text \<open>A set with one entry, as the first insertion leaves it.\<close>

definition one_zset :: "zmem \<times> ZSet" where
  "one_zset = (case zset_insert no_zmem zset_zero [97] 0x3FF0000000000000 of
     Some (_, zm, zs) \<Rightarrow> (zm, zs) | None \<Rightarrow> (no_zmem, zset_zero))"

lemma one_zset_holds: "zset_holds (fst one_zset) (snd one_zset) [(0x3FF0000000000000, [97])]"
proof -
  have nan: "\<not> dbl_isnan 0x3FF0000000000000" by (simp add: dbl_isnan_def dbl_mag_def)
  have "zset_rep no_zmem zset_zero []" "zmem_ok no_zmem"
    using zset_rep_zero [of no_zmem] by (simp_all add: zmem_ok_def no_zmem_def)
  then obtain zm' zs' xs' where "zset_insert no_zmem zset_zero [97] 0x3FF0000000000000 = Some (True, zm', zs')"
    "zset_step no_zmem [] zm' zs' xs' [(0x3FF0000000000000, [97])]"
    using zset_insert_run [of no_zmem zset_zero "[]" "0x3FF0000000000000" "[97]"] nan
    by (auto simp: entries_def zs_add_def zs_remove_def)
  then show ?thesis by (auto simp: one_zset_def zset_holds_def zset_step_def)
qed

theorem zset_lookup_correct_witness:
  "\<exists>p zm' zs'. zset_lookup (fst one_zset) (snd one_zset) [97] = Some (p, zm', zs') \<and>
    map_option (zent zm') p = Some (0x3FF0000000000000, [97])"
proof -
  have "scores [(0x3FF0000000000000 :: u64, [97 :: u8])] [97] = Some 0x3FF0000000000000" by (simp add: scores_def)
  then show ?thesis using zset_lookup_correct [OF one_zset_holds, of "[97]"] by auto
qed

text \<open>
  C24. Deleting the node that a lookup has found removes exactly its name: the assertion in
  \<open>zset_delete\<close> holds, both indexes lose the node, and its memory is released.
\<close>

theorem zset_delete_correct:
  assumes "zset_holds zm zs es" and "zset_lookup zm zs name = Some (Some x, zm1, zs1)"
  shows "\<exists>zm2 zs2. zset_delete zm1 zs1 x = Some (zm2, zs2) \<and> zset_holds zm2 zs2 (zs_remove name es) \<and>
    scores (zs_remove name es) = (scores es)(name := None) \<and>
    zm_tree zm2 x = None \<and> zm_hmap zm2 x = None \<and> zm_node zm2 x = None"
proof -
  obtain xs where xs: "zset_rep zm zs xs" "entries zm xs = es" and ok: "zmem_ok zm"
    using assms(1) by (auto simp: zset_holds_def)
  obtain m1 h1 where l: "zset_lookup zm zs name = Some (by_name zm name xs, zm\<lparr>zm_hmap := m1\<rparr>, zs\<lparr>zs_hmap := h1\<rparr>)"
    "hm_holds m1 h1 (set xs)" "next_frame (set xs) (zm_hmap zm) m1"
    using zset_lookup_run [OF xs(1) ok] by blast
  have eq: "zm1 = zm\<lparr>zm_hmap := m1\<rparr>" "zs1 = zs\<lparr>zs_hmap := h1\<rparr>" "by_name zm name xs = Some x"
    using l(1) assms(2) by simp_all
  note r1 = zset_rep_hmap [OF xs(1) l(2,3), folded eq(1,2)]
  have ok1: "zmem_ok zm1"
    using zset_rep_range [OF xs(1) ok] eq(1) by (intro zmem_ok_frame [OF ok r1(3)]) simp_all
  have x: "x \<in> set xs" "snd (zent zm x) = name" using by_nameD [OF eq(3)] by blast+
  have zx: "snd (zent zm1 x) = name" using x(2) by (simp add: eq(1) zent_def)
  obtain zm2 zs2 where d: "zset_delete zm1 zs1 x = Some (zm2, zs2)"
    "zset_step zm1 xs zm2 zs2 (remove1 x xs) (zs_remove name es)"
    using zset_delete_run [OF r1(1) ok1 x(1)] zx r1(2) xs(2) by metis
  have "zm_tree zm2 x = None \<and> zm_hmap zm2 x = None \<and> zm_node zm2 x = None"
    using d(1) by (auto simp: zset_delete_def znode_free_def bind_eq_Some_conv split: if_splits)
  then show ?thesis using d by (auto simp: zset_step_def zset_holds_def scores_remove)
qed

theorem zset_delete_correct_witness:
  "\<exists>x zm1 zs1 zm2 zs2. zset_lookup (fst one_zset) (snd one_zset) [97] = Some (Some x, zm1, zs1) \<and>
    zset_delete zm1 zs1 x = Some (zm2, zs2) \<and> zset_holds zm2 zs2 []"
proof -
  obtain xs where xs: "zset_rep (fst one_zset) (snd one_zset) xs"
    "entries (fst one_zset) xs = [(0x3FF0000000000000, [97])]" and ok: "zmem_ok (fst one_zset)"
    using one_zset_holds unfolding zset_holds_def by blast
  obtain x where x: "by_name (fst one_zset) [97] xs = Some x"
    using xs(2) by_name_None [of "fst one_zset" "[97]" xs] by auto
  obtain zm1 zs1 where l: "zset_lookup (fst one_zset) (snd one_zset) [97] = Some (Some x, zm1, zs1)"
    using zset_lookup_run [OF xs(1) ok, of "[97]"] unfolding x by blast
  obtain zm2 zs2 where "zset_delete zm1 zs1 x = Some (zm2, zs2)"
    "zset_holds zm2 zs2 (zs_remove [97] [(0x3FF0000000000000, [97])])"
    using zset_delete_correct [OF one_zset_holds l] by blast
  moreover have "zs_remove [97] [(0x3FF0000000000000 :: u64, [97])] = []" by (simp add: zs_remove_def)
  ultimately show ?thesis using l by auto
qed

text \<open>The position of a key among the entries, and a move from there that stays inside.\<close>

definition zs_pos :: "u64 \<times> bytes \<Rightarrow> (u64 \<times> bytes) list \<Rightarrow> nat" where
  "zs_pos e es = length (takeWhile (\<lambda>d. ekey d < ekey e) es)"

definition zs_move :: "nat \<Rightarrow> nat \<Rightarrow> int \<Rightarrow> nat option" where
  "zs_move n i off = (if i < n \<and> 0 \<le> int i + off \<and> int i + off < int n then Some (nat (int i + off)) else None)"

lemma zs_pos_split:
  assumes "sorted_wrt (<) (map ekey es)"
  shows "\<forall>d\<in>set (take (zs_pos e es) es). ekey d < ekey e" "\<forall>d\<in>set (drop (zs_pos e es) es). ekey e \<le> ekey d"
proof -
  have "take (zs_pos e es) es = takeWhile (\<lambda>d. ekey d < ekey e) es"
    by (simp add: zs_pos_def takeWhile_eq_take [symmetric])
  then show "\<forall>d\<in>set (take (zs_pos e es) es). ekey d < ekey e" by (auto dest: set_takeWhileD)
  show "\<forall>d\<in>set (drop (zs_pos e es) es). ekey e \<le> ekey d"
    using assms
  proof (induction es)
    case (Cons x es)
    show ?case
    proof (cases "ekey x < ekey e")
      case True
      then show ?thesis using Cons by (simp add: zs_pos_def)
    next
      case False
      have "ekey x < ekey d" if "d \<in> set es" for d using Cons.prems that by simp
      then have "ekey e \<le> ekey d" if "d \<in> set es" for d
        using False that by (meson le_less_trans linorder_not_less order_less_imp_le)
      then show ?thesis using False by (simp add: zs_pos_def)
    qed
  qed simp
qed

lemma zset_pos_node:
  assumes "zset_rep zm zs xs" "entries zm xs = es" "\<not> dbl_isnan score"
  shows "zset_seekge zm zs score name =
    Some (if zs_pos (score, name) es < length xs then Some (xs ! zs_pos (score, name) es) else None)"
  using zset_seekge_at [OF assms(1,3) refl, of name] assms(2) by (simp add: zs_pos_def)

text \<open>
  Seek and offset: from the first entry that is not below (score, name), moving by any
  64-bit offset reaches the entry that many places ahead or behind in the order; it gives
  the null pointer when all entries are below the key or the move leaves the set.
\<close>

theorem zset_query_correct:
  assumes "zset_holds zm zs es" and "\<not> dbl_isnan score" and "- (2 ^ 63) \<le> off" and "off < 2 ^ 63"
  shows "(do { p \<leftarrow> zset_seekge zm zs score name; q \<leftarrow> znode_offset zm p off; Some (map_option (zent zm) q) }) =
      Some (map_option (nth es) (zs_move (length es) (zs_pos (score, name) es) off)) \<and>
    (\<forall>d\<in>set (take (zs_pos (score, name) es) es). ekey d < ekey (score, name)) \<and>
    (\<forall>d\<in>set (drop (zs_pos (score, name) es) es). ekey (score, name) \<le> ekey d)"
proof -
  let ?i = "zs_pos (score, name) es"
  obtain xs where xs: "zset_rep zm zs xs" "entries zm xs = es" using assms(1) by (auto simp: zset_holds_def)
  have len: "length es = length xs" and nth: "\<And>j. j < length xs \<Longrightarrow> zent zm (xs ! j) = es ! j"
    using xs(2) by (auto simp: entries_def)
  have s: "zset_seekge zm zs score name = Some (if ?i < length xs then Some (xs ! ?i) else None)"
    using zset_pos_node [OF xs assms(2)] .
  have "(do { p \<leftarrow> zset_seekge zm zs score name; q \<leftarrow> znode_offset zm p off; Some (map_option (zent zm) q) }) =
      Some (map_option (nth es) (zs_move (length es) ?i off))"
  proof (cases "?i < length xs")
    case True
    then show ?thesis
      using s znode_offset_at [OF xs(1) True assms(3,4)] nth by (simp add: zs_move_def len nat_less_iff)
  next
    case False
    then show ?thesis using s by (simp add: znode_offset_def zs_move_def len)
  qed
  moreover have "sorted_wrt (<) (map ekey es)" using zset_repD(4) [OF xs(1)] xs(2) by simp
  then have "\<forall>d\<in>set (take ?i es). ekey d < ekey (score, name)" "\<forall>d\<in>set (drop ?i es). ekey (score, name) \<le> ekey d"
    using zs_pos_split by blast+
  ultimately show ?thesis by blast
qed

theorem zset_query_correct_witness:
  "(do { p \<leftarrow> zset_seekge (fst one_zset) (snd one_zset) 0 []; q \<leftarrow> znode_offset (fst one_zset) p 0;
         Some (map_option (zent (fst one_zset)) q) }) = Some (Some (0x3FF0000000000000, [97]))"
proof -
  have "\<not> dbl_isnan 0" by (simp add: dbl_isnan_def dbl_mag_def)
  from zset_query_correct [OF one_zset_holds this, of 0 "[]"] show ?thesis
    by (simp add: zs_pos_def ekey_def dbl_key_def dbl_mag_def zs_move_def)
qed

text \<open>
  C25. Destroying a set releases each of its nodes once and nothing else: no node is freed
  twice or used after it was freed, and every other set in the same memory keeps its
  entries.
\<close>

theorem zset_clear_correct:
  assumes "zset_rep zm zs xs" and "zmem_ok zm" and "zset_rep zm ws ys" and "set xs \<inter> set ys = {}"
  shows "\<exists>zm'. zset_clear zm zs = Some (zm', zset_zero) \<and> zmem_ok zm' \<and> zset_rep zm' ws ys \<and>
    entries zm' ys = entries zm ys \<and>
    dom (zm_tree zm') = dom (zm_tree zm) - set xs \<and> dom (zm_hmap zm') = dom (zm_hmap zm) - set xs \<and>
    dom (zm_node zm') = dom (zm_node zm) - set xs"
proof -
  let ?zm = "zm_drop (set xs) zm"
  note c = zset_clear_run [OF assms(1,2)]
  have "dom (zm_tree ?zm) = dom (zm_tree zm) - set xs" "dom (zm_hmap ?zm) = dom (zm_hmap zm) - set xs"
    "dom (zm_node ?zm) = dom (zm_node zm) - set xs"
    by (auto simp: zm_drop_def)
  then show ?thesis using c zset_rep_frame [OF assms(3) c(3) assms(4)] by blast
qed

theorem zset_clear_correct_witness:
  "\<exists>zm'. zset_clear (fst one_zset) (snd one_zset) = Some (zm', zset_zero) \<and> zmem_ok zm' \<and>
    entries zm' [] = entries (fst one_zset) []"
proof -
  obtain xs where xs: "zset_rep (fst one_zset) (snd one_zset) xs" and ok: "zmem_ok (fst one_zset)"
    using one_zset_holds unfolding zset_holds_def by blast
  have "set xs \<inter> set [] = {}" by simp
  from zset_clear_correct [OF xs ok zset_rep_zero this] show ?thesis by blast
qed

end
