(* ===== verification/ThreadPool.thy ===== *)
theory ThreadPool
  imports Prelude "HOL-Library.Multiset"
begin

text \<open>
  The thread pool of \<open>src/server/thread_pool.cc\<close> at the level of its locking: every call on the
  mutex or the condition variable is a step of its own, and the steps of the workers and of the
  event loop, which calls \<open>thread_pool_queue\<close>, interleave freely. The POSIX calls follow their
  documentation: \<open>pthread_cond_wait\<close> releases the mutex as it starts to wait, may wake up at any
  time, and takes the mutex again before it returns; \<open>pthread_cond_signal\<close> wakes a waiting
  thread if there is one.
\<close>

record Work =
  wk_task :: addr
  wk_arg :: ptr

text \<open>Where a worker is in its loop, and the event loop in \<open>thread_pool_queue\<close>.\<close>

datatype worker_pc = W_Lock | W_Check | W_Wait | W_Wake | W_Pop | W_Unlock Work | W_Task Work

datatype caller_pc = C_Idle | C_Lock Work | C_Push Work | C_Signal | C_Unlock

datatype thread = Caller | Worker nat

record ThreadPool =
  tp_threads :: "worker_pc list"
  tp_queue :: "Work list"
  tp_mu :: "thread option"
  tp_caller :: caller_pc

definition thread_pool_init :: "nat \<Rightarrow> ThreadPool" where
  "thread_pool_init num_threads = \<lparr>tp_threads = replicate (max num_threads 4) W_Lock, tp_queue = [], tp_mu = None, tp_caller = C_Idle\<rparr>"

definition go :: "nat \<Rightarrow> worker_pc \<Rightarrow> ThreadPool \<Rightarrow> ThreadPool" where
  "go i pc tp = tp\<lparr>tp_threads := (tp_threads tp)[i := pc]\<rparr>"

text \<open>
  The next step of worker \<open>i\<close>: \<open>None\<close> if it has to wait for the mutex or for a signal. The
  queue is never popped when it is empty, see \<open>pool_inv\<close>.
\<close>

definition worker :: "nat \<Rightarrow> ThreadPool \<Rightarrow> ThreadPool option" where
  "worker i tp = (if length (tp_threads tp) \<le> i then None else case tp_threads tp ! i of
     W_Lock \<Rightarrow> if tp_mu tp = None then Some (go i W_Check (tp\<lparr>tp_mu := Some (Worker i)\<rparr>)) else None
   | W_Check \<Rightarrow> if tp_queue tp = [] then Some (go i W_Wait (tp\<lparr>tp_mu := None\<rparr>)) else Some (go i W_Pop tp)
   | W_Wait \<Rightarrow> None
   | W_Wake \<Rightarrow> if tp_mu tp = None then Some (go i W_Check (tp\<lparr>tp_mu := Some (Worker i)\<rparr>)) else None
   | W_Pop \<Rightarrow> (case tp_queue tp of [] \<Rightarrow> None | w # ws \<Rightarrow> Some (go i (W_Unlock w) (tp\<lparr>tp_queue := ws\<rparr>)))
   | W_Unlock w \<Rightarrow> Some (go i (W_Task w) (tp\<lparr>tp_mu := None\<rparr>))
   | W_Task w \<Rightarrow> Some (go i W_Lock tp))"

text \<open>A waiting worker wakes up, because of a signal or for no reason.\<close>

definition wake :: "nat \<Rightarrow> ThreadPool \<Rightarrow> ThreadPool option" where
  "wake i tp = (if i < length (tp_threads tp) \<and> tp_threads tp ! i = W_Wait then Some (go i W_Wake tp) else None)"

text \<open>The next step of \<open>thread_pool_queue\<close>; \<open>i\<close> is the worker the kernel wakes, if any waits.\<close>

definition thread_pool_queue_step :: "nat \<Rightarrow> ThreadPool \<Rightarrow> ThreadPool option" where
  "thread_pool_queue_step i tp = (case tp_caller tp of
     C_Idle \<Rightarrow> None
   | C_Lock w \<Rightarrow> if tp_mu tp = None then Some (tp\<lparr>tp_mu := Some Caller, tp_caller := C_Push w\<rparr>) else None
   | C_Push w \<Rightarrow> Some (tp\<lparr>tp_queue := tp_queue tp @ [w], tp_caller := C_Signal\<rparr>)
   | C_Signal \<Rightarrow> if W_Wait \<in> set (tp_threads tp) then map_option (\<lambda>t. t\<lparr>tp_caller := C_Unlock\<rparr>) (wake i tp)
       else Some (tp\<lparr>tp_caller := C_Unlock\<rparr>)
   | C_Unlock \<Rightarrow> Some (tp\<lparr>tp_mu := None, tp_caller := C_Idle\<rparr>))"

text \<open>What a step does with the jobs.\<close>

datatype job_event = Silent | Queued Work | Taken Work | Finished Work

definition worker_event :: "nat \<Rightarrow> ThreadPool \<Rightarrow> job_event" where
  "worker_event i tp = (case tp_threads tp ! i of W_Pop \<Rightarrow> Taken (hd (tp_queue tp)) | W_Task w \<Rightarrow> Finished w | _ \<Rightarrow> Silent)"

definition caller_event :: "ThreadPool \<Rightarrow> job_event" where
  "caller_event tp = (case tp_caller tp of C_Push w \<Rightarrow> Queued w | _ \<Rightarrow> Silent)"

inductive pool_step :: "ThreadPool \<Rightarrow> job_event \<Rightarrow> ThreadPool \<Rightarrow> bool" where
  step_worker: "worker i tp = Some tp' \<Longrightarrow> pool_step tp (worker_event i tp) tp'"
| step_wake: "wake i tp = Some tp' \<Longrightarrow> pool_step tp Silent tp'"
| step_call: "tp_caller tp = C_Idle \<Longrightarrow> pool_step tp Silent (tp\<lparr>tp_caller := C_Lock w\<rparr>)"
| step_queue: "thread_pool_queue_step i tp = Some tp' \<Longrightarrow> pool_step tp (caller_event tp) tp'"

inductive_cases pool_stepE: "pool_step tp e tp'"

inductive pool_run :: "ThreadPool \<Rightarrow> job_event list \<Rightarrow> ThreadPool \<Rightarrow> bool" where
  run_none: "pool_run tp [] tp"
| run_more: "pool_run tp es tp1 \<Longrightarrow> pool_step tp1 e tp2 \<Longrightarrow> pool_run tp (es @ [e]) tp2"


subsection \<open>The invariant\<close>

definition holding :: "worker_pc \<Rightarrow> bool" where
  "holding pc \<longleftrightarrow> (case pc of W_Check \<Rightarrow> True | W_Pop \<Rightarrow> True | W_Unlock _ \<Rightarrow> True | _ \<Rightarrow> False)"

definition calling :: "caller_pc \<Rightarrow> bool" where
  "calling c \<longleftrightarrow> (case c of C_Push _ \<Rightarrow> True | C_Signal \<Rightarrow> True | C_Unlock \<Rightarrow> True | _ \<Rightarrow> False)"

text \<open>Workers that will look at the queue before they wait.\<close>

definition looking :: "worker_pc \<Rightarrow> bool" where
  "looking pc \<longleftrightarrow> pc \<in> {W_Lock, W_Check, W_Wake, W_Pop}"

definition tally :: "('a \<Rightarrow> bool) \<Rightarrow> 'a list \<Rightarrow> nat" where
  "tally P xs = length (filter P xs)"

text \<open>
  The mutex is held by the thread that is inside; a worker in front of \<open>pop_front\<close> sees a job;
  and while a worker waits, every queued job has a worker that is about to look at the queue, or
  the signal is still to come.
\<close>

definition mutex_ok :: "ThreadPool \<Rightarrow> bool" where
  "mutex_ok tp \<longleftrightarrow> (\<forall>i<length (tp_threads tp). holding (tp_threads tp ! i) = (tp_mu tp = Some (Worker i))) \<and>
     (\<forall>i. tp_mu tp = Some (Worker i) \<longrightarrow> i < length (tp_threads tp)) \<and> calling (tp_caller tp) = (tp_mu tp = Some Caller)"

definition pop_ok :: "ThreadPool \<Rightarrow> bool" where
  "pop_ok tp \<longleftrightarrow> (W_Pop \<in> set (tp_threads tp) \<longrightarrow> tp_queue tp \<noteq> [])"

definition wake_ok :: "ThreadPool \<Rightarrow> bool" where
  "wake_ok tp \<longleftrightarrow> (W_Wait \<in> set (tp_threads tp) \<longrightarrow>
     length (tp_queue tp) \<le> tally looking (tp_threads tp) + (if tp_caller tp = C_Signal then 1 else 0))"

definition pool_inv :: "ThreadPool \<Rightarrow> bool" where
  "pool_inv tp \<longleftrightarrow> mutex_ok tp \<and> pop_ok tp \<and> wake_ok tp"

lemma tally_update:
  assumes "i < length xs"
  shows "tally P (xs[i := y]) + (if P (xs ! i) then 1 else 0) = tally P xs + (if P y then 1 else 0)"
  using assms
proof (induction xs arbitrary: i)
  case (Cons x xs)
  then show ?case by (cases i) (auto simp: tally_def)
qed simp

lemma in_update: "i < length xs \<Longrightarrow> z \<in> set (xs[i := y]) \<Longrightarrow> z = y \<or> z \<in> set xs"
  using set_update_subset_insert [of xs i y] by auto

lemmas pc_defs = holding_def looking_def calling_def

lemma mutex_owner:
  assumes "mutex_ok tp" "i < length (tp_threads tp)" "holding (tp_threads tp ! i)"
  shows "tp_mu tp = Some (Worker i)" "\<not> calling (tp_caller tp)"
    "j < length (tp_threads tp) \<Longrightarrow> j \<noteq> i \<Longrightarrow> \<not> holding (tp_threads tp ! j)"
  using assms by (auto simp: mutex_ok_def)

text \<open>A worker moves on, and the mutex with it.\<close>

lemma mutex_go:
  assumes "mutex_ok tp" "i < length (tp_threads tp)" "tp_mu tp = None \<or> tp_mu tp = Some (Worker i)"
    "mu = (if holding pc then Some (Worker i) else None)"
  shows "mutex_ok (go i pc (tp\<lparr>tp_mu := mu, tp_queue := q\<rparr>))"
  using assms unfolding mutex_ok_def go_def by (auto simp: nth_list_update split: if_splits)

lemma mutex_go_free:
  assumes "mutex_ok tp" "i < length (tp_threads tp)" "\<not> holding (tp_threads tp ! i)" "\<not> holding pc"
  shows "mutex_ok (go i pc tp)"
  using assms unfolding mutex_ok_def go_def by (auto simp: nth_list_update split: if_splits)

lemma wake_go:
  assumes "wake_ok tp" "i < length (tp_threads tp)" "pc \<noteq> W_Wait" "length q \<le> length (tp_queue tp)"
    "looking (tp_threads tp ! i) \<and> \<not> looking pc \<longrightarrow> length q < length (tp_queue tp)"
  shows "wake_ok (go i pc (tp\<lparr>tp_mu := mu, tp_queue := q\<rparr>))"
proof -
  have "tally looking ((tp_threads tp)[i := pc]) + (length (tp_queue tp) - length q) \<ge> tally looking (tp_threads tp)"
    using tally_update [OF assms(2), of looking pc] assms(4,5) by (auto split: if_splits)
  then show ?thesis using assms in_update [OF assms(2), of W_Wait pc] unfolding wake_ok_def go_def by auto
qed

lemma pop_go:
  assumes "pop_ok tp" "i < length (tp_threads tp)" "pc = W_Pop \<longrightarrow> q \<noteq> []" "q = tp_queue tp"
  shows "pop_ok (go i pc (tp\<lparr>tp_mu := mu, tp_queue := q\<rparr>))"
  using assms in_update [OF assms(2), of W_Pop pc] unfolding pop_ok_def go_def by auto

lemma worker_keeps:
  assumes inv: "pool_inv tp" and step: "worker i tp = Some tp'"
  shows "pool_inv tp'"
proof -
  have i: "i < length (tp_threads tp)" using step by (auto simp: worker_def split: if_splits)
  have inv': "mutex_ok tp" "pop_ok tp" "wake_ok tp" using inv by (simp_all add: pool_inv_def)
  note moves = mutex_go [OF inv'(1) i] pop_go [OF inv'(2) i] wake_go [OF inv'(3) i]
  have lock: "pool_inv (go i W_Check (tp\<lparr>tp_mu := Some (Worker i)\<rparr>))" if "tp_mu tp = None" "looking (tp_threads tp ! i)"
    using moves(1) [of "Some (Worker i)" W_Check "tp_queue tp"] moves(2) [of W_Check "tp_queue tp" "Some (Worker i)"]
      moves(3) [of W_Check "tp_queue tp" "Some (Worker i)"] that
    unfolding pool_inv_def by (simp add: pc_defs)
  show ?thesis
  proof (cases "tp_threads tp ! i")
    case W_Lock
    then show ?thesis using step i lock by (auto simp: worker_def pc_defs split: if_splits)
  next
    case W_Wake
    then show ?thesis using step i lock by (auto simp: worker_def pc_defs split: if_splits)
  next
    case W_Wait
    then show ?thesis using step i by (simp add: worker_def)
  next
    case W_Check
    have h: "holding (tp_threads tp ! i)" using W_Check by (simp add: pc_defs)
    note own = mutex_owner [OF inv'(1) i h]
    show ?thesis
    proof (cases "tp_queue tp = []")
      case True
      then have tp': "tp' = go i W_Wait (tp\<lparr>tp_mu := None, tp_queue := []\<rparr>)" using step i W_Check by (cases tp) (simp add: worker_def go_def)
      have "wake_ok tp'" by (simp add: tp' wake_ok_def go_def)
      moreover have "mutex_ok tp'" unfolding tp' using own(1) by (intro moves(1)) (simp_all add: pc_defs)
      moreover have "pop_ok tp'" unfolding tp' using True by (intro moves(2)) simp_all
      ultimately show ?thesis by (simp add: pool_inv_def)
    next
      case False
      then have tp': "tp' = go i W_Pop (tp\<lparr>tp_mu := Some (Worker i), tp_queue := tp_queue tp\<rparr>)"
        using step i W_Check own(1) by (cases tp) (simp add: worker_def go_def)
      have "wake_ok tp'" unfolding tp' using W_Check by (intro moves(3)) (simp_all add: pc_defs)
      moreover have "mutex_ok tp'" unfolding tp' using own(1) by (intro moves(1)) (simp_all add: pc_defs)
      moreover have "pop_ok tp'" unfolding tp' using False by (intro moves(2)) simp_all
      ultimately show ?thesis by (simp add: pool_inv_def)
    qed
  next
    case W_Pop
    have h: "holding (tp_threads tp ! i)" using W_Pop by (simp add: pc_defs)
    note own = mutex_owner [OF inv'(1) i h]
    obtain w ws where q: "tp_queue tp = w # ws"
      using inv'(2) i W_Pop by (metis neq_Nil_conv nth_mem pop_ok_def)
    then have tp': "tp' = go i (W_Unlock w) (tp\<lparr>tp_mu := Some (Worker i), tp_queue := ws\<rparr>)"
      using step i W_Pop own(1) by (cases tp) (simp add: worker_def go_def)
    have "wake_ok tp'" unfolding tp' using q by (intro moves(3)) simp_all
    moreover have "mutex_ok tp'" unfolding tp' using own(1) by (intro moves(1)) (simp_all add: pc_defs)
    moreover have "W_Pop \<notin> set (tp_threads tp')"
    proof
      assume "W_Pop \<in> set (tp_threads tp')"
      then obtain j where j: "j < length (tp_threads tp)" "(tp_threads tp)[i := W_Unlock w] ! j = W_Pop"
        by (auto simp: tp' go_def in_set_conv_nth)
      then have "j \<noteq> i" using i by auto
      then have "holding (tp_threads tp ! j)" using j(2) by (simp add: pc_defs)
      then show False using own(3) j(1) \<open>j \<noteq> i\<close> by blast
    qed
    then have "pop_ok tp'" by (simp add: pop_ok_def)
    ultimately show ?thesis by (simp add: pool_inv_def)
  next
    case (W_Unlock w)
    have h: "holding (tp_threads tp ! i)" using W_Unlock by (simp add: pc_defs)
    have tp': "tp' = go i (W_Task w) (tp\<lparr>tp_mu := None, tp_queue := tp_queue tp\<rparr>)"
      using step i W_Unlock by (cases tp) (simp add: worker_def go_def)
    have "wake_ok tp'" unfolding tp' using W_Unlock by (intro moves(3)) (simp_all add: pc_defs)
    moreover have "mutex_ok tp'" unfolding tp' using mutex_owner(1) [OF inv'(1) i h] by (intro moves(1)) (simp_all add: pc_defs)
    moreover have "pop_ok tp'" unfolding tp' by (intro moves(2)) simp_all
    ultimately show ?thesis by (simp add: pool_inv_def)
  next
    case (W_Task w)
    have tp': "tp' = go i W_Lock (tp\<lparr>tp_mu := tp_mu tp, tp_queue := tp_queue tp\<rparr>)"
      using step i W_Task by (cases tp) (simp add: worker_def go_def)
    have "wake_ok tp'" "pop_ok tp'" unfolding tp'
      using moves(3) [of W_Lock "tp_queue tp" "tp_mu tp"] moves(2) [of W_Lock "tp_queue tp" "tp_mu tp"] W_Task
      by (simp_all add: pc_defs)
    moreover have "mutex_ok tp'" unfolding tp' using mutex_go_free [OF inv'(1) i, of W_Lock] W_Task by (simp add: pc_defs)
    ultimately show ?thesis by (simp add: pool_inv_def)
  qed
qed

lemma wake_keeps:
  assumes inv: "pool_inv tp" and step: "wake i tp = Some tp'"
  shows "pool_inv tp'"
proof -
  have i: "i < length (tp_threads tp)" "tp_threads tp ! i = W_Wait" "tp' = go i W_Wake tp"
    using step by (auto simp: wake_def split: if_splits)
  have inv': "mutex_ok tp" "pop_ok tp" "wake_ok tp" using inv by (simp_all add: pool_inv_def)
  have "mutex_ok tp'" unfolding i(3) using mutex_go_free [OF inv'(1) i(1), of W_Wake] i(2) by (simp add: pc_defs)
  moreover have "pop_ok tp'" "wake_ok tp'"
    using pop_go [OF inv'(2) i(1), of W_Wake "tp_queue tp" "tp_mu tp"] wake_go [OF inv'(3) i(1), of W_Wake "tp_queue tp" "tp_mu tp"] i
    by (simp_all add: pc_defs)
  ultimately show ?thesis by (simp add: pool_inv_def)
qed

text \<open>The signal is what keeps a job from waiting beside a waiting worker.\<close>

lemma signal_wakes:
  assumes "pool_inv tp" "tp_caller tp = C_Signal" "wake i tp = Some tp'"
  shows "pool_inv (tp'\<lparr>tp_caller := C_Unlock\<rparr>)"
proof -
  have i: "i < length (tp_threads tp)" "tp_threads tp ! i = W_Wait" "tp' = go i W_Wake tp"
    using assms(3) by (auto simp: wake_def split: if_splits)
  have t: "tally looking (tp_threads tp') = Suc (tally looking (tp_threads tp))"
    using tally_update [OF i(1), of looking W_Wake] i by (simp add: pc_defs go_def)
  have "W_Wait \<in> set (tp_threads tp)" using i(1,2) nth_mem by metis
  then have "length (tp_queue tp) \<le> tally looking (tp_threads tp) + 1"
    using assms(1,2) by (simp add: pool_inv_def wake_ok_def)
  then have "wake_ok (tp'\<lparr>tp_caller := C_Unlock\<rparr>)" using t by (simp add: wake_ok_def) (simp add: i(3) go_def)
  moreover have "mutex_ok (tp'\<lparr>tp_caller := C_Unlock\<rparr>)" "pop_ok (tp'\<lparr>tp_caller := C_Unlock\<rparr>)"
    using wake_keeps [OF assms(1,3)] assms(2) i(3) by (simp_all add: pool_inv_def mutex_ok_def pop_ok_def calling_def go_def)
  ultimately show ?thesis by (simp add: pool_inv_def)
qed

lemma caller_keeps:
  assumes inv: "pool_inv tp" and step: "thread_pool_queue_step i tp = Some tp'"
  shows "pool_inv tp'"
proof (cases "tp_caller tp")
  case C_Idle
  then show ?thesis using step by (simp add: thread_pool_queue_step_def)
next
  case (C_Lock w)
  then show ?thesis using step inv
    by (auto simp: thread_pool_queue_step_def pool_inv_def mutex_ok_def pop_ok_def wake_ok_def calling_def split: if_splits)
next
  case (C_Push w)
  then show ?thesis using step inv
    by (auto simp: thread_pool_queue_step_def pool_inv_def mutex_ok_def pop_ok_def wake_ok_def calling_def)
next
  case C_Signal
  show ?thesis
  proof (cases "W_Wait \<in> set (tp_threads tp)")
    case True
    then obtain t where "wake i tp = Some t" "tp' = t\<lparr>tp_caller := C_Unlock\<rparr>"
      using step C_Signal by (auto simp: thread_pool_queue_step_def)
    then show ?thesis using signal_wakes [OF inv C_Signal] by simp
  next
    case False
    then show ?thesis using step inv C_Signal
      by (auto simp: thread_pool_queue_step_def pool_inv_def mutex_ok_def pop_ok_def wake_ok_def calling_def)
  qed
next
  case C_Unlock
  then show ?thesis using step inv
    by (auto simp: thread_pool_queue_step_def pool_inv_def mutex_ok_def pop_ok_def wake_ok_def calling_def)
qed

lemma step_keeps: "pool_step tp e tp' \<Longrightarrow> pool_inv tp \<Longrightarrow> pool_inv tp'"
proof (induction rule: pool_step.induct)
  case (step_call tp w)
  then show ?case by (auto simp: pool_inv_def mutex_ok_def pop_ok_def wake_ok_def calling_def)
qed (use worker_keeps wake_keeps caller_keeps in blast)+

lemma init_inv: "pool_inv (thread_pool_init n)"
  by (auto simp: pool_inv_def mutex_ok_def pop_ok_def wake_ok_def thread_pool_init_def pc_defs)

lemma run_keeps: "pool_run tp es tp' \<Longrightarrow> pool_inv tp \<Longrightarrow> pool_inv tp'"
  by (induction rule: pool_run.induct) (auto intro: step_keeps)


subsection \<open>The jobs\<close>

definition queued :: "job_event list \<Rightarrow> Work list" where
  "queued es = List.map_filter (\<lambda>e. case e of Queued w \<Rightarrow> Some w | _ \<Rightarrow> None) es"

definition taken :: "job_event list \<Rightarrow> Work list" where
  "taken es = List.map_filter (\<lambda>e. case e of Taken w \<Rightarrow> Some w | _ \<Rightarrow> None) es"

definition finished :: "job_event list \<Rightarrow> Work list" where
  "finished es = List.map_filter (\<lambda>e. case e of Finished w \<Rightarrow> Some w | _ \<Rightarrow> None) es"

lemma events_snoc [simp]:
  "queued [] = []" "taken [] = []" "finished [] = []"
  "queued (es @ [e]) = queued es @ (case e of Queued w \<Rightarrow> [w] | _ \<Rightarrow> [])"
  "taken (es @ [e]) = taken es @ (case e of Taken w \<Rightarrow> [w] | _ \<Rightarrow> [])"
  "finished (es @ [e]) = finished es @ (case e of Finished w \<Rightarrow> [w] | _ \<Rightarrow> [])"
  by (simp_all add: queued_def taken_def finished_def List.map_filter_def split: job_event.split)

text \<open>The jobs in the hands of the workers.\<close>

definition in_hand :: "worker_pc list \<Rightarrow> Work multiset" where
  "in_hand pcs = mset (List.map_filter (\<lambda>pc. case pc of W_Unlock w \<Rightarrow> Some w | W_Task w \<Rightarrow> Some w | _ \<Rightarrow> None) pcs)"

definition job_of :: "worker_pc \<Rightarrow> Work multiset" where
  "job_of pc = (case pc of W_Unlock w \<Rightarrow> {#w#} | W_Task w \<Rightarrow> {#w#} | _ \<Rightarrow> {#})"

lemma in_hand_Cons: "in_hand (pc # pcs) = job_of pc + in_hand pcs" "in_hand [] = {#}"
  by (simp_all add: in_hand_def job_of_def List.map_filter_def split: worker_pc.split)

lemma in_hand_update: "i < length pcs \<Longrightarrow> in_hand (pcs[i := pc]) + job_of (pcs ! i) = in_hand pcs + job_of pc"
proof (induction pcs arbitrary: i)
  case (Cons x pcs)
  then show ?case by (cases i) (auto simp: in_hand_Cons add_ac)
qed simp

text \<open>
  What the pool promises to its user: the abstract state is the queue and the jobs in the hands of
  the workers, and a job only goes from the back of the queue to its front, to one worker, and away.
\<close>

definition job_spec :: "job_event \<Rightarrow> Work list \<times> Work multiset \<Rightarrow> Work list \<times> Work multiset \<Rightarrow> bool" where
  "job_spec e s s' \<longleftrightarrow> (case (s, s') of ((q, h), (q', h')) \<Rightarrow> (case e of
       Silent \<Rightarrow> q' = q \<and> h' = h
     | Queued w \<Rightarrow> q' = q @ [w] \<and> h' = h
     | Taken w \<Rightarrow> q = w # q' \<and> h' = h + {#w#}
     | Finished w \<Rightarrow> q' = q \<and> h = h' + {#w#}))"

definition pool_abs :: "ThreadPool \<Rightarrow> Work list \<times> Work multiset" where
  "pool_abs tp = (tp_queue tp, in_hand (tp_threads tp))"

lemma worker_jobs:
  assumes step: "worker i tp = Some tp'"
  shows "job_spec (worker_event i tp) (pool_abs tp) (pool_abs tp')"
proof -
  have i: "i < length (tp_threads tp)" using step by (auto simp: worker_def split: if_splits)
  note up = in_hand_update [OF i]
  note defs = job_spec_def pool_abs_def worker_event_def go_def job_of_def
  show ?thesis
  proof (cases "tp_threads tp ! i")
    case W_Pop
    then obtain w ws where "tp_queue tp = w # ws" "tp' = go i (W_Unlock w) (tp\<lparr>tp_queue := ws\<rparr>)"
      using step i by (auto simp: worker_def split: list.splits)
    then show ?thesis using W_Pop up [of "W_Unlock w"] by (simp add: defs)
  next
    case (W_Unlock w)
    then have "tp' = go i (W_Task w) (tp\<lparr>tp_mu := None\<rparr>)" using step i by (simp add: worker_def)
    then show ?thesis using W_Unlock up [of "W_Task w"] by (simp add: defs)
  next
    case (W_Task w)
    then have "tp' = go i W_Lock tp" using step i by (simp add: worker_def)
    then show ?thesis using W_Task up [of W_Lock] by (simp add: defs)
  qed (use step i up in \<open>auto simp: worker_def defs split: if_splits\<close>)
qed

lemma wake_jobs: "wake i tp = Some tp' \<Longrightarrow> pool_abs tp' = pool_abs tp"
  using in_hand_update [of i "tp_threads tp" W_Wake] by (auto simp: wake_def go_def job_of_def pool_abs_def split: if_splits)

lemma caller_jobs:
  assumes step: "thread_pool_queue_step i tp = Some tp'"
  shows "job_spec (caller_event tp) (pool_abs tp) (pool_abs tp')"
proof (cases "tp_caller tp")
  case C_Signal
  have same: "pool_abs (t\<lparr>tp_caller := c\<rparr>) = pool_abs t" for t c by (simp add: pool_abs_def)
  have "pool_abs tp' = pool_abs tp"
    using step C_Signal wake_jobs by (auto simp: thread_pool_queue_step_def same split: if_splits)
  then show ?thesis using C_Signal by (simp add: caller_event_def job_spec_def split: prod.split)
qed (use step in \<open>auto simp: thread_pool_queue_step_def caller_event_def job_spec_def pool_abs_def split: if_splits\<close>)

lemma step_jobs: "pool_step tp e tp' \<Longrightarrow> job_spec e (pool_abs tp) (pool_abs tp')"
proof (induction rule: pool_step.induct)
  case (step_wake i tp tp')
  then show ?case using wake_jobs by (simp add: job_spec_def split: prod.split)
next
  case (step_call tp w)
  then show ?case by (simp add: job_spec_def pool_abs_def)
qed (use worker_jobs caller_jobs in blast)+

text \<open>Every job is taken once, in the order of the queue, and finished once.\<close>

definition jobs_kept :: "job_event list \<Rightarrow> ThreadPool \<Rightarrow> bool" where
  "jobs_kept es tp \<longleftrightarrow> queued es = taken es @ tp_queue tp \<and> mset (taken es) = mset (finished es) + in_hand (tp_threads tp)"

lemma jobs_kept_step: "jobs_kept es tp \<Longrightarrow> job_spec e (pool_abs tp) (pool_abs tp') \<Longrightarrow> jobs_kept (es @ [e]) tp'"
  by (cases e) (auto simp: jobs_kept_def job_spec_def pool_abs_def)

lemma init_jobs: "jobs_kept [] (thread_pool_init n)"
proof -
  have "in_hand (replicate m W_Lock) = {#}" for m by (induction m) (auto simp: in_hand_Cons job_of_def)
  then show ?thesis by (simp add: jobs_kept_def thread_pool_init_def)
qed

lemma run_jobs: "pool_run tp es tp' \<Longrightarrow> jobs_kept [] tp \<Longrightarrow> jobs_kept es tp'"
  by (induction rule: pool_run.induct) (auto intro: jobs_kept_step step_jobs)

lemma run_threads: "pool_run tp es tp' \<Longrightarrow> length (tp_threads tp') = length (tp_threads tp)"
proof (induction rule: pool_run.induct)
  case (run_more tp es tp1 e tp2)
  from run_more.hyps(2) have "length (tp_threads tp2) = length (tp_threads tp1)"
  proof cases
    case (step_worker i)
    then show ?thesis by (auto simp: worker_def go_def split: if_splits worker_pc.splits list.splits)
  next
    case (step_wake i)
    then show ?thesis by (auto simp: wake_def go_def split: if_splits)
  next
    case (step_queue i)
    then show ?thesis by (auto simp: thread_pool_queue_step_def wake_def go_def split: caller_pc.splits if_splits)
  qed simp
  then show ?case using run_more.IH by simp
qed simp


subsection \<open>The workers drain the queue\<close>

text \<open>The workers run by themselves in the order of a schedule.\<close>

fun run_workers :: "nat list \<Rightarrow> ThreadPool \<Rightarrow> (job_event list \<times> ThreadPool) option" where
  "run_workers [] tp = Some ([], tp)"
| "run_workers (i # is) tp = do { tp1 \<leftarrow> worker i tp; (es, tp2) \<leftarrow> run_workers is tp1; Some (worker_event i tp # es, tp2) }"

definition potential :: "worker_pc \<Rightarrow> nat" where
  "potential pc = (case pc of W_Wait \<Rightarrow> 0 | W_Pop \<Rightarrow> 1 | W_Check \<Rightarrow> 2 | W_Lock \<Rightarrow> 3 | W_Wake \<Rightarrow> 3 | W_Task _ \<Rightarrow> 4 | W_Unlock _ \<Rightarrow> 5)"

definition work_left :: "ThreadPool \<Rightarrow> nat" where
  "work_left tp = 5 * length (tp_queue tp) + sum_list (map potential (tp_threads tp))"

lemma potential_update:
  "i < length pcs \<Longrightarrow> sum_list (map potential (pcs[i := pc])) + potential (pcs ! i) = sum_list (map potential pcs) + potential pc"
proof (induction pcs arbitrary: i)
  case (Cons x pcs)
  then show ?case by (cases i) (auto simp: add_ac)
qed simp

lemma worker_decreases:
  assumes "worker i tp = Some tp'"
  shows "work_left tp' < work_left tp"
proof -
  have i: "i < length (tp_threads tp)" using assms by (auto simp: worker_def split: if_splits)
  have eq: "work_left (go i pc (tp\<lparr>tp_mu := mu, tp_queue := q\<rparr>)) + potential (tp_threads tp ! i) + 5 * length (tp_queue tp) =
      work_left tp + potential pc + 5 * length q" for pc mu q
    using potential_update [OF i, of pc] by (simp add: work_left_def go_def)
  have less: "work_left (go i pc (tp\<lparr>tp_mu := mu, tp_queue := q\<rparr>)) < work_left tp"
    if "potential pc + 5 * length q < potential (tp_threads tp ! i) + 5 * length (tp_queue tp)" for pc mu q
    using that eq [where pc = pc and mu = mu and q = q] by linarith
  have go_eq: "go i pc tp = go i pc (tp\<lparr>tp_mu := tp_mu tp, tp_queue := tp_queue tp\<rparr>)"
    "go i pc (tp\<lparr>tp_mu := mu\<rparr>) = go i pc (tp\<lparr>tp_mu := mu, tp_queue := tp_queue tp\<rparr>)"
    "go i pc (tp\<lparr>tp_queue := q\<rparr>) = go i pc (tp\<lparr>tp_mu := tp_mu tp, tp_queue := q\<rparr>)" for pc mu q
    by (simp_all add: go_def)
  show ?thesis
  proof (cases "tp_threads tp ! i")
    case W_Check
    then consider "tp' = go i W_Wait (tp\<lparr>tp_mu := None\<rparr>)" | "tp' = go i W_Pop tp"
      using assms i by (auto simp: worker_def split: if_splits)
    then show ?thesis
    proof cases
      case 1
      show ?thesis unfolding 1 go_eq(2) by (rule less) (simp add: W_Check potential_def)
    next
      case 2
      show ?thesis unfolding 2 go_eq(1) [of W_Pop] by (rule less) (simp add: W_Check potential_def)
    qed
  next
    case W_Pop
    then obtain w ws where q: "tp_queue tp = w # ws" "tp' = go i (W_Unlock w) (tp\<lparr>tp_queue := ws\<rparr>)"
      using assms i by (auto simp: worker_def split: list.splits)
    show ?thesis unfolding q(2) go_eq(3) by (rule less) (simp add: W_Pop q(1) potential_def)
  next
    case W_Wait
    then show ?thesis using assms i by (simp add: worker_def)
  next
    case W_Lock
    then have t: "tp' = go i W_Check (tp\<lparr>tp_mu := Some (Worker i)\<rparr>)" using assms i by (simp add: worker_def split: if_splits)
    show ?thesis unfolding t go_eq(2) by (rule less) (simp add: W_Lock potential_def)
  next
    case W_Wake
    then have t: "tp' = go i W_Check (tp\<lparr>tp_mu := Some (Worker i)\<rparr>)" using assms i by (simp add: worker_def split: if_splits)
    show ?thesis unfolding t go_eq(2) by (rule less) (simp add: W_Wake potential_def)
  next
    case (W_Unlock w)
    then have t: "tp' = go i (W_Task w) (tp\<lparr>tp_mu := None\<rparr>)" using assms i by (simp add: worker_def)
    show ?thesis unfolding t go_eq(2) by (rule less) (simp add: W_Unlock potential_def)
  next
    case (W_Task w)
    then have t: "tp' = go i W_Lock tp" using assms i by (simp add: worker_def)
    show ?thesis unfolding t go_eq(1) [of W_Lock] by (rule less) (simp add: W_Task potential_def)
  qed
qed

lemma run_workers_bound: "run_workers is tp = Some (es, tp') \<Longrightarrow> length is + work_left tp' \<le> work_left tp"
proof (induction "is" arbitrary: tp es)
  case (Cons i "is")
  then obtain tp1 es1 where "worker i tp = Some tp1" "run_workers is tp1 = Some (es1, tp')" by (auto split: Option.bind_splits)
  then show ?case using Cons.IH worker_decreases by fastforce
qed simp

lemma workers_come_to_rest: "\<exists>is es tp'. run_workers is tp = Some (es, tp') \<and> (\<forall>i. worker i tp' = None)"
proof (induction "work_left tp" arbitrary: tp rule: less_induct)
  case less
  show ?case
  proof (cases "\<forall>i. worker i tp = None")
    case True
    then show ?thesis by (intro exI [of _ "[]"] exI [of _ tp]) simp
  next
    case False
    then obtain i tp1 where i: "worker i tp = Some tp1" by auto
    from less [OF worker_decreases [OF i]] obtain "is" es tp' where
      "run_workers is tp1 = Some (es, tp')" "\<forall>i. worker i tp' = None" by blast
    then show ?thesis using i by (intro exI [of _ "i # is"] exI [of _ "worker_event i tp # es"] exI [of _ tp']) simp
  qed
qed

lemma pool_run_append: "pool_run tp1 es2 tp2 \<Longrightarrow> pool_run tp es1 tp1 \<Longrightarrow> pool_run tp (es1 @ es2) tp2"
proof (induction rule: pool_run.induct)
  case (run_more tp1 es ta e tb)
  then show ?case using pool_run.run_more by fastforce
qed simp

lemma run_workers_run: "run_workers is tp = Some (es, tp') \<Longrightarrow> pool_run tp es tp'"
proof (induction "is" arbitrary: tp es)
  case (Cons i "is")
  then obtain tp1 es1 where s: "worker i tp = Some tp1" "run_workers is tp1 = Some (es1, tp')" "es = worker_event i tp # es1"
    by (auto split: Option.bind_splits)
  have "pool_run tp ([] @ [worker_event i tp]) tp1" using run_more [OF run_none step_worker [OF s(1)]] .
  from pool_run_append [OF Cons.IH [OF s(2)] this] s(3) show ?case by simp
qed (simp add: run_none)

lemma run_workers_caller: "run_workers is tp = Some (es, tp') \<Longrightarrow> tp_caller tp' = tp_caller tp \<and> queued es = []"
proof (induction "is" arbitrary: tp es)
  case (Cons i "is")
  then obtain tp1 es1 where s: "worker i tp = Some tp1" "run_workers is tp1 = Some (es1, tp')" "es = worker_event i tp # es1"
    by (auto split: Option.bind_splits)
  have "tp_caller tp1 = tp_caller tp"
    using s(1) by (auto simp: worker_def go_def split: if_splits worker_pc.splits list.splits)
  moreover have "queued (worker_event i tp # es1) = queued es1"
    by (simp add: queued_def worker_event_def List.map_filter_def split: worker_pc.split)
  ultimately show ?case using Cons.IH [OF s(2)] s(3) by simp
qed (simp add: queued_def List.map_filter_def)

text \<open>When no worker can move, all wait, and no job is left.\<close>

lemma at_rest:
  assumes inv: "pool_inv tp" and caller: "tp_caller tp = C_Idle" and rest: "\<forall>i. worker i tp = None" and n: "tp_threads tp \<noteq> []"
  shows "tp_queue tp = []" "\<forall>i<length (tp_threads tp). tp_threads tp ! i = W_Wait"
proof -
  have inv': "mutex_ok tp" "pop_ok tp" "wake_ok tp" using inv by (simp_all add: pool_inv_def)
  have "\<not> holding (tp_threads tp ! i)" if i: "i < length (tp_threads tp)" for i
  proof
    assume h: "holding (tp_threads tp ! i)"
    have "tp_threads tp ! i = W_Pop \<longrightarrow> tp_queue tp \<noteq> []" using inv'(2) i by (metis nth_mem pop_ok_def)
    then have "worker i tp \<noteq> None" using h i
      by (auto simp: worker_def holding_def split: worker_pc.splits list.splits)
    then show False using rest by simp
  qed
  then have "tp_mu tp \<noteq> Some (Worker i)" for i using inv'(1) unfolding mutex_ok_def by blast
  moreover have "tp_mu tp \<noteq> Some Caller" using inv'(1) caller by (simp add: mutex_ok_def calling_def)
  ultimately have mu: "tp_mu tp = None" by (metis not_Some_eq thread.exhaust)
  show w: "\<forall>i<length (tp_threads tp). tp_threads tp ! i = W_Wait"
  proof (intro allI impI)
    fix i assume i: "i < length (tp_threads tp)"
    have p: "tp_threads tp ! i = W_Pop \<longrightarrow> tp_queue tp \<noteq> []" using inv'(2) i by (metis nth_mem pop_ok_def)
    have "worker i tp = None" using rest by blast
    then show "tp_threads tp ! i = W_Wait"
      using i mu p by (auto simp: worker_def split: worker_pc.splits if_splits list.splits)
  qed
  have "W_Wait \<in> set (tp_threads tp)" using w n by (metis length_greater_0_conv nth_mem)
  moreover have "tally looking (tp_threads tp) = 0"
    using w by (auto simp: tally_def filter_empty_conv in_set_conv_nth looking_def)
  ultimately show "tp_queue tp = []" using inv'(3) caller by (simp add: wake_ok_def)
qed

end
