(* ===== verification/Ttl.thy ===== *)
theory Ttl
  imports MinHeap
begin

text \<open>
  Expiration times of entries: \<open>entry_set_ttl\<close> of \<open>src/server/db.cc\<close>, the only
  client of the heap besides the timer loop. An entry without a TTL keeps
  \<open>(size_t)-1\<close> in its \<open>heap_idx\<close>. The state is the pair of the heap vector
  \<open>g_data.heap\<close> and the store of all \<open>Entry::heap_idx\<close> cells; the clock value that
  \<open>get_monotonic_msec\<close> reads is the argument \<open>now\<close>.
\<close>

definition npos :: nat where
  "npos = 2 ^ 64 - 1"

definition entry_set_ttl :: "heap_state \<Rightarrow> u64 \<Rightarrow> addr \<Rightarrow> int \<Rightarrow> heap_state option" where
  "entry_set_ttl st now ent ttl_ms = (case st of (a, rs) \<Rightarrow> do {
     idx \<leftarrow> rs ent;
     (if ttl_ms < 0 \<and> idx \<noteq> npos then do {
        (a', rs') \<leftarrow> heap_delete a rs idx;
        rs'' \<leftarrow> store_at rs' ent npos;
        Some (a', rs'')
      } else if 0 \<le> ttl_ms then
        heap_upsert a rs idx \<lparr>hi_val = now + word_of_int ttl_ms, hi_ref = ent\<rparr>
      else Some (a, rs))
   })"

text \<open>
  The invariant of the pair: the heap invariant, and every cell that is not the
  index of a queued item holds the sentinel.
\<close>

definition ttl_inv :: "heap_state \<Rightarrow> bool" where
  "ttl_inv st = heapq.kept npos st"

lemma ttl_invI:
  "heap_inv a rs \<Longrightarrow> length a < npos \<Longrightarrow>
   (\<And>e i. ttl_map a e = None \<Longrightarrow> rs e = Some i \<Longrightarrow> i = npos) \<Longrightarrow> ttl_inv (a, rs)"
  by (auto simp: ttl_inv_def heapq.kept_def)

text \<open>The TTLs a run of \<open>entry_set_ttl\<close> is meant to leave.\<close>

definition ttl_spec :: "u64 \<Rightarrow> addr \<Rightarrow> int \<Rightarrow> (addr \<rightharpoonup> u64) \<Rightarrow> (addr \<rightharpoonup> u64)" where
  "ttl_spec now ent ttl_ms m =
     (if ttl_ms < 0 then m(ent := None) else m(ent \<mapsto> now + word_of_int ttl_ms))"

lemma entry_set_ttl_run:
  assumes "ttl_inv (a, rs)" "rs ent = Some idx" "Suc (length a) < npos"
  shows "\<exists>a' rs'. entry_set_ttl (a, rs) now ent ttl_ms = Some (a', rs') \<and> ttl_inv (a', rs') \<and>
     ttl_map a' = ttl_spec now ent ttl_ms (ttl_map a) \<and> dom rs' = dom rs"
proof -
  have kept: "heapq.kept npos (a, rs)" using assms(1) by (simp add: ttl_inv_def)
  consider (clear) "ttl_ms < 0" "idx \<noteq> npos" | (none) "ttl_ms < 0" "idx = npos" | (set) "0 \<le> ttl_ms"
    by linarith
  then show ?thesis
  proof cases
    case clear
    then obtain s' where s': "heap_delete a rs idx = Some s'"
      "heapq.kept npos (fst s', (snd s')(ent \<mapsto> npos))" "ttl_map (fst s') = (ttl_map a)(ent := None)"
      "dom ((snd s')(ent \<mapsto> npos)) = dom rs"
      using heapq.remove_kept [OF kept, of ent idx] assms(2) by (auto simp del: fun_upd_apply)
    obtain a' rs' where [simp]: "s' = (a', rs')" by (cases s')
    have rd: "heap_inv a rs" "ttl_map a ent \<noteq> None"
      using kept heapq.kept_index [OF kept, of ent idx] assms(2) clear(2)
      by (auto simp: heapq.kept_def)
    then obtain v where "ttl_map a ent = Some v" by auto
    then have "dom rs' = dom rs"
      using heap_remove_old [OF rd(1) _ assms(2)] s'(1) by fastforce
    then have "rs' ent \<noteq> None" using assms(2) by auto
    then show ?thesis
      using s' clear assms(2) by (auto simp: entry_set_ttl_def ttl_spec_def ttl_inv_def run_simps simp del: fun_upd_apply)
  next
    case none
    then have "ttl_map a ent = None" using heapq.kept_index [OF kept, of ent idx] assms(2) by simp
    then have "ttl_map a = (ttl_map a)(ent := None)" by (simp add: fun_upd_idem)
    then show ?thesis using none assms by (simp add: entry_set_ttl_def ttl_spec_def)
  next
    case set
    then show ?thesis
      using heapq.put_kept [OF kept, of ent idx "now + word_of_int ttl_ms"] assms(2,3)
      by (auto simp: entry_set_ttl_def ttl_spec_def ttl_inv_def simp del: fun_upd_apply)
  qed
qed

text \<open>
  C14. Setting a TTL on any allocated entry of a consistent queue succeeds (no index
  or pointer of the heap code is out of range), keeps the heap and its
  back-pointers consistent, and changes exactly this entry's expiration: a negative
  TTL removes it, any other one sets it to the current time plus the TTL.
\<close>

theorem entry_set_ttl_correct:
  assumes "ttl_inv (a, rs)" and "rs ent \<noteq> None" and "Suc (length a) < npos"
  shows "\<exists>a' rs'. entry_set_ttl (a, rs) now ent ttl_ms = Some (a', rs') \<and> ttl_inv (a', rs') \<and>
     ttl_map a' = ttl_spec now ent ttl_ms (ttl_map a)"
  using entry_set_ttl_run [OF assms(1) _ assms(3)] assms(2) by blast

definition sample_ttl :: heap_state where
  "sample_ttl = ([\<lparr>hi_val = 5, hi_ref = 1\<rparr>, \<lparr>hi_val = 9, hi_ref = 2\<rparr>],
     [1 \<mapsto> 0, 2 \<mapsto> 1, 3 \<mapsto> npos])"

lemma sample_ttl_inv: "ttl_inv sample_ttl"
  unfolding sample_ttl_def
  by (rule ttl_invI)
    (auto simp: heap_inv_def is_heap_def refs_ok_def heap_parent_def ttl_map_def npos_def
      less_Suc_eq nth_Cons' split: if_splits)

theorem entry_set_ttl_correct_witness:
  "\<exists>a' rs'. entry_set_ttl sample_ttl 100 3 50 = Some (a', rs') \<and> ttl_inv (a', rs') \<and>
     ttl_map a' = [1 \<mapsto> 5, 2 \<mapsto> 9, 3 \<mapsto> 150]"
proof -
  let ?a = "fst sample_ttl" and ?rs = "snd sample_ttl"
  have "ttl_inv (?a, ?rs)" "?rs 3 \<noteq> None" "Suc (length ?a) < npos"
    using sample_ttl_inv by (simp_all add: sample_ttl_def npos_def)
  moreover have "ttl_spec 100 3 50 (ttl_map ?a) = [1 \<mapsto> 5, 2 \<mapsto> 9, 3 \<mapsto> 150]"
    by (auto simp: sample_ttl_def ttl_spec_def ttl_map_def fun_eq_iff)
  ultimately show ?thesis
    using entry_set_ttl_correct [of ?a ?rs 3 100 50] by simp
qed

end
