(* ===== verification/Db.thy ===== *)
theory Db
  imports ZSet Ttl "HOL-Library.Signed_Division"
begin

text \<open>
  The keyspace: \<open>src/server/db.cc\<close> and the data of \<open>include/byoredis/server/db.hh\<close>. The
  global variable \<open>g_data\<close> and the objects it reaches are the state \<open>GlobalData\<close>. The three
  intrusive parts of an \<open>Entry\<close> (the hash node, \<open>heap_idx\<close> and the data) live at one address in
  three stores. The queue of the thread pool, whose only task is \<open>entry_del_func\<close>, is the
  list \<open>gd_jobs\<close> of the entries in it; \<open>gd_busy\<close> holds the entries that a worker has taken
  and not yet destroyed. The locking around the queue is in \<open>ThreadPool\<close>. Every reading of the
  monotonic clock takes the next answer of \<open>clock_gettime\<close> from \<open>gd_clock\<close>, which is arbitrary. The
  connections and the idle list are in \<open>Server\<close>.
\<close>

text \<open>What \<open>clock_gettime\<close> fills in: two signed 64-bit numbers.\<close>

record timespec =
  tv_sec :: int
  tv_nsec :: int

datatype entry_type = T_INIT | T_STR | T_ZSET

record Entry =
  en_key :: bytes
  en_type :: entry_type
  en_str :: bytes
  en_zset :: ZSet

record GlobalData =
  gd_db :: HMap
  gd_node :: hn_mem
  gd_entry :: "addr \<rightharpoonup> Entry"
  gd_heap :: "HeapItem list"
  gd_hidx :: "addr \<rightharpoonup> nat"
  gd_zmem :: zmem
  gd_jobs :: "addr list"
  gd_busy :: "addr list"
  gd_next :: addr
  gd_clock :: "nat \<Rightarrow> timespec"
  gd_tick :: nat

definition k_large_container_size :: u64 where
  "k_large_container_size = 10"

text \<open>
  The seconds are cast to \<open>uint64_t\<close> and multiplied there; the two divisions of the nanoseconds are signed
  and round towards 0, and their result is converted for the sum.
\<close>

definition msec_of :: "timespec \<Rightarrow> u64" where
  "msec_of tv = word_of_int (tv_sec tv) * 1000 + word_of_int ((tv_nsec tv sdiv 1000) sdiv 1000)"

definition get_monotonic_msec :: "GlobalData \<Rightarrow> u64 \<times> GlobalData" where
  "get_monotonic_msec g =
     (let tv = gd_clock g (gd_tick g) in (msec_of tv, g\<lparr>gd_tick := gd_tick g + 1\<rparr>))"

text \<open>For times the clock can show the result is their number of whole milliseconds.\<close>

definition time_ok :: "timespec \<Rightarrow> bool" where
  "time_ok tv \<longleftrightarrow> 0 \<le> tv_sec tv \<and> tv_sec tv < 2 ^ 53 \<and> 0 \<le> tv_nsec tv \<and> tv_nsec tv < 10 ^ 9"

definition nsec_of :: "timespec \<Rightarrow> int" where
  "nsec_of tv = tv_sec tv * 10 ^ 9 + tv_nsec tv"

lemma sdiv_nonneg: "0 \<le> a \<Longrightarrow> a sdiv 1000 = a div (1000 :: int)"
  by (cases "a = 0") (simp_all add: signed_divide_int_def)

lemma msec_of_run:
  assumes "time_ok tv"
  shows "uint (msec_of tv) = nsec_of tv div 10 ^ 6"
proof -
  let ?s = "tv_sec tv" and ?n = "tv_nsec tv"
  have t: "0 \<le> ?s" "?s < 9007199254740992" "0 \<le> ?n" "?n < 1000000000" using assms by (simp_all add: time_ok_def)
  have d: "(?n sdiv 1000) sdiv 1000 = ?n div 1000000"
    using t(3) by (simp add: sdiv_nonneg pos_imp_zdiv_nonneg_iff flip: zdiv_zmult2_eq)
  have m: "0 \<le> ?n div 1000000" "?n div 1000000 < 1000" using t(3,4) by auto
  have eq: "msec_of tv = word_of_int (?s * 1000 + ?n div 1000000)" by (simp add: msec_of_def d)
  have "0 \<le> ?s * 1000 + ?n div 1000000" "?s * 1000 + ?n div 1000000 < 2 ^ LENGTH(64)" using t(1,2) m by simp_all
  then have "uint (msec_of tv) = ?s * 1000 + ?n div 1000000"
    unfolding eq uint_word_of_int_eq by (rule take_bit_int_eq_self)
  also have "\<dots> = nsec_of tv div 10 ^ 6" by (simp add: nsec_of_def)
  finally show ?thesis .
qed

lemma msec_of_mono: "time_ok tv \<Longrightarrow> time_ok tv' \<Longrightarrow> nsec_of tv \<le> nsec_of tv' \<Longrightarrow> msec_of tv \<le> msec_of tv'"
  by (simp add: word_le_def msec_of_run zdiv_mono1)

text \<open>A clock that stands at 0, for examples.\<close>

definition time_0 :: timespec where
  "time_0 = \<lparr>tv_sec = 0, tv_nsec = 0\<rparr>"

lemma msec_of_0 [simp]: "msec_of time_0 = 0"
  by (simp add: msec_of_def time_0_def signed_divide_int_def)

definition entry_new :: "GlobalData \<Rightarrow> entry_type \<Rightarrow> addr \<times> GlobalData" where
  "entry_new g type =
     (let ent = gd_next g in
      (ent, g\<lparr>gd_entry := (gd_entry g)(ent \<mapsto> \<lparr>en_key = [], en_type = type, en_str = [], en_zset = zset_zero\<rparr>),
              gd_node := (gd_node g)(ent \<mapsto> \<lparr>hn_next = None, hn_hcode = 0\<rparr>),
              gd_hidx := (gd_hidx g)(ent \<mapsto> npos),
              gd_next := ent + 1\<rparr>))"

text \<open>The TTL of an entry, with the clock read only where the code reads it.\<close>

definition db_set_ttl :: "GlobalData \<Rightarrow> addr \<Rightarrow> int \<Rightarrow> GlobalData option" where
  "db_set_ttl g ent ttl_ms = do {
     let (now, g1) = (if 0 \<le> ttl_ms then get_monotonic_msec g else (0, g));
     (heap, hidx) \<leftarrow> entry_set_ttl (gd_heap g1, gd_hidx g1) now ent ttl_ms;
     Some (g1\<lparr>gd_heap := heap, gd_hidx := hidx\<rparr>)
   }"

definition entry_del_sync :: "GlobalData \<Rightarrow> addr \<Rightarrow> GlobalData option" where
  "entry_del_sync g ent = do {
     e \<leftarrow> gd_entry g ent;
     zm \<leftarrow> (if en_type e = T_ZSET then do { (zm, _) \<leftarrow> zset_clear (gd_zmem g) (en_zset e); Some zm }
            else Some (gd_zmem g));
     Some (g\<lparr>gd_zmem := zm, gd_entry := (gd_entry g)(ent := None), gd_node := (gd_node g)(ent := None),
             gd_hidx := (gd_hidx g)(ent := None)\<rparr>)
   }"

text \<open>The thread pool: a job is queued, taken by a worker and run.\<close>

definition thread_pool_queue :: "GlobalData \<Rightarrow> addr \<Rightarrow> GlobalData" where
  "thread_pool_queue g ent = g\<lparr>gd_jobs := gd_jobs g @ [ent]\<rparr>"

definition worker_take :: "GlobalData \<Rightarrow> (addr \<times> GlobalData) option" where
  "worker_take g = (case gd_jobs g of
     [] \<Rightarrow> None
   | ent # js \<Rightarrow> Some (ent, g\<lparr>gd_jobs := js, gd_busy := gd_busy g @ [ent]\<rparr>))"

definition worker_run :: "GlobalData \<Rightarrow> addr \<Rightarrow> GlobalData option" where
  "worker_run g ent = do { g1 \<leftarrow> entry_del_sync g ent; Some (g1\<lparr>gd_busy := remove1 ent (gd_busy g1)\<rparr>) }"

definition entry_del :: "GlobalData \<Rightarrow> addr \<Rightarrow> GlobalData option" where
  "entry_del g ent = do {
     g1 \<leftarrow> db_set_ttl g ent (- 1);
     e \<leftarrow> gd_entry g1 ent;
     let set_size = (if en_type e = T_ZSET then hm_size (zs_hmap (en_zset e)) else 0);
     (if k_large_container_size < set_size then Some (thread_pool_queue g1 ent)
      else entry_del_sync g1 ent)
   }"

text \<open>The callbacks of the top-level hash table.\<close>

definition entry_eq :: "(addr \<rightharpoonup> Entry) \<Rightarrow> bytes \<Rightarrow> addr \<Rightarrow> addr \<Rightarrow> bool" where
  "entry_eq ents key lhs rhs = (case ents lhs of None \<Rightarrow> False | Some e \<Rightarrow> en_key e = key)"

definition hnode_same :: "addr \<Rightarrow> addr \<Rightarrow> bool" where
  "hnode_same node key \<longleftrightarrow> node = key"

text \<open>
  The hash of a key and the comparison of names, which \<open>db.cc\<close> has in copies of its own. The server hashes
  its keys with this copy; the sorted sets use theirs.
\<close>

fun hash_loop :: "u32 \<Rightarrow> bytes \<Rightarrow> u32" where
  "hash_loop h [] = h"
| "hash_loop h (d # data) = hash_loop ((h + ucast d) * 0x1000193) data"

definition db_str_hash :: "bytes \<Rightarrow> u64" where
  "db_str_hash data = ucast (hash_loop 0x811C9DC5 data)"

definition db_hcmp :: "(addr \<rightharpoonup> ZNode) \<Rightarrow> bytes \<Rightarrow> addr \<Rightarrow> addr \<Rightarrow> bool" where
  "db_hcmp nodes name node key = (case nodes node of
     None \<Rightarrow> False
   | Some znode \<Rightarrow> zn_len znode = length name \<and> memcmp (zn_name znode) name (zn_len znode) = Some 0)"

lemma hash_loop_fold: "hash_loop h data = fold (\<lambda>d h. (h + ucast d) * 0x1000193) data h"
  by (induction data arbitrary: h) simp_all

text \<open>The copies agree.\<close>

lemma db_str_hash_copy [simp]: "db_str_hash = str_hash"
  by (rule ext) (simp add: db_str_hash_def str_hash_def hash_loop_fold)

lemma db_hcmp_copy: "db_hcmp = hcmp"
  by (intro ext) (auto simp: db_hcmp_def hcmp_def split: option.split)

text \<open>What every command starts with: a \<open>LookupKey\<close> on the stack and a search.\<close>

definition db_lookup :: "GlobalData \<Rightarrow> bytes \<Rightarrow> (ptr \<times> GlobalData) option" where
  "db_lookup g key = do {
     (p, m, h) \<leftarrow> hm_lookup (push_key (gd_node g) (db_str_hash key)) (gd_db g) stack_key (entry_eq (gd_entry g) key);
     Some (p, g\<lparr>gd_node := pop_key m, gd_db := h\<rparr>)
   }"

definition db_delete :: "GlobalData \<Rightarrow> bytes \<Rightarrow> (ptr \<times> GlobalData) option" where
  "db_delete g key = do {
     (p, m, h) \<leftarrow> hm_delete (push_key (gd_node g) (db_str_hash key)) (gd_db g) stack_key (entry_eq (gd_entry g) key);
     Some (p, g\<lparr>gd_node := pop_key m, gd_db := h\<rparr>)
   }"

text \<open>A new entry under a key that was not found, with its value set before it is linked.\<close>

definition db_insert :: "GlobalData \<Rightarrow> entry_type \<Rightarrow> bytes \<Rightarrow> bytes \<Rightarrow> (addr \<times> GlobalData) option" where
  "db_insert g type key str = do {
     let (ent, g1) = entry_new g type;
     ents \<leftarrow> modify_at (gd_entry g1) ent (\<lambda>e. e\<lparr>en_key := key, en_str := str\<rparr>);
     node \<leftarrow> modify_at (gd_node g1) ent (\<lambda>n. n\<lparr>hn_hcode := db_str_hash key\<rparr>);
     (m, h) \<leftarrow> hm_insert node (gd_db g1) ent;
     Some (ent, g1\<lparr>gd_entry := ents, gd_node := m, gd_db := h\<rparr>)
   }"

end
