(* ===== verification/Numbers.thy ===== *)
theory Numbers
  imports ZSet
begin

text \<open>
  Number arguments: \<open>str2int\<close> and \<open>str2dbl\<close> of \<open>src/server/commands.cc\<close> and what they use of
  the C library, \<open>strtoll\<close> in base 10 and \<open>strtod\<close>, in the C locale and with rounding to
  nearest even. Both library functions return the value and the number of bytes consumed
  (\<open>endp - nptr\<close>), which is 0 when there is nothing to convert. A string ends at its first
  zero byte, as \<open>c_str()\<close> makes the library see it.
\<close>

subsection \<open>Characters\<close>

definition c_isspace :: "u8 \<Rightarrow> bool" where
  "c_isspace c \<longleftrightarrow> c = 32 \<or> (9 \<le> c \<and> c \<le> 13)"

definition c_isdigit :: "u8 \<Rightarrow> bool" where
  "c_isdigit c \<longleftrightarrow> 48 \<le> c \<and> c \<le> 57"

definition c_tolower :: "u8 \<Rightarrow> u8" where
  "c_tolower c = (if 65 \<le> c \<and> c \<le> 90 then c + 32 else c)"

definition c_isxdigit :: "u8 \<Rightarrow> bool" where
  "c_isxdigit c \<longleftrightarrow> c_isdigit c \<or> (97 \<le> c_tolower c \<and> c_tolower c \<le> 102)"

definition digit_val :: "u8 \<Rightarrow> nat" where
  "digit_val c = (if c_isdigit c then unat c - 48 else unat (c_tolower c) - 87)"

definition digits_val :: "nat \<Rightarrow> bytes \<Rightarrow> nat" where
  "digits_val base ds = fold (\<lambda>c n. n * base + digit_val c) ds 0"

text \<open>An optional sign: whether it is a minus, its length, the rest.\<close>

definition c_sign :: "bytes \<Rightarrow> bool \<times> nat \<times> bytes" where
  "c_sign s = (case s of
     [] \<Rightarrow> (False, 0, [])
   | c # r \<Rightarrow> if c = 45 then (True, 1, r) else if c = 43 then (False, 1, r) else (False, 0, s))"


subsection \<open>Integers\<close>

definition strtoll :: "bytes \<Rightarrow> int \<times> nat" where
  "strtoll s =
     (let ws = takeWhile c_isspace s;
          (neg, k, r) = c_sign (drop (length ws) s);
          ds = takeWhile c_isdigit r;
          v = (if neg then - int (digits_val 10 ds) else int (digits_val 10 ds))
      in if ds = [] then (0, 0)
         else (max (- (2 ^ 63)) (min (2 ^ 63 - 1) v), length ws + k + length ds))"

definition c_string :: "bytes \<Rightarrow> bytes" where
  "c_string s = takeWhile (\<lambda>c. c \<noteq> 0) s"

text \<open>\<open>None\<close> is the result false; the value written to \<open>out\<close> is then not used.\<close>

definition str2int :: "bytes \<Rightarrow> int option" where
  "str2int s = (let (v, n) = strtoll (c_string s) in if n = length s then Some v else None)"


subsection \<open>Rounding to a double\<close>

fun bitlen :: "nat \<Rightarrow> nat" where
  "bitlen n = (if n = 0 then 0 else Suc (bitlen (n div 2)))"

declare bitlen.simps [simp del]

definition round_half_even :: "nat \<Rightarrow> nat \<Rightarrow> nat" where
  "round_half_even a b =
     (let q = a div b; r = a mod b in if 2 * r < b \<or> (2 * r = b \<and> even q) then q else q + 1)"

text \<open>The fraction \<open>a / b * 2 ^ e\<close> as a pair.\<close>

definition scale2 :: "nat \<Rightarrow> nat \<Rightarrow> int \<Rightarrow> nat \<times> nat" where
  "scale2 a b e = (if 0 \<le> e then (a * 2 ^ nat e, b) else (a, b * 2 ^ nat (- e)))"

definition dbl_inf :: nat where
  "dbl_inf = 0x7FF0000000000000"

text \<open>
  The bits of the double nearest to \<open>a / b\<close>: the exponent is the least one, not below that of
  the subnormal numbers, for which the mantissa has 53 bits.
\<close>

definition round_dbl :: "nat \<Rightarrow> nat \<Rightarrow> nat" where
  "round_dbl a b =
     (if a = 0 then 0
      else let e0 = int (bitlen a) - int (bitlen b);
               (x, y) = scale2 a b (- e0);
               t = (if x < y then e0 else e0 + 1);
               e = max (t - 53) (- 1074);
               (x, y) = scale2 a b (- e)
           in min dbl_inf (round_half_even x y + nat (e + 1074) * 2 ^ 52))"

definition dbl_of :: "bool \<Rightarrow> nat \<Rightarrow> u64" where
  "dbl_of neg n = (if neg then w64 n OR 0x8000000000000000 else w64 n)"


subsection \<open>Floating-point numbers\<close>

text \<open>
  A mantissa: its digits before and after an optional point, and its length. It needs at
  least one digit.
\<close>

definition c_mantissa :: "(u8 \<Rightarrow> bool) \<Rightarrow> bytes \<Rightarrow> (bytes \<times> bytes \<times> nat) option" where
  "c_mantissa isd s =
     (let i = takeWhile isd s; r = drop (length i) s;
          (f, k) = (case r of c # r' \<Rightarrow> if c = 46 then (takeWhile isd r', Suc (length (takeWhile isd r'))) else ([], 0)
                    | [] \<Rightarrow> ([], 0))
      in if i = [] \<and> f = [] then None else Some (i, f, length i + k))"

text \<open>An optional exponent introduced by \<open>mark\<close>: its value and its length.\<close>

definition c_exponent :: "u8 \<Rightarrow> bytes \<Rightarrow> int \<times> nat" where
  "c_exponent mark s = (case s of
     [] \<Rightarrow> (0, 0)
   | c # r \<Rightarrow>
       if c_tolower c = mark then
         (let (neg, k, r1) = c_sign r; ds = takeWhile c_isdigit r1; v = int (digits_val 10 ds)
          in if ds = [] then (0, 0) else (if neg then - v else v, 1 + k + length ds))
       else (0, 0))"

definition c_dec :: "bool \<Rightarrow> bytes \<Rightarrow> (u64 \<times> nat) option" where
  "c_dec neg s = (case c_mantissa c_isdigit s of
     None \<Rightarrow> None
   | Some (i, f, n) \<Rightarrow>
       (let (e, k) = c_exponent 101 (drop n s); x = e - int (length f); d = digits_val 10 (i @ f)
        in Some (dbl_of neg (if 0 \<le> x then round_dbl (d * 10 ^ nat x) 1 else round_dbl d (10 ^ nat (- x))), n + k)))"

definition c_hex :: "bool \<Rightarrow> bytes \<Rightarrow> (u64 \<times> nat) option" where
  "c_hex neg s =
     (if map c_tolower (take 2 s) \<noteq> [48, 120] then None
      else case c_mantissa c_isxdigit (drop 2 s) of
        None \<Rightarrow> None
      | Some (i, f, n) \<Rightarrow>
          (let (e, k) = c_exponent 112 (drop (2 + n) s);
               (x, y) = scale2 (digits_val 16 (i @ f)) 1 (e - 4 * int (length f))
           in Some (dbl_of neg (round_dbl x y), 2 + n + k)))"

definition c_word :: "string \<Rightarrow> bytes \<Rightarrow> bool" where
  "c_word w s \<longleftrightarrow> map c_tolower (take (length w) s) = map of_char w"

text \<open>The optional payload of a NaN, in parentheses.\<close>

definition nan_payload :: "bytes \<Rightarrow> nat" where
  "nan_payload s = (case s of
     [] \<Rightarrow> 0
   | c # r \<Rightarrow>
       (let p = takeWhile (\<lambda>c. c_isdigit c \<or> (97 \<le> c_tolower c \<and> c_tolower c \<le> 122) \<or> c = 95) r
        in if c = 40 \<and> take 1 (drop (length p) r) = [41] then length p + 2 else 0))"

definition strtod :: "bytes \<Rightarrow> u64 \<times> nat" where
  "strtod s =
     (let ws = takeWhile c_isspace s;
          (neg, k, r) = c_sign (drop (length ws) s);
          num = (if c_word ''infinity'' r then Some (dbl_of neg dbl_inf, 8)
                 else if c_word ''inf'' r then Some (dbl_of neg dbl_inf, 3)
                 else if c_word ''nan'' r then Some (dbl_of neg 0x7FF8000000000000, 3 + nan_payload (drop 3 r))
                 else case c_hex neg r of Some x \<Rightarrow> Some x | None \<Rightarrow> c_dec neg r)
      in case num of None \<Rightarrow> (0, 0) | Some (v, n) \<Rightarrow> (v, length ws + k + n))"

definition str2dbl :: "bytes \<Rightarrow> u64 option" where
  "str2dbl s = (let (v, n) = strtod (c_string s) in if n = length s \<and> \<not> dbl_isnan v then Some v else None)"

lemma str2dbl_not_nan: "str2dbl s = Some v \<Longrightarrow> \<not> dbl_isnan v"
  by (auto simp: str2dbl_def Let_def split: prod.splits if_splits)

lemma str2int_range:
  assumes "str2int s = Some v"
  shows "- (2 ^ 63) \<le> v" "v < 2 ^ 63"
proof -
  have "fst (strtoll x) \<in> {- (2 ^ 63)..2 ^ 63 - 1}" for x
    by (auto simp: strtoll_def Let_def split: prod.splits)
  then have "v \<in> {- (2 ^ 63)..2 ^ 63 - 1}"
    using assms by (auto simp: str2int_def split: prod.splits if_splits) (metis fst_conv)+
  then show "- (2 ^ 63) \<le> v" "v < 2 ^ 63" by auto
qed

end
