(* ===== verification/Buffer.thy ===== *)
theory Buffer
  imports Interfaces
begin

text \<open>
  The network buffer of \<open>include/byoredis/proto/buffer.hh\<close> and \<open>src/proto/buffer.cc\<close>: a
  vector of bytes with a readable window, and a stack of positions that are filled
  in later. \<open>size_t\<close> positions are naturals (the vectors are far smaller than \<open>2 ^ 63\<close>
  bytes); \<open>None\<close> is a copy outside the vector or the failed assertion of an empty
  stack. An empty copy to the very end of the vector accesses nothing and is no failure of the model, though
  \<open>&buf[buf.size()]\<close>, which \<open>append\<close> evaluates for it, is outside the contract of \<open>operator[]\<close>:
  \<open>append_index\<close> says when that happens. The back of \<open>placeholder_stack\<close> is the last element of the list.
\<close>

record Buffer =
  bf_buf :: bytes
  bf_readable_begin :: nat
  bf_writable_begin :: nat
  bf_placeholder_stack :: "nat list"


subsection \<open>The code\<close>

definition buffer_new :: "nat \<Rightarrow> Buffer" where
  "buffer_new init_cap = \<lparr>bf_buf = replicate init_cap 0, bf_readable_begin = 0, bf_writable_begin = 0,
     bf_placeholder_stack = []\<rparr>"

definition capacity :: "Buffer \<Rightarrow> nat" where
  "capacity b = length (bf_buf b)"

definition readable_size :: "Buffer \<Rightarrow> nat" where
  "readable_size b = bf_writable_begin b - bf_readable_begin b"

definition writable_size :: "Buffer \<Rightarrow> nat" where
  "writable_size b = capacity b - bf_writable_begin b"

text \<open>The bytes a reader gets from \<open>readable_data()\<close>, and reading some from there.\<close>

definition get_bytes :: "bytes \<Rightarrow> nat \<Rightarrow> nat \<Rightarrow> bytes option" where
  "get_bytes xs pos n = (if pos + n \<le> length xs then Some (take n (drop pos xs)) else None)"

definition shift_placeholders :: "nat \<Rightarrow> nat list \<Rightarrow> nat list" where
  "shift_placeholders shift = map (\<lambda>pos. if shift \<le> pos then pos - shift else pos)"

definition ensure_writable :: "Buffer \<Rightarrow> nat \<Rightarrow> Buffer option" where
  "ensure_writable b ensure_size =
     (if ensure_size \<le> writable_size b then Some b
      else
        let unread_len = readable_size b;
            shift = bf_readable_begin b
        in
        if ensure_size \<le> bf_readable_begin b + writable_size b then do {
          data \<leftarrow> get_bytes (bf_buf b) (bf_readable_begin b) unread_len;
          buf1 \<leftarrow> put_bytes (bf_buf b) 0 data;
          Some \<lparr>bf_buf = buf1, bf_readable_begin = 0, bf_writable_begin = unread_len,
                bf_placeholder_stack = shift_placeholders shift (bf_placeholder_stack b)\<rparr>
        } else do {
          let new_cap = max (capacity b * 2) (unread_len + ensure_size);
          data \<leftarrow> get_bytes (bf_buf b) (bf_readable_begin b) unread_len;
          buf1 \<leftarrow> put_bytes (replicate new_cap 0) 0 data;
          Some \<lparr>bf_buf = buf1, bf_readable_begin = 0, bf_writable_begin = unread_len,
                bf_placeholder_stack = shift_placeholders shift (bf_placeholder_stack b)\<rparr>
        })"

definition buf_append :: "Buffer \<Rightarrow> bytes \<Rightarrow> Buffer option" where
  "buf_append b data = do {
     b1 \<leftarrow> ensure_writable b (length data);
     buf1 \<leftarrow> put_bytes (bf_buf b1) (bf_writable_begin b1) data;
     Some (b1\<lparr>bf_buf := buf1, bf_writable_begin := bf_writable_begin b1 + length data\<rparr>)
   }"

definition consume :: "Buffer \<Rightarrow> nat \<Rightarrow> Buffer" where
  "consume b n0 =
     (let n = min n0 (readable_size b);
          b1 = b\<lparr>bf_readable_begin := bf_readable_begin b + n\<rparr>
      in if bf_writable_begin b1 \<le> bf_readable_begin b1
         then b1\<lparr>bf_readable_begin := 0, bf_writable_begin := 0\<rparr> else b1)"

definition shrink_if_wasteful :: "Buffer \<Rightarrow> nat \<Rightarrow> Buffer option" where
  "shrink_if_wasteful b hard_min =
     (let unread_len = readable_size b in
      if max hard_min (unread_len * 4) < capacity b then do {
        let new_cap = max hard_min (unread_len * 2);
        data \<leftarrow> get_bytes (bf_buf b) (bf_readable_begin b) unread_len;
        buf1 \<leftarrow> put_bytes (replicate new_cap 0) 0 data;
        Some \<lparr>bf_buf = buf1, bf_readable_begin = 0, bf_writable_begin = unread_len,
              bf_placeholder_stack = shift_placeholders (bf_readable_begin b) (bf_placeholder_stack b)\<rparr>
      } else Some b)"

definition push_placeholder :: "Buffer \<Rightarrow> Buffer" where
  "push_placeholder b = b\<lparr>bf_placeholder_stack := bf_placeholder_stack b @ [bf_writable_begin b]\<rparr>"

definition peek_placeholder :: "Buffer \<Rightarrow> nat option" where
  "peek_placeholder b =
     (if bf_placeholder_stack b = [] then None else Some (last (bf_placeholder_stack b)))"

definition pop_placeholder :: "Buffer \<Rightarrow> (nat \<times> Buffer) option" where
  "pop_placeholder b =
     (if bf_placeholder_stack b = [] then None
      else Some (last (bf_placeholder_stack b),
        b\<lparr>bf_placeholder_stack := butlast (bf_placeholder_stack b)\<rparr>))"

text \<open>\<open>memcpy(&buf.buf[buf.pop_placeholder()], \<dots>)\<close>, and cutting back to after a placeholder.\<close>

definition fill_placeholder :: "Buffer \<Rightarrow> bytes \<Rightarrow> Buffer option" where
  "fill_placeholder b data = do {
     (pos, b1) \<leftarrow> pop_placeholder b;
     buf1 \<leftarrow> put_bytes (bf_buf b1) pos data;
     Some (b1\<lparr>bf_buf := buf1\<rparr>)
   }"

definition rewind_to_placeholder :: "Buffer \<Rightarrow> nat \<Rightarrow> Buffer option" where
  "rewind_to_placeholder b k = do { pos \<leftarrow> peek_placeholder b; Some (b\<lparr>bf_writable_begin := pos + k\<rparr>) }"


subsection \<open>Invariant and content\<close>

definition buf_ok :: "Buffer \<Rightarrow> bool" where
  "buf_ok b \<longleftrightarrow> bf_readable_begin b \<le> bf_writable_begin b \<and> bf_writable_begin b \<le> length (bf_buf b) \<and>
     sorted (bf_placeholder_stack b) \<and>
     (\<forall>p\<in>set (bf_placeholder_stack b). bf_readable_begin b \<le> p \<and> p \<le> bf_writable_begin b)"

definition content :: "Buffer \<Rightarrow> bytes" where
  "content b = take (readable_size b) (drop (bf_readable_begin b) (bf_buf b))"

definition marks :: "Buffer \<Rightarrow> nat list" where
  "marks b = map (\<lambda>p. p - bf_readable_begin b) (bf_placeholder_stack b)"

lemma length_content: "buf_ok b \<Longrightarrow> length (content b) = readable_size b"
  by (auto simp: content_def buf_ok_def readable_size_def min_def)

lemma append_index:
  assumes "buf_ok b" "ensure_writable b (length data) = Some b1"
  shows "index_ok (bf_buf b1) (bf_writable_begin b1) \<longleftrightarrow> data \<noteq> [] \<or> writable_size b \<noteq> 0"
proof (cases "length data \<le> writable_size b")
  case True
  then show ?thesis using assms by (cases data) (auto simp: ensure_writable_def index_ok_def writable_size_def capacity_def buf_ok_def)
next
  case False
  then have "bf_writable_begin b1 + length data \<le> length (bf_buf b1)"
    using assms by (auto simp: ensure_writable_def Let_def put_bytes_def get_bytes_def writable_size_def capacity_def
        readable_size_def buf_ok_def split: if_splits)
  then show ?thesis using False by (auto simp: index_ok_def)
qed

lemma get_content: "buf_ok b \<Longrightarrow> get_bytes (bf_buf b) (bf_readable_begin b) (readable_size b) = Some (content b)"
  by (simp add: get_bytes_def content_def buf_ok_def readable_size_def)

text \<open>Compaction: the unread bytes at the front of some vector, all placeholders shifted.\<close>

lemma compacted:
  assumes "buf_ok b" "readable_size b \<le> length xs"
  shows "\<exists>buf1. put_bytes xs 0 (content b) = Some buf1 \<and> length buf1 = length xs \<and>
    (let b' = \<lparr>bf_buf = buf1, bf_readable_begin = 0, bf_writable_begin = readable_size b,
          bf_placeholder_stack = shift_placeholders (bf_readable_begin b) (bf_placeholder_stack b)\<rparr>
     in buf_ok b' \<and> content b' = content b \<and> marks b' = marks b)"
proof -
  have len: "length (content b) = readable_size b" using length_content [OF assms(1)] .
  have ph: "shift_placeholders (bf_readable_begin b) (bf_placeholder_stack b) = marks b"
    using assms(1) by (auto simp: shift_placeholders_def marks_def buf_ok_def)
  have "sorted (marks b)"
    using assms(1) by (auto simp: marks_def buf_ok_def sorted_map intro: sorted_wrt_mono_rel diff_le_mono)
  moreover have "\<forall>p\<in>set (marks b). p \<le> readable_size b"
    using assms(1) by (auto simp: marks_def buf_ok_def readable_size_def)
  ultimately show ?thesis
    using len assms(2) unfolding ph
    by (simp add: put_bytes_def Let_def buf_ok_def content_def readable_size_def marks_def)
qed


lemma ensure_writable_run:
  assumes "buf_ok b"
  shows "\<exists>b'. ensure_writable b n = Some b' \<and> buf_ok b' \<and> content b' = content b \<and> marks b' = marks b \<and>
    n \<le> writable_size b'"
proof -
  note get = get_content [OF assms]
  consider (fits) "n \<le> writable_size b"
    | (move) "\<not> n \<le> writable_size b" "n \<le> bf_readable_begin b + writable_size b"
    | (grow) "\<not> n \<le> writable_size b" "\<not> n \<le> bf_readable_begin b + writable_size b" by blast
  then show ?thesis
  proof cases
    case fits
    then show ?thesis using assms by (simp add: ensure_writable_def)
  next
    case move
    have "readable_size b \<le> length (bf_buf b)" using assms by (auto simp: buf_ok_def readable_size_def)
    then obtain buf1 where c: "put_bytes (bf_buf b) 0 (content b) = Some buf1" "length buf1 = length (bf_buf b)"
      "let b' = \<lparr>bf_buf = buf1, bf_readable_begin = 0, bf_writable_begin = readable_size b,
          bf_placeholder_stack = shift_placeholders (bf_readable_begin b) (bf_placeholder_stack b)\<rparr>
       in buf_ok b' \<and> content b' = content b \<and> marks b' = marks b"
      using compacted [OF assms] by blast
    have "n \<le> length (bf_buf b) - readable_size b"
      using move(2) assms by (auto simp: buf_ok_def readable_size_def writable_size_def capacity_def)
    then show ?thesis
      using move c get by (simp add: ensure_writable_def Let_def writable_size_def capacity_def)
  next
    case grow
    let ?cap = "max (capacity b * 2) (readable_size b + n)"
    have "readable_size b \<le> length (replicate ?cap (0 :: u8))" by simp
    then obtain buf1 where c: "put_bytes (replicate ?cap 0) 0 (content b) = Some buf1" "length buf1 = ?cap"
      "let b' = \<lparr>bf_buf = buf1, bf_readable_begin = 0, bf_writable_begin = readable_size b,
          bf_placeholder_stack = shift_placeholders (bf_readable_begin b) (bf_placeholder_stack b)\<rparr>
       in buf_ok b' \<and> content b' = content b \<and> marks b' = marks b"
      using compacted [OF assms, of "replicate ?cap 0"] unfolding length_replicate by blast
    have "n \<le> ?cap - readable_size b" by simp
    then show ?thesis
      using grow c get by (simp add: ensure_writable_def Let_def writable_size_def capacity_def)
  qed
qed

lemma buf_append_run:
  assumes "buf_ok b"
  shows "\<exists>b'. buf_append b bs = Some b' \<and> buf_ok b' \<and> content b' = content b @ bs \<and> marks b' = marks b"
proof -
  obtain b1 where e: "ensure_writable b (length bs) = Some b1" "buf_ok b1" "content b1 = content b"
    "marks b1 = marks b" "length bs \<le> writable_size b1"
    using ensure_writable_run [OF assms] by blast
  let ?rb = "bf_readable_begin b1" and ?wb = "bf_writable_begin b1" and ?xs = "bf_buf b1"
  let ?ys = "take ?wb ?xs @ bs @ drop (?wb + length bs) ?xs"
  let ?b = "b1\<lparr>bf_buf := ?ys, bf_writable_begin := ?wb + length bs\<rparr>"
  have ok: "?rb \<le> ?wb" "?wb + length bs \<le> length ?xs" "?wb \<le> length ?xs"
    using e(2,5) by (auto simp: buf_ok_def writable_size_def capacity_def)
  have "buf_append b bs = Some ?b"
    using e(1) ok(2) by (simp add: buf_append_def put_bytes_def)
  moreover have "buf_ok ?b" using e(2) ok by (auto simp: buf_ok_def)
  moreover have "drop ?rb ?ys = drop ?rb (take ?wb ?xs) @ bs @ drop (?wb + length bs) ?xs" using ok by simp
  then have "content ?b = content b1 @ bs"
    using ok by (simp add: content_def readable_size_def drop_take)
  moreover have "marks ?b = marks b1" by (simp add: marks_def)
  ultimately show ?thesis using e(3,4) by auto
qed

lemma consume_run:
  assumes "buf_ok b" "bf_placeholder_stack b = []"
  shows "buf_ok (consume b n) \<and> content (consume b n) = drop n (content b) \<and> marks (consume b n) = []"
  using assms by (auto simp: consume_def buf_ok_def content_def readable_size_def marks_def Let_def min_def
      drop_take add.commute)

lemma shrink_run:
  assumes "buf_ok b"
  shows "\<exists>b'. shrink_if_wasteful b k = Some b' \<and> buf_ok b' \<and> content b' = content b \<and> marks b' = marks b"
proof (cases "max k (readable_size b * 4) < capacity b")
  case True
  let ?cap = "max k (readable_size b * 2)"
  have "readable_size b \<le> length (replicate ?cap (0 :: u8))" by simp
  then obtain buf1 where "put_bytes (replicate ?cap 0) 0 (content b) = Some buf1"
    "let b' = \<lparr>bf_buf = buf1, bf_readable_begin = 0, bf_writable_begin = readable_size b,
        bf_placeholder_stack = shift_placeholders (bf_readable_begin b) (bf_placeholder_stack b)\<rparr>
     in buf_ok b' \<and> content b' = content b \<and> marks b' = marks b"
    using compacted [OF assms, of "replicate ?cap 0"] unfolding length_replicate by blast
  then show ?thesis
    using True get_content [OF assms] by (simp add: shrink_if_wasteful_def Let_def)
next
  case False
  then have "shrink_if_wasteful b k = Some b" unfolding shrink_if_wasteful_def Let_def by (rule if_not_P)
  then show ?thesis using assms by simp
qed



subsection \<open>The buffer as a sink with deferred fields\<close>

lemma push_placeholder_run:
  assumes "buf_ok b"
  shows "buf_ok (push_placeholder b) \<and> content (push_placeholder b) = content b \<and>
    marks (push_placeholder b) = marks b @ [length (content b)]"
proof -
  have "marks (push_placeholder b) = marks b @ [length (content b)]"
    using length_content [OF assms] by (simp add: push_placeholder_def marks_def readable_size_def)
  then show ?thesis
    using assms by (auto simp: push_placeholder_def buf_ok_def content_def readable_size_def sorted_append)
qed

text \<open>The innermost mark as a position of the vector.\<close>

lemma top_mark:
  assumes "buf_ok b" "marks b = ms @ [p]"
  shows "\<exists>ph. bf_placeholder_stack b = ph @ [bf_readable_begin b + p] \<and>
    ms = map (\<lambda>q. q - bf_readable_begin b) ph"
proof -
  have "bf_placeholder_stack b \<noteq> []" using assms(2) by (auto simp: marks_def)
  then obtain ph q where st: "bf_placeholder_stack b = ph @ [q]" by (metis rev_exhaust)
  then have "bf_readable_begin b \<le> q" "p = q - bf_readable_begin b"
    using assms by (auto simp: buf_ok_def marks_def)
  then show ?thesis using st assms(2) by (auto simp: marks_def)
qed

lemma fill_placeholder_run:
  assumes "buf_ok b" "marks b = ms @ [p]" "put_bytes (content b) p bs = Some c"
  shows "\<exists>b'. fill_placeholder b bs = Some b' \<and> buf_ok b' \<and> content b' = c \<and> marks b' = ms"
proof -
  obtain ph where st: "bf_placeholder_stack b = ph @ [bf_readable_begin b + p]"
    "ms = map (\<lambda>q. q - bf_readable_begin b) ph" using top_mark [OF assms(1,2)] by blast
  let ?rb = "bf_readable_begin b" and ?wb = "bf_writable_begin b" and ?xs = "bf_buf b"
  have len: "p + length bs \<le> readable_size b" and c: "c = take p (content b) @ bs @ drop (p + length bs) (content b)"
    using assms(3) length_content [OF assms(1)] by (auto simp: put_bytes_def split: if_splits)
  have ok: "?rb \<le> ?wb" "?wb \<le> length ?xs" "?rb + p + length bs \<le> ?wb"
    using assms(1) len by (auto simp: buf_ok_def readable_size_def)
  let ?ys = "take (?rb + p) ?xs @ bs @ drop (?rb + p + length bs) ?xs"
  let ?b = "b\<lparr>bf_buf := ?ys, bf_placeholder_stack := ph\<rparr>"
  have "fill_placeholder b bs = Some ?b"
    using ok st by (simp add: fill_placeholder_def pop_placeholder_def put_bytes_def)
  moreover have "buf_ok ?b" using assms(1) ok st by (auto simp: buf_ok_def sorted_append)
  moreover have "content ?b = c"
  proof -
    let ?zs = "drop ?rb ?xs" and ?n = "?wb - ?rb"
    have p: "p + length bs \<le> ?n" "?n \<le> length ?zs" using ok by auto
    have "drop ?rb ?ys = take p ?zs @ bs @ drop (p + length bs) ?zs"
      using ok by (simp add: drop_take add.commute add.left_commute)
    then have "content ?b = take ?n (take p ?zs @ bs @ drop (p + length bs) ?zs)"
      by (simp add: content_def readable_size_def)
    also have "\<dots> = take p ?zs @ bs @ take (?n - (p + length bs)) (drop (p + length bs) ?zs)"
    proof -
      obtain P where P: "take p ?zs = P" "length P = p" using p by simp
      then show ?thesis using p(1) unfolding P(1) by (simp add: add.assoc)
    qed
    also have "\<dots> = c"
      using p(1) unfolding c content_def readable_size_def by (simp add: drop_take min_def)
    finally show ?thesis .
  qed
  moreover have "marks ?b = ms" using st(2) by (simp add: marks_def)
  ultimately show ?thesis by blast
qed

lemma rewind_run:
  assumes "buf_ok b" "marks b = ms @ [p]" "p + k \<le> length (content b)"
  shows "\<exists>b'. rewind_to_placeholder b k = Some b' \<and> buf_ok b' \<and> content b' = take (p + k) (content b) \<and>
    marks b' = marks b"
proof -
  obtain ph where st: "bf_placeholder_stack b = ph @ [bf_readable_begin b + p]"
    using top_mark [OF assms(1,2)] by blast
  let ?b = "b\<lparr>bf_writable_begin := bf_readable_begin b + p + k\<rparr>"
  have "bf_readable_begin b + p + k \<le> bf_writable_begin b"
    using assms(1,3) length_content [OF assms(1)] by (auto simp: buf_ok_def readable_size_def)
  then have "buf_ok ?b" "content ?b = take (p + k) (content b)"
    using assms(1) st by (fastforce simp: buf_ok_def content_def readable_size_def sorted_append)+
  moreover have "rewind_to_placeholder b k = Some ?b"
    using st by (simp add: rewind_to_placeholder_def peek_placeholder_def)
  moreover have "marks ?b = marks b" by (simp add: marks_def)
  ultimately show ?thesis by blast
qed

interpretation sink: byte_sink buf_ok content marks buf_append push_placeholder
  fill_placeholder rewind_to_placeholder
  by unfold_locales (use buf_append_run push_placeholder_run fill_placeholder_run rewind_run in blast)+

end
