(* ===== verification/Tlv.thy ===== *)
theory Tlv
  imports Buffer
begin

text \<open>
  The tag-length-value serialization of \<open>include/byoredis/proto/tlv.hh\<close> and
  \<open>src/proto/tlv.cc\<close>. A cursor \<open>(cur, end)\<close> is the list of bytes from \<open>cur\<close> to \<open>end\<close>; a
  reader returns \<open>None\<close> where the code returns false, else the value and the moved
  cursor. The code compares \<open>cur + n\<close> with \<open>end\<close>, which computes an address that may lie behind the
  object; on 64-bit addresses that do not wrap the comparison is that of \<open>n\<close> with the bytes left, as
  \<open>cursor_test\<close> shows, and the model makes the latter. An \<open>int64_t\<close> or \<open>double\<close> is its 64 bits. The specification is \<open>tlv_bytes\<close>, the
  encoding of a value as a tree.
\<close>

datatype TAG = TAG_NIL | TAG_ERR | TAG_STR | TAG_INT | TAG_DBL | TAG_ARR

fun tag_byte :: "TAG \<Rightarrow> u8" where
  "tag_byte TAG_NIL = 0"
| "tag_byte TAG_ERR = 1"
| "tag_byte TAG_STR = 2"
| "tag_byte TAG_INT = 3"
| "tag_byte TAG_DBL = 4"
| "tag_byte TAG_ARR = 5"

datatype TAG_ERR_CODE = ERR_UNKNOWN | ERR_TOO_BIG | ERR_BAD_ARG | ERR_BAD_TYP

fun err_code :: "TAG_ERR_CODE \<Rightarrow> u32" where
  "err_code ERR_UNKNOWN = 1"
| "err_code ERR_TOO_BIG = 2"
| "err_code ERR_BAD_ARG = 3"
| "err_code ERR_BAD_TYP = 4"

definition k_max_msg :: nat where
  "k_max_msg = 32 * 2 ^ 20"

definition k_max_args :: nat where
  "k_max_args = 200 * 1000"


subsection \<open>Readers\<close>

lemma cursor_test:
  fixes cur :: u64
  assumes "unat cur + length bs < 2 ^ 64" "unat cur + n < 2 ^ 64"
  shows "cur + w64 (length bs) < cur + w64 n \<longleftrightarrow> length bs < n"
proof -
  have "unat (cur + w64 k) = unat cur + k" if "unat cur + k < 2 ^ 64" for k
  proof -
    have "unat (w64 k) = k" using that by simp
    then show ?thesis using that by (simp add: unat_word_ariths(1))
  qed
  then show ?thesis using assms by (simp add: word_less_nat_alt)
qed

definition read_u32 :: "bytes \<Rightarrow> (u32 \<times> bytes) option" where
  "read_u32 cur = (if length cur < 4 then None else Some (of_le (take 4 cur), drop 4 cur))"

definition read_str :: "bytes \<Rightarrow> nat \<Rightarrow> (bytes \<times> bytes) option" where
  "read_str cur n = (if length cur < n then None else Some (take n cur, drop n cur))"


subsection \<open>Writers\<close>

definition buf_append_u8 :: "Buffer \<Rightarrow> u8 \<Rightarrow> Buffer option" where
  "buf_append_u8 b data = buf_append b [data]"

definition buf_append_u32 :: "Buffer \<Rightarrow> u32 \<Rightarrow> Buffer option" where
  "buf_append_u32 b data = buf_append b (le32 data)"

definition buf_append_i64 :: "Buffer \<Rightarrow> u64 \<Rightarrow> Buffer option" where
  "buf_append_i64 b data = buf_append b (le64 data)"

definition buf_append_dbl :: "Buffer \<Rightarrow> u64 \<Rightarrow> Buffer option" where
  "buf_append_dbl b data = buf_append b (le64 data)"

definition buf_append_str :: "Buffer \<Rightarrow> bytes \<Rightarrow> Buffer option" where
  "buf_append_str b data = buf_append b data"

definition out_nil :: "Buffer \<Rightarrow> Buffer option" where
  "out_nil b = buf_append_u8 b (tag_byte TAG_NIL)"

definition out_str :: "Buffer \<Rightarrow> bytes \<Rightarrow> Buffer option" where
  "out_str b s = do {
     b1 \<leftarrow> buf_append_u8 b (tag_byte TAG_STR);
     b2 \<leftarrow> buf_append_u32 b1 (w32 (length s));
     buf_append_str b2 s
   }"

definition out_int :: "Buffer \<Rightarrow> u64 \<Rightarrow> Buffer option" where
  "out_int b val = do { b1 \<leftarrow> buf_append_u8 b (tag_byte TAG_INT); buf_append_i64 b1 val }"

definition out_dbl :: "Buffer \<Rightarrow> u64 \<Rightarrow> Buffer option" where
  "out_dbl b val = do { b1 \<leftarrow> buf_append_u8 b (tag_byte TAG_DBL); buf_append_dbl b1 val }"

definition out_err :: "Buffer \<Rightarrow> u32 \<Rightarrow> bytes \<Rightarrow> Buffer option" where
  "out_err b code msg = do {
     b1 \<leftarrow> buf_append_u8 b (tag_byte TAG_ERR);
     b2 \<leftarrow> buf_append_u32 b1 code;
     b3 \<leftarrow> buf_append_u32 b2 (w32 (length msg));
     buf_append_str b3 msg
   }"

definition out_arr :: "Buffer \<Rightarrow> u32 \<Rightarrow> Buffer option" where
  "out_arr b n = do { b1 \<leftarrow> buf_append_u8 b (tag_byte TAG_ARR); buf_append_u32 b1 n }"

definition out_begin_arr :: "Buffer \<Rightarrow> Buffer option" where
  "out_begin_arr b = do {
     b1 \<leftarrow> buf_append_u8 b (tag_byte TAG_ARR);
     buf_append_u32 (push_placeholder b1) 0
   }"

text \<open>The index \<open>pos - 1\<close> of the assertion wraps at 0, which is outside the vector.\<close>

definition out_end_arr :: "Buffer \<Rightarrow> u32 \<Rightarrow> Buffer option" where
  "out_end_arr b n = do {
     (pos, b1) \<leftarrow> pop_placeholder b;
     t \<leftarrow> (if pos = 0 then None else vec_get (bf_buf b1) (pos - 1));
     (if t \<noteq> tag_byte TAG_ARR then None
      else do { buf1 \<leftarrow> put_bytes (bf_buf b1) pos (le32 n); Some (b1\<lparr>bf_buf := buf1\<rparr>) })
   }"


subsection \<open>The encoding as a specification\<close>

datatype tlv = VNil | VErr u32 bytes | VStr bytes | VInt u64 | VDbl u64 | VArr "tlv list"

fun tlv_bytes :: "tlv \<Rightarrow> bytes" where
  "tlv_bytes VNil = [0]"
| "tlv_bytes (VErr code msg) = 1 # le32 code @ le32 (w32 (length msg)) @ msg"
| "tlv_bytes (VStr s) = 2 # le32 (w32 (length s)) @ s"
| "tlv_bytes (VInt v) = 3 # le64 v"
| "tlv_bytes (VDbl v) = 4 # le64 v"
| "tlv_bytes (VArr vs) = 5 # le32 (w32 (length vs)) @ concat (map tlv_bytes vs)"

text \<open>Writing a value of any shape with the code's operations; arrays are left open while
  their elements are written, as the commands do.\<close>

fun out_value :: "tlv \<Rightarrow> Buffer \<Rightarrow> Buffer option" and out_values :: "tlv list \<Rightarrow> Buffer \<Rightarrow> Buffer option" where
  "out_value VNil b = out_nil b"
| "out_value (VErr code msg) b = out_err b code msg"
| "out_value (VStr s) b = out_str b s"
| "out_value (VInt v) b = out_int b v"
| "out_value (VDbl v) b = out_dbl b v"
| "out_value (VArr vs) b = do {
     b1 \<leftarrow> out_begin_arr b; b2 \<leftarrow> out_values vs b1; out_end_arr b2 (w32 (length vs)) }"
| "out_values [] b = Some b"
| "out_values (v # vs) b = do { b1 \<leftarrow> out_value v b; out_values vs b1 }"

lemma emits_u8: "sink.emits (\<lambda>b. buf_append_u8 b x) [x]"
  and emits_u32: "sink.emits (\<lambda>b. buf_append_u32 b w) (le32 w)"
  and emits_i64: "sink.emits (\<lambda>b. buf_append_i64 b v) (le64 v)"
  and emits_dbl: "sink.emits (\<lambda>b. buf_append_dbl b v) (le64 v)"
  and emits_str: "sink.emits (\<lambda>b. buf_append_str b s) s"
  unfolding buf_append_u8_def buf_append_u32_def buf_append_i64_def buf_append_dbl_def buf_append_str_def
  by (rule sink.emits_append)+

lemmas emits_field = emits_u8 emits_u32 emits_i64 emits_dbl emits_str

lemma emits_out_nil: "sink.emits out_nil (tlv_bytes VNil)"
  using emits_u8 [of 0] by (simp add: out_nil_def [abs_def])

lemma emits_out_str: "sink.emits (\<lambda>b. out_str b s) (tlv_bytes (VStr s))"
  using sink.emits_seq [OF emits_u8 sink.emits_seq [OF emits_u32 emits_str], of 2 "w32 (length s)" s]
  by (simp add: out_str_def)

lemma emits_out_int: "sink.emits (\<lambda>b. out_int b v) (tlv_bytes (VInt v))"
  using sink.emits_seq [OF emits_u8 emits_i64, of 3 v] by (simp add: out_int_def)

lemma emits_out_dbl: "sink.emits (\<lambda>b. out_dbl b v) (tlv_bytes (VDbl v))"
  using sink.emits_seq [OF emits_u8 emits_dbl, of 4 v] by (simp add: out_dbl_def)

lemma emits_out_err: "sink.emits (\<lambda>b. out_err b code msg) (tlv_bytes (VErr code msg))"
  using sink.emits_seq [OF emits_u8 sink.emits_seq [OF emits_u32 sink.emits_seq [OF emits_u32 emits_str]],
      of 1 code "w32 (length msg)" msg]
  by (simp add: out_err_def)

lemma emits_out_arr: "sink.emits (\<lambda>b. out_arr b n) (5 # le32 n)"
  using sink.emits_seq [OF emits_u8 emits_u32, of 5 n] by (simp add: out_arr_def)


subsection \<open>Arrays with a deferred length\<close>

lemma out_begin_arr_run:
  assumes "buf_ok b"
  shows "\<exists>b'. out_begin_arr b = Some b' \<and> buf_ok b' \<and> content b' = content b @ [5] @ le32 0 \<and>
    marks b' = marks b @ [Suc (length (content b))]"
proof -
  obtain b1 where b1: "buf_append_u8 b 5 = Some b1" "buf_ok b1" "content b1 = content b @ [5]" "marks b1 = marks b"
    using sink.emitsD [OF emits_u8 assms] by blast
  then show ?thesis
    using sink.open_field [OF b1(2), of "le32 0"] by (simp add: out_begin_arr_def buf_append_u32_def)
qed

lemma content_byte:
  assumes "buf_ok b" "i < length (content b)"
  shows "vec_get (bf_buf b) (bf_readable_begin b + i) = Some (content b ! i)"
  using assms length_content [OF assms(1)]
  by (auto simp: vec_get_def content_def buf_ok_def readable_size_def)

lemma out_end_arr_run:
  assumes "buf_ok b" "content b = c @ [5] @ le32 z @ body" "marks b = ms @ [Suc (length c)]"
  shows "\<exists>b'. out_end_arr b n = Some b' \<and> buf_ok b' \<and> content b' = c @ [5] @ le32 n @ body \<and> marks b' = ms"
proof -
  obtain b' where f: "fill_placeholder b (le32 n) = Some b'" "buf_ok b'" "content b' = (c @ [5]) @ le32 n @ body"
    "marks b' = ms"
    using sink.close_field [OF assms(1), of "c @ [5]" "le32 z" body ms "le32 n"] assms(2,3) by auto
  obtain ph where st: "bf_placeholder_stack b = ph @ [bf_readable_begin b + Suc (length c)]"
    using top_mark [OF assms(1,3)] by blast
  have "vec_get (bf_buf b) (bf_readable_begin b + length c) = Some 5"
    using content_byte [OF assms(1), of "length c"] assms(2) by simp
  then have "out_end_arr b n = fill_placeholder b (le32 n)"
    using st by (simp add: out_end_arr_def fill_placeholder_def pop_placeholder_def)
  then show ?thesis using f by simp
qed

lemma emits_out_values:
  assumes "\<And>v. v \<in> set vs \<Longrightarrow> sink.emits (out_value v) (tlv_bytes v)"
  shows "sink.emits (out_values vs) (concat (map tlv_bytes vs))"
  using assms
proof (induction vs)
  case Nil
  then show ?case by (simp add: sink.emits_def)
next
  case (Cons v vs)
  then have "sink.emits (\<lambda>b. Option.bind (out_value v b) (out_values vs))
      (tlv_bytes v @ concat (map tlv_bytes vs))"
    by (intro sink.emits_seq) simp_all
  then show ?case by (simp add: sink.emits_def)
qed

lemma emits_out_value: "sink.emits (out_value v) (tlv_bytes v)"
proof (induction v)
  case (VArr vs)
  have vs: "sink.emits (out_values vs) (concat (map tlv_bytes vs))"
    using VArr by (rule emits_out_values)
  show ?case unfolding sink.emits_def
  proof (intro allI impI)
    fix b assume "buf_ok b"
    then obtain b1 where b1: "out_begin_arr b = Some b1" "buf_ok b1" "content b1 = content b @ [5] @ le32 0"
      "marks b1 = marks b @ [Suc (length (content b))]" using out_begin_arr_run by blast
    then obtain b2 where b2: "out_values vs b1 = Some b2" "buf_ok b2"
      "content b2 = content b @ [5] @ le32 0 @ concat (map tlv_bytes vs)"
      "marks b2 = marks b @ [Suc (length (content b))]"
      using sink.emitsD [OF vs b1(2)] by auto
    then show "\<exists>b'. out_value (VArr vs) b = Some b' \<and> buf_ok b' \<and>
        content b' = content b @ tlv_bytes (VArr vs) \<and> marks b' = marks b"
      using out_end_arr_run [OF b2(2-4), of "w32 (length vs)"] b1(1) by auto
  qed
qed (simp_all add: emits_out_nil [unfolded sink.emits_def] emits_out_str [unfolded sink.emits_def]
    emits_out_int [unfolded sink.emits_def] emits_out_dbl [unfolded sink.emits_def]
    emits_out_err [unfolded sink.emits_def] sink.emits_def del: tlv_bytes.simps)

end
