(* ===== verification/Protocol.thy ===== *)
theory Protocol
  imports Tlv
begin

text \<open>
  The request protocol of \<open>src/server/conn.cc\<close> (\<open>parse_req\<close>, the response framing and
  \<open>try_process_one_request\<close>) and of the client (\<open>send_req\<close> of \<open>src/client/api.cc\<close>). The
  command dispatcher is the argument \<open>serve\<close>, a function on a state \<open>'s\<close> of the data
  store and the output buffer; what the framing needs of it is \<open>responds\<close>. \<open>die\<close>
  ends the process: the outcome \<open>Died\<close>.
\<close>

subsection \<open>Requests: the parser and the client's writer\<close>

text \<open>\<open>None\<close> is the return value -1.\<close>

function parse_args :: "u32 \<Rightarrow> bytes \<Rightarrow> bytes list \<Rightarrow> (bytes \<times> bytes list) option" where
  "parse_args nstr data out =
     (if length out < unat nstr then
        (case read_u32 data of
           None \<Rightarrow> None
         | Some (len, data1) \<Rightarrow>
             (case read_str data1 (unat len) of
                None \<Rightarrow> None
              | Some (s, data2) \<Rightarrow> parse_args nstr data2 (out @ [s])))
      else Some (data, out))"
  by pat_completeness auto
termination by (relation "measure (\<lambda>(nstr, data, out). unat nstr - length out)") auto

declare parse_args.simps [simp del]

definition parse_req :: "bytes \<Rightarrow> bytes list option" where
  "parse_req data =
     (case read_u32 data of
        None \<Rightarrow> None
      | Some (nstr, data1) \<Rightarrow>
          if k_max_args < unat nstr then None
          else (case parse_args nstr data1 [] of
                  None \<Rightarrow> None
                | Some (data2, out) \<Rightarrow> if data2 \<noteq> [] then None else Some out))"

text \<open>The client: \<open>TooLarge\<close> is the return value -1, \<open>Send\<close> the bytes given to \<open>write_all\<close>.\<close>

datatype send_result = TooLarge | Send bytes

definition payload_size :: "bytes list \<Rightarrow> u32" where
  "payload_size cmd = foldl (\<lambda>p s. p + w32 (4 + length s)) 4 cmd"

fun write_args :: "bytes \<Rightarrow> nat \<Rightarrow> bytes list \<Rightarrow> bytes option" where
  "write_args wbuf cur [] = Some wbuf"
| "write_args wbuf cur (s # ss) = do {
     w1 \<leftarrow> put_bytes wbuf cur (le32 (w32 (length s)));
     w2 \<leftarrow> put_bytes w1 (cur + 4) s;
     write_args w2 (cur + (4 + length s)) ss
   }"

definition send_req :: "bytes list \<Rightarrow> send_result option" where
  "send_req cmd =
     (let size = payload_size cmd in
      if k_max_msg < unat size then Some TooLarge
      else do {
        w1 \<leftarrow> put_bytes (replicate (unat (4 + size)) 0) 0 (le32 size);
        w2 \<leftarrow> put_bytes w1 4 (le32 (w32 (length cmd)));
        w3 \<leftarrow> write_args w2 8 cmd;
        Some (Send w3)
      })"

text \<open>The encoding as a specification.\<close>

definition args_bytes :: "bytes list \<Rightarrow> bytes" where
  "args_bytes cmd = concat (map (\<lambda>s. le32 (w32 (length s)) @ s) cmd)"

definition req_body :: "bytes list \<Rightarrow> bytes" where
  "req_body cmd = le32 (w32 (length cmd)) @ args_bytes cmd"

definition request :: "bytes list \<Rightarrow> bytes" where
  "request cmd = le32 (w32 (length (req_body cmd))) @ req_body cmd"

definition small_args :: "bytes list \<Rightarrow> bool" where
  "small_args cmd \<longleftrightarrow> length cmd \<le> k_max_args \<and> (\<forall>s\<in>set cmd. length s < 2 ^ 32)"

lemma args_bytes_simps [simp]:
  "args_bytes [] = []" "args_bytes (s # ss) = le32 (w32 (length s)) @ s @ args_bytes ss"
  by (simp_all add: args_bytes_def)

lemma read_u32_append [simp]: "read_u32 (le32 w @ rest) = Some (w, rest)"
  by (simp add: read_u32_def)

lemma read_str_append [simp]: "read_str (s @ rest) (length s) = Some (s, rest)"
  by (simp add: read_str_def)

lemma read_u32_Some: "read_u32 data = Some (w, rest) \<longleftrightarrow> data = le32 w @ rest"
proof
  assume "read_u32 data = Some (w, rest)"
  then have "4 \<le> length data" "w = of_le (take 4 data)" "rest = drop 4 data"
    by (auto simp: read_u32_def split: if_splits)
  then show "data = le32 w @ rest" by simp
qed simp

lemma read_str_Some: "read_str data n = Some (s, rest) \<longleftrightarrow> data = s @ rest \<and> length s = n"
  by (auto simp: read_str_def split: if_splits)

lemma parse_args_encoded:
  assumes "length out + length cmd = unat nstr" "\<forall>s\<in>set cmd. length s < 2 ^ 32"
  shows "parse_args nstr (args_bytes cmd @ rest) out = Some (rest, out @ cmd)"
  using assms
proof (induction cmd arbitrary: out)
  case Nil
  then show ?case by (subst parse_args.simps) simp
next
  case (Cons s ss)
  then have "unat (w32 (length s)) = length s" by simp
  then show ?case using Cons by (subst parse_args.simps) simp
qed

lemma parse_args_accepts:
  assumes "parse_args nstr data out = Some (rest, out')" "length out \<le> unat nstr"
  shows "\<exists>cmd. out' = out @ cmd \<and> data = args_bytes cmd @ rest \<and> length out' = unat nstr \<and>
    (\<forall>s\<in>set cmd. length s < 2 ^ 32)"
  using assms
proof (induction nstr data out rule: parse_args.induct)
  case (1 nstr data out)
  show ?case
  proof (cases "length out < unat nstr")
    case False
    then have "rest = data" "out' = out" "length out = unat nstr"
      using "1.prems" by (auto simp: parse_args.simps [of nstr data out])
    then show ?thesis by (intro exI [of _ "[]"]) simp
  next
    case True
    then obtain len data1 s data2 where r: "read_u32 data = Some (len, data1)"
      "read_str data1 (unat len) = Some (s, data2)" "parse_args nstr data2 (out @ [s]) = Some (rest, out')"
      using "1.prems"(1) by (auto simp: parse_args.simps [of nstr data out] split: option.splits prod.splits)
    then obtain cmd where c: "out' = (out @ [s]) @ cmd" "data2 = args_bytes cmd @ rest" "length out' = unat nstr"
      "\<forall>s\<in>set cmd. length s < 2 ^ 32"
      using "1.IH" [OF True r(1) refl r(2) refl r(3)] True by auto
    have s: "data1 = s @ data2" "length s = unat len" using r(2) by (simp_all add: read_str_Some)
    then have "length s < 2 ^ 32" using unsigned_less [of len] by simp
    moreover have "w32 (length s) = len" using s(2) by (simp add: w32_def)
    ultimately show ?thesis
      using c s(1) r(1) by (intro exI [of _ "s # cmd"]) (simp add: read_u32_Some)
  qed
qed

text \<open>The parser accepts exactly the encodings of small enough argument lists.\<close>

lemma parse_req_exact_lemma: "parse_req data = Some cmd \<longleftrightarrow> data = req_body cmd \<and> small_args cmd"
proof
  assume "parse_req data = Some cmd"
  then obtain nstr data1 where r: "read_u32 data = Some (nstr, data1)" "unat nstr \<le> k_max_args"
    "parse_args nstr data1 [] = Some ([], cmd)"
    by (auto simp: parse_req_def split: option.splits prod.splits if_splits)
  then have a: "data1 = args_bytes cmd" "length cmd = unat nstr" "\<forall>s\<in>set cmd. length s < 2 ^ 32"
    using parse_args_accepts [OF r(3)] by auto
  then have "w32 (length cmd) = nstr" by (simp add: w32_def)
  then show "data = req_body cmd \<and> small_args cmd"
    using r(1,2) a by (simp add: read_u32_Some req_body_def small_args_def)
next
  assume a: "data = req_body cmd \<and> small_args cmd"
  then have u: "unat (w32 (length cmd)) = length cmd" by (simp add: small_args_def k_max_args_def)
  then have "parse_args (w32 (length cmd)) (args_bytes cmd @ []) [] = Some ([], [] @ cmd)"
    using a by (intro parse_args_encoded) (simp_all add: small_args_def)
  then show "parse_req data = Some cmd"
    using a u by (simp add: parse_req_def req_body_def small_args_def)
qed


subsection \<open>What the client writes\<close>

lemma length_args_bytes: "length (args_bytes cmd) = sum_list (map (\<lambda>s. 4 + length s) cmd)"
  by (induction cmd) simp_all

lemma payload_size_fold: "foldl (\<lambda>p s. p + w32 (4 + length s)) (w32 n) cmd = w32 (n + length (args_bytes cmd))"
  by (induction cmd arbitrary: n) (simp_all add: w32_add add.assoc)

lemma payload_size_eq: "payload_size cmd = w32 (length (req_body cmd))"
  using payload_size_fold [of 4 cmd] by (simp add: payload_size_def req_body_def w32_def)

text \<open>Overwriting blanks one field after the other.\<close>

lemma put_blank:
  assumes "length blank = length bs"
  shows "put_bytes (done @ blank @ rest) (length done) bs = Some ((done @ bs) @ rest)"
  using put_bytes_append [OF assms [symmetric], of "done" rest] by simp

lemma replicate_blank: "k \<le> n \<Longrightarrow> replicate n (0 :: u8) = replicate k 0 @ replicate (n - k) 0"
  by (simp add: replicate_add [symmetric])

lemma write_args_run:
  "length (args_bytes cmd) \<le> n \<Longrightarrow>
   write_args (done @ replicate n 0) (length done) cmd =
     Some (done @ args_bytes cmd @ replicate (n - length (args_bytes cmd)) 0)"
proof (induction cmd arbitrary: "done" n)
  case (Cons s ss)
  let ?l = "le32 (w32 (length s))"
  have n: "4 \<le> n" "length s \<le> n - 4" "length (args_bytes ss) \<le> n - 4 - length s" using Cons.prems by simp_all
  have w1: "put_bytes (done @ replicate n 0) (length done) ?l = Some ((done @ ?l) @ replicate (n - 4) 0)"
    using put_blank [of "replicate 4 0" ?l "done"] replicate_blank [OF n(1)] by simp
  have w2: "put_bytes ((done @ ?l) @ replicate (n - 4) 0) (length (done @ ?l)) s =
      Some (((done @ ?l) @ s) @ replicate (n - 4 - length s) 0)"
    using put_blank [of "replicate (length s) 0" s "done @ ?l"] replicate_blank [OF n(2)] by simp
  show ?case
    using w1 w2 Cons.IH [OF n(3), of "(done @ ?l) @ s"] by (simp add: add.commute add.left_commute)
qed simp

lemma header_size:
  assumes "n \<le> k_max_msg"
  shows "unat (4 + w32 n) = 4 + n"
proof -
  have "4 + w32 n = w32 (4 + n)" using w32_add [of 4 n] by (simp add: w32_def)
  then show ?thesis using assms by (simp add: k_max_msg_def)
qed

lemma send_req_run:
  assumes "length (req_body cmd) \<le> k_max_msg"
  shows "send_req cmd = Some (Send (request cmd))"
proof -
  let ?n = "length (req_body cmd)"
  have lt: "?n + 4 < 2 ^ 32" using assms by (simp add: k_max_msg_def)
  have "4 + w32 ?n = w32 (4 + ?n)" using w32_add [of 4 ?n] by (simp add: w32_def)
  then have u: "unat (w32 ?n) = ?n" "unat (4 + w32 ?n) = 4 + ?n" using lt by simp_all
  have n: "?n = 4 + length (args_bytes cmd)" by (simp add: req_body_def)
  let ?h = "le32 (w32 ?n)" and ?c = "le32 (w32 (length cmd))"
  have w1: "put_bytes (replicate (4 + ?n) 0) 0 ?h = Some (?h @ replicate ?n 0)"
    using put_blank [of "replicate 4 0" ?h "[]"] replicate_blank [of 4 "4 + ?n"] by simp
  have w2: "put_bytes (?h @ replicate ?n 0) 4 ?c = Some ((?h @ ?c) @ replicate (?n - 4) 0)"
    using put_blank [of "replicate 4 0" ?c ?h] replicate_blank [of 4 ?n] n by simp
  have w3: "write_args ((?h @ ?c) @ replicate (?n - 4) 0) 8 cmd = Some ((?h @ ?c) @ args_bytes cmd)"
    using write_args_run [of cmd "?n - 4" "?h @ ?c"] n by simp
  have "send_req cmd = Some (Send ((?h @ ?c) @ args_bytes cmd))"
    unfolding send_req_def Let_def payload_size_eq u using assms w1 w2 w3 by simp
  then show ?thesis by (simp add: request_def req_body_def)
qed

text \<open>The copies stay inside the vector only when it holds all fields.\<close>

lemma write_args_fits: "write_args wbuf cur cmd = Some w \<Longrightarrow> cmd = [] \<or> cur + length (args_bytes cmd) \<le> length wbuf"
proof (induction cmd arbitrary: wbuf cur)
  case (Cons s ss)
  then obtain w1 w2 where w: "put_bytes wbuf cur (le32 (w32 (length s))) = Some w1" "put_bytes w1 (cur + 4) s = Some w2"
    "write_args w2 (cur + (4 + length s)) ss = Some w" by (auto split: Option.bind_split_asm)
  have "length w1 = length wbuf" "length w2 = length wbuf" "cur + 4 + length s \<le> length w1"
    using length_put_bytes [OF w(1)] length_put_bytes [OF w(2)] w(2) by (auto simp: put_bytes_def split: if_splits)
  then show ?case using Cons.IH [OF w(3)] by auto
qed simp

lemma send_req_exact:
  "send_req cmd = (if k_max_msg < length (req_body cmd) mod 2 ^ 32 then Some TooLarge
     else if length (req_body cmd) < 2 ^ 32 then Some (Send (request cmd)) else None)"
proof -
  let ?n = "length (req_body cmd)"
  have size: "unat (payload_size cmd) = ?n mod 2 ^ 32" by (simp add: payload_size_eq w32_def unat_of_nat)
  then have size': "payload_size cmd = w32 (?n mod 2 ^ 32)" by (simp add: word_unat_eq_iff)
  consider (big) "k_max_msg < ?n mod 2 ^ 32" | (fits) "?n mod 2 ^ 32 \<le> k_max_msg" "?n < 2 ^ 32"
    | (wraps) "?n mod 2 ^ 32 \<le> k_max_msg" "2 ^ 32 \<le> ?n" by linarith
  then show ?thesis
  proof cases
    case big
    then show ?thesis by (simp add: send_req_def size)
  next
    case fits
    then show ?thesis using send_req_run [of cmd] by simp
  next
    case wraps
    have "send_req cmd = None"
    proof (rule ccontr)
      assume "send_req cmd \<noteq> None"
      then obtain w1 w2 w3 where w: "put_bytes (replicate (unat (4 + payload_size cmd)) 0) 0 (le32 (payload_size cmd)) = Some w1"
        "put_bytes w1 4 (le32 (w32 (length cmd))) = Some w2" "write_args w2 8 cmd = Some w3"
        using wraps(1) by (auto simp: send_req_def Let_def size split: Option.bind_split_asm)
      have "unat (4 + payload_size cmd) = 4 + ?n mod 2 ^ 32"
        using header_size [OF wraps(1)] unfolding size' by simp
      then have len: "length w2 = 4 + ?n mod 2 ^ 32" using length_put_bytes [OF w(1)] length_put_bytes [OF w(2)] by simp
      have "cmd \<noteq> []" using wraps(2) by (auto simp: req_body_def)
      then have "8 + length (args_bytes cmd) \<le> length w2" using write_args_fits [OF w(3)] by blast
      then have "?n \<le> ?n mod 2 ^ 32" using len by (simp add: req_body_def)
      moreover have "?n mod 2 ^ 32 < 2 ^ 32" by simp
      ultimately show False using wraps(2) by linarith
    qed
    then show ?thesis using wraps by simp
  qed
qed

lemma small_args_of_size:
  assumes "length (req_body cmd) \<le> k_max_msg" "length cmd \<le> k_max_args"
  shows "small_args cmd"
proof -
  have "length s < 2 ^ 32" if "s \<in> set cmd" for s
  proof -
    have "length s \<le> length (args_bytes cmd)" using that by (induction cmd) auto
    then show ?thesis using assms(1) by (simp add: req_body_def k_max_msg_def)
  qed
  then show ?thesis using assms(2) by (simp add: small_args_def)
qed


subsection \<open>Responses: framing\<close>

definition str_bytes :: "string \<Rightarrow> bytes" where
  "str_bytes = map of_char"

definition response_begin :: "Buffer \<Rightarrow> Buffer option" where
  "response_begin b = buf_append_u32 (push_placeholder b) 0"

text \<open>The subtraction stays in range: the header is written right after the placeholder.\<close>

definition response_size :: "Buffer \<Rightarrow> nat option" where
  "response_size b = do {
     pos \<leftarrow> peek_placeholder b;
     (if bf_writable_begin b < pos + 4 then None else Some (bf_writable_begin b - pos - 4))
   }"

definition response_end :: "Buffer \<Rightarrow> Buffer option" where
  "response_end b = do {
     msg_size \<leftarrow> response_size b;
     (b1, msg_size1) \<leftarrow>
       (if k_max_msg < msg_size then do {
          b1 \<leftarrow> rewind_to_placeholder b 4;
          b2 \<leftarrow> out_err b1 (err_code ERR_TOO_BIG) (str_bytes ''response too big'');
          n \<leftarrow> response_size b2;
          Some (b2, n)
        } else Some (b, msg_size));
     fill_placeholder b1 (le32 (w32 msg_size1))
   }"

definition limited :: "bytes \<Rightarrow> bytes" where
  "limited bs = (if k_max_msg < length bs
     then tlv_bytes (VErr (err_code ERR_TOO_BIG) (str_bytes ''response too big'')) else bs)"

definition frame :: "bytes \<Rightarrow> bytes" where
  "frame bs = le32 (w32 (length (limited bs))) @ limited bs"

lemma response_size_run:
  assumes "buf_ok b" "content b = c @ le32 z @ body" "marks b = ms @ [length c]"
  shows "response_size b = Some (length body)"
proof -
  obtain ph where st: "bf_placeholder_stack b = ph @ [bf_readable_begin b + length c]"
    using top_mark [OF assms(1,3)] by blast
  have "bf_readable_begin b \<le> bf_writable_begin b" using assms(1) by (simp add: buf_ok_def)
  then have "bf_writable_begin b = bf_readable_begin b + length c + 4 + length body"
    using length_content [OF assms(1)] assms(2) by (simp add: readable_size_def)
  then show ?thesis using st by (simp add: response_size_def peek_placeholder_def)
qed

lemma response_begin_run:
  assumes "buf_ok b"
  shows "\<exists>b'. response_begin b = Some b' \<and> buf_ok b' \<and> content b' = content b @ le32 0 \<and>
    marks b' = marks b @ [length (content b)]"
  using sink.open_field [OF assms] by (simp add: response_begin_def buf_append_u32_def)

lemma response_end_run:
  assumes "buf_ok b" "content b = c @ le32 0 @ body" "marks b = ms @ [length c]"
  shows "\<exists>b'. response_end b = Some b' \<and> buf_ok b' \<and> content b' = c @ frame body \<and> marks b' = ms"
proof (cases "k_max_msg < length body")
  case False
  then have "limited body = body" by (simp add: limited_def)
  then show ?thesis
    using sink.close_field [OF assms, of "le32 (w32 (length body))"] response_size_run [OF assms] False
    by (simp add: response_end_def frame_def)
next
  case True
  let ?e = "tlv_bytes (VErr (err_code ERR_TOO_BIG) (str_bytes ''response too big''))"
  have lim: "limited body = ?e" using True by (simp add: limited_def)
  obtain b1 where b1: "rewind_to_placeholder b 4 = Some b1" "buf_ok b1" "content b1 = c @ le32 0"
    "marks b1 = ms @ [length c]" using sink.cut_field [OF assms, of 4] assms(3) by auto
  obtain b2 where b2: "out_err b1 (err_code ERR_TOO_BIG) (str_bytes ''response too big'') = Some b2" "buf_ok b2"
    "content b2 = c @ le32 0 @ ?e" "marks b2 = ms @ [length c]"
    using sink.emitsD [OF emits_out_err b1(2)] b1(3,4) by auto
  show ?thesis
    using sink.close_field [OF b2(2-4), of "le32 (w32 (length ?e))"] response_size_run [OF b2(2-4)]
      response_size_run [OF assms] True b1(1) b2(1) lim
    by (simp add: response_end_def frame_def)
qed

end
