(* ===== verification/Sys.thy ===== *)
theory Sys
  imports Bytes
begin

text \<open>
  The end of the process and the flags of a descriptor: \<open>src/common/log.cc\<close> and
  \<open>src/common/net.cc\<close>. \<open>die\<close> prints its message and aborts, so what follows a call of it
  does not run; the message, which is all that \<open>msg\<close> and \<open>msg_errno\<close> have, is not kept. A successful
  \<open>fcntl\<close> leaves \<open>errno\<close> at the 0 that is stored before the call.
\<close>

datatype 'r outcome = Died | Returned 'r

definition die :: "'r outcome" where
  "die = Died"

text \<open>What the two calls of \<open>fcntl\<close> answer: the flags and \<open>errno\<close> after F_GETFL, \<open>errno\<close> after F_SETFL.\<close>

record io_fcntl =
  fc_flags :: u32
  fc_get_errno :: int
  fc_set_errno :: int

definition O_NONBLOCK :: u32 where
  "O_NONBLOCK = 0x800"

text \<open>The result is the flags that F_SETFL has stored.\<close>

definition fd_set_nb :: "io_fcntl \<Rightarrow> u32 outcome" where
  "fd_set_nb io =
     (let flags = fc_flags io in
      if fc_get_errno io \<noteq> 0 then die
      else let flags1 = or flags O_NONBLOCK in
           if fc_set_errno io \<noteq> 0 then die else Returned flags1)"

lemma bit_O_NONBLOCK: "bit O_NONBLOCK n \<longleftrightarrow> n = 11"
proof -
  have "O_NONBLOCK = 2 ^ 11" by (simp add: O_NONBLOCK_def)
  then have "bit O_NONBLOCK n \<longleftrightarrow> bit (2 ^ 11 :: u32) n" by (simp only:)
  also have "\<dots> \<longleftrightarrow> n = 11" unfolding bit_exp_iff by auto
  finally show ?thesis .
qed

lemma fd_set_nb_run:
  "fd_set_nb io = Died \<longleftrightarrow> fc_get_errno io \<noteq> 0 \<or> fc_set_errno io \<noteq> 0"
  "fd_set_nb io = Returned fl \<Longrightarrow> bit fl n \<longleftrightarrow> bit (fc_flags io) n \<or> n = 11"
  by (auto simp: fd_set_nb_def die_def Let_def bit_or_iff bit_O_NONBLOCK split: if_splits)

end
