(* ===== verification/Conn.thy ===== *)
theory Conn
  imports Protocol Sys
begin

text \<open>
  Connections: \<open>Conn\<close> of \<open>include/byoredis/server/conn.hh\<close>, request processing and the
  two IO handlers of \<open>src/server/conn.cc\<close>. The kernel is an argument: what \<open>read\<close> and
  \<open>write\<close> answer is a value of \<open>io_read\<close> and \<open>io_write\<close>, and a Boolean is the answer of
  \<open>epoll_ctl(EPOLL_CTL_MOD)\<close>. The server calls plain \<open>write\<close> and installs no handler for SIGPIPE, so a
  write to a socket whose peer is gone kills the process: \<open>WrPipe\<close>. The kernel's side is the state
  \<open>Net\<close>: the pair (EPOLLIN, EPOLLOUT) a descriptor is registered with; the socket a descriptor
  stands for, sockets being numbered in the order they were accepted; and the bytes that \<open>read\<close> has
  handed out and \<open>write\<close> has taken over on each socket, which stay after it is closed. The link of
  the idle list is in the timer part of the program.
\<close>

record Conn =
  cn_fd :: int
  cn_want_read :: bool
  cn_want_write :: bool
  cn_want_close :: bool
  cn_incoming :: Buffer
  cn_outgoing :: Buffer
  cn_last_active_ms :: u64

record Net =
  nt_epoll_fd :: int
  nt_interest :: "int \<rightharpoonup> bool \<times> bool"
  nt_sock :: "int \<Rightarrow> nat"
  nt_socks :: nat
  nt_read :: "nat \<Rightarrow> bytes"
  nt_sent :: "nat \<Rightarrow> bytes"

datatype io_read = RdAgain | RdError | RdEof | RdBytes bytes
datatype io_write = WrAgain | WrError | WrPipe | WrDone nat

text \<open>The bytes that have gone through the socket of a descriptor.\<close>

abbreviation fd_read :: "Net \<Rightarrow> int \<Rightarrow> bytes" where
  "fd_read net fd \<equiv> nt_read net (nt_sock net fd)"

abbreviation fd_sent :: "Net \<Rightarrow> int \<Rightarrow> bytes" where
  "fd_sent net fd \<equiv> nt_sent net (nt_sock net fd)"

text \<open>What the successful calls do on the kernel's side.\<close>

definition kernel_open :: "int \<Rightarrow> Net \<Rightarrow> Net" where
  "kernel_open fd net = net\<lparr>nt_sock := (nt_sock net)(fd := nt_socks net), nt_socks := Suc (nt_socks net),
     nt_read := (nt_read net)(nt_socks net := []), nt_sent := (nt_sent net)(nt_socks net := [])\<rparr>"

definition kernel_read :: "int \<Rightarrow> bytes \<Rightarrow> Net \<Rightarrow> Net" where
  "kernel_read fd data net = net\<lparr>nt_read := (nt_read net)(nt_sock net fd := fd_read net fd @ data)\<rparr>"

definition kernel_write :: "int \<Rightarrow> bytes \<Rightarrow> Net \<Rightarrow> Net" where
  "kernel_write fd data net = net\<lparr>nt_sent := (nt_sent net)(nt_sock net fd := fd_sent net fd @ data)\<rparr>"

type_synonym 's handler = "bytes list \<Rightarrow> 's \<Rightarrow> Buffer \<Rightarrow> ('s \<times> Buffer) option"


subsection \<open>One request\<close>

definition try_process_one_request ::
  "'s handler \<Rightarrow> 's \<Rightarrow> Conn \<Rightarrow> (bool \<times> 's \<times> Conn) outcome option"
where
  "try_process_one_request serve st conn =
     (let inc = cn_incoming conn in
      if readable_size inc < 4 then Some (Returned (False, st, conn))
      else do {
        hd \<leftarrow> get_bytes (bf_buf inc) (bf_readable_begin inc) 4;
        let len = (of_le hd :: u32);
        (if k_max_msg < unat len then Some die
         else if readable_size inc < unat (4 + len) then Some (Returned (False, st, conn))
         else do {
           req \<leftarrow> get_bytes (bf_buf inc) (bf_readable_begin inc + 4) (unat len);
           (case parse_req req of
              None \<Rightarrow> Some (Returned (False, st, conn\<lparr>cn_want_close := True\<rparr>))
            | Some cmd \<Rightarrow> do {
                out1 \<leftarrow> response_begin (cn_outgoing conn);
                (st1, out2) \<leftarrow> serve cmd st out1;
                out3 \<leftarrow> response_end out2;
                Some (Returned (True, st1,
                  conn\<lparr>cn_outgoing := out3, cn_incoming := consume inc (unat (4 + len))\<rparr>))
              })
         })
      })"

text \<open>The loop \<open>while (try_process_one_request(conn)) {}\<close>.\<close>

partial_function (option) process_requests ::
  "'s handler \<Rightarrow> 's \<Rightarrow> Conn \<Rightarrow> ('s \<times> Conn) outcome option"
where
  "process_requests serve st conn = do {
     r \<leftarrow> try_process_one_request serve st conn;
     (case r of
        Died \<Rightarrow> Some Died
      | Returned (go, st1, conn1) \<Rightarrow>
          if go then process_requests serve st1 conn1 else Some (Returned (st1, conn1)))
   }"

declare process_requests.simps [code]


subsection \<open>IO handlers\<close>

text \<open>
  The answer \<open>md\<close> of \<open>epoll_ctl\<close> is not looked at; when the call fails, the registration stays
  what it was.
\<close>

definition epoll_update_interest :: "bool \<Rightarrow> Conn \<Rightarrow> Net \<Rightarrow> Net" where
  "epoll_update_interest md conn net =
     (if nt_epoll_fd net < 0 then net
      else if \<not> md \<or> nt_interest net (cn_fd conn) = None then net
      else net\<lparr>nt_interest := (nt_interest net)(cn_fd conn \<mapsto> (cn_want_read conn, cn_want_write conn))\<rparr>)"

definition handle_write :: "io_write \<Rightarrow> bool \<Rightarrow> Conn \<Rightarrow> Net \<Rightarrow> (Conn \<times> Net) outcome option" where
  "handle_write wr md conn net =
     (if readable_size (cn_outgoing conn) = 0 then None
      else case wr of
        WrPipe \<Rightarrow> Some Died
      | WrAgain \<Rightarrow> Some (Returned (conn, epoll_update_interest md conn net))
      | WrError \<Rightarrow> Some (Returned (conn\<lparr>cn_want_close := True\<rparr>, net))
      | WrDone rv \<Rightarrow>
          (let net1 = kernel_write (cn_fd conn) (take rv (content (cn_outgoing conn))) net;
               out1 = consume (cn_outgoing conn) rv;
               conn1 = conn\<lparr>cn_outgoing := out1\<rparr>
           in
           if readable_size out1 = 0 then do {
             out2 \<leftarrow> shrink_if_wasteful out1 (2 ^ 20);
             let conn2 = conn1\<lparr>cn_want_write := False, cn_want_read := True, cn_outgoing := out2\<rparr>;
             Some (Returned (conn2, epoll_update_interest md conn2 net1))
           } else Some (Returned (conn1, epoll_update_interest md conn1 net1))))"

definition handle_read ::
  "'s handler \<Rightarrow> 's \<Rightarrow> io_read \<Rightarrow> io_write \<Rightarrow> bool \<Rightarrow> Conn \<Rightarrow> Net \<Rightarrow> ('s \<times> Conn \<times> Net) outcome option"
where
  "handle_read serve st rd wr md conn net =
     (case rd of
        RdAgain \<Rightarrow> Some (Returned (st, conn, net))
      | RdError \<Rightarrow> Some (Returned (st, conn\<lparr>cn_want_close := True\<rparr>, net))
      | RdEof \<Rightarrow> Some (Returned (st, conn\<lparr>cn_want_close := True\<rparr>, net))
      | RdBytes data \<Rightarrow> do {
          let net0 = kernel_read (cn_fd conn) data net;
          inc1 \<leftarrow> buf_append (cn_incoming conn) data;
          r \<leftarrow> process_requests serve st (conn\<lparr>cn_incoming := inc1\<rparr>);
          (case r of
             Died \<Rightarrow> Some Died
           | Returned (st1, conn1) \<Rightarrow> do {
               let inc2 = cn_incoming conn1;
               let unread = readable_size inc2;
               inc3 \<leftarrow> (if unread = 0 then shrink_if_wasteful inc2 4096
                        else if 2 ^ 20 < capacity inc2 \<and> unread < capacity inc2 div 8 \<and> unread < 4096
                        then shrink_if_wasteful inc2 4096
                        else Some inc2);
               let conn2 = conn1\<lparr>cn_incoming := inc3\<rparr>;
               (if 0 < readable_size (cn_outgoing conn2) then do {
                  let conn3 = conn2\<lparr>cn_want_read := False, cn_want_write := True\<rparr>;
                  w \<leftarrow> handle_write wr md conn3 net0;
                  (case w of
                     Died \<Rightarrow> Some Died
                   | Returned (conn4, net1) \<Rightarrow> Some (Returned (st1, conn4, net1)))
                } else Some (Returned (st1, conn2, epoll_update_interest md conn2 net0)))
             })
        })"


subsection \<open>What the handler of commands must promise\<close>

text \<open>
  \<open>responds serve R spec\<close>: the handler implements the specification \<open>spec cmd A v A'\<close>, which
  relates a command and an abstract state to the possible replies and next states. \<open>R n st A\<close>
  says that \<open>st\<close> represents \<open>A\<close> and has room for \<open>n\<close> more commands. On every represented
  state and every well-formed buffer the handler succeeds, appends exactly the encoding of
  the reply and closes every deferred field it opens.
\<close>

definition responds ::
  "'s handler \<Rightarrow> (nat \<Rightarrow> 's \<Rightarrow> 'a \<Rightarrow> bool) \<Rightarrow> (bytes list \<Rightarrow> 'a \<Rightarrow> tlv \<Rightarrow> 'a \<Rightarrow> bool) \<Rightarrow> bool"
where
  "responds serve R spec \<longleftrightarrow> (\<forall>n cmd st A b. R (Suc n) st A \<longrightarrow> buf_ok b \<longrightarrow>
     (\<exists>st' b' v A'. serve cmd st b = Some (st', b') \<and> spec cmd A v A' \<and> R n st' A' \<and> buf_ok b' \<and>
        content b' = content b @ tlv_bytes v \<and> marks b' = marks b))"

lemma respondsD:
  "responds serve R spec \<Longrightarrow> R (Suc n) st A \<Longrightarrow> buf_ok b \<Longrightarrow>
    \<exists>st' b' v A'. serve cmd st b = Some (st', b') \<and> spec cmd A v A' \<and> R n st' A' \<and> buf_ok b' \<and>
      content b' = content b @ tlv_bytes v \<and> marks b' = marks b"
  by (simp add: responds_def)

text \<open>A sequence of commands with its replies, and the bytes of the reply frames.\<close>

inductive session ::
  "(bytes list \<Rightarrow> 'a \<Rightarrow> tlv \<Rightarrow> 'a \<Rightarrow> bool) \<Rightarrow> bytes list list \<Rightarrow> 'a \<Rightarrow> tlv list \<Rightarrow> 'a \<Rightarrow> bool"
  for spec
where
  session_nil: "session spec [] A [] A"
| session_cons: "spec cmd A v B \<Longrightarrow> session spec cmds B vs A' \<Longrightarrow> session spec (cmd # cmds) A (v # vs) A'"

inductive_cases session_nilE: "session spec [] A vs A'"
inductive_cases session_consE: "session spec (cmd # cmds) A vs A'"
inductive_simps session_simps: "session spec [] A vs A'" "session spec (cmd # cmds) A vs A'"

definition frames :: "tlv list \<Rightarrow> bytes" where
  "frames vs = concat (map (\<lambda>v. frame (tlv_bytes v)) vs)"

lemma frames_simps [simp]: "frames [] = []" "frames (v # vs) = frame (tlv_bytes v) @ frames vs"
  by (simp_all add: frames_def)

lemma session_length: "session spec cmds A vs A' \<Longrightarrow> length vs = length cmds"
  by (induction rule: session.induct) simp_all

text \<open>Both buffers of a connection between two requests.\<close>

definition bufs_ok :: "Conn \<Rightarrow> bool" where
  "bufs_ok conn \<longleftrightarrow> buf_ok (cn_incoming conn) \<and> bf_placeholder_stack (cn_incoming conn) = [] \<and>
     buf_ok (cn_outgoing conn) \<and> bf_placeholder_stack (cn_outgoing conn) = []"

lemma marks_nil: "marks b = [] \<longleftrightarrow> bf_placeholder_stack b = []"
  by (simp add: marks_def)

text \<open>The rest of the record, which request processing leaves alone.\<close>

definition same_intents :: "Conn \<Rightarrow> Conn \<Rightarrow> bool" where
  "same_intents c c' \<longleftrightarrow> cn_fd c' = cn_fd c \<and> cn_want_read c' = cn_want_read c \<and>
     cn_want_write c' = cn_want_write c \<and> cn_last_active_ms c' = cn_last_active_ms c"

text \<open>A prefix of a request that is not complete yet.\<close>

definition needs_more :: "bytes \<Rightarrow> bool" where
  "needs_more bs \<longleftrightarrow> length bs < 4 \<or>
     (unat (of_le (take 4 bs) :: u32) \<le> k_max_msg \<and> length bs < 4 + unat (of_le (take 4 bs) :: u32))"

lemma get_content_at:
  assumes "buf_ok b" "i + n \<le> length (content b)"
  shows "get_bytes (bf_buf b) (bf_readable_begin b + i) n = Some (take n (drop i (content b)))"
proof -
  have "i + n \<le> readable_size b" using assms length_content by simp
  moreover have "bf_readable_begin b + readable_size b \<le> length (bf_buf b)"
    using assms(1) by (auto simp: buf_ok_def readable_size_def)
  ultimately show ?thesis
    by (simp add: get_bytes_def content_def drop_take add.commute min_def)
qed

lemma header_len:
  assumes "n \<le> k_max_msg"
  shows "unat (w32 n) = n" "unat (4 + w32 n) = 4 + n"
proof -
  have lt: "4 + n < 2 ^ 32" using assms by (simp add: k_max_msg_def)
  have "4 + w32 n = w32 (4 + n)" using w32_add [of 4 n] by (simp add: w32_def)
  then show "unat (w32 n) = n" "unat (4 + w32 n) = 4 + n" using lt by simp_all
qed

text \<open>The four outcomes of one call.\<close>

lemma try_incomplete:
  assumes "buf_ok (cn_incoming conn)" "needs_more (content (cn_incoming conn))"
  shows "try_process_one_request serve st conn = Some (Returned (False, st, conn))"
proof -
  let ?inc = "cn_incoming conn"
  have size: "readable_size ?inc = length (content ?inc)" using length_content [OF assms(1)] by simp
  show ?thesis
  proof (cases "length (content ?inc) < 4")
    case True
    then show ?thesis using size by (simp add: try_process_one_request_def Let_def)
  next
    case False
    let ?len = "of_le (take 4 (content ?inc)) :: u32"
    have "get_bytes (bf_buf ?inc) (bf_readable_begin ?inc) 4 = Some (take 4 (content ?inc))"
      using get_content_at [OF assms(1), of 0 4] False by simp
    moreover have n: "unat ?len \<le> k_max_msg" "length (content ?inc) < 4 + unat ?len"
      using assms(2) False by (simp_all add: needs_more_def)
    moreover have "unat (4 + ?len) = 4 + unat ?len"
      using header_len(2) [OF n(1)] by (simp add: w32_def)
    ultimately show ?thesis using False size by (simp add: try_process_one_request_def Let_def)
  qed
qed

lemma try_oversized:
  assumes "buf_ok (cn_incoming conn)" "4 \<le> length (content (cn_incoming conn))"
    "k_max_msg < unat (of_le (take 4 (content (cn_incoming conn))) :: u32)"
  shows "try_process_one_request serve st conn = Some Died"
  using get_content_at [OF assms(1), of 0 4] assms(2,3) length_content [OF assms(1)]
  by (simp add: try_process_one_request_def Let_def die_def)


lemma try_message:
  assumes ok: "bufs_ok conn" and c: "content (cn_incoming conn) = le32 (w32 (length body)) @ body @ rest"
    and len: "length body \<le> k_max_msg"
  shows "try_process_one_request serve st conn =
    (case parse_req body of
       None \<Rightarrow> Some (Returned (False, st, conn\<lparr>cn_want_close := True\<rparr>))
     | Some cmd \<Rightarrow> do {
         out1 \<leftarrow> response_begin (cn_outgoing conn);
         (st1, out2) \<leftarrow> serve cmd st out1;
         out3 \<leftarrow> response_end out2;
         Some (Returned (True, st1, conn\<lparr>cn_outgoing := out3,
           cn_incoming := consume (cn_incoming conn) (4 + length body)\<rparr>))
       })"
proof -
  let ?inc = "cn_incoming conn"
  have b: "buf_ok ?inc" using ok by (simp add: bufs_ok_def)
  have size: "readable_size ?inc = 4 + length body + length rest" using length_content [OF b] c by simp
  have "get_bytes (bf_buf ?inc) (bf_readable_begin ?inc) 4 = Some (le32 (w32 (length body)))"
    using get_content_at [OF b, of 0 4] c by simp
  moreover have "get_bytes (bf_buf ?inc) (bf_readable_begin ?inc + 4) (length body) = Some body"
    using get_content_at [OF b, of 4 "length body"] c by simp
  ultimately show ?thesis
    using size len header_len [OF len] by (simp add: try_process_one_request_def Let_def split: option.splits)
qed

lemma try_bad:
  assumes "bufs_ok conn" "content (cn_incoming conn) = le32 (w32 (length body)) @ body @ rest"
    "length body \<le> k_max_msg" "parse_req body = None"
  shows "try_process_one_request serve st conn = Some (Returned (False, st, conn\<lparr>cn_want_close := True\<rparr>))"
  using try_message [OF assms(1-3)] assms(4) by simp

lemma try_complete:
  assumes r: "responds serve R spec" and st: "R (Suc k) st A" and ok: "bufs_ok conn"
    and c: "content (cn_incoming conn) = request cmd @ rest"
    and len: "length (req_body cmd) \<le> k_max_msg" and n: "length cmd \<le> k_max_args"
  shows "\<exists>st' v A' conn'. try_process_one_request serve st conn = Some (Returned (True, st', conn')) \<and>
    spec cmd A v A' \<and> R k st' A' \<and> bufs_ok conn' \<and> same_intents conn conn' \<and> cn_want_close conn' = cn_want_close conn \<and>
    content (cn_incoming conn') = rest \<and>
    content (cn_outgoing conn') = content (cn_outgoing conn) @ frame (tlv_bytes v)"
proof -
  let ?out = "cn_outgoing conn" and ?inc = "cn_incoming conn"
  have ob: "buf_ok ?out" "marks ?out = []" using ok by (simp_all add: bufs_ok_def marks_nil)
  have parse: "parse_req (req_body cmd) = Some cmd"
    using parse_req_exact_lemma small_args_of_size [OF len n] by simp
  obtain out1 where o1: "response_begin ?out = Some out1" "buf_ok out1" "content out1 = content ?out @ le32 0"
    "marks out1 = [length (content ?out)]" using response_begin_run [OF ob(1)] ob(2) by auto
  obtain st' out2 v A' where o2: "serve cmd st out1 = Some (st', out2)" "spec cmd A v A'" "R k st' A'" "buf_ok out2"
    "content out2 = content ?out @ le32 0 @ tlv_bytes v" "marks out2 = [] @ [length (content ?out)]"
    using respondsD [OF r st o1(2), of cmd] o1(3,4) by auto
  obtain out3 where o3: "response_end out2 = Some out3" "buf_ok out3"
    "content out3 = content ?out @ frame (tlv_bytes v)" "marks out3 = []"
    using response_end_run [OF o2(4-6)] by blast
  let ?inc1 = "consume ?inc (4 + length (req_body cmd))"
  have i1: "buf_ok ?inc1" "content ?inc1 = rest" "marks ?inc1 = []"
    using consume_run [of ?inc "4 + length (req_body cmd)"] ok c by (simp_all add: bufs_ok_def request_def)
  let ?conn = "conn\<lparr>cn_outgoing := out3, cn_incoming := ?inc1\<rparr>"
  have "try_process_one_request serve st conn = Some (Returned (True, st', ?conn))"
    using try_message [OF ok _ len, of rest serve st] c parse o1(1) o2(1) o3(1) by (simp add: request_def)
  moreover have "bufs_ok ?conn" using o3 i1 by (simp add: bufs_ok_def marks_nil)
  moreover have "same_intents conn ?conn" by (simp add: same_intents_def)
  moreover have "content (cn_outgoing ?conn) = content ?out @ frame (tlv_bytes v)" "content (cn_incoming ?conn) = rest"
    "cn_want_close ?conn = cn_want_close conn"
    using o3(3) i1(2) by simp_all
  ultimately show ?thesis using o2(2,3) by blast
qed


subsection \<open>Pipelined requests\<close>

definition sendable :: "bytes list \<Rightarrow> bool" where
  "sendable cmd \<longleftrightarrow> length (req_body cmd) \<le> k_max_msg \<and> length cmd \<le> k_max_args"

lemma same_intents_trans: "same_intents a b \<Longrightarrow> same_intents b c \<Longrightarrow> same_intents a c"
  by (simp add: same_intents_def)

lemma same_intents_refl [simp]: "same_intents a a"
  by (simp add: same_intents_def)

lemma process_requests_run:
  assumes r: "responds serve R spec"
  shows "R (length cmds + n) st A \<Longrightarrow> bufs_ok conn \<Longrightarrow>
    content (cn_incoming conn) = concat (map request cmds) @ rest \<Longrightarrow>
    \<forall>cmd\<in>set cmds. sendable cmd \<Longrightarrow> needs_more rest \<Longrightarrow>
    \<exists>st' A' vs conn'. process_requests serve st conn = Some (Returned (st', conn')) \<and>
      session spec cmds A vs A' \<and> R n st' A' \<and>
      bufs_ok conn' \<and> same_intents conn conn' \<and> cn_want_close conn' = cn_want_close conn \<and>
      content (cn_incoming conn') = rest \<and>
      content (cn_outgoing conn') = content (cn_outgoing conn) @ frames vs"
proof (induction cmds arbitrary: st A conn)
  case Nil
  then have "try_process_one_request serve st conn = Some (Returned (False, st, conn))"
    by (intro try_incomplete) (simp_all add: bufs_ok_def)
  then have "process_requests serve st conn = Some (Returned (st, conn))"
    by (subst process_requests.simps) simp
  then show ?case
    using Nil session_nil [of spec A] by (intro exI [of _ st] exI [of _ A] exI [of _ "[]"] exI [of _ conn]) simp
next
  case (Cons cmd cmds)
  have len: "length (req_body cmd) \<le> k_max_msg" "length cmd \<le> k_max_args"
    using Cons.prems(4) by (simp_all add: sendable_def)
  have c: "content (cn_incoming conn) = request cmd @ concat (map request cmds) @ rest"
    using Cons.prems(3) by simp
  have R: "R (Suc (length cmds + n)) st A" using Cons.prems(1) by simp
  obtain st1 v B conn1 where c1: "try_process_one_request serve st conn = Some (Returned (True, st1, conn1))"
    "spec cmd A v B" "R (length cmds + n) st1 B"
    "bufs_ok conn1" "same_intents conn conn1" "cn_want_close conn1 = cn_want_close conn"
    "content (cn_incoming conn1) = concat (map request cmds) @ rest"
    "content (cn_outgoing conn1) = content (cn_outgoing conn) @ frame (tlv_bytes v)"
    using try_complete [OF r R Cons.prems(2) c len] by blast
  have "\<forall>cmd\<in>set cmds. sendable cmd" using Cons.prems(4) by simp
  then obtain st' A' vs conn' where c': "process_requests serve st1 conn1 = Some (Returned (st', conn'))"
    "session spec cmds B vs A'" "R n st' A'"
    "bufs_ok conn'" "same_intents conn1 conn'" "cn_want_close conn' = cn_want_close conn1"
    "content (cn_incoming conn') = rest"
    "content (cn_outgoing conn') = content (cn_outgoing conn1) @ frames vs"
    using Cons.IH [OF c1(3,4,7) _ Cons.prems(5)] by blast
  have "process_requests serve st conn = Some (Returned (st', conn'))"
    using c1(1) c'(1) by (subst process_requests.simps) simp
  moreover have "session spec (cmd # cmds) A (v # vs) A'" using c1(2) c'(2) by (rule session_cons)
  moreover have "content (cn_outgoing conn') = content (cn_outgoing conn) @ frames (v # vs)"
    using c'(8) c1(8) by simp
  moreover have "cn_want_close conn' = cn_want_close conn" using c'(6) c1(6) by simp
  moreover have "same_intents conn conn'" using c1(5) c'(5) by (rule same_intents_trans)
  ultimately show ?case using c'(3,4,7) by blast
qed


subsection \<open>Every byte stream\<close>

text \<open>What starts a stream: too few bytes, an oversized header, or one whole message.\<close>

lemma stream_cases:
  obtains (more) "needs_more bs"
    | (big) "4 \<le> length bs" "k_max_msg < unat (of_le (take 4 bs) :: u32)"
    | (message) body rest where "bs = le32 (w32 (length body)) @ body @ rest" "length body \<le> k_max_msg"
proof (cases "needs_more bs \<or> (4 \<le> length bs \<and> k_max_msg < unat (of_le (take 4 bs) :: u32))")
  case True
  then show ?thesis using more big by blast
next
  case False
  let ?n = "unat (of_le (take 4 bs) :: u32)"
  have n: "4 \<le> length bs" "?n \<le> k_max_msg" "4 + ?n \<le> length bs"
    using False by (auto simp: needs_more_def not_less)
  let ?body = "take ?n (drop 4 bs)"
  have len: "length ?body = ?n" using n(3) by simp
  have "le32 (w32 ?n) = take 4 bs" using n(1) by (simp add: w32_def)
  moreover have "bs = take 4 bs @ ?body @ drop ?n (drop 4 bs)" by (simp only: append_take_drop_id)
  ultimately have "bs = le32 (w32 (length ?body)) @ ?body @ drop ?n (drop 4 bs)" using len by simp
  from message [OF this] show ?thesis using len n(2) by simp
qed

text \<open>No whole valid request stands at the front of the bytes.\<close>

definition no_request :: "bytes \<Rightarrow> bool" where
  "no_request bs \<longleftrightarrow> (\<forall>cmd rest. sendable cmd \<longrightarrow> bs \<noteq> request cmd @ rest)"

lemma sendable_parse: "sendable cmd \<Longrightarrow> parse_req (req_body cmd) = Some cmd"
  using parse_req_exact_lemma small_args_of_size by (simp add: sendable_def)

lemma no_request_more:
  assumes "needs_more bs"
  shows "no_request bs"
proof -
  have False if s: "sendable cmd" and eq: "bs = request cmd @ rest" for cmd rest
  proof -
    have "of_le (take 4 bs) = w32 (length (req_body cmd))" "length bs = 4 + length (req_body cmd) + length rest"
      using eq by (simp_all add: request_def)
    then show False using assms header_len(1) [of "length (req_body cmd)"] s by (simp add: needs_more_def sendable_def)
  qed
  then show ?thesis by (auto simp: no_request_def)
qed

lemma no_request_bad:
  assumes "bs = le32 (w32 (length body)) @ body @ rest" "length body \<le> k_max_msg" "parse_req body = None"
  shows "no_request bs"
proof -
  have False if s: "sendable cmd" and eq: "bs = request cmd @ r" for cmd r
  proof -
    have len: "length (req_body cmd) \<le> k_max_msg" using s by (simp add: sendable_def)
    have "le32 (w32 (length body)) @ body @ rest = le32 (w32 (length (req_body cmd))) @ req_body cmd @ r"
      using assms(1) eq by (simp add: request_def)
    then have "le32 (w32 (length body)) = le32 (w32 (length (req_body cmd)))" "body @ rest = req_body cmd @ r"
      by (simp_all add: append_eq_append_conv)
    then have "length body = length (req_body cmd)"
      using header_len(1) [OF assms(2)] header_len(1) [OF len] by (metis of_le32)
    then have "body = req_body cmd" using \<open>body @ rest = req_body cmd @ r\<close> by (simp add: append_eq_append_conv)
    then show False using assms(3) sendable_parse [OF s] by simp
  qed
  then show ?thesis by (auto simp: no_request_def)
qed

text \<open>A stream in which an oversized header follows on any number of messages.\<close>

inductive oversized :: "bytes \<Rightarrow> bool" where
  oversized_now: "4 \<le> length bs \<Longrightarrow> k_max_msg < unat (of_le (take 4 bs) :: u32) \<Longrightarrow> oversized bs"
| oversized_later: "length body \<le> k_max_msg \<Longrightarrow> oversized rest \<Longrightarrow> oversized (le32 (w32 (length body)) @ body @ rest)"

text \<open>
  Whatever the bytes are, the loop ends, and its effect is that of a session of commands
  whose reply frames it has appended; \<open>k\<close> bounds the number of commands in the buffer, and
  room for the commands in the unread rest is left.
\<close>

lemma process_requests_total:
  assumes r: "responds serve R spec"
  shows "bufs_ok conn \<Longrightarrow> R k st A \<Longrightarrow> length (content (cn_incoming conn)) + n \<le> k \<Longrightarrow>
    (process_requests serve st conn = Some Died \<and> oversized (content (cn_incoming conn))) \<or>
    (\<exists>st' conn' cmds vs A' k'. process_requests serve st conn = Some (Returned (st', conn')) \<and>
      session spec cmds A vs A' \<and> length (content (cn_incoming conn')) + n \<le> k' \<and> R k' st' A' \<and>
      bufs_ok conn' \<and> same_intents conn conn' \<and>
      content (cn_outgoing conn') = content (cn_outgoing conn) @ frames vs \<and>
      content (cn_incoming conn) = concat (map request cmds) @ content (cn_incoming conn') \<and> (\<forall>cmd\<in>set cmds. sendable cmd) \<and>
      no_request (content (cn_incoming conn')) \<and> (cn_want_close conn' \<or> needs_more (content (cn_incoming conn'))))"
proof (induction "length (content (cn_incoming conn))" arbitrary: st A k conn rule: less_induct)
  case less
  note prem = less.prems
  have b: "buf_ok (cn_incoming conn)" using prem(1) by (simp add: bufs_ok_def)
  have stay: ?case if "process_requests serve st conn = Some (Returned (st, conn'))" "bufs_ok conn'"
    "same_intents conn conn'" "cn_outgoing conn' = cn_outgoing conn" "cn_incoming conn' = cn_incoming conn"
    "no_request (content (cn_incoming conn))" "cn_want_close conn' \<or> needs_more (content (cn_incoming conn))" for conn'
  proof -
    have "session spec [] A [] A" "length (content (cn_incoming conn')) + n \<le> k"
      using session_nil prem(3) that(5) by simp_all
    then show ?thesis
      using that prem(2) by (intro disjI2 exI [of _ st] exI [of _ conn'] exI [of _ "[]"] exI [of _ A] exI [of _ k]) simp
  qed
  show ?case
  proof (cases rule: stream_cases [of "content (cn_incoming conn)"])
    case more
    then have "process_requests serve st conn = Some (Returned (st, conn))"
      using try_incomplete [OF b, of serve st] by (subst process_requests.simps) simp
    then show ?thesis using prem(1) by (intro stay [of conn, OF _ _ _ _ _ no_request_more [OF more] disjI2 [OF more]]) simp_all
  next
    case big
    then have "process_requests serve st conn = Some Died"
      using try_oversized [OF b, of serve st] by (subst process_requests.simps) simp
    then show ?thesis using oversized_now [OF big] by simp
  next
    case (message body rest)
    show ?thesis
    proof (cases "parse_req body")
      case None
      then have "process_requests serve st conn = Some (Returned (st, conn\<lparr>cn_want_close := True\<rparr>))"
        using try_bad [OF prem(1) message None, of serve st] by (subst process_requests.simps) simp
      then show ?thesis using prem(1) no_request_bad [OF message None]
        by (intro stay [of "conn\<lparr>cn_want_close := True\<rparr>"]) (simp_all add: bufs_ok_def same_intents_def)
    next
      case (Some cmd)
      then have body: "body = req_body cmd" "small_args cmd" using parse_req_exact_lemma by auto
      have c: "content (cn_incoming conn) = request cmd @ rest" using message(1) body(1) by (simp add: request_def)
      have len: "length (req_body cmd) \<le> k_max_msg" "length cmd \<le> k_max_args"
        using message(2) body by (simp_all add: small_args_def)
      have long: "length rest < length (content (cn_incoming conn))" using c by (simp add: request_def)
      then obtain k0 where k0: "k = Suc k0" using prem(3) by (cases k) simp_all
      obtain st1 v B conn1 where c1: "try_process_one_request serve st conn = Some (Returned (True, st1, conn1))"
        "spec cmd A v B" "R k0 st1 B"
        "bufs_ok conn1" "same_intents conn conn1" "content (cn_incoming conn1) = rest"
        "content (cn_outgoing conn1) = content (cn_outgoing conn) @ frame (tlv_bytes v)"
        using try_complete [OF r prem(2) [unfolded k0] prem(1) c len] by blast
      have "length (content (cn_incoming conn1)) < length (content (cn_incoming conn))"
        "length (content (cn_incoming conn1)) + n \<le> k0"
        using c1(6) long prem(3) k0 by simp_all
      note ih = less.hyps [OF this(1) c1(4,3) this(2)]
      have eq: "process_requests serve st conn = process_requests serve st1 conn1"
        using c1(1) by (subst process_requests.simps) simp
      from ih consider (died) "process_requests serve st1 conn1 = Some Died" "oversized rest"
        | (ran) st' conn' cmds vs A' k' where "process_requests serve st1 conn1 = Some (Returned (st', conn'))" "session spec cmds B vs A'"
          "length (content (cn_incoming conn')) + n \<le> k'" "R k' st' A'" "bufs_ok conn'" "same_intents conn1 conn'"
          "content (cn_outgoing conn') = content (cn_outgoing conn1) @ frames vs"
          "rest = concat (map request cmds) @ content (cn_incoming conn')" "\<forall>cmd\<in>set cmds. sendable cmd"
          "no_request (content (cn_incoming conn'))"
          "cn_want_close conn' \<or> needs_more (content (cn_incoming conn'))"
        unfolding c1(6) by blast
      then show ?thesis
      proof cases
        case died
        have "oversized (content (cn_incoming conn))" unfolding message(1) by (rule oversized_later [OF message(2) died(2)])
        then show ?thesis using eq died(1) by simp
      next
        case i: (ran st' conn' cmds vs A' k')
        have "session spec (cmd # cmds) A (v # vs) A'" using c1(2) i(2) by (rule session_cons)
        moreover have "content (cn_outgoing conn') = content (cn_outgoing conn) @ frames (v # vs)"
          using i(7) c1(7) by simp
        moreover have "content (cn_incoming conn) = concat (map request (cmd # cmds)) @ content (cn_incoming conn')"
          using c i(8) by simp
        moreover have "\<forall>c\<in>set (cmd # cmds). sendable c" using i(9) len by (simp add: sendable_def)
        moreover note i(1) [folded eq] i(3-5,10,11) same_intents_trans [OF c1(5) i(6)]
        ultimately show ?thesis by blast
      qed
    qed
  qed
qed


subsection \<open>Intentions and readiness\<close>

text \<open>
  Between two events a connection that is not about to be closed wants either to read
  or to write, wants to write exactly when it has output, holds no complete request,
  and the kernel watches for exactly what it wants.
\<close>

definition conn_ready :: "Conn \<Rightarrow> bool" where
  "conn_ready conn \<longleftrightarrow> bufs_ok conn \<and> cn_want_close conn = False \<and>
     cn_want_write conn = (content (cn_outgoing conn) \<noteq> []) \<and>
     cn_want_read conn = (content (cn_outgoing conn) = []) \<and>
     needs_more (content (cn_incoming conn))"

definition conn_ok :: "Conn \<Rightarrow> Net \<Rightarrow> bool" where
  "conn_ok conn net \<longleftrightarrow> bufs_ok conn \<and> cn_want_close conn = False \<and>
     cn_want_write conn = (content (cn_outgoing conn) \<noteq> []) \<and>
     cn_want_read conn = (content (cn_outgoing conn) = []) \<and>
     needs_more (content (cn_incoming conn)) \<and>
     0 \<le> nt_epoll_fd net \<and> nt_interest net (cn_fd conn) = Some (cn_want_read conn, cn_want_write conn)"

lemma conn_ok_ready: "conn_ok conn net \<longleftrightarrow> conn_ready conn \<and> 0 \<le> nt_epoll_fd net \<and>
    nt_interest net (cn_fd conn) = Some (cn_want_read conn, cn_want_write conn)"
  by (simp add: conn_ok_def conn_ready_def)

text \<open>What an IO handler leaves behind: when \<open>epoll_ctl\<close> has failed, the registration is the old one.\<close>

definition conn_left :: "bool \<Rightarrow> Net \<Rightarrow> Conn \<Rightarrow> Net \<Rightarrow> bool" where
  "conn_left md net conn' net' \<longleftrightarrow> cn_want_close conn' \<or>
     (if md then conn_ok conn' net' else conn_ready conn' \<and> nt_interest net' = nt_interest net)"

text \<open>What a handler may do on the kernel's side: only its own descriptor's.\<close>

definition net_frame :: "int \<Rightarrow> Net \<Rightarrow> Net \<Rightarrow> bool" where
  "net_frame fd net net' \<longleftrightarrow> nt_epoll_fd net' = nt_epoll_fd net \<and>
     nt_sock net' = nt_sock net \<and> nt_socks net' = nt_socks net \<and>
     (\<forall>f. f \<noteq> fd \<longrightarrow> nt_interest net' f = nt_interest net f) \<and>
     (\<forall>s. s \<noteq> nt_sock net fd \<longrightarrow> nt_read net' s = nt_read net s \<and> nt_sent net' s = nt_sent net s)"

lemma net_frame_trans: "net_frame fd net net1 \<Longrightarrow> net_frame fd net1 net2 \<Longrightarrow> net_frame fd net net2"
  by (simp add: net_frame_def)

lemma net_frame_refl [simp]: "net_frame fd net net"
  by (simp add: net_frame_def)

lemma net_frame_sock: "net_frame fd net net' \<Longrightarrow> nt_sock net' = nt_sock net \<and> nt_socks net' = nt_socks net"
  by (simp add: net_frame_def)

lemma kernel_sels [simp]:
  "nt_epoll_fd (kernel_open fd net) = nt_epoll_fd net" "nt_interest (kernel_open fd net) = nt_interest net"
  "nt_epoll_fd (kernel_read fd d net) = nt_epoll_fd net" "nt_interest (kernel_read fd d net) = nt_interest net"
  "nt_epoll_fd (kernel_write fd d net) = nt_epoll_fd net" "nt_interest (kernel_write fd d net) = nt_interest net"
  "nt_sock (kernel_read fd d net) = nt_sock net" "nt_socks (kernel_read fd d net) = nt_socks net"
  "nt_sock (kernel_write fd d net) = nt_sock net" "nt_socks (kernel_write fd d net) = nt_socks net"
  "nt_sock (kernel_open fd net) = (nt_sock net)(fd := nt_socks net)" "nt_socks (kernel_open fd net) = Suc (nt_socks net)"
  "nt_read (kernel_read fd d net) = (nt_read net)(nt_sock net fd := fd_read net fd @ d)" "nt_sent (kernel_read fd d net) = nt_sent net"
  "nt_sent (kernel_write fd d net) = (nt_sent net)(nt_sock net fd := fd_sent net fd @ d)" "nt_read (kernel_write fd d net) = nt_read net"
  "nt_read (kernel_open fd net) = (nt_read net)(nt_socks net := [])" "nt_sent (kernel_open fd net) = (nt_sent net)(nt_socks net := [])"
  by (simp_all add: kernel_open_def kernel_read_def kernel_write_def)

lemma epoll_streams [simp]:
  "nt_read (epoll_update_interest md conn net) = nt_read net" "nt_sent (epoll_update_interest md conn net) = nt_sent net"
  "nt_sock (epoll_update_interest md conn net) = nt_sock net" "nt_socks (epoll_update_interest md conn net) = nt_socks net"
  "nt_epoll_fd (epoll_update_interest md conn net) = nt_epoll_fd net"
  by (simp_all add: epoll_update_interest_def)

lemma epoll_interest:
  assumes "0 \<le> nt_epoll_fd net" "nt_interest net (cn_fd conn) \<noteq> None"
  shows "nt_interest (epoll_update_interest md conn net) = (if md
    then (nt_interest net)(cn_fd conn \<mapsto> (cn_want_read conn, cn_want_write conn)) else nt_interest net)"
  using assms by (auto simp: epoll_update_interest_def)

lemma net_frame_kernel: "net_frame fd net (kernel_read fd d net)" "net_frame fd net (kernel_write fd d net)"
  by (simp_all add: net_frame_def)

lemma net_frame_epoll: "net_frame (cn_fd conn) net (epoll_update_interest md conn net)"
  by (simp add: net_frame_def) (simp add: epoll_update_interest_def)

text \<open>
  The bytes that go through a connection: what \<open>read\<close> hands out becomes requests and the unread rest, and
  what \<open>write\<close> takes over and what still waits grow by the frames of the replies. A rest without a whole
  request is left in which there is none either.
\<close>

definition exchanged :: "bytes list list \<Rightarrow> tlv list \<Rightarrow> Conn \<Rightarrow> Net \<Rightarrow> Conn \<Rightarrow> Net \<Rightarrow> bool" where
  "exchanged cmds vs c net c' net' \<longleftrightarrow> (\<forall>cmd\<in>set cmds. sendable cmd) \<and>
     (\<exists>data. fd_read net' (cn_fd c) = fd_read net (cn_fd c) @ data \<and>
        content (cn_incoming c) @ data = concat (map request cmds) @ content (cn_incoming c')) \<and>
     fd_sent net' (cn_fd c) @ content (cn_outgoing c') = fd_sent net (cn_fd c) @ content (cn_outgoing c) @ frames vs \<and>
     (no_request (content (cn_incoming c)) \<longrightarrow> no_request (content (cn_incoming c')))"

lemma exchanged_none:
  "cn_incoming c' = cn_incoming c \<Longrightarrow> cn_outgoing c' = cn_outgoing c \<Longrightarrow> exchanged [] [] c net c' net"
  by (simp add: exchanged_def)

lemma content_empty: "buf_ok b \<Longrightarrow> content b = [] \<longleftrightarrow> readable_size b = 0"
  using length_content [of b] by auto

lemma handle_write_pipe:
  "buf_ok (cn_outgoing conn) \<Longrightarrow> content (cn_outgoing conn) \<noteq> [] \<Longrightarrow> handle_write WrPipe md conn net = Some Died"
  using content_empty by (simp add: handle_write_def)

lemma handle_write_run:
  assumes ok: "bufs_ok conn" "cn_want_read conn = False" "cn_want_write conn = True"
    and out: "content (cn_outgoing conn) \<noteq> []" and more: "cn_want_close conn \<or> needs_more (content (cn_incoming conn))"
    and net: "0 \<le> nt_epoll_fd net" "nt_interest net (cn_fd conn) \<noteq> None" and pipe: "wr \<noteq> WrPipe"
  shows "\<exists>conn' net'. handle_write wr md conn net = Some (Returned (conn', net')) \<and> net_frame (cn_fd conn) net net' \<and>
    cn_fd conn' = cn_fd conn \<and> cn_last_active_ms conn' = cn_last_active_ms conn \<and> cn_incoming conn' = cn_incoming conn \<and>
    conn_left md net conn' net' \<and>
    nt_read net' = nt_read net \<and> fd_sent net' (cn_fd conn) @ content (cn_outgoing conn') = fd_sent net (cn_fd conn) @ content (cn_outgoing conn) \<and>
    (wr \<noteq> WrError \<longrightarrow> cn_want_close conn' = cn_want_close conn) \<and>
    content (cn_outgoing conn') = (case wr of WrDone n \<Rightarrow> drop n (content (cn_outgoing conn)) | _ \<Rightarrow> content (cn_outgoing conn))"
proof -
  let ?out = "cn_outgoing conn"
  have b: "buf_ok ?out" "bf_placeholder_stack ?out = []" using ok(1) by (simp_all add: bufs_ok_def)
  have ne: "readable_size ?out \<noteq> 0" using out content_empty [OF b(1)] by simp
  show ?thesis
  proof (cases wr)
    case WrAgain
    then show ?thesis
      using ne ok out more net net_frame_epoll [of conn net md]
      by (auto simp: handle_write_def conn_left_def conn_ok_def conn_ready_def epoll_interest)
  next
    case WrError
    then show ?thesis using ne by (auto simp: handle_write_def conn_left_def)
  next
    case WrPipe
    then show ?thesis using pipe by simp
  next
    case (WrDone n)
    let ?o1 = "consume ?out n"
    let ?net = "kernel_write (cn_fd conn) (take n (content ?out)) net"
    have o1: "buf_ok ?o1" "content ?o1 = drop n (content ?out)" "bf_placeholder_stack ?o1 = []"
      using consume_run [OF b, of n] by (simp_all add: marks_nil)
    have left: "net_frame (cn_fd conn) net (epoll_update_interest md c ?net) \<and> conn_left md net c (epoll_update_interest md c ?net)"
      if "cn_fd c = cn_fd conn" "cn_want_close c \<or> conn_ready c" for c
    proof
      show "net_frame (cn_fd conn) net (epoll_update_interest md c ?net)"
        using net_frame_trans [OF net_frame_kernel(2) net_frame_epoll [of c _ md]] that(1) by simp
      have "nt_interest (epoll_update_interest md c ?net) = (if md
        then (nt_interest net)(cn_fd c \<mapsto> (cn_want_read c, cn_want_write c)) else nt_interest net)"
        using epoll_interest [of ?net c md] net that(1) by simp
      then show "conn_left md net c (epoll_update_interest md c ?net)"
        using that(2) net(1) by (auto simp: conn_left_def conn_ok_ready)
    qed
    show ?thesis
    proof (cases "readable_size ?o1 = 0")
      case True
      obtain o2 where o2: "shrink_if_wasteful ?o1 (2 ^ 20) = Some o2" "buf_ok o2" "content o2 = content ?o1" "marks o2 = []"
        using shrink_run [OF o1(1), of "2 ^ 20"] o1(3) by (auto simp: marks_nil [symmetric])
      let ?c = "conn\<lparr>cn_want_write := False, cn_want_read := True, cn_outgoing := o2\<rparr>"
      have empty: "content o2 = []" using o2(3) True content_empty [OF o1(1)] by simp
      have "handle_write wr md conn net = Some (Returned (?c, epoll_update_interest md ?c ?net))"
        using ne WrDone True o2(1) by (simp add: handle_write_def Let_def)
      moreover have "cn_want_close ?c \<or> conn_ready ?c"
        using ok(1) more empty o2(2,4) by (auto simp: conn_ready_def bufs_ok_def marks_nil)
      ultimately show ?thesis using left [of ?c] WrDone o2(3) o1(2) by simp
    next
      case False
      let ?c = "conn\<lparr>cn_outgoing := ?o1\<rparr>"
      have "content ?o1 \<noteq> []" using False content_empty [OF o1(1)] by simp
      then have "cn_want_close ?c \<or> conn_ready ?c"
        using ok more o1 by (auto simp: conn_ready_def bufs_ok_def)
      moreover have "handle_write wr md conn net = Some (Returned (?c, epoll_update_interest md ?c ?net))"
        using ne WrDone False by (simp add: handle_write_def Let_def)
      ultimately show ?thesis using left [of ?c] WrDone o1(2) by simp
    qed
  qed
qed


text \<open>The three ways the incoming buffer may be shrunk or not.\<close>

lemma incoming_shrunk:
  assumes "buf_ok inc"
  shows "\<exists>inc'. (if readable_size inc = 0 then shrink_if_wasteful inc 4096
      else if 2 ^ 20 < capacity inc \<and> readable_size inc < capacity inc div 8 \<and> readable_size inc < 4096
      then shrink_if_wasteful inc 4096 else Some inc) = Some inc' \<and>
    buf_ok inc' \<and> content inc' = content inc \<and> marks inc' = marks inc"
  using shrink_run [OF assms, of 4096] assms by auto

definition read_len :: "io_read \<Rightarrow> nat" where
  "read_len io = (case io of RdBytes data \<Rightarrow> length data | _ \<Rightarrow> 0)"

text \<open>What follows the loop over the requests: the buffers, the registration and the first try to write.\<close>

lemma handle_read_finish:
  assumes ok: "conn_ok conn net" "cn_want_read conn"
    and i1: "buf_append (cn_incoming conn) data = Some inc1"
    and p: "process_requests serve st (conn\<lparr>cn_incoming := inc1\<rparr>) = Some (Returned (st', c2))" "bufs_ok c2"
      "same_intents (conn\<lparr>cn_incoming := inc1\<rparr>) c2" "cn_want_close c2 \<or> needs_more (content (cn_incoming c2))"
  shows "(handle_read serve st (RdBytes data) wr md conn net = Some Died \<and> wr = WrPipe \<and> content (cn_outgoing c2) \<noteq> []) \<or>
    (\<exists>conn' net'. handle_read serve st (RdBytes data) wr md conn net = Some (Returned (st', conn', net')) \<and>
    (wr = WrPipe \<longrightarrow> content (cn_outgoing c2) = []) \<and>
    net_frame (cn_fd conn) net net' \<and> cn_fd conn' = cn_fd conn \<and> cn_last_active_ms conn' = cn_last_active_ms conn \<and>
    conn_left md net conn' net' \<and> content (cn_incoming conn') = content (cn_incoming c2) \<and>
    fd_read net' (cn_fd conn) = fd_read net (cn_fd conn) @ data \<and>
    fd_sent net' (cn_fd conn) @ content (cn_outgoing conn') = fd_sent net (cn_fd conn) @ content (cn_outgoing c2) \<and>
    (wr = WrAgain \<longrightarrow> cn_want_close conn' = cn_want_close c2 \<and> content (cn_outgoing conn') = content (cn_outgoing c2)) \<and>
    (\<forall>m. wr = WrDone m \<longrightarrow> cn_want_close conn' = cn_want_close c2 \<and> content (cn_outgoing conn') = drop m (content (cn_outgoing c2))))"
proof -
  note b2 = p(2) and si = p(3)
  obtain inc3 where i3: "(if readable_size (cn_incoming c2) = 0 then shrink_if_wasteful (cn_incoming c2) 4096
      else if 2 ^ 20 < capacity (cn_incoming c2) \<and> readable_size (cn_incoming c2) < capacity (cn_incoming c2) div 8 \<and>
        readable_size (cn_incoming c2) < 4096
      then shrink_if_wasteful (cn_incoming c2) 4096 else Some (cn_incoming c2)) = Some inc3"
    "buf_ok inc3" "content inc3 = content (cn_incoming c2)" "marks inc3 = marks (cn_incoming c2)"
    using incoming_shrunk b2 unfolding bufs_ok_def by blast
  let ?c3 = "c2\<lparr>cn_incoming := inc3\<rparr>" and ?net = "kernel_read (cn_fd conn) data net"
  have b3: "bufs_ok ?c3" using b2 i3 by (auto simp: bufs_ok_def marks_nil [symmetric])
  have more3: "cn_want_close ?c3 \<or> needs_more (content (cn_incoming ?c3))" using p(4) i3(3) by simp
  have fd: "cn_fd ?c3 = cn_fd conn" "cn_last_active_ms ?c3 = cn_last_active_ms conn"
    using si by (simp_all add: same_intents_def)
  have net: "0 \<le> nt_epoll_fd ?net" "nt_interest ?net (cn_fd conn) \<noteq> None" using ok(1) by (simp_all add: conn_ok_def)
  show ?thesis
  proof (cases "content (cn_outgoing c2) = []")
    case True
    then have "readable_size (cn_outgoing ?c3) = 0" using b2 content_empty by (simp add: bufs_ok_def)
    then have "handle_read serve st (RdBytes data) wr md conn net = Some (Returned (st', ?c3, epoll_update_interest md ?c3 ?net))"
      using i1 p(1) i3(1) by (simp add: handle_read_def Let_def)
    moreover have "cn_want_read ?c3" "\<not> cn_want_write ?c3"
      using si ok by (auto simp: same_intents_def conn_ok_def)
    then have "cn_want_close ?c3 \<or> conn_ready ?c3"
      using b3 more3 True by (auto simp: conn_ready_def)
    then have "conn_left md net ?c3 (epoll_update_interest md ?c3 ?net)"
      using epoll_interest [of ?net ?c3 md] net fd by (auto simp: conn_left_def conn_ok_ready)
    moreover have "net_frame (cn_fd conn) net (epoll_update_interest md ?c3 ?net)"
      using net_frame_trans [OF net_frame_kernel(1) net_frame_epoll [of ?c3 _ md]] fd(1) by simp
    ultimately show ?thesis using fd i3(3) True
      by (intro disjI2 exI [of _ ?c3] exI [of _ "epoll_update_interest md ?c3 ?net"]) simp
  next
    case False
    let ?c4 = "?c3\<lparr>cn_want_read := False, cn_want_write := True\<rparr>"
    have b4: "bufs_ok ?c4" using b3 by (simp add: bufs_ok_def)
    have out: "0 < readable_size (cn_outgoing ?c3)" using False b2 content_empty by (simp add: bufs_ok_def)
    show ?thesis
    proof (cases "wr = WrPipe")
      case True
      have "handle_write wr md ?c4 ?net = Some Died"
        unfolding True by (rule handle_write_pipe) (use b4 False in \<open>simp_all add: bufs_ok_def\<close>)
      then show ?thesis using i1 p(1) i3(1) out True False by (simp add: handle_read_def Let_def)
    next
      case np: False
      from b4 obtain c5 net' where w: "handle_write wr md ?c4 ?net = Some (Returned (c5, net'))" "net_frame (cn_fd ?c4) ?net net'"
        "cn_fd c5 = cn_fd ?c4" "cn_last_active_ms c5 = cn_last_active_ms ?c4" "cn_incoming c5 = cn_incoming ?c4"
        "conn_left md ?net c5 net'" "nt_read net' = nt_read ?net"
        "fd_sent net' (cn_fd ?c4) @ content (cn_outgoing c5) = fd_sent ?net (cn_fd ?c4) @ content (cn_outgoing ?c4)"
        "wr \<noteq> WrError \<longrightarrow> cn_want_close c5 = cn_want_close ?c4"
        "content (cn_outgoing c5) = (case wr of WrDone n \<Rightarrow> drop n (content (cn_outgoing ?c4)) | _ \<Rightarrow> content (cn_outgoing ?c4))"
        using handle_write_run [of ?c4 ?net wr md] more3 False net fd np by auto
      have "handle_read serve st (RdBytes data) wr md conn net = Some (Returned (st', c5, net'))"
        using i1 p(1) i3(1) w(1) out by (simp add: handle_read_def Let_def)
      moreover have "net_frame (cn_fd conn) net net'" "nt_sock net' = nt_sock net"
        using net_frame_trans [OF net_frame_kernel(1)] w(2) fd(1) net_frame_sock [OF w(2)] by simp_all
      moreover have "conn_left md net c5 net'" using w(6) by (simp add: conn_left_def split: if_splits)
      ultimately show ?thesis using w(3-5,7-10) fd i3(3) np
        by (intro disjI2 exI [of _ c5] exI [of _ net']) simp
    qed
  qed
qed

lemma handle_read_run:
  assumes r: "responds serve R spec" and st: "R k st A" and ok: "conn_ok conn net" and rd: "cn_want_read conn"
    and k: "length (content (cn_incoming conn)) + read_len io + n \<le> k"
  shows "(handle_read serve st io wr md conn net = Some Died \<and> (\<exists>data. io = RdBytes data \<and> (oversized (content (cn_incoming conn) @ data) \<or> wr = WrPipe))) \<or>
    (\<exists>st' conn' net' cmds vs A' k'. handle_read serve st io wr md conn net = Some (Returned (st', conn', net')) \<and>
      session spec cmds A vs A' \<and> length (content (cn_incoming conn')) + n \<le> k' \<and> R k' st' A' \<and>
      net_frame (cn_fd conn) net net' \<and> cn_fd conn' = cn_fd conn \<and>
      cn_last_active_ms conn' = cn_last_active_ms conn \<and> conn_left md net conn' net' \<and>
      exchanged cmds vs conn net conn' net')"
proof -
  have nil: "session spec [] A [] A" "length (content (cn_incoming conn)) + n \<le> k" using session_nil k by simp_all
  have quiet: ?thesis if "handle_read serve st io wr md conn net = Some (Returned (st, conn', net))"
    "cn_fd conn' = cn_fd conn" "cn_incoming conn' = cn_incoming conn" "cn_last_active_ms conn' = cn_last_active_ms conn"
    "cn_outgoing conn' = cn_outgoing conn" "cn_want_close conn' \<or> conn_ok conn' net" for conn'
    using that nil st exchanged_none [of conn' conn net]
    by (intro disjI2 exI [of _ st] exI [of _ conn'] exI [of _ net] exI [of _ "[]"] exI [of _ A] exI [of _ k])
      (auto simp: conn_left_def conn_ok_ready)
  show ?thesis
proof (cases io)
  case RdAgain
  then show ?thesis using ok by (intro quiet [of conn]) (simp_all add: handle_read_def)
next
  case RdError
  then show ?thesis by (intro quiet [of "conn\<lparr>cn_want_close := True\<rparr>"]) (simp_all add: handle_read_def)
next
  case RdEof
  then show ?thesis by (intro quiet [of "conn\<lparr>cn_want_close := True\<rparr>"]) (simp_all add: handle_read_def)
next
  case (RdBytes data)
  have b: "bufs_ok conn" "buf_ok (cn_incoming conn)" "bf_placeholder_stack (cn_incoming conn) = []"
    using ok by (auto simp: conn_ok_def bufs_ok_def)
  obtain inc1 where i1: "buf_append (cn_incoming conn) data = Some inc1" "buf_ok inc1"
    "content inc1 = content (cn_incoming conn) @ data" "marks inc1 = []"
    using buf_append_run [OF b(2)] b(3) by (metis marks_nil)
  let ?c1 = "conn\<lparr>cn_incoming := inc1\<rparr>"
  have ok1: "bufs_ok ?c1" using b(1) i1 by (simp add: bufs_ok_def marks_nil)
  have len: "length (content (cn_incoming ?c1)) + n \<le> k" using k i1(3) RdBytes by (simp add: read_len_def)
  from process_requests_total [OF r ok1 st len]
  consider (died) "process_requests serve st ?c1 = Some Died" "oversized (content (cn_incoming ?c1))"
    | (ran) st' c2 cmds vs A' k' where "process_requests serve st ?c1 = Some (Returned (st', c2))" "bufs_ok c2"
        "same_intents ?c1 c2" "cn_want_close c2 \<or> needs_more (content (cn_incoming c2))"
        "session spec cmds A vs A'" "length (content (cn_incoming c2)) + n \<le> k'" "R k' st' A'"
        "content (cn_incoming ?c1) = concat (map request cmds) @ content (cn_incoming c2)"
        "content (cn_outgoing c2) = content (cn_outgoing ?c1) @ frames vs" "\<forall>cmd\<in>set cmds. sendable cmd"
        "no_request (content (cn_incoming c2))" by blast
  then show ?thesis
  proof cases
    case died
    then show ?thesis using RdBytes i1(1,3) by (simp add: handle_read_def)
  next
    case p: (ran st' c2 cmds vs A' k')
    from handle_read_finish [OF ok rd i1(1) p(1-4), of wr md] show ?thesis
    proof (elim disjE exE conjE)
      assume "handle_read serve st (RdBytes data) wr md conn net = Some Died" "wr = WrPipe"
      then show ?thesis using RdBytes by blast
    next
      fix conn' net'
      assume f: "handle_read serve st (RdBytes data) wr md conn net = Some (Returned (st', conn', net'))"
        "net_frame (cn_fd conn) net net'" "cn_fd conn' = cn_fd conn" "cn_last_active_ms conn' = cn_last_active_ms conn"
        "conn_left md net conn' net'" "content (cn_incoming conn') = content (cn_incoming c2)"
        "fd_read net' (cn_fd conn) = fd_read net (cn_fd conn) @ data"
        "fd_sent net' (cn_fd conn) @ content (cn_outgoing conn') = fd_sent net (cn_fd conn) @ content (cn_outgoing c2)"
      have "exchanged cmds vs conn net conn' net'" using f(6-8) p(8-11) i1(3) by (simp add: exchanged_def)
      then show ?thesis using RdBytes f(1-5) p(5,7) p(6) [folded f(6)] by blast
    qed
  qed
qed
qed

text \<open>Complete requests are answered, and what the kernel takes of the replies is written at once.\<close>

lemma handle_read_whole:
  assumes r: "responds serve R spec" and st: "R (length cmds + n) st A" and ok: "conn_ok conn net" "cn_want_read conn"
    and data: "content (cn_incoming conn) @ data = concat (map request cmds) @ rest" "\<forall>cmd\<in>set cmds. sendable cmd" "needs_more rest"
  shows "\<exists>st' conn' net' vs A'. handle_read serve st (RdBytes data) (WrDone m) md conn net = Some (Returned (st', conn', net')) \<and>
    session spec cmds A vs A' \<and> R n st' A' \<and> net_frame (cn_fd conn) net net' \<and> cn_fd conn' = cn_fd conn \<and>
    cn_last_active_ms conn' = cn_last_active_ms conn \<and> \<not> cn_want_close conn' \<and> conn_left md net conn' net' \<and> content (cn_incoming conn') = rest \<and>
    fd_read net' (cn_fd conn) = fd_read net (cn_fd conn) @ data \<and>
    fd_sent net' (cn_fd conn) = fd_sent net (cn_fd conn) @ take m (frames vs) \<and> content (cn_outgoing conn') = drop m (frames vs)"
proof -
  have b: "bufs_ok conn" "buf_ok (cn_incoming conn)" "bf_placeholder_stack (cn_incoming conn) = []"
    using ok by (auto simp: conn_ok_def bufs_ok_def)
  obtain inc1 where i1: "buf_append (cn_incoming conn) data = Some inc1" "buf_ok inc1"
    "content inc1 = content (cn_incoming conn) @ data" "marks inc1 = []"
    using buf_append_run [OF b(2)] b(3) by (metis marks_nil)
  let ?c1 = "conn\<lparr>cn_incoming := inc1\<rparr>"
  have ok1: "bufs_ok ?c1" using b(1) i1 by (simp add: bufs_ok_def marks_nil)
  have c1: "content (cn_incoming ?c1) = concat (map request cmds) @ rest" using i1(3) data(1) by simp
  from process_requests_run [OF r st ok1 c1 data(2,3)] obtain st' A' vs c2 where
    p: "process_requests serve st ?c1 = Some (Returned (st', c2))" "session spec cmds A vs A'" "R n st' A'" "bufs_ok c2"
      "same_intents ?c1 c2" "cn_want_close c2 = cn_want_close ?c1" "content (cn_incoming c2) = rest"
      "content (cn_outgoing c2) = content (cn_outgoing ?c1) @ frames vs" by blast
  have "cn_want_close c2 \<or> needs_more (content (cn_incoming c2))" using p(7) data(3) by simp
  from handle_read_finish [OF ok i1(1) p(1,4,5) this, of "WrDone m" md] obtain conn' net' where
    f: "handle_read serve st (RdBytes data) (WrDone m) md conn net = Some (Returned (st', conn', net'))"
      "net_frame (cn_fd conn) net net'" "cn_fd conn' = cn_fd conn" "cn_last_active_ms conn' = cn_last_active_ms conn"
      "conn_left md net conn' net'" "content (cn_incoming conn') = content (cn_incoming c2)"
      "fd_read net' (cn_fd conn) = fd_read net (cn_fd conn) @ data"
      "fd_sent net' (cn_fd conn) @ content (cn_outgoing conn') = fd_sent net (cn_fd conn) @ content (cn_outgoing c2)"
      "cn_want_close conn' = cn_want_close c2" "content (cn_outgoing conn') = drop m (content (cn_outgoing c2))" by fastforce
  have out: "content (cn_outgoing c2) = frames vs" "\<not> cn_want_close conn'"
    using p(6,8) f(9) ok by (simp_all add: conn_ok_def)
  have "fd_sent net' (cn_fd conn) @ drop m (frames vs) = (fd_sent net (cn_fd conn) @ take m (frames vs)) @ drop m (frames vs)"
    using f(8,10) out(1) by simp
  then have "fd_sent net' (cn_fd conn) = fd_sent net (cn_fd conn) @ take m (frames vs)" by (simp only: append_same_eq)
  moreover have "content (cn_incoming conn') = rest" "content (cn_outgoing conn') = drop m (frames vs)"
    using f(6,10) out p(7) by simp_all
  ultimately show ?thesis using f(1-5,7) out(2) p(2,3) by blast
qed

end
