(* ===== verification/Commands.thy ===== *)
theory Commands
  imports Db Numbers Conn
begin

text \<open>
  The commands of \<open>src/server/commands.cc\<close> and their dispatcher in \<open>src/server/conn.cc\<close>.
  Each takes the arguments, the state and the output buffer and returns both updated; the
  result \<open>None\<close> is an invalid access, a signed overflow or a failed assertion somewhere below. Arguments
  are read with \<open>vec_get\<close>, so that an index beyond the arguments would be \<open>None\<close>.
\<close>

definition do_get :: "bytes list \<Rightarrow> GlobalData \<Rightarrow> Buffer \<Rightarrow> (GlobalData \<times> Buffer) option" where
  "do_get cmd g b = do {
     key \<leftarrow> vec_get cmd 1;
     (node, g1) \<leftarrow> db_lookup g key;
     (case node of
        None \<Rightarrow> do { b1 \<leftarrow> out_nil b; Some (g1, b1) }
      | Some ent \<Rightarrow> do {
          e \<leftarrow> gd_entry g1 ent;
          (if en_type e \<noteq> T_STR then do {
             b1 \<leftarrow> out_err b (err_code ERR_BAD_TYP) (str_bytes ''not a string value''); Some (g1, b1) }
           else do { b1 \<leftarrow> out_str b (en_str e); Some (g1, b1) })
        })
   }"

definition do_set :: "bytes list \<Rightarrow> GlobalData \<Rightarrow> Buffer \<Rightarrow> (GlobalData \<times> Buffer) option" where
  "do_set cmd g b = do {
     key \<leftarrow> vec_get cmd 1;
     str \<leftarrow> vec_get cmd 2;
     (node, g1) \<leftarrow> db_lookup g key;
     (case node of
        Some ent \<Rightarrow> do {
          e \<leftarrow> gd_entry g1 ent;
          (if en_type e \<noteq> T_STR then do {
             b1 \<leftarrow> out_err b (err_code ERR_BAD_TYP) (str_bytes ''a non-string value exists''); Some (g1, b1) }
           else do {
             b1 \<leftarrow> out_nil b;
             Some (g1\<lparr>gd_entry := (gd_entry g1)(ent \<mapsto> e\<lparr>en_str := str\<rparr>)\<rparr>, b1) })
        }
      | None \<Rightarrow> do {
          (ent, g2) \<leftarrow> db_insert g1 T_STR key str;
          b1 \<leftarrow> out_nil b;
          Some (g2, b1)
        })
   }"

definition do_del :: "bytes list \<Rightarrow> GlobalData \<Rightarrow> Buffer \<Rightarrow> (GlobalData \<times> Buffer) option" where
  "do_del cmd g b = do {
     key \<leftarrow> vec_get cmd 1;
     (node, g1) \<leftarrow> db_delete g key;
     g2 \<leftarrow> (case node of Some ent \<Rightarrow> entry_del g1 ent | None \<Rightarrow> Some g1);
     b1 \<leftarrow> out_int b (if node \<noteq> None then 1 else 0);
     Some (g2, b1)
   }"

definition cb_keys :: "(addr \<rightharpoonup> Entry) \<Rightarrow> addr \<Rightarrow> Buffer option \<Rightarrow> bool \<times> Buffer option" where
  "cb_keys ents node buf = (True, do { b \<leftarrow> buf; e \<leftarrow> ents node; out_str b (en_key e) })"

definition do_keys :: "bytes list \<Rightarrow> GlobalData \<Rightarrow> Buffer \<Rightarrow> (GlobalData \<times> Buffer) option" where
  "do_keys cmd g b = do {
     b1 \<leftarrow> out_arr b (ucast (hm_size (gd_db g)));
     buf \<leftarrow> hm_foreach (gd_node g) (gd_db g) (cb_keys (gd_entry g)) (Some b1);
     b2 \<leftarrow> buf;
     Some (g, b2)
   }"


subsection \<open>Sorted sets\<close>

definition do_zadd :: "bytes list \<Rightarrow> GlobalData \<Rightarrow> Buffer \<Rightarrow> (GlobalData \<times> Buffer) option" where
  "do_zadd cmd g b = do {
     arg2 \<leftarrow> vec_get cmd 2;
     (case str2dbl arg2 of
        None \<Rightarrow> do { b1 \<leftarrow> out_err b (err_code ERR_BAD_ARG) (str_bytes ''expect float''); Some (g, b1) }
      | Some score \<Rightarrow> do {
          key \<leftarrow> vec_get cmd 1;
          (hnode, g1) \<leftarrow> db_lookup g key;
          (ent, g2) \<leftarrow> (case hnode of None \<Rightarrow> db_insert g1 T_ZSET key [] | Some ent \<Rightarrow> Some (ent, g1));
          e \<leftarrow> gd_entry g2 ent;
          (if en_type e \<noteq> T_ZSET then do {
             b1 \<leftarrow> out_err b (err_code ERR_BAD_TYP) (str_bytes ''expect zset''); Some (g2, b1) }
           else do {
             name \<leftarrow> vec_get cmd 3;
             (added, zm, zset) \<leftarrow> zset_insert (gd_zmem g2) (en_zset e) name score;
             b1 \<leftarrow> out_int b (if added then 1 else 0);
             Some (g2\<lparr>gd_zmem := zm, gd_entry := (gd_entry g2)(ent \<mapsto> e\<lparr>en_zset := zset\<rparr>)\<rparr>, b1)
           })
        })
   }"

text \<open>A pointer to a sorted set: the shared empty one, which is constant, or that of an entry.\<close>

datatype zref = EmptyZ | ZOf addr

fun zref_get :: "GlobalData \<Rightarrow> zref \<Rightarrow> ZSet option" where
  "zref_get g EmptyZ = Some zset_zero"
| "zref_get g (ZOf ent) = map_option en_zset (gd_entry g ent)"

fun zref_set :: "GlobalData \<Rightarrow> zref \<Rightarrow> ZSet \<Rightarrow> GlobalData option" where
  "zref_set g EmptyZ zset = (if zset = zset_zero then Some g else None)"
| "zref_set g (ZOf ent) zset = do {
     ents \<leftarrow> modify_at (gd_entry g) ent (\<lambda>e. e\<lparr>en_zset := zset\<rparr>); Some (g\<lparr>gd_entry := ents\<rparr>) }"

definition expect_zset :: "GlobalData \<Rightarrow> bytes \<Rightarrow> (zref option \<times> GlobalData) option" where
  "expect_zset g s = do {
     (hnode, g1) \<leftarrow> db_lookup g s;
     (case hnode of
        None \<Rightarrow> Some (Some EmptyZ, g1)
      | Some ent \<Rightarrow> do { e \<leftarrow> gd_entry g1 ent; Some (if en_type e = T_ZSET then Some (ZOf ent) else None, g1) })
   }"

text \<open>\<open>zset_lookup\<close> through such a pointer.\<close>

definition zref_lookup :: "GlobalData \<Rightarrow> zref \<Rightarrow> bytes \<Rightarrow> (ptr \<times> GlobalData) option" where
  "zref_lookup g z name = do {
     zset \<leftarrow> zref_get g z;
     (p, zm, zset1) \<leftarrow> zset_lookup (gd_zmem g) zset name;
     g1 \<leftarrow> zref_set (g\<lparr>gd_zmem := zm\<rparr>) z zset1;
     Some (p, g1)
   }"

definition do_zrem :: "bytes list \<Rightarrow> GlobalData \<Rightarrow> Buffer \<Rightarrow> (GlobalData \<times> Buffer) option" where
  "do_zrem cmd g b = do {
     key \<leftarrow> vec_get cmd 1;
     (zset, g1) \<leftarrow> expect_zset g key;
     (case zset of
        None \<Rightarrow> do { b1 \<leftarrow> out_err b (err_code ERR_BAD_TYP) (str_bytes ''expect zset''); Some (g1, b1) }
      | Some z \<Rightarrow> do {
          name \<leftarrow> vec_get cmd 2;
          (znode, g2) \<leftarrow> zref_lookup g1 z name;
          g3 \<leftarrow> (case znode of
                   None \<Rightarrow> Some g2
                 | Some a \<Rightarrow> do {
                     zs \<leftarrow> zref_get g2 z;
                     (zm, zs1) \<leftarrow> zset_delete (gd_zmem g2) zs a;
                     zref_set (g2\<lparr>gd_zmem := zm\<rparr>) z zs1 });
          b1 \<leftarrow> out_int b (if znode \<noteq> None then 1 else 0);
          Some (g3, b1)
        })
   }"

definition do_zscore :: "bytes list \<Rightarrow> GlobalData \<Rightarrow> Buffer \<Rightarrow> (GlobalData \<times> Buffer) option" where
  "do_zscore cmd g b = do {
     key \<leftarrow> vec_get cmd 1;
     (zset, g1) \<leftarrow> expect_zset g key;
     (case zset of
        None \<Rightarrow> do { b1 \<leftarrow> out_err b (err_code ERR_BAD_TYP) (str_bytes ''expect zset''); Some (g1, b1) }
      | Some z \<Rightarrow> do {
          name \<leftarrow> vec_get cmd 2;
          (znode, g2) \<leftarrow> zref_lookup g1 z name;
          (case znode of
             Some a \<Rightarrow> do { n \<leftarrow> zm_node (gd_zmem g2) a; b1 \<leftarrow> out_dbl b (zn_score n); Some (g2, b1) }
           | None \<Rightarrow> do { b1 \<leftarrow> out_nil b; Some (g2, b1) })
        })
   }"

text \<open>The output loop of \<open>do_zquery\<close>.\<close>

partial_function (option) zquery_loop :: "zmem \<Rightarrow> int \<Rightarrow> ptr \<Rightarrow> int \<Rightarrow> Buffer \<Rightarrow> (int \<times> Buffer) option" where
  "zquery_loop zm limit znode n b =
     (case znode of
        None \<Rightarrow> Some (n, b)
      | Some a \<Rightarrow>
          if n < limit then do {
            z \<leftarrow> zm_node zm a;
            b1 \<leftarrow> out_str b (take (zn_len z) (zn_name z));
            b2 \<leftarrow> out_dbl b1 (zn_score z);
            znode1 \<leftarrow> znode_offset zm (Some a) 1;
            n1 \<leftarrow> s64 (n + 1);
            zquery_loop zm limit znode1 n1 b2
          } else Some (n, b))"

declare zquery_loop.simps [code]

definition do_zquery :: "bytes list \<Rightarrow> GlobalData \<Rightarrow> Buffer \<Rightarrow> (GlobalData \<times> Buffer) option" where
  "do_zquery cmd g b = do {
     arg2 \<leftarrow> vec_get cmd 2;
     (case str2dbl arg2 of
        None \<Rightarrow> do { b1 \<leftarrow> out_err b (err_code ERR_BAD_ARG) (str_bytes ''expect fp number''); Some (g, b1) }
      | Some score \<Rightarrow> do {
          name \<leftarrow> vec_get cmd 3;
          arg4 \<leftarrow> vec_get cmd 4;
          arg5 \<leftarrow> vec_get cmd 5;
          (case (str2int arg4, str2int arg5) of
             (Some offset, Some limit) \<Rightarrow> do {
               key \<leftarrow> vec_get cmd 1;
               (zset, g1) \<leftarrow> expect_zset g key;
               (case zset of
                  None \<Rightarrow> do { b1 \<leftarrow> out_err b (err_code ERR_BAD_TYP) (str_bytes ''expect zset''); Some (g1, b1) }
                | Some z \<Rightarrow>
                    if limit \<le> 0 then do { b1 \<leftarrow> out_arr b 0; Some (g1, b1) }
                    else do {
                      zs \<leftarrow> zref_get g1 z;
                      znode \<leftarrow> zset_seekge (gd_zmem g1) zs score name;
                      znode1 \<leftarrow> znode_offset (gd_zmem g1) znode offset;
                      b1 \<leftarrow> out_begin_arr b;
                      (n, b2) \<leftarrow> zquery_loop (gd_zmem g1) limit znode1 0 b1;
                      n2 \<leftarrow> s64 (n * 2);
                      b3 \<leftarrow> out_end_arr b2 (word_of_int n2);
                      Some (g1, b3)
                    })
             }
           | _ \<Rightarrow> do { b1 \<leftarrow> out_err b (err_code ERR_BAD_ARG) (str_bytes ''expect int''); Some (g, b1) })
        })
   }"

definition do_zrank :: "bytes list \<Rightarrow> GlobalData \<Rightarrow> Buffer \<Rightarrow> (GlobalData \<times> Buffer) option" where
  "do_zrank cmd g b = do {
     key \<leftarrow> vec_get cmd 1;
     (zset, g1) \<leftarrow> expect_zset g key;
     (case zset of
        None \<Rightarrow> do { b1 \<leftarrow> out_err b (err_code ERR_BAD_TYP) (str_bytes ''expect zset''); Some (g1, b1) }
      | Some z \<Rightarrow> do {
          name \<leftarrow> vec_get cmd 2;
          (znode, g2) \<leftarrow> zref_lookup g1 z name;
          (case znode of
             Some a \<Rightarrow> do { rank \<leftarrow> avl_rank (zm_tree (gd_zmem g2)) a; b1 \<leftarrow> out_int b (word_of_int rank); Some (g2, b1) }
           | None \<Rightarrow> do { b1 \<leftarrow> out_nil b; Some (g2, b1) })
        })
   }"

definition do_zcount :: "bytes list \<Rightarrow> GlobalData \<Rightarrow> Buffer \<Rightarrow> (GlobalData \<times> Buffer) option" where
  "do_zcount cmd g b = do {
     arg2 \<leftarrow> vec_get cmd 2;
     arg4 \<leftarrow> vec_get cmd 4;
     (case (str2dbl arg2, str2dbl arg4) of
        (Some score1, Some score2) \<Rightarrow> do {
          key \<leftarrow> vec_get cmd 1;
          (zset, g1) \<leftarrow> expect_zset g key;
          (case zset of
             None \<Rightarrow> do { b1 \<leftarrow> out_err b (err_code ERR_BAD_TYP) (str_bytes ''expect zset''); Some (g1, b1) }
           | Some z \<Rightarrow> do {
               name1 \<leftarrow> vec_get cmd 3;
               name2 \<leftarrow> vec_get cmd 5;
               zs \<leftarrow> zref_get g1 z;
               znode1 \<leftarrow> zset_seekge (gd_zmem g1) zs score1 name1;
               znode2 \<leftarrow> zset_seekge (gd_zmem g1) zs score2 name2;
               (case (znode1, znode2) of
                  (Some a1, Some a2) \<Rightarrow> do {
                    rank1 \<leftarrow> avl_rank (zm_tree (gd_zmem g1)) a1;
                    rank2 \<leftarrow> avl_rank (zm_tree (gd_zmem g1)) a2;
                    count \<leftarrow> s64 (rank2 - rank1);
                    b1 \<leftarrow> out_int b (word_of_int (if count < 0 then 0 else count));
                    Some (g1, b1)
                  }
                | _ \<Rightarrow> do { b1 \<leftarrow> out_int b 0; Some (g1, b1) })
             })
        }
      | _ \<Rightarrow> do { b1 \<leftarrow> out_err b (err_code ERR_BAD_ARG) (str_bytes ''expect fp number''); Some (g, b1) })
   }"


subsection \<open>Expiration\<close>

definition do_expire :: "bytes list \<Rightarrow> GlobalData \<Rightarrow> Buffer \<Rightarrow> (GlobalData \<times> Buffer) option" where
  "do_expire cmd g b = do {
     arg2 \<leftarrow> vec_get cmd 2;
     (case str2int arg2 of
        None \<Rightarrow> do { b1 \<leftarrow> out_err b (err_code ERR_BAD_ARG) (str_bytes ''expect int64''); Some (g, b1) }
      | Some ttl_ms \<Rightarrow> do {
          key \<leftarrow> vec_get cmd 1;
          (node, g1) \<leftarrow> db_lookup g key;
          g2 \<leftarrow> (case node of Some ent \<Rightarrow> db_set_ttl g1 ent ttl_ms | None \<Rightarrow> Some g1);
          b1 \<leftarrow> out_int b (if node \<noteq> None then 1 else 0);
          Some (g2, b1)
        })
   }"

definition do_ttl :: "bytes list \<Rightarrow> GlobalData \<Rightarrow> Buffer \<Rightarrow> (GlobalData \<times> Buffer) option" where
  "do_ttl cmd g b = do {
     key \<leftarrow> vec_get cmd 1;
     (node, g1) \<leftarrow> db_lookup g key;
     (case node of
        None \<Rightarrow> do { b1 \<leftarrow> out_int b (- 2); Some (g1, b1) }
      | Some ent \<Rightarrow> do {
          idx \<leftarrow> gd_hidx g1 ent;
          (if idx = npos then do { b1 \<leftarrow> out_int b (- 1); Some (g1, b1) }
           else do {
             item \<leftarrow> vec_get (gd_heap g1) idx;
             let expire_at = hi_val item;
             let (now_ms, g2) = get_monotonic_msec g1;
             b1 \<leftarrow> out_int b (if now_ms < expire_at then expire_at - now_ms else 0);
             Some (g2, b1)
           })
        })
   }"


subsection \<open>Dispatch\<close>

definition do_request :: "GlobalData handler" where
  "do_request cmd g b =
     (if length cmd = 2 \<and> cmd ! 0 = str_bytes ''get'' then do_get cmd g b
      else if length cmd = 3 \<and> cmd ! 0 = str_bytes ''set'' then do_set cmd g b
      else if length cmd = 2 \<and> cmd ! 0 = str_bytes ''del'' then do_del cmd g b
      else if length cmd = 1 \<and> cmd ! 0 = str_bytes ''keys'' then do_keys cmd g b
      else if length cmd = 4 \<and> cmd ! 0 = str_bytes ''zadd'' then do_zadd cmd g b
      else if length cmd = 3 \<and> cmd ! 0 = str_bytes ''zrem'' then do_zrem cmd g b
      else if length cmd = 3 \<and> cmd ! 0 = str_bytes ''zscore'' then do_zscore cmd g b
      else if length cmd = 6 \<and> cmd ! 0 = str_bytes ''zquery'' then do_zquery cmd g b
      else if length cmd = 3 \<and> cmd ! 0 = str_bytes ''zrank'' then do_zrank cmd g b
      else if length cmd = 6 \<and> cmd ! 0 = str_bytes ''zcount'' then do_zcount cmd g b
      else if length cmd = 3 \<and> cmd ! 0 = str_bytes ''pexpire'' then do_expire cmd g b
      else if length cmd = 2 \<and> cmd ! 0 = str_bytes ''pttl'' then do_ttl cmd g b
      else do { b1 \<leftarrow> out_err b (err_code ERR_UNKNOWN) (str_bytes ''unknown command''); Some (g, b1) })"

end
