(* ===== verification/Keyspace.thy ===== *)
theory Keyspace
  imports ZSetSpec Numbers Conn
begin

text \<open>
  What the commands promise, without memory: a keyspace is a map from keys to strings or
  sorted lists of entries, a map from keys to expiration times, and the clock. \<open>exec\<close> gives
  the reply and the next keyspace of every command but \<open>keys\<close>, whose order is not
  determined; \<open>db_spec\<close> is the specification of all of them.
\<close>

datatype dvalue = DStr bytes | DZSet "(u64 \<times> bytes) list"

record keyspace =
  ks_map :: "bytes \<rightharpoonup> dvalue"
  ks_ttl :: "bytes \<rightharpoonup> u64"
  ks_clock :: "nat \<Rightarrow> u64"
  ks_tick :: nat

definition err :: "TAG_ERR_CODE \<Rightarrow> string \<Rightarrow> tlv" where
  "err code msg = VErr (err_code code) (str_bytes msg)"

definition count_reply :: "bool \<Rightarrow> tlv" where
  "count_reply p = VInt (if p then 1 else 0)"

definition exec_get :: "bytes \<Rightarrow> keyspace \<Rightarrow> tlv \<times> keyspace" where
  "exec_get k A = (case ks_map A k of
     None \<Rightarrow> VNil
   | Some (DStr s) \<Rightarrow> VStr s
   | Some (DZSet _) \<Rightarrow> err ERR_BAD_TYP ''not a string value'', A)"

definition exec_set :: "bytes \<Rightarrow> bytes \<Rightarrow> keyspace \<Rightarrow> tlv \<times> keyspace" where
  "exec_set k s A = (case ks_map A k of
     Some (DZSet _) \<Rightarrow> (err ERR_BAD_TYP ''a non-string value exists'', A)
   | _ \<Rightarrow> (VNil, A\<lparr>ks_map := (ks_map A)(k \<mapsto> DStr s)\<rparr>))"

definition exec_del :: "bytes \<Rightarrow> keyspace \<Rightarrow> tlv \<times> keyspace" where
  "exec_del k A = (count_reply (ks_map A k \<noteq> None),
     A\<lparr>ks_map := (ks_map A)(k := None), ks_ttl := (ks_ttl A)(k := None)\<rparr>)"

text \<open>The sorted set of a key: an absent key is the empty set, a string is a type error.\<close>

definition zset_of :: "bytes \<Rightarrow> keyspace \<Rightarrow> (u64 \<times> bytes) list option" where
  "zset_of k A = (case ks_map A k of None \<Rightarrow> Some [] | Some (DZSet es) \<Rightarrow> Some es | Some (DStr _) \<Rightarrow> None)"

definition exec_zadd :: "bytes \<Rightarrow> bytes \<Rightarrow> bytes \<Rightarrow> keyspace \<Rightarrow> tlv \<times> keyspace" where
  "exec_zadd k sc name A = (case str2dbl sc of
     None \<Rightarrow> (err ERR_BAD_ARG ''expect float'', A)
   | Some score \<Rightarrow> (case zset_of k A of
       None \<Rightarrow> (err ERR_BAD_TYP ''expect zset'', A)
     | Some es \<Rightarrow> (count_reply (name \<notin> dom (scores es)),
         A\<lparr>ks_map := (ks_map A)(k \<mapsto> DZSet (zs_add (score, name) (zs_remove name es)))\<rparr>)))"

definition exec_zrem :: "bytes \<Rightarrow> bytes \<Rightarrow> keyspace \<Rightarrow> tlv \<times> keyspace" where
  "exec_zrem k name A = (case zset_of k A of
     None \<Rightarrow> (err ERR_BAD_TYP ''expect zset'', A)
   | Some es \<Rightarrow> (count_reply (name \<in> dom (scores es)),
       if name \<in> dom (scores es) then A\<lparr>ks_map := (ks_map A)(k \<mapsto> DZSet (zs_remove name es))\<rparr> else A))"

definition exec_zscore :: "bytes \<Rightarrow> bytes \<Rightarrow> keyspace \<Rightarrow> tlv \<times> keyspace" where
  "exec_zscore k name A = (case zset_of k A of
     None \<Rightarrow> err ERR_BAD_TYP ''expect zset''
   | Some es \<Rightarrow> (case scores es name of None \<Rightarrow> VNil | Some s \<Rightarrow> VDbl s), A)"

text \<open>The index of a name in the order.\<close>

definition zs_index :: "bytes \<Rightarrow> (u64 \<times> bytes) list \<Rightarrow> nat" where
  "zs_index name es = length (takeWhile (\<lambda>e. snd e \<noteq> name) es)"

definition exec_zrank :: "bytes \<Rightarrow> bytes \<Rightarrow> keyspace \<Rightarrow> tlv \<times> keyspace" where
  "exec_zrank k name A = (case zset_of k A of
     None \<Rightarrow> err ERR_BAD_TYP ''expect zset''
   | Some es \<Rightarrow> if name \<in> dom (scores es) then VInt (w64 (zs_index name es)) else VNil, A)"

definition zs_slice :: "u64 \<times> bytes \<Rightarrow> int \<Rightarrow> int \<Rightarrow> (u64 \<times> bytes) list \<Rightarrow> (u64 \<times> bytes) list" where
  "zs_slice e offset limit es =
     (if limit \<le> 0 then []
      else case zs_move (length es) (zs_pos e es) offset of
        None \<Rightarrow> [] | Some i \<Rightarrow> take (nat limit) (drop i es))"

definition entry_values :: "(u64 \<times> bytes) list \<Rightarrow> tlv list" where
  "entry_values es = concat (map (\<lambda>(s, name). [VStr name, VDbl s]) es)"

definition exec_zquery :: "bytes \<Rightarrow> bytes \<Rightarrow> bytes \<Rightarrow> bytes \<Rightarrow> bytes \<Rightarrow> keyspace \<Rightarrow> tlv \<times> keyspace" where
  "exec_zquery k sc name off lim A = (case str2dbl sc of
     None \<Rightarrow> err ERR_BAD_ARG ''expect fp number''
   | Some score \<Rightarrow> (case (str2int off, str2int lim) of
       (Some offset, Some limit) \<Rightarrow> (case zset_of k A of
         None \<Rightarrow> err ERR_BAD_TYP ''expect zset''
       | Some es \<Rightarrow> VArr (entry_values (zs_slice (score, name) offset limit es)))
     | _ \<Rightarrow> err ERR_BAD_ARG ''expect int''), A)"

text \<open>
  As the code counts: from the first bound to the second, but 0 when either lies behind the
  last entry.
\<close>

definition zs_count :: "u64 \<times> bytes \<Rightarrow> u64 \<times> bytes \<Rightarrow> (u64 \<times> bytes) list \<Rightarrow> nat" where
  "zs_count e1 e2 es =
     (if zs_pos e1 es < length es \<and> zs_pos e2 es < length es then zs_pos e2 es - zs_pos e1 es else 0)"

definition exec_zcount :: "bytes \<Rightarrow> bytes \<Rightarrow> bytes \<Rightarrow> bytes \<Rightarrow> bytes \<Rightarrow> keyspace \<Rightarrow> tlv \<times> keyspace" where
  "exec_zcount k sc1 name1 sc2 name2 A = (case (str2dbl sc1, str2dbl sc2) of
     (Some score1, Some score2) \<Rightarrow> (case zset_of k A of
       None \<Rightarrow> err ERR_BAD_TYP ''expect zset''
     | Some es \<Rightarrow> VInt (w64 (zs_count (score1, name1) (score2, name2) es)))
   | _ \<Rightarrow> err ERR_BAD_ARG ''expect fp number'', A)"

definition ks_now :: "keyspace \<Rightarrow> u64" where
  "ks_now A = ks_clock A (ks_tick A)"

definition ks_step :: "keyspace \<Rightarrow> keyspace" where
  "ks_step A = A\<lparr>ks_tick := ks_tick A + 1\<rparr>"

definition exec_expire :: "bytes \<Rightarrow> bytes \<Rightarrow> keyspace \<Rightarrow> tlv \<times> keyspace" where
  "exec_expire k t A = (case str2int t of
     None \<Rightarrow> (err ERR_BAD_ARG ''expect int64'', A)
   | Some ttl \<Rightarrow>
       if ks_map A k = None then (count_reply False, A)
       else (count_reply True,
         if ttl < 0 then A\<lparr>ks_ttl := (ks_ttl A)(k := None)\<rparr>
         else (ks_step A)\<lparr>ks_ttl := (ks_ttl A)(k \<mapsto> ks_now A + word_of_int ttl)\<rparr>))"

definition exec_ttl :: "bytes \<Rightarrow> keyspace \<Rightarrow> tlv \<times> keyspace" where
  "exec_ttl k A =
     (if ks_map A k = None then (VInt (- 2), A)
      else case ks_ttl A k of
        None \<Rightarrow> (VInt (- 1), A)
      | Some t \<Rightarrow> (VInt (if ks_now A < t then t - ks_now A else 0), ks_step A))"

definition exec :: "bytes list \<Rightarrow> keyspace \<Rightarrow> tlv \<times> keyspace" where
  "exec cmd A = (case cmd of
     [c, k] \<Rightarrow>
       if c = str_bytes ''get'' then exec_get k A
       else if c = str_bytes ''del'' then exec_del k A
       else if c = str_bytes ''pttl'' then exec_ttl k A
       else (err ERR_UNKNOWN ''unknown command'', A)
   | [c, k, x] \<Rightarrow>
       if c = str_bytes ''set'' then exec_set k x A
       else if c = str_bytes ''zrem'' then exec_zrem k x A
       else if c = str_bytes ''zscore'' then exec_zscore k x A
       else if c = str_bytes ''zrank'' then exec_zrank k x A
       else if c = str_bytes ''pexpire'' then exec_expire k x A
       else (err ERR_UNKNOWN ''unknown command'', A)
   | [c, k, s, x] \<Rightarrow>
       if c = str_bytes ''zadd'' then exec_zadd k s x A else (err ERR_UNKNOWN ''unknown command'', A)
   | [c, k, s, x, y, z] \<Rightarrow>
       if c = str_bytes ''zquery'' then exec_zquery k s x y z A
       else if c = str_bytes ''zcount'' then exec_zcount k s x y z A
       else (err ERR_UNKNOWN ''unknown command'', A)
   | _ \<Rightarrow> (err ERR_UNKNOWN ''unknown command'', A))"

definition db_spec :: "bytes list \<Rightarrow> keyspace \<Rightarrow> tlv \<Rightarrow> keyspace \<Rightarrow> bool" where
  "db_spec cmd A v A' \<longleftrightarrow>
     (if cmd = [str_bytes ''keys'']
      then A' = A \<and> (\<exists>ks. distinct ks \<and> set ks = dom (ks_map A) \<and> v = VArr (map VStr ks))
      else (v, A') = exec cmd A)"

end
