(* ===== verification/DbProofs.thy ===== *)
theory DbProofs
  imports Commands Keyspace
begin

text \<open>
  The state of the database represents a keyspace: \<open>db_inv g A S F\<close>, where \<open>S\<close> is the set of
  live entries and \<open>F\<close> gives the nodes of the sorted set of every entry, live or waiting for
  background destruction. The lemmas run the steps that the commands are made of.
\<close>

subsection \<open>The invariant\<close>

definition key_of :: "GlobalData \<Rightarrow> addr \<Rightarrow> bytes" where
  "key_of g a = (case gd_entry g a of None \<Rightarrow> [] | Some e \<Rightarrow> en_key e)"

definition ent_val :: "zmem \<Rightarrow> (addr \<Rightarrow> addr list) \<Rightarrow> addr \<Rightarrow> Entry \<Rightarrow> dvalue" where
  "ent_val zm F a e = (if en_type e = T_STR then DStr (en_str e) else DZSet (entries zm (F a)))"

definition live_ok :: "GlobalData \<Rightarrow> keyspace \<Rightarrow> (addr \<Rightarrow> addr list) \<Rightarrow> addr \<Rightarrow> bool" where
  "live_ok g A F a \<longleftrightarrow> (\<exists>e. gd_entry g a = Some e \<and> en_type e \<noteq> T_INIT \<and>
     hcode_is (gd_node g) a (str_hash (en_key e)) \<and>
     ks_map A (en_key e) = Some (ent_val (gd_zmem g) F a e) \<and>
     ks_ttl A (en_key e) = ttl_map (gd_heap g) a)"

definition keys_ok :: "GlobalData \<Rightarrow> keyspace \<Rightarrow> addr set \<Rightarrow> (addr \<Rightarrow> addr list) \<Rightarrow> bool" where
  "keys_ok g A S F \<longleftrightarrow> (\<forall>a\<in>S. live_ok g A F a) \<and> inj_on (key_of g) S \<and>
     dom (ks_map A) = key_of g ` S \<and> dom (ks_ttl A) \<subseteq> key_of g ` S"

text \<open>Everything that owns memory: the live entries and those the thread pool has to destroy.\<close>

abbreviation pending :: "GlobalData \<Rightarrow> addr list" where
  "pending g \<equiv> gd_jobs g @ gd_busy g"

definition owners :: "GlobalData \<Rightarrow> addr set \<Rightarrow> addr set" where
  "owners g S = S \<union> set (pending g)"

definition zset_owned :: "GlobalData \<Rightarrow> (addr \<Rightarrow> addr list) \<Rightarrow> addr \<Rightarrow> bool" where
  "zset_owned g F a \<longleftrightarrow> (\<exists>e. gd_entry g a = Some e \<and>
     (if en_type e = T_ZSET then zset_rep (gd_zmem g) (en_zset e) (F a) else F a = []))"

definition zsets_ok :: "GlobalData \<Rightarrow> addr set \<Rightarrow> (addr \<Rightarrow> addr list) \<Rightarrow> bool" where
  "zsets_ok g S F \<longleftrightarrow> zmem_ok (gd_zmem g) \<and> (\<forall>a\<in>owners g S. zset_owned g F a) \<and>
     (\<forall>a\<in>owners g S. \<forall>b\<in>owners g S. a \<noteq> b \<longrightarrow> set (F a) \<inter> set (F b) = {})"

definition ttl_ok :: "GlobalData \<Rightarrow> addr set \<Rightarrow> bool" where
  "ttl_ok g S \<longleftrightarrow> ttl_inv (gd_heap g, gd_hidx g) \<and> dom (ttl_map (gd_heap g)) \<subseteq> S"

definition jobs_ok :: "GlobalData \<Rightarrow> addr set \<Rightarrow> bool" where
  "jobs_ok g S \<longleftrightarrow> distinct (pending g) \<and> set (pending g) \<inter> S = {}"

definition alloc_ok :: "GlobalData \<Rightarrow> addr set \<Rightarrow> bool" where
  "alloc_ok g S \<longleftrightarrow> 0 < gd_next g \<and> dom (gd_entry g) = owners g S \<and> dom (gd_hidx g) = owners g S \<and>
     (\<forall>a. a = stack_key \<or> gd_next g \<le> a \<longrightarrow> gd_entry g a = None \<and> gd_node g a = None \<and> gd_hidx g a = None)"

definition db_inv :: "GlobalData \<Rightarrow> keyspace \<Rightarrow> addr set \<Rightarrow> (addr \<Rightarrow> addr list) \<Rightarrow> bool" where
  "db_inv g A S F \<longleftrightarrow> hm_holds (gd_node g) (gd_db g) S \<and> keys_ok g A S F \<and> zsets_ok g S F \<and>
     ttl_ok g S \<and> jobs_ok g S \<and> alloc_ok g S \<and> ks_clock A = msec_of \<circ> gd_clock g \<and> ks_tick A = gd_tick g"

text \<open>Room for \<open>n\<close> more commands before a counter of the code could wrap.\<close>

definition room :: "nat \<Rightarrow> addr set \<Rightarrow> (addr \<Rightarrow> addr list) \<Rightarrow> bool" where
  "room n S F \<longleftrightarrow> card S + n < 2 ^ 60 \<and> n < 2 ^ 32 - 2 \<and> (\<forall>a\<in>S. length (F a) + n < 2 ^ 32 - 2)"

lemma room_less: "room (Suc n) S F \<Longrightarrow> room n S F"
  by (auto simp: room_def)

lemma db_invD:
  assumes "db_inv g A S F"
  shows "hm_holds (gd_node g) (gd_db g) S" "keys_ok g A S F" "zsets_ok g S F" "ttl_ok g S" "jobs_ok g S"
    "alloc_ok g S" "ks_clock A = msec_of \<circ> gd_clock g" "ks_tick A = gd_tick g"
  using assms by (simp_all add: db_inv_def)

lemma alloc_okD:
  assumes "alloc_ok g S"
  shows "a = stack_key \<or> gd_next g \<le> a \<Longrightarrow> gd_entry g a = None"
    "a = stack_key \<or> gd_next g \<le> a \<Longrightarrow> gd_node g a = None"
    "a = stack_key \<or> gd_next g \<le> a \<Longrightarrow> gd_hidx g a = None"
    "a = stack_key \<or> gd_next g \<le> a \<Longrightarrow> a \<notin> owners g S"
proof -
  have all: "\<forall>a. a = stack_key \<or> gd_next g \<le> a \<longrightarrow> gd_entry g a = None \<and> gd_node g a = None \<and> gd_hidx g a = None"
    using assms unfolding alloc_ok_def by (elim conjE)
  have dom: "dom (gd_entry g) = owners g S"
    using assms unfolding alloc_ok_def by (elim conjE)
  note at = mp [OF spec [OF all], of a]
  show "a = stack_key \<or> gd_next g \<le> a \<Longrightarrow> gd_entry g a = None" using at by iprover
  show "a = stack_key \<or> gd_next g \<le> a \<Longrightarrow> gd_node g a = None" using at by iprover
  show "a = stack_key \<or> gd_next g \<le> a \<Longrightarrow> gd_hidx g a = None" using at by iprover
  show "a = stack_key \<or> gd_next g \<le> a \<Longrightarrow> a \<notin> owners g S" using at dom by (metis domIff)
qed

lemma live_owner: "a \<in> S \<Longrightarrow> a \<in> owners g S"
  by (simp add: owners_def)

lemma stack_not_live: "alloc_ok g S \<Longrightarrow> stack_key \<notin> S"
  using alloc_okD(4) [of g S stack_key] live_owner by blast

lemma live_entry:
  assumes "db_inv g A S F" "a \<in> S"
  obtains e where "gd_entry g a = Some e" "en_type e \<noteq> T_INIT" "hcode_is (gd_node g) a (str_hash (en_key e))"
    "ks_map A (en_key e) = Some (ent_val (gd_zmem g) F a e)" "ks_ttl A (en_key e) = ttl_map (gd_heap g) a"
    "key_of g a = en_key e"
proof -
  have "live_ok g A F a" using assms by (simp add: db_inv_def keys_ok_def)
  then show ?thesis using that by (auto simp: live_ok_def key_of_def)
qed

subsection \<open>Searching for a key\<close>

lemma entry_hit:
  assumes "db_inv g A S F" "a \<in> S"
  shows "hits (push_key (gd_node g) (str_hash k)) stack_key (entry_eq (gd_entry g) k) a \<longleftrightarrow> key_of g a = k"
proof -
  obtain e where e: "gd_entry g a = Some e" "hcode_is (gd_node g) a (str_hash (en_key e))" "key_of g a = en_key e"
    using live_entry [OF assms] by metis
  have "a \<noteq> stack_key" using stack_not_live [OF db_invD(6) [OF assms(1)]] assms(2) by blast
  then show ?thesis using e by (auto simp: hits_def entry_eq_def hcode_is_def)
qed

lemma db_push:
  assumes "db_inv g A S F"
  shows "hm_holds (push_key (gd_node g) h) (gd_db g) S"
proof (rule hm_holds_cong [OF db_invD(1) [OF assms]])
  fix x assume "x \<in> S"
  then have "x \<noteq> stack_key" using stack_not_live [OF db_invD(6) [OF assms]] by blast
  then show "push_key (gd_node g) h x = gd_node g x" by simp
qed

lemma db_pop:
  assumes "db_inv g A S F" "next_frame S (push_key (gd_node g) h) m"
  shows "next_frame S (gd_node g) (pop_key m)"
proof (rule pop_frame [OF assms(2)])
  show "S \<inter> {stack_key} = {}" using stack_not_live [OF db_invD(6) [OF assms(1)]] by blast
  show "gd_node g stack_key = None" using alloc_okD(2) [OF db_invD(6) [OF assms(1)]] by blast
qed

text \<open>The links of the hash table may change at any time.\<close>

lemma db_inv_links:
  assumes "db_inv g A S F" "hm_holds m h S" "next_frame S (gd_node g) m"
  shows "db_inv (g\<lparr>gd_node := m, gd_db := h\<rparr>) A S F"
proof -
  let ?g = "g\<lparr>gd_node := m, gd_db := h\<rparr>"
  note d = db_invD [OF assms(1)]
  have "live_ok ?g A F a" if "a \<in> S" for a
  proof -
    have "live_ok g A F a" using d(2) that by (simp add: keys_ok_def)
    then show ?thesis by (simp add: live_ok_def hcode_is_frame [OF assms(3)])
  qed
  moreover have "key_of ?g = key_of g" by (simp add: key_of_def fun_eq_iff)
  ultimately have "keys_ok ?g A S F" using d(2) by (simp add: keys_ok_def)
  moreover have "zset_owned ?g F = zset_owned g F" by (simp add: zset_owned_def fun_eq_iff)
  then have "zsets_ok ?g S F" using d(3) by (simp add: zsets_ok_def owners_def)
  moreover have "ttl_ok ?g S" using d(4) by (simp add: ttl_ok_def)
  moreover have "jobs_ok ?g S" using d(5) by (simp add: jobs_ok_def)
  moreover have "alloc_ok ?g S"
  proof -
    have "m a = None" if "a = stack_key \<or> gd_next g \<le> a" for a
      using alloc_okD(2) [OF d(6) that] next_frame_alloc [OF assms(3), of a] by simp
    then show ?thesis using d(6) by (simp add: alloc_ok_def owners_def)
  qed
  ultimately show ?thesis using assms(2) d(7,8) by (simp add: db_inv_def)
qed

lemma db_inv_absent:
  assumes "db_inv g A S F" "\<forall>a\<in>S. key_of g a \<noteq> k"
  shows "ks_map A k = None" "ks_ttl A k = None"
proof -
  have d: "dom (ks_map A) = key_of g ` S" "dom (ks_ttl A) \<subseteq> key_of g ` S"
    using db_invD(2) [OF assms(1)] by (simp_all add: keys_ok_def)
  have "k \<notin> key_of g ` S" using assms(2) by blast
  then show "ks_map A k = None" "ks_ttl A k = None" using d by blast+
qed

definition db_found :: "GlobalData \<Rightarrow> keyspace \<Rightarrow> addr set \<Rightarrow> bytes \<Rightarrow> ptr \<Rightarrow> bool" where
  "db_found g A S k p \<longleftrightarrow> (case p of None \<Rightarrow> ks_map A k = None \<and> ks_ttl A k = None
     | Some a \<Rightarrow> a \<in> S \<and> key_of g a = k)"

lemma db_lookup_run:
  assumes "db_inv g A S F"
  shows "\<exists>p m h. db_lookup g k = Some (p, g\<lparr>gd_node := m, gd_db := h\<rparr>) \<and>
    db_inv (g\<lparr>gd_node := m, gd_db := h\<rparr>) A S F \<and> db_found g A S k p"
proof -
  let ?m = "push_key (gd_node g) (str_hash k)" and ?eq = "entry_eq (gd_entry g) k"
  have key: "?m stack_key \<noteq> None" by simp
  obtain p m h where l: "hm_lookup ?m (gd_db g) stack_key ?eq = Some (p, m, h)" "hm_holds m h S" "next_frame S ?m m"
    and p: "case p of None \<Rightarrow> \<forall>x\<in>S. \<not> hits ?m stack_key ?eq x | Some x \<Rightarrow> x \<in> S \<and> hits ?m stack_key ?eq x"
    using hm_lookup_run [OF db_push [OF assms] key, of ?eq] by blast
  have sk: "stack_key \<notin> S" using stack_not_live [OF db_invD(6) [OF assms]] .
  have "db_inv (g\<lparr>gd_node := pop_key m, gd_db := h\<rparr>) A S F"
    using db_inv_links [OF assms hm_pop [OF l(2) sk] db_pop [OF assms l(3)]] .
  moreover have "db_found g A S k p"
  proof (cases p)
    case None
    then have "\<forall>a\<in>S. \<not> hits ?m stack_key ?eq a" using p by simp
    then have "\<forall>a\<in>S. key_of g a \<noteq> k" using entry_hit [OF assms] by blast
    from db_inv_absent [OF assms this] show ?thesis using None by (simp add: db_found_def)
  next
    case (Some a)
    then have "a \<in> S" "hits ?m stack_key ?eq a" using p by simp_all
    then show ?thesis using Some entry_hit [OF assms] by (simp add: db_found_def)
  qed
  ultimately show ?thesis using l(1) by (auto simp: db_lookup_def)
qed

lemma db_delete_run:
  assumes "db_inv g A S F"
  shows "\<exists>p m h. db_delete g k = Some (p, g\<lparr>gd_node := m, gd_db := h\<rparr>) \<and> db_found g A S k p \<and>
    hm_holds m h (case p of None \<Rightarrow> S | Some a \<Rightarrow> S - {a}) \<and> next_frame S (gd_node g) m"
proof -
  let ?m = "push_key (gd_node g) (str_hash k)" and ?eq = "entry_eq (gd_entry g) k"
  have key: "?m stack_key \<noteq> None" by simp
  obtain p m h where l: "hm_delete ?m (gd_db g) stack_key ?eq = Some (p, m, h)" "next_frame S ?m m"
    and p: "case p of None \<Rightarrow> hm_holds m h S \<and> (\<forall>x\<in>S. \<not> hits ?m stack_key ?eq x)
      | Some x \<Rightarrow> hm_holds m h (S - {x}) \<and> x \<in> S \<and> hits ?m stack_key ?eq x"
    using hm_delete_run [OF db_push [OF assms] key, of ?eq] by blast
  have sk: "stack_key \<notin> S" using stack_not_live [OF db_invD(6) [OF assms]] .
  have "db_found g A S k p \<and> hm_holds (pop_key m) h (case p of None \<Rightarrow> S | Some a \<Rightarrow> S - {a})"
  proof (cases p)
    case None
    then have q: "hm_holds m h S" "\<forall>a\<in>S. \<not> hits ?m stack_key ?eq a" using p by simp_all
    then have "\<forall>a\<in>S. key_of g a \<noteq> k" using entry_hit [OF assms] by blast
    from db_inv_absent [OF assms this] show ?thesis using None hm_pop [OF q(1) sk] by (simp add: db_found_def)
  next
    case (Some a)
    then have q: "hm_holds m h (S - {a})" "a \<in> S" "hits ?m stack_key ?eq a" using p by simp_all
    moreover have "stack_key \<notin> S - {a}" using sk by blast
    ultimately show ?thesis
      using Some entry_hit [OF assms q(2)] hm_pop [OF q(1)] by (simp add: db_found_def)
  qed
  then show ?thesis using l(1) db_pop [OF assms l(2)] by (auto simp: db_delete_def)
qed

end
