(* ===== verification/DbOps.thy ===== *)
theory DbOps
  imports DbProofs
begin

text \<open>
  The steps that change the keyspace, run on a represented state: a new entry, a new value
  of an entry, a new TTL, and the removal of an entry with its synchronous or deferred
  destruction.
\<close>

subsection \<open>TTL cells\<close>

lemma ttl_inv_cell:
  assumes "ttl_inv (a, rs)" "ttl_map a e = None"
  shows "ttl_inv (a, rs(e \<mapsto> npos))" "ttl_inv (a, rs(e := None))"
proof -
  have k: "heap_inv a rs" "length a < npos" "\<And>x i. ttl_map a x = None \<Longrightarrow> rs x = Some i \<Longrightarrow> i = npos"
    using assms(1) by (auto simp: ttl_inv_def heapq.kept_def)
  have "hi_ref (a ! i) \<noteq> e" if "i < length a" for i
    using assms(2) that by (auto simp: ttl_map_None)
  then have "heap_inv a (rs(e := v))" for v using k(1) by (simp add: heap_inv_def refs_ok_def)
  then show "ttl_inv (a, rs(e \<mapsto> npos))" "ttl_inv (a, rs(e := None))"
    using k(2,3) by (intro ttl_invI; fastforce split: if_splits)+
qed

lemma heap_size:
  assumes "ttl_inv (a, rs)" "dom (ttl_map a) \<subseteq> S" "finite S"
  shows "length a \<le> card S"
proof -
  have "distinct (map hi_ref a)" using assms(1) heap_inv_distinct by (auto simp: ttl_inv_def heapq.kept_def)
  then have "length a = card (set (map hi_ref a))" by (metis distinct_card length_map)
  also have "set (map hi_ref a) = dom (ttl_map a)" by (simp add: set_eq_iff domIff ttl_map_None del: not_None_eq)
  also have "card (dom (ttl_map a)) \<le> card S" using assms(2,3) by (intro card_mono)
  finally show ?thesis .
qed


subsection \<open>A new entry\<close>

lemma zset_owned_cong:
  "zset_owned g F a \<Longrightarrow> gd_entry g' a = gd_entry g a \<Longrightarrow> gd_zmem g' = gd_zmem g \<Longrightarrow> F' a = F a \<Longrightarrow>
   zset_owned g' F' a"
  by (simp only: zset_owned_def)

lemma db_insert_run:
  assumes inv: "db_inv g A S F" and k: "ks_map A k = None" "ks_ttl A k = None"
    and type: "type = T_STR \<or> type = T_ZSET" and small: "Suc (card S) < 2 ^ 60"
  shows "\<exists>ent g'. db_insert g type k str = Some (ent, g') \<and> ent \<notin> owners g S \<and>
    db_inv g' (A\<lparr>ks_map := (ks_map A)(k \<mapsto> (if type = T_STR then DStr str else DZSet []))\<rparr>)
      (insert ent S) (F(ent := [])) \<and>
    gd_entry g' ent = Some \<lparr>en_key = k, en_type = type, en_str = str, en_zset = zset_zero\<rparr>"
proof -
  note d = db_invD [OF inv]
  let ?x = "gd_next g" and ?A = "A\<lparr>ks_map := (ks_map A)(k \<mapsto> (if type = T_STR then DStr str else DZSet []))\<rparr>"
  let ?e = "\<lparr>en_key = k, en_type = type, en_str = str, en_zset = zset_zero\<rparr>"
  have x: "?x \<notin> owners g S" using alloc_okD(4) [OF d(6), of ?x] by simp
  then have xS: "?x \<notin> S" using live_owner by blast
  let ?node = "(gd_node g)(?x \<mapsto> \<lparr>hn_next = None, hn_hcode = str_hash k\<rparr>)"
  have "hm_holds ?node (gd_db g) S" using xS by (intro hm_holds_cong [OF d(1)]) auto
  then obtain m h where m: "hm_insert ?node (gd_db g) ?x = Some (m, h)" "hm_holds m h (insert ?x S)"
    "next_frame (insert ?x S) ?node m"
    using hm_insert_run [of ?node "gd_db g" S ?x] xS small by auto
  let ?g = "g\<lparr>gd_entry := (gd_entry g)(?x \<mapsto> ?e), gd_node := m, gd_hidx := (gd_hidx g)(?x \<mapsto> npos),
    gd_next := ?x + 1, gd_db := h\<rparr>"
  have run: "db_insert g type k str = Some (?x, ?g)"
    using m(1) by (simp add: db_insert_def entry_new_def Let_def modify_at_def)
  have ow: "owners ?g (insert ?x S) = insert ?x (owners g S)" by (auto simp: owners_def)
  have hc: "hcode_is m a c \<longleftrightarrow> hcode_is ?node a c" for a c by (rule hcode_is_frame [OF m(3)])
  have kd: "\<forall>a\<in>S. live_ok g A F a" "inj_on (key_of g) S" "dom (ks_map A) = key_of g ` S" "dom (ks_ttl A) \<subseteq> key_of g ` S"
    using d(2) by (simp_all add: keys_ok_def)
  have key: "key_of ?g = (key_of g)(?x := k)" by (auto simp: key_of_def fun_eq_iff)
  have fresh: "key_of g a \<noteq> k" if "a \<in> S" for a using kd(3) k(1) that by (metis domIff imageI)
  have tx: "ttl_map (gd_heap g) ?x = None" using d(4) xS by (auto simp: ttl_ok_def)
  have "live_ok ?g ?A (F(?x := [])) a" if a: "a \<in> insert ?x S" for a
  proof (cases "a = ?x")
    case True
    then show ?thesis
      using type k(2) tx hc by (auto simp: live_ok_def ent_val_def entries_def hcode_is_def)
  next
    case False
    then have "a \<in> S" using a by simp
    then obtain e where "gd_entry g a = Some e" "en_type e \<noteq> T_INIT" "hcode_is (gd_node g) a (str_hash (en_key e))"
      "ks_map A (en_key e) = Some (ent_val (gd_zmem g) F a e)" "ks_ttl A (en_key e) = ttl_map (gd_heap g) a"
      "en_key e \<noteq> k"
      using live_entry [OF inv] fresh by metis
    then show ?thesis using False hc by (auto simp: live_ok_def ent_val_def hcode_is_def)
  qed
  moreover have "inj_on (key_of ?g) (insert ?x S)"
    unfolding key using kd(2) xS fresh by (auto simp: inj_on_def)
  moreover have "dom (ks_map ?A) = key_of ?g ` insert ?x S" unfolding key using kd(3) xS by auto
  moreover have "dom (ks_ttl ?A) \<subseteq> key_of ?g ` insert ?x S" unfolding key using kd(4) xS by auto
  ultimately have "keys_ok ?g ?A (insert ?x S) (F(?x := []))" by (simp add: keys_ok_def)
  moreover have "zsets_ok ?g (insert ?x S) (F(?x := []))"
  proof -
    have "zset_owned ?g (F(?x := [])) a" if "a \<in> insert ?x (owners g S)" for a
    proof (cases "a = ?x")
      case True
      then show ?thesis using zset_rep_zero by (simp add: zset_owned_def)
    next
      case False
      then have "zset_owned g F a" using that d(3) by (simp add: zsets_ok_def)
      then show ?thesis using False by (auto elim!: zset_owned_cong)
    qed
    then show ?thesis using d(3) x unfolding zsets_ok_def ow by auto
  qed
  moreover have "ttl_ok ?g (insert ?x S)"
    using d(4) ttl_inv_cell(1) tx by (auto simp: ttl_ok_def)
  moreover have "jobs_ok ?g (insert ?x S)"
    using d(5) x by (auto simp: jobs_ok_def owners_def)
  moreover have "alloc_ok ?g (insert ?x S)"
  proof -
    have "m a = None" if "a = stack_key \<or> ?x + 1 \<le> a" for a
    proof -
      have "a \<noteq> ?x" "a = stack_key \<or> ?x \<le> a"
        using that d(6) by (auto simp: stack_key_def alloc_ok_def)
      then show ?thesis
        using alloc_okD(2) [OF d(6), of a] next_frame_alloc [OF m(3), of a] by simp
    qed
    then show ?thesis
      using d(6) unfolding alloc_ok_def ow by (auto simp: stack_key_def)
  qed
  ultimately have "db_inv ?g ?A (insert ?x S) (F(?x := []))"
    using m(2) d(7,8) by (simp add: db_inv_def)
  then show ?thesis using run x by (intro exI [of _ ?x] exI [of _ ?g]) simp
qed

subsection \<open>A new value\<close>

lemma keys_ok_upd:
  assumes inv: "db_inv g A S F" and a: "a \<in> S" "gd_entry g a = Some e"
    and new: "gd_entry g' = (gd_entry g)(a \<mapsto> e')" "en_key e' = en_key e" "en_type e' = en_type e"
    and same: "gd_node g' = gd_node g" "gd_heap g' = gd_heap g"
    and val: "v = ent_val (gd_zmem g') F' a e'"
    and rest: "\<And>b f. b \<in> S \<Longrightarrow> b \<noteq> a \<Longrightarrow> gd_entry g b = Some f \<Longrightarrow> ent_val (gd_zmem g') F' b f = ent_val (gd_zmem g) F b f"
  shows "keys_ok g' (A\<lparr>ks_map := (ks_map A)(en_key e \<mapsto> v)\<rparr>) S F'"
proof -
  let ?A = "A\<lparr>ks_map := (ks_map A)(en_key e \<mapsto> v)\<rparr>"
  have kd: "inj_on (key_of g) S" "dom (ks_map A) = key_of g ` S" "dom (ks_ttl A) \<subseteq> key_of g ` S"
    using db_invD(2) [OF inv] by (simp_all add: keys_ok_def)
  have key: "key_of g' = key_of g" using new a(2) by (auto simp: key_of_def fun_eq_iff)
  have ka: "key_of g a = en_key e" using a(2) by (simp add: key_of_def)
  have "live_ok g' ?A F' b" if b: "b \<in> S" for b
  proof (cases "b = a")
    case True
    obtain f where "gd_entry g a = Some f" "en_type f \<noteq> T_INIT" "hcode_is (gd_node g) a (str_hash (en_key f))"
      "ks_ttl A (en_key f) = ttl_map (gd_heap g) a"
      using live_entry [OF inv a(1)] by metis
    then show ?thesis using True a(2) new same val by (auto simp: live_ok_def)
  next
    case False
    obtain f where f: "gd_entry g b = Some f" "en_type f \<noteq> T_INIT" "hcode_is (gd_node g) b (str_hash (en_key f))"
      "ks_map A (en_key f) = Some (ent_val (gd_zmem g) F b f)" "ks_ttl A (en_key f) = ttl_map (gd_heap g) b"
      "key_of g b = en_key f"
      using live_entry [OF inv b] by metis
    have "en_key f \<noteq> en_key e" using kd(1) b a(1) False ka f(6) by (metis inj_onD)
    then show ?thesis using False f new(1) same rest [OF b False f(1)] by (auto simp: live_ok_def)
  qed
  moreover have "dom (ks_map ?A) = key_of g' ` S" unfolding key
    using kd(2) imageI [OF a(1), of "key_of g"] ka by auto
  ultimately show ?thesis using kd(1,3) unfolding keys_ok_def key by simp
qed

lemma db_set_str:
  assumes inv: "db_inv g A S F" and a: "a \<in> S" "gd_entry g a = Some e" "en_type e = T_STR"
  shows "db_inv (g\<lparr>gd_entry := (gd_entry g)(a \<mapsto> e\<lparr>en_str := s\<rparr>)\<rparr>)
    (A\<lparr>ks_map := (ks_map A)(en_key e \<mapsto> DStr s)\<rparr>) S F"
proof -
  note d = db_invD [OF inv]
  let ?g = "g\<lparr>gd_entry := (gd_entry g)(a \<mapsto> e\<lparr>en_str := s\<rparr>)\<rparr>"
  have "keys_ok ?g (A\<lparr>ks_map := (ks_map A)(en_key e \<mapsto> DStr s)\<rparr>) S F"
    using a(3) by (intro keys_ok_upd [OF inv a(1,2), where e' = "e\<lparr>en_str := s\<rparr>"]) (simp_all add: ent_val_def)
  moreover have "zset_owned ?g F b" if "zset_owned g F b" for b
    using that a(2,3) by (cases "b = a") (auto simp: zset_owned_def)
  then have "zsets_ok ?g S F" using d(3) by (simp add: zsets_ok_def owners_def)
  moreover have "jobs_ok ?g S"
  proof -
    have "a \<notin> set (pending g)" using d(5) a(1) by (auto simp: jobs_ok_def)
    then show ?thesis using d(5) by (auto simp: jobs_ok_def)
  qed
  moreover have "alloc_ok ?g S"
  proof -
    have dom: "dom (gd_entry g) = owners g S" using d(6) by (simp add: alloc_ok_def)
    have "a \<in> owners g S" using live_owner a(1) by blast
    moreover have "a \<noteq> stack_key" "\<not> gd_next g \<le> a" using alloc_okD(4) [OF d(6), of a] calculation by blast+
    ultimately show ?thesis using d(6) dom by (auto simp: alloc_ok_def owners_def)
  qed
  ultimately show ?thesis using d by (simp add: db_inv_def ttl_ok_def)
qed

lemma db_zset:
  assumes "db_inv g A S F" "a \<in> S" "gd_entry g a = Some e" "en_type e = T_ZSET"
  shows "zset_rep (gd_zmem g) (en_zset e) (F a)" "zmem_ok (gd_zmem g)"
    "ks_map A (en_key e) = Some (DZSet (entries (gd_zmem g) (F a)))"
proof -
  have "zset_owned g F a" using db_invD(3) [OF assms(1)] live_owner assms(2) by (simp add: zsets_ok_def)
  then show "zset_rep (gd_zmem g) (en_zset e) (F a)" using assms(3,4) by (simp add: zset_owned_def)
  show "zmem_ok (gd_zmem g)" using db_invD(3) [OF assms(1)] by (simp add: zsets_ok_def)
  obtain f where "gd_entry g a = Some f" "ks_map A (en_key f) = Some (ent_val (gd_zmem g) F a f)"
    using live_entry [OF assms(1,2)] by metis
  then show "ks_map A (en_key e) = Some (DZSet (entries (gd_zmem g) (F a)))"
    using assms(3,4) by (simp add: ent_val_def)
qed

text \<open>The sorted sets of the other owners do not notice a step of one set.\<close>

lemma owner_entry:
  assumes "zsets_ok g S F" "b \<in> owners g S"
  shows "\<exists>f. gd_entry g b = Some f"
proof -
  have "zset_owned g F b" using assms by (simp add: zsets_ok_def)
  then show ?thesis unfolding zset_owned_def by blast
qed

lemma zset_owned_step:
  assumes z: "zsets_ok g S F" and a: "a \<in> owners g S" and st: "zset_step (gd_zmem g) (F a) zm zs xs es"
    and b: "b \<in> owners g S" "b \<noteq> a" "gd_entry g b = Some f"
  shows "if en_type f = T_ZSET then zset_rep zm (en_zset f) (F b) else F b = []"
    and "entries zm (F b) = entries (gd_zmem g) (F b)" and "set xs \<inter> set (F b) = {}"
proof -
  have own: "if en_type f = T_ZSET then zset_rep (gd_zmem g) (en_zset f) (F b) else F b = []"
    and ok: "zmem_ok (gd_zmem g)"
    using z b by (auto simp: zsets_ok_def zset_owned_def)
  have dis: "set (F a) \<inter> set (F b) = {}" using z a b(1,2) by (auto simp: zsets_ok_def)
  have fr: "zframe (set (F a) \<union> set xs) (gd_zmem g) zm"
    and sub: "set xs \<subseteq> set (F a) \<union> {zm_next (gd_zmem g)..<zm_next zm}"
    using st by (simp_all add: zset_step_def)
  have fb: "set (F b) \<subseteq> {0<..<zm_next (gd_zmem g)}"
  proof (cases "en_type f = T_ZSET")
    case True
    then have "zset_rep (gd_zmem g) (en_zset f) (F b)" using own by simp
    then show ?thesis using zset_rep_range ok by blast
  next
    case False
    then show ?thesis using own by simp
  qed
  show dx: "set xs \<inter> set (F b) = {}" using sub fb dis by fastforce
  then have d2: "(set (F a) \<union> set xs) \<inter> set (F b) = {}" using dis by blast
  show "entries zm (F b) = entries (gd_zmem g) (F b)"
  proof (rule entries_cong)
    fix x assume "x \<in> set (F b)"
    then have "x \<notin> set (F a) \<union> set xs" using d2 by blast
    then show "zm_node zm x = zm_node (gd_zmem g) x" by (rule zframeD(3) [OF fr])
  qed
  show "if en_type f = T_ZSET then zset_rep zm (en_zset f) (F b) else F b = []"
  proof (cases "en_type f = T_ZSET")
    case True
    then have "zset_rep (gd_zmem g) (en_zset f) (F b)" using own by simp
    then show ?thesis using True zset_rep_frame(1) [OF _ fr d2] by simp
  next
    case False
    then show ?thesis using own by simp
  qed
qed

lemma db_set_zset:
  assumes inv: "db_inv g A S F" and a: "a \<in> S" "gd_entry g a = Some e" "en_type e = T_ZSET"
    and st: "zset_step (gd_zmem g) (F a) zm zs xs es"
  shows "db_inv (g\<lparr>gd_zmem := zm, gd_entry := (gd_entry g)(a \<mapsto> e\<lparr>en_zset := zs\<rparr>)\<rparr>)
    (A\<lparr>ks_map := (ks_map A)(en_key e \<mapsto> DZSet es)\<rparr>) S (F(a := xs))"
proof -
  note d = db_invD [OF inv]
  let ?g = "g\<lparr>gd_zmem := zm, gd_entry := (gd_entry g)(a \<mapsto> e\<lparr>en_zset := zs\<rparr>)\<rparr>" and ?F = "F(a := xs)"
  have ao: "a \<in> owners g S" using live_owner a(1) by blast
  have ow: "owners ?g S = owners g S" by (simp add: owners_def)
  note step = zset_owned_step [OF d(3) ao st]
  have new: "zset_rep zm zs xs" "zmem_ok zm" "entries zm xs = es" using st by (simp_all add: zset_step_def)
  have "keys_ok ?g (A\<lparr>ks_map := (ks_map A)(en_key e \<mapsto> DZSet es)\<rparr>) S ?F"
  proof (rule keys_ok_upd [OF inv a(1,2)])
    show "DZSet es = ent_val (gd_zmem ?g) ?F a (e\<lparr>en_zset := zs\<rparr>)" using a(3) new(3) by (simp add: ent_val_def)
    fix b f assume b: "b \<in> S" "b \<noteq> a" "gd_entry g b = Some f"
    then have "entries zm (F b) = entries (gd_zmem g) (F b)" using step(2) [OF live_owner] by simp
    then show "ent_val (gd_zmem ?g) ?F b f = ent_val (gd_zmem g) F b f" using b(2) by (simp add: ent_val_def)
  qed simp_all
  moreover have "zsets_ok ?g S ?F"
  proof -
    have own: "zset_owned ?g ?F b" if b: "b \<in> owners g S" for b
    proof (cases "b = a")
      case True
      then show ?thesis using a(3) new(1) by (simp add: zset_owned_def)
    next
      case False
      obtain f where f: "gd_entry g b = Some f" using owner_entry [OF d(3) b] by blast
      then show ?thesis using False step(1) [OF b False f] by (simp add: zset_owned_def split: if_splits)
    qed
    have "set (?F b) \<inter> set (?F c) = {}" if bc: "b \<in> owners g S" "c \<in> owners g S" "b \<noteq> c" for b c
    proof -
      have x: "set xs \<inter> set (F b) = {}" if bo: "b \<in> owners g S" "b \<noteq> a" for b
      proof -
        obtain f where "gd_entry g b = Some f" using owner_entry [OF d(3) bo(1)] by blast
        then show ?thesis using step(3) [OF bo] by blast
      qed
      have "set (F b) \<inter> set (F c) = {}" using d(3) bc by (auto simp: zsets_ok_def)
      then show ?thesis using x [OF bc(1)] x [OF bc(2)] bc(3) by auto
    qed
    then show ?thesis using own new(2) unfolding zsets_ok_def ow by simp
  qed
  moreover have "jobs_ok ?g S"
  proof -
    have "a \<notin> set (pending g)" using d(5) a(1) by (auto simp: jobs_ok_def)
    then show ?thesis using d(5) by (auto simp: jobs_ok_def)
  qed
  moreover have "alloc_ok ?g S"
  proof -
    have dom: "dom (gd_entry g) = owners g S" using d(6) by (simp add: alloc_ok_def)
    have "a \<noteq> stack_key" "\<not> gd_next g \<le> a" using alloc_okD(4) [OF d(6), of a] ao by blast+
    then show ?thesis using d(6) dom ao by (auto simp: alloc_ok_def owners_def)
  qed
  ultimately show ?thesis using d by (simp add: db_inv_def ttl_ok_def)
qed

subsection \<open>A new TTL\<close>

lemma heap_room:
  assumes "db_inv g A S F" "card S < 2 ^ 60"
  shows "Suc (length (gd_heap g)) < npos"
proof -
  have "finite S" using hm_size_holds(1) [OF db_invD(1) [OF assms(1)]] .
  then have "length (gd_heap g) \<le> card S"
    using db_invD(4) [OF assms(1)] heap_size by (auto simp: ttl_ok_def)
  then show ?thesis using assms(2) by (simp add: npos_def)
qed

lemma set_ttl_run:
  assumes inv: "db_inv g A S F" and a: "a \<in> S" and small: "card S < 2 ^ 60"
  shows "\<exists>hp hidx. entry_set_ttl (gd_heap g, gd_hidx g) now a ttl = Some (hp, hidx) \<and> ttl_inv (hp, hidx) \<and>
    ttl_map hp = ttl_spec now a ttl (ttl_map (gd_heap g)) \<and> dom hidx = dom (gd_hidx g)"
proof -
  note d = db_invD [OF inv]
  have "a \<in> dom (gd_hidx g)" using d(6) live_owner [OF a] by (simp add: alloc_ok_def)
  then obtain idx where "gd_hidx g a = Some idx" by blast
  then show ?thesis
    using entry_set_ttl_run [of "gd_heap g" "gd_hidx g" a idx now ttl] heap_room [OF inv small] d(4)
    by (auto simp: ttl_ok_def)
qed

definition ttl_upd :: "bytes \<Rightarrow> int \<Rightarrow> keyspace \<Rightarrow> keyspace" where
  "ttl_upd k ttl A =
     (if ttl < 0 then A\<lparr>ks_ttl := (ks_ttl A)(k := None)\<rparr>
      else (ks_step A)\<lparr>ks_ttl := (ks_ttl A)(k \<mapsto> ks_now A + word_of_int ttl)\<rparr>)"

lemma hidx_frame:
  assumes "alloc_ok g S" "dom hidx = dom (gd_hidx g)" "a = stack_key \<or> gd_next g \<le> a"
  shows "hidx a = None"
proof -
  have "gd_hidx g a = None" using alloc_okD(3) [OF assms(1,3)] .
  then show ?thesis using assms(2) by (metis domIff)
qed

lemma db_inv_ttl:
  assumes inv: "db_inv g A S F" and a: "a \<in> S" "key_of g a = k"
    and h: "ttl_inv (hp, hidx)" "ttl_map hp = (ttl_map (gd_heap g))(a := t)" "dom hidx = dom (gd_hidx g)"
  shows "db_inv (g\<lparr>gd_heap := hp, gd_hidx := hidx\<rparr>) (A\<lparr>ks_ttl := (ks_ttl A)(k := t)\<rparr>) S F"
proof -
  note d = db_invD [OF inv]
  let ?g = "g\<lparr>gd_heap := hp, gd_hidx := hidx\<rparr>" and ?A = "A\<lparr>ks_ttl := (ks_ttl A)(k := t)\<rparr>"
  have kd: "inj_on (key_of g) S" "dom (ks_map A) = key_of g ` S" "dom (ks_ttl A) \<subseteq> key_of g ` S"
    using d(2) by (simp_all add: keys_ok_def)
  have key: "key_of ?g = key_of g" by (simp add: key_of_def fun_eq_iff)
  have "live_ok ?g ?A F b" if b: "b \<in> S" for b
  proof -
    obtain f where f: "gd_entry g b = Some f" "en_type f \<noteq> T_INIT" "hcode_is (gd_node g) b (str_hash (en_key f))"
      "ks_map A (en_key f) = Some (ent_val (gd_zmem g) F b f)" "ks_ttl A (en_key f) = ttl_map (gd_heap g) b"
      "key_of g b = en_key f"
      using live_entry [OF inv b] by metis
    have "en_key f = k \<longleftrightarrow> b = a" using kd(1) b a f(6) by (metis inj_onD)
    then show ?thesis using f h(2) by (auto simp: live_ok_def)
  qed
  moreover have "dom (ks_ttl ?A) \<subseteq> key_of g ` S"
    using kd(3) imageI [OF a(1), of "key_of g"] a(2) by auto
  ultimately have "keys_ok ?g ?A S F" using kd unfolding keys_ok_def key by simp
  moreover have "zset_owned ?g F = zset_owned g F" by (simp add: zset_owned_def fun_eq_iff)
  then have "zsets_ok ?g S F" using d(3) by (simp add: zsets_ok_def owners_def)
  moreover have "ttl_ok ?g S" using h(1,2) d(4) a(1) by (auto simp: ttl_ok_def split: if_splits)
  moreover have "alloc_ok ?g S"
    using d(6) h(3) hidx_frame [OF d(6) h(3)] by (simp add: alloc_ok_def owners_def)
  moreover have "jobs_ok ?g S" using d(5) by (simp add: jobs_ok_def)
  ultimately show ?thesis using d(1,7,8) by (simp add: db_inv_def)
qed

lemma db_inv_clock:
  assumes "db_inv g A S F"
  shows "db_inv (snd (get_monotonic_msec g)) (ks_step A) S F" "fst (get_monotonic_msec g) = ks_now A"
proof -
  let ?g = "g\<lparr>gd_tick := gd_tick g + 1\<rparr>"
  note d = db_invD [OF assms]
  have "live_ok ?g (ks_step A) F = live_ok g A F" "key_of ?g = key_of g" "zset_owned ?g F = zset_owned g F"
    by (simp_all add: live_ok_def key_of_def zset_owned_def fun_eq_iff ks_step_def)
  then show "db_inv (snd (get_monotonic_msec g)) (ks_step A) S F"
    using d by (simp add: db_inv_def get_monotonic_msec_def keys_ok_def zsets_ok_def owners_def
        ttl_ok_def jobs_ok_def alloc_ok_def ks_step_def)
  show "fst (get_monotonic_msec g) = ks_now A" using d(7,8) by (simp add: get_monotonic_msec_def ks_now_def)
qed

lemma db_set_ttl_run:
  assumes inv: "db_inv g A S F" and a: "a \<in> S" "key_of g a = k" and small: "card S < 2 ^ 60"
  shows "\<exists>g'. db_set_ttl g a ttl = Some g' \<and> db_inv g' (ttl_upd k ttl A) S F"
proof (cases "ttl < 0")
  case True
  obtain hp hidx where h: "entry_set_ttl (gd_heap g, gd_hidx g) 0 a ttl = Some (hp, hidx)" "ttl_inv (hp, hidx)"
    "ttl_map hp = ttl_spec 0 a ttl (ttl_map (gd_heap g))" "dom hidx = dom (gd_hidx g)"
    using set_ttl_run [OF inv a(1) small] by blast
  have "ttl_map hp = (ttl_map (gd_heap g))(a := None)" using h(3) True by (simp add: ttl_spec_def)
  from db_inv_ttl [OF inv a h(2) this h(4)] show ?thesis
    using h(1) True by (simp add: db_set_ttl_def ttl_upd_def)
next
  case False
  obtain now g1 where now: "get_monotonic_msec g = (now, g1)" by fastforce
  have c: "db_inv g1 (ks_step A) S F" "now = ks_now A" using db_inv_clock [OF inv] now by simp_all
  have key: "key_of g1 a = k" using a(2) now by (auto simp: get_monotonic_msec_def key_of_def)
  obtain hp hidx where h: "entry_set_ttl (gd_heap g1, gd_hidx g1) now a ttl = Some (hp, hidx)" "ttl_inv (hp, hidx)"
    "ttl_map hp = ttl_spec now a ttl (ttl_map (gd_heap g1))" "dom hidx = dom (gd_hidx g1)"
    using set_ttl_run [OF c(1) a(1) small] by blast
  have "ttl_map hp = (ttl_map (gd_heap g1))(a \<mapsto> ks_now A + word_of_int ttl)"
    using h(3) c(2) False by (simp add: ttl_spec_def)
  from db_inv_ttl [OF c(1) a(1) key h(2) this h(4)] have
    "db_inv (g1\<lparr>gd_heap := hp, gd_hidx := hidx\<rparr>) (ttl_upd k ttl A) S F"
    using False by (simp add: ttl_upd_def ks_step_def)
  moreover have "db_set_ttl g a ttl = Some (g1\<lparr>gd_heap := hp, gd_hidx := hidx\<rparr>)"
    using h(1) False now by (simp add: db_set_ttl_def)
  ultimately show ?thesis by blast
qed

end
