(* ===== verification/DbDel.thy ===== *)
theory DbDel
  imports DbOps
begin

subsection \<open>Destruction of an entry\<close>

text \<open>
  An entry that a worker has taken is destroyed: its memory is released, no live entry and
  no other one that waits for its destruction notices.
\<close>

lemma entry_del_sync_run:
  assumes inv: "db_inv g A S F" and a: "a \<in> set (gd_busy g)"
  shows "\<exists>g'. entry_del_sync g a = Some g' \<and> gd_jobs g' = gd_jobs g \<and> gd_busy g' = gd_busy g \<and>
    db_inv (g'\<lparr>gd_busy := remove1 a (gd_busy g)\<rparr>) A S F \<and>
    gd_entry g' = (gd_entry g)(a := None) \<and> dom (zm_node (gd_zmem g')) = dom (zm_node (gd_zmem g)) - set (F a)"
proof -
  note d = db_invD [OF inv]
  have ao: "a \<in> owners g S" using a by (simp add: owners_def)
  have aS: "a \<notin> S" using d(5) a by (auto simp: jobs_ok_def)
  obtain e where e: "gd_entry g a = Some e" using owner_entry [OF d(3) ao] by blast
  have own: "zset_owned g F a" using d(3) ao by (simp add: zsets_ok_def)
  have ok: "zmem_ok (gd_zmem g)" using d(3) by (simp add: zsets_ok_def)
  obtain zm where zm: "(if en_type e = T_ZSET then do { (zm, _) \<leftarrow> zset_clear (gd_zmem g) (en_zset e); Some zm }
      else Some (gd_zmem g)) = Some zm" "zmem_ok zm" "zframe (set (F a)) (gd_zmem g) zm"
    "dom (zm_node zm) = dom (zm_node (gd_zmem g)) - set (F a)" "zm_next zm = zm_next (gd_zmem g)"
  proof (cases "en_type e = T_ZSET")
    case True
    then have rep: "zset_rep (gd_zmem g) (en_zset e) (F a)" using own e by (simp add: zset_owned_def)
    have "dom (zm_node (zm_drop (set (F a)) (gd_zmem g))) = dom (zm_node (gd_zmem g)) - set (F a)"
      by (auto simp: zm_drop_def)
    then show ?thesis
      using that [of "zm_drop (set (F a)) (gd_zmem g)"] zset_clear_run [OF rep ok] True by (simp add: zm_drop_sel)
  next
    case False
    then have "F a = []" using own e by (simp add: zset_owned_def)
    then show ?thesis using that [of "gd_zmem g"] False ok by simp
  qed
  let ?g = "g\<lparr>gd_zmem := zm, gd_entry := (gd_entry g)(a := None), gd_node := (gd_node g)(a := None),
    gd_hidx := (gd_hidx g)(a := None)\<rparr>"
  let ?h = "?g\<lparr>gd_busy := remove1 a (gd_busy g)\<rparr>"
  have run: "entry_del_sync g a = Some ?g" using e zm(1) by (simp add: entry_del_sync_def)
  have dj: "distinct (pending g)" using d(5) by (simp add: jobs_ok_def)
  have aj: "a \<notin> set (gd_jobs g)" using dj a by auto
  have ow: "owners ?h S = owners g S - {a}" using dj aS aj by (auto simp: owners_def)
  have frame: "zset_owned ?h F b" "entries zm (F b) = entries (gd_zmem g) (F b)"
    if b: "b \<in> owners g S" "b \<noteq> a" for b
  proof -
    obtain f where f: "gd_entry g b = Some f" using owner_entry [OF d(3) b(1)] by blast
    have ob: "zset_owned g F b" using d(3) b(1) by (simp add: zsets_ok_def)
    have dis: "set (F a) \<inter> set (F b) = {}" using d(3) ao b by (auto simp: zsets_ok_def)
    show "entries zm (F b) = entries (gd_zmem g) (F b)"
    proof (rule entries_cong)
      fix x assume "x \<in> set (F b)"
      then have "x \<notin> set (F a)" using dis by blast
      then show "zm_node zm x = zm_node (gd_zmem g) x" by (rule zframeD(3) [OF zm(3)])
    qed
    show "zset_owned ?h F b"
    proof (cases "en_type f = T_ZSET")
      case True
      then have "zset_rep (gd_zmem g) (en_zset f) (F b)" using ob f by (simp add: zset_owned_def)
      then show ?thesis using zset_rep_frame(1) [OF _ zm(3) dis] True f b(2) by (simp add: zset_owned_def)
    next
      case False
      then show ?thesis using ob f b(2) by (simp add: zset_owned_def)
    qed
  qed
  have "hm_holds ((gd_node g)(a := None)) (gd_db g) S"
    using aS by (intro hm_holds_cong [OF d(1)]) auto
  moreover have "keys_ok ?h A S F"
  proof -
    have kd: "inj_on (key_of g) S" "dom (ks_map A) = key_of g ` S" "dom (ks_ttl A) \<subseteq> key_of g ` S"
      using d(2) by (simp_all add: keys_ok_def)
    have key: "key_of ?h b = key_of g b" if "b \<in> S" for b using that aS by (auto simp: key_of_def)
    have "live_ok ?h A F b" if b: "b \<in> S" for b
    proof -
      have ba: "b \<noteq> a" using b aS by blast
      obtain f where f: "gd_entry g b = Some f" "en_type f \<noteq> T_INIT" "hcode_is (gd_node g) b (str_hash (en_key f))"
        "ks_map A (en_key f) = Some (ent_val (gd_zmem g) F b f)" "ks_ttl A (en_key f) = ttl_map (gd_heap g) b"
        using live_entry [OF inv b] by metis
      have "ent_val zm F b f = ent_val (gd_zmem g) F b f"
        using frame(2) [OF live_owner [OF b] ba] by (simp add: ent_val_def)
      then show ?thesis using f ba by (simp add: live_ok_def hcode_is_def)
    qed
    moreover have "key_of ?h ` S = key_of g ` S" using key by (rule image_cong [OF refl])
    moreover have "inj_on (key_of ?h) S = inj_on (key_of g) S" using key by (rule inj_on_cong)
    ultimately show ?thesis using kd unfolding keys_ok_def by simp
  qed
  moreover have "zsets_ok ?h S F"
    using d(3) zm(2) frame(1) unfolding zsets_ok_def ow by simp
  moreover have "ttl_ok ?h S"
  proof -
    have "ttl_map (gd_heap g) a = None" using d(4) aS by (auto simp: ttl_ok_def)
    then show ?thesis using d(4) ttl_inv_cell(2) by (simp add: ttl_ok_def)
  qed
  moreover have "jobs_ok ?h S" using d(5) dj by (auto simp: jobs_ok_def)
  moreover have "alloc_ok ?h S"
  proof -
    have "dom (gd_entry g) = owners g S" "dom (gd_hidx g) = owners g S" using d(6) by (simp_all add: alloc_ok_def)
    then show ?thesis using d(6) unfolding alloc_ok_def ow by auto
  qed
  ultimately have "db_inv ?h A S F" using d(7,8) by (simp add: db_inv_def)
  then show ?thesis using run zm(4) by (intro exI [of _ ?g]) simp
qed

text \<open>A live entry whose node has left the hash table and whose TTL is cleared is handed over.\<close>

lemma unlink_run:
  assumes inv: "db_inv g A S F" and a: "a \<in> S" "key_of g a = k" and t: "ttl_map (gd_heap g) a = None"
    and m: "hm_holds m h (S - {a})" "next_frame S (gd_node g) m"
    and p: "set (js @ bs) = insert a (set (pending g))" "distinct (js @ bs)"
  shows "db_inv (g\<lparr>gd_node := m, gd_db := h, gd_jobs := js, gd_busy := bs\<rparr>)
    (A\<lparr>ks_map := (ks_map A)(k := None), ks_ttl := (ks_ttl A)(k := None)\<rparr>) (S - {a}) F"
proof -
  note d = db_invD [OF inv]
  let ?g = "g\<lparr>gd_node := m, gd_db := h, gd_jobs := js, gd_busy := bs\<rparr>"
  let ?A = "A\<lparr>ks_map := (ks_map A)(k := None), ks_ttl := (ks_ttl A)(k := None)\<rparr>"
  have ow: "owners ?g (S - {a}) = owners g S" using a(1) p(1) by (auto simp: owners_def)
  have kd: "inj_on (key_of g) S" "dom (ks_map A) = key_of g ` S" "dom (ks_ttl A) \<subseteq> key_of g ` S"
    using d(2) by (simp_all add: keys_ok_def)
  have key: "key_of ?g = key_of g" by (simp add: key_of_def fun_eq_iff)
  have img: "key_of g ` (S - {a}) = key_of g ` S - {k}"
    using inj_on_image_set_diff [OF kd(1), of S "{a}"] a by auto
  have "live_ok ?g ?A F b" if b: "b \<in> S - {a}" for b
  proof -
    have bS: "b \<in> S" "b \<noteq> a" using b by simp_all
    obtain f where f: "gd_entry g b = Some f" "en_type f \<noteq> T_INIT" "hcode_is (gd_node g) b (str_hash (en_key f))"
      "ks_map A (en_key f) = Some (ent_val (gd_zmem g) F b f)" "ks_ttl A (en_key f) = ttl_map (gd_heap g) b"
      "key_of g b = en_key f"
      using live_entry [OF inv bS(1)] by metis
    have "en_key f \<noteq> k" using kd(1) bS a f(6) by (metis inj_onD)
    then show ?thesis using f by (simp add: live_ok_def hcode_is_frame [OF m(2)])
  qed
  moreover have "inj_on (key_of g) (S - {a})" using kd(1) by (rule inj_on_diff)
  ultimately have "keys_ok ?g ?A (S - {a}) F"
    using kd(2,3) unfolding keys_ok_def key img by auto
  moreover have "zset_owned ?g F = zset_owned g F" by (simp add: zset_owned_def fun_eq_iff)
  then have "zsets_ok ?g (S - {a}) F" using d(3) unfolding zsets_ok_def ow by simp
  moreover have "ttl_ok ?g (S - {a})" using d(4) t by (auto simp: ttl_ok_def)
  moreover have "jobs_ok ?g (S - {a})" using d(5) a(1) p by (auto simp: jobs_ok_def)
  moreover have "alloc_ok ?g (S - {a})"
  proof -
    have "m b = None" if "b = stack_key \<or> gd_next g \<le> b" for b
      using alloc_okD(2) [OF d(6) that] next_frame_alloc [OF m(2), of b] by simp
    then show ?thesis using d(6) unfolding alloc_ok_def ow by simp
  qed
  ultimately show ?thesis using m(1) d(7,8) by (simp add: db_inv_def)
qed

text \<open>
  \<open>entry_del\<close> on an entry that has just left the hash table: its TTL is cleared and it is
  destroyed at once or queued.
\<close>

lemma entry_del_run:
  assumes inv: "db_inv g A S F" and a: "a \<in> S" "key_of g a = k" and small: "card S < 2 ^ 60"
    and m: "hm_holds m h (S - {a})" "next_frame S (gd_node g) m"
  shows "\<exists>g'. entry_del (g\<lparr>gd_node := m, gd_db := h\<rparr>) a = Some g' \<and>
    db_inv g' (A\<lparr>ks_map := (ks_map A)(k := None), ks_ttl := (ks_ttl A)(k := None)\<rparr>) (S - {a}) F"
proof -
  let ?A = "A\<lparr>ks_map := (ks_map A)(k := None), ks_ttl := (ks_ttl A)(k := None)\<rparr>"
  obtain hp hidx where t: "entry_set_ttl (gd_heap g, gd_hidx g) 0 a (- 1) = Some (hp, hidx)" "ttl_inv (hp, hidx)"
    "ttl_map hp = ttl_spec 0 a (- 1) (ttl_map (gd_heap g))" "dom hidx = dom (gd_hidx g)"
    using set_ttl_run [OF inv a(1) small] by blast
  have tm: "ttl_map hp = (ttl_map (gd_heap g))(a := None)" using t(3) by (simp add: ttl_spec_def)
  let ?g1 = "g\<lparr>gd_heap := hp, gd_hidx := hidx\<rparr>"
  have i1: "db_inv ?g1 (A\<lparr>ks_ttl := (ks_ttl A)(k := None)\<rparr>) S F"
    using db_inv_ttl [OF inv a t(2) tm t(4)] .
  have u: "key_of ?g1 a = k" "ttl_map (gd_heap ?g1) a = None" "next_frame S (gd_node ?g1) m"
    using a(2) tm m(2) by (simp_all add: key_of_def)
  have dp: "distinct (pending g)" "a \<notin> set (pending g)"
    using db_invD(5) [OF inv] a(1) by (auto simp: jobs_ok_def)
  note unlink = unlink_run [OF i1 a(1) u(1,2) m(1) u(3)]
  have i2: "db_inv (?g1\<lparr>gd_node := m, gd_db := h, gd_jobs := gd_jobs g @ [a], gd_busy := gd_busy g\<rparr>) ?A (S - {a}) F"
    using unlink [of "gd_jobs g @ [a]" "gd_busy g"] dp by simp
  have i3: "db_inv (?g1\<lparr>gd_node := m, gd_db := h, gd_jobs := gd_jobs g, gd_busy := gd_busy g @ [a]\<rparr>) ?A (S - {a}) F"
    using unlink [of "gd_jobs g" "gd_busy g @ [a]"] dp by auto
  let ?g2 = "?g1\<lparr>gd_node := m, gd_db := h\<rparr>" and ?g3 = "?g1\<lparr>gd_node := m, gd_db := h, gd_busy := gd_busy g @ [a]\<rparr>"
  have s: "db_set_ttl (g\<lparr>gd_node := m, gd_db := h\<rparr>) a (- 1) = Some ?g2"
    using t(1) by (simp add: db_set_ttl_def)
  obtain e where e: "gd_entry g a = Some e" using live_entry [OF inv a(1)] by metis
  define big where "big = (k_large_container_size < (if en_type e = T_ZSET then hm_size (zs_hmap (en_zset e)) else 0))"
  have run: "entry_del (g\<lparr>gd_node := m, gd_db := h\<rparr>) a =
      (if big then Some (thread_pool_queue ?g2 a) else entry_del_sync ?g2 a)"
    using s e by (simp add: entry_del_def big_def Let_def)
  show ?thesis
  proof (cases big)
    case True
    then show ?thesis using run i2 by (simp add: thread_pool_queue_def)
  next
    case False
    have g3: "db_inv ?g3 ?A (S - {a}) F" using i3 by simp
    have "a \<in> set (gd_busy ?g3)" by simp
    then obtain g' where g': "entry_del_sync ?g3 a = Some g'" "gd_busy g' = gd_busy ?g3"
      "db_inv (g'\<lparr>gd_busy := remove1 a (gd_busy ?g3)\<rparr>) ?A (S - {a}) F"
      using entry_del_sync_run [OF g3] by blast
    have "remove1 a (gd_busy ?g3) = gd_busy g" using dp(2) by (simp add: remove1_append)
    moreover have "entry_del_sync ?g2 a = map_option (\<lambda>x. x\<lparr>gd_busy := gd_busy g\<rparr>) (entry_del_sync ?g3 a)"
      using e by (cases "zset_clear (gd_zmem g) (en_zset e)") (auto simp: entry_del_sync_def)
    ultimately show ?thesis using run False g' by simp
  qed
qed


subsection \<open>The workers\<close>

text \<open>What a worker does changes nothing that a client can observe, and never fails.\<close>

lemma worker_take_run:
  assumes "db_inv g A S F" "worker_take g = Some (a, g')"
  shows "db_inv g' A S F" "a \<in> set (gd_busy g')"
proof -
  obtain js where j: "gd_jobs g = a # js" "g' = g\<lparr>gd_jobs := js, gd_busy := gd_busy g @ [a]\<rparr>"
    using assms(2) by (auto simp: worker_take_def split: list.splits)
  note d = db_invD [OF assms(1)]
  have ow: "owners g' S = owners g S" using j by (auto simp: owners_def)
  have "live_ok g' A F = live_ok g A F" "key_of g' = key_of g" "zset_owned g' F = zset_owned g F"
    using j(2) by (simp_all add: live_ok_def key_of_def zset_owned_def fun_eq_iff)
  moreover have "jobs_ok g' S" using d(5) j by (auto simp: jobs_ok_def)
  ultimately show "db_inv g' A S F"
    using d j(2) unfolding db_inv_def keys_ok_def zsets_ok_def alloc_ok_def ow by (simp add: ttl_ok_def)
  show "a \<in> set (gd_busy g')" using j(2) by simp
qed

lemma worker_run_run:
  assumes "db_inv g A S F" "a \<in> set (gd_busy g)"
  shows "\<exists>g'. worker_run g a = Some g' \<and> db_inv g' A S F"
  using entry_del_sync_run [OF assms] by (auto simp: worker_run_def)

end
