(* ===== verification/CmdBase.thy ===== *)
theory CmdBase
  imports DbDel
begin

text \<open>
  Every command on a represented state: it succeeds, replies what \<open>exec\<close> replies and leaves a
  state that represents the next keyspace.
\<close>

subsection \<open>Replies\<close>

definition repr :: "nat \<Rightarrow> GlobalData \<Rightarrow> keyspace \<Rightarrow> bool" where
  "repr n g A \<longleftrightarrow> (\<exists>S F. db_inv g A S F \<and> room n S F)"

text \<open>The serializing part of a command: it ends in the given state and writes the given reply.\<close>

definition yields :: "(Buffer \<Rightarrow> (GlobalData \<times> Buffer) option) \<Rightarrow> GlobalData \<Rightarrow> tlv \<Rightarrow> bool" where
  "yields f g v \<longleftrightarrow> (\<forall>b. buf_ok b \<longrightarrow> (\<exists>b'. f b = Some (g, b') \<and> buf_ok b' \<and>
     content b' = content b @ tlv_bytes v \<and> marks b' = marks b))"

definition performs :: "nat \<Rightarrow> (Buffer \<Rightarrow> (GlobalData \<times> Buffer) option) \<Rightarrow> tlv \<times> keyspace \<Rightarrow> bool" where
  "performs n f r \<longleftrightarrow> (\<exists>g. yields f g (fst r) \<and> repr n g (snd r))"

lemma yieldsI:
  assumes "sink.emits out (tlv_bytes v)" "\<And>b. f b = do { b1 \<leftarrow> out b; Some (g, b1) }"
  shows "yields f g v"
  unfolding yields_def
proof (intro allI impI)
  fix b assume "buf_ok b"
  from sink.emitsD [OF assms(1) this] obtain b' where "out b = Some b'" "buf_ok b'"
    "content b' = content b @ tlv_bytes v" "marks b' = marks b" by blast
  then show "\<exists>b'. f b = Some (g, b') \<and> buf_ok b' \<and> content b' = content b @ tlv_bytes v \<and> marks b' = marks b"
    using assms(2) [of b] by simp
qed

lemmas yields_nil = yieldsI [OF emits_out_nil]
  and yields_str = yieldsI [OF emits_out_str]
  and yields_int = yieldsI [OF emits_out_int]
  and yields_dbl = yieldsI [OF emits_out_dbl]
  and yields_err = yieldsI [OF emits_out_err]

lemma performsI:
  assumes "yields f g v" "db_inv g A S F" "room n S F"
  shows "performs n f (v, A)"
proof -
  have "repr n g A" using assms(2,3) unfolding repr_def by blast
  then show ?thesis using assms(1) unfolding performs_def by auto
qed


subsection \<open>Searching\<close>

lemma db_foundE:
  assumes "db_inv g A S F" "db_found g A S k (Some a)"
  obtains e where "gd_entry g a = Some e" "a \<in> S" "key_of g a = k" "en_key e = k"
    "en_type e = T_STR \<and> ks_map A k = Some (DStr (en_str e)) \<or>
     en_type e = T_ZSET \<and> ks_map A k = Some (DZSet (entries (gd_zmem g) (F a)))"
    "ks_ttl A k = ttl_map (gd_heap g) a"
proof -
  have a: "a \<in> S" "key_of g a = k" using assms(2) by (simp_all add: db_found_def)
  obtain e where e: "gd_entry g a = Some e" "en_type e \<noteq> T_INIT" "ks_map A (en_key e) = Some (ent_val (gd_zmem g) F a e)"
    "ks_ttl A (en_key e) = ttl_map (gd_heap g) a" "key_of g a = en_key e"
    using live_entry [OF assms(1) a(1)] by metis
  have k: "en_key e = k" using e(5) a(2) by simp
  have "en_type e = T_STR \<and> ks_map A k = Some (DStr (en_str e)) \<or>
     en_type e = T_ZSET \<and> ks_map A k = Some (DZSet (entries (gd_zmem g) (F a)))"
    using e(2,3) k by (cases "en_type e") (simp_all add: ent_val_def)
  then show ?thesis using that [OF e(1) a k] e(4) k by simp
qed

lemma db_lookup_found:
  assumes "db_inv g A S F"
  obtains p g1 where "db_lookup g k = Some (p, g1)" "db_inv g1 A S F" "db_found g1 A S k p"
proof -
  obtain p m h where r: "db_lookup g k = Some (p, g\<lparr>gd_node := m, gd_db := h\<rparr>)"
    "db_inv (g\<lparr>gd_node := m, gd_db := h\<rparr>) A S F" "db_found g A S k p"
    using db_lookup_run [OF assms] by blast
  have "key_of (g\<lparr>gd_node := m, gd_db := h\<rparr>) = key_of g" by (simp add: key_of_def fun_eq_iff)
  then have "db_found (g\<lparr>gd_node := m, gd_db := h\<rparr>) A S k p"
    using r(3) by (simp add: db_found_def split: option.splits)
  then show ?thesis using that r by blast
qed

lemma db_found_None: "db_found g A S k None \<Longrightarrow> ks_map A k = None \<and> ks_ttl A k = None"
  by (simp add: db_found_def)


subsection \<open>Strings and expiration\<close>

lemma ks_map_same: "ks_map A k = Some v \<Longrightarrow> A\<lparr>ks_map := (ks_map A)(k \<mapsto> v)\<rparr> = A"
  by (simp add: fun_upd_idem)

lemma do_get_run:
  assumes inv: "db_inv g A S F" and room: "room n S F"
  shows "performs n (do_get [c, k] g) (exec_get k A)"
proof -
  obtain p g1 where l: "db_lookup g k = Some (p, g1)" "db_inv g1 A S F" "db_found g1 A S k p"
    using db_lookup_found [OF inv] by blast
  have "yields (do_get [c, k] g) g1 (fst (exec_get k A))"
  proof (cases p)
    case None
    then have "ks_map A k = None" using l(3) db_found_None by blast
    then show ?thesis using None l(1)
      by (simp add: exec_get_def) (intro yields_nil, simp add: do_get_def vec_get_def)
  next
    case (Some a)
    then obtain e where e: "gd_entry g1 a = Some e"
      "en_type e = T_STR \<and> ks_map A k = Some (DStr (en_str e)) \<or>
       en_type e = T_ZSET \<and> ks_map A k = Some (DZSet (entries (gd_zmem g1) (F a)))"
      using db_foundE [OF l(2)] l(3) by metis
    from e(2) show ?thesis
    proof (elim disjE conjE)
      assume "en_type e = T_STR" "ks_map A k = Some (DStr (en_str e))"
      then show ?thesis using Some l(1) e(1)
        by (simp add: exec_get_def) (intro yields_str, simp add: do_get_def vec_get_def)
    next
      assume "en_type e = T_ZSET" "ks_map A k = Some (DZSet (entries (gd_zmem g1) (F a)))"
      then show ?thesis using Some l(1) e(1)
        by (simp add: exec_get_def err_def) (intro yields_err, simp add: do_get_def vec_get_def)
    qed
  qed
  then show ?thesis using performsI [OF _ l(2) room] by (simp add: exec_get_def)
qed


lemma db_finite: "db_inv g A S F \<Longrightarrow> finite S"
  using hm_size_holds(1) [OF db_invD(1)] .

lemma room_card: "room n S F \<Longrightarrow> card S < 2 ^ 60"
  by (simp add: room_def)

lemma room_insert:
  assumes "room (Suc n) S F" "finite S" "length xs \<le> 1"
  shows "room n (insert a S) (F(a := xs))"
proof -
  have "card (insert a S) \<le> Suc (card S)" using assms(2) by (simp add: card_insert_if)
  then show ?thesis using assms(1,3) unfolding room_def by auto
qed

lemma room_remove: "room (Suc n) S F \<Longrightarrow> room n (S - {a}) F"
  using card_Diff1_le [of S a] unfolding room_def by auto

lemma do_set_run:
  assumes inv: "db_inv g A S F" and room: "room (Suc n) S F"
  shows "performs n (do_set [c, k, s] g) (exec_set k s A)"
proof -
  obtain p g1 where l: "db_lookup g k = Some (p, g1)" "db_inv g1 A S F" "db_found g1 A S k p"
    using db_lookup_found [OF inv] by blast
  show ?thesis
  proof (cases p)
    case None
    then have k: "ks_map A k = None" "ks_ttl A k = None" using l(3) db_found_None by blast+
    have "Suc (card S) < 2 ^ 60" using room by (simp add: room_def)
    then obtain ent g2 where i: "db_insert g1 T_STR k s = Some (ent, g2)" "ent \<notin> owners g1 S"
      "db_inv g2 (A\<lparr>ks_map := (ks_map A)(k \<mapsto> DStr s)\<rparr>) (insert ent S) (F(ent := []))"
      using db_insert_run [OF l(2) k, of T_STR s] by auto
    have "yields (do_set [c, k, s] g) g2 VNil"
      using None l(1) i(1) by (intro yields_nil) (simp add: do_set_def vec_get_def)
    from performsI [OF this i(3) room_insert [OF room db_finite [OF inv]]] show ?thesis
      using k by (simp add: exec_set_def)
  next
    case (Some a)
    obtain e where e: "gd_entry g1 a = Some e" "a \<in> S" "en_key e = k"
      "en_type e = T_STR \<and> ks_map A k = Some (DStr (en_str e)) \<or>
       en_type e = T_ZSET \<and> ks_map A k = Some (DZSet (entries (gd_zmem g1) (F a)))"
      using db_foundE [OF l(2)] l(3) Some by metis
    from e(4) show ?thesis
    proof (elim disjE conjE)
      assume t: "en_type e = T_STR" "ks_map A k = Some (DStr (en_str e))"
      let ?g = "g1\<lparr>gd_entry := (gd_entry g1)(a \<mapsto> e\<lparr>en_str := s\<rparr>)\<rparr>"
      have "yields (do_set [c, k, s] g) ?g VNil"
        using Some l(1) e(1) t(1) by (intro yields_nil) (simp add: do_set_def vec_get_def)
      from performsI [OF this db_set_str [OF l(2) e(2,1) t(1)] room_less [OF room]] show ?thesis
        using t(2) e(3) by (simp add: exec_set_def)
    next
      assume t: "en_type e = T_ZSET" "ks_map A k = Some (DZSet (entries (gd_zmem g1) (F a)))"
      have "yields (do_set [c, k, s] g) g1 (err ERR_BAD_TYP ''a non-string value exists'')" unfolding err_def
        using Some l(1) e(1) t(1) by (intro yields_err) (simp add: do_set_def vec_get_def)
      from performsI [OF this l(2) room_less [OF room]] show ?thesis
        using t(2) by (simp add: exec_set_def)
    qed
  qed
qed

lemma do_del_run:
  assumes inv: "db_inv g A S F" and room: "room (Suc n) S F"
  shows "performs n (do_del [c, k] g) (exec_del k A)"
proof -
  obtain p m h where d: "db_delete g k = Some (p, g\<lparr>gd_node := m, gd_db := h\<rparr>)" "db_found g A S k p"
    "hm_holds m h (case p of None \<Rightarrow> S | Some a \<Rightarrow> S - {a})" "next_frame S (gd_node g) m"
    using db_delete_run [OF inv] by blast
  show ?thesis
  proof (cases p)
    case None
    then have k: "ks_map A k = None" "ks_ttl A k = None" using d(2) db_found_None by blast+
    have "db_inv (g\<lparr>gd_node := m, gd_db := h\<rparr>) A S F" using None d by (intro db_inv_links [OF inv]) simp_all
    moreover have "yields (do_del [c, k] g) (g\<lparr>gd_node := m, gd_db := h\<rparr>) (VInt 0)"
      using None d(1) by (intro yields_int) (simp add: do_del_def vec_get_def)
    moreover have "A\<lparr>ks_map := (ks_map A)(k := None), ks_ttl := (ks_ttl A)(k := None)\<rparr> = A"
      using k by (simp add: fun_upd_idem)
    ultimately show ?thesis
      using performsI [OF _ _ room_less [OF room]] k by (simp add: exec_del_def count_reply_def)
  next
    case (Some a)
    then have a: "a \<in> S" "key_of g a = k" using d(2) by (simp_all add: db_found_def)
    obtain e where "ks_map A k = Some (ent_val (gd_zmem g) F a e)" using live_entry [OF inv a(1)] a(2) by metis
    then have k: "ks_map A k \<noteq> None" by simp
    obtain g' where g': "entry_del (g\<lparr>gd_node := m, gd_db := h\<rparr>) a = Some g'"
      "db_inv g' (A\<lparr>ks_map := (ks_map A)(k := None), ks_ttl := (ks_ttl A)(k := None)\<rparr>) (S - {a}) F"
      using entry_del_run [OF inv a room_card [OF room] _ d(4), of h] d(3) Some by auto
    have "yields (do_del [c, k] g) g' (VInt 1)"
      using Some d(1) g'(1) by (intro yields_int) (simp add: do_del_def vec_get_def)
    from performsI [OF this g'(2) room_remove [OF room]] show ?thesis
      using k by (simp add: exec_del_def count_reply_def)
  qed
qed

end
