(* ===== verification/CmdZset.thy ===== *)
theory CmdZset
  imports CmdBase
begin

text \<open>The commands on sorted sets.\<close>

subsection \<open>Names, scores and ranks of the nodes\<close>

lemma by_name_score: "scores (entries zm xs) name = map_option (\<lambda>a. fst (zent zm a)) (by_name zm name xs)"
proof (induction xs)
  case (Cons x xs)
  have "scores (entries zm (x # xs)) = (scores (entries zm xs))(snd (zent zm x) \<mapsto> fst (zent zm x))"
    by (simp add: scores_def entries_def)
  then show ?case using Cons by (simp add: by_name_def entries_def)
qed (simp add: by_name_def scores_def entries_def)

lemma by_name_index:
  "by_name zm name xs = Some a \<Longrightarrow>
    zs_index name (entries zm xs) < length xs \<and> xs ! zs_index name (entries zm xs) = a"
proof (induction xs)
  case (Cons x xs)
  then show ?case by (cases "snd (zent zm x) = name") (simp_all add: by_name_def entries_def zs_index_def)
qed (simp add: by_name_def)

lemma by_name_dom: "name \<in> dom (scores (entries zm xs)) \<longleftrightarrow> by_name zm name xs \<noteq> None"
  using by_name_None [of zm name xs] by (simp add: dom_scores)


subsection \<open>A sorted set behind a pointer\<close>

definition zref_ok :: "GlobalData \<Rightarrow> keyspace \<Rightarrow> addr set \<Rightarrow> (addr \<Rightarrow> addr list) \<Rightarrow> bytes \<Rightarrow> zref \<Rightarrow> addr list \<Rightarrow> bool" where
  "zref_ok g A S F k z xs \<longleftrightarrow> (case z of
     EmptyZ \<Rightarrow> xs = [] \<and> ks_map A k = None
   | ZOf a \<Rightarrow> a \<in> S \<and> xs = F a \<and> (\<exists>e. gd_entry g a = Some e \<and> en_type e = T_ZSET \<and> en_key e = k))"

lemma expect_zset_run:
  assumes inv: "db_inv g A S F"
  obtains (bad) g1 where "expect_zset g k = Some (None, g1)" "db_inv g1 A S F" "zset_of k A = None"
  | (ok) z g1 xs where "expect_zset g k = Some (Some z, g1)" "db_inv g1 A S F" "zref_ok g1 A S F k z xs"
    "zset_of k A = Some (entries (gd_zmem g1) xs)"
proof -
  obtain p g1 where l: "db_lookup g k = Some (p, g1)" "db_inv g1 A S F" "db_found g1 A S k p"
    using db_lookup_found [OF inv] by blast
  show ?thesis
  proof (cases p)
    case None
    then have "ks_map A k = None" using l(3) db_found_None by blast
    then show ?thesis
      using None l by (intro ok [of EmptyZ g1 "[]"]) (simp_all add: expect_zset_def zref_ok_def zset_of_def entries_def)
  next
    case (Some a)
    obtain e where e: "gd_entry g1 a = Some e" "a \<in> S" "en_key e = k"
      "en_type e = T_STR \<and> ks_map A k = Some (DStr (en_str e)) \<or>
       en_type e = T_ZSET \<and> ks_map A k = Some (DZSet (entries (gd_zmem g1) (F a)))"
      using db_foundE [OF l(2)] l(3) Some by metis
    from e(4) show ?thesis
    proof (elim disjE conjE)
      assume "en_type e = T_STR" "ks_map A k = Some (DStr (en_str e))"
      then show ?thesis using Some l(1,2) e(1) by (intro bad [of g1]) (simp_all add: expect_zset_def zset_of_def)
    next
      assume "en_type e = T_ZSET" "ks_map A k = Some (DZSet (entries (gd_zmem g1) (F a)))"
      then show ?thesis
        using Some l(1,2) e(1-3) by (intro ok [of "ZOf a" g1 "F a"]) (simp_all add: expect_zset_def zset_of_def zref_ok_def)
    qed
  qed
qed

lemma zref_rep:
  assumes "db_inv g A S F" "zref_ok g A S F k z xs"
  obtains zs where "zref_get g z = Some zs" "zset_rep (gd_zmem g) zs xs" "zmem_ok (gd_zmem g)"
proof -
  have ok: "zmem_ok (gd_zmem g)" using db_invD(3) [OF assms(1)] by (simp add: zsets_ok_def)
  show ?thesis
  proof (cases z)
    case EmptyZ
    then show ?thesis using assms(2) that [of zset_zero] zset_rep_zero ok by (simp add: zref_ok_def)
  next
    case (ZOf a)
    then obtain e where e: "a \<in> S" "xs = F a" "gd_entry g a = Some e" "en_type e = T_ZSET"
      using assms(2) by (auto simp: zref_ok_def)
    have "zset_rep (gd_zmem g) (en_zset e) xs" using db_zset(1) [OF assms(1) e(1,3,4)] e(2) by simp
    moreover have "zref_get g z = Some (en_zset e)" using ZOf e(3) by simp
    ultimately show ?thesis using that ok by blast
  qed
qed

text \<open>A step of the set of an entry, written back through the pointer.\<close>

lemma lookup_step:
  assumes rep: "zset_rep zm zs xs" and ok: "zmem_ok zm" and h: "hm_holds m h (set xs)" "next_frame (set xs) (zm_hmap zm) m"
  shows "zset_step zm xs (zm\<lparr>zm_hmap := m\<rparr>) (zs\<lparr>zs_hmap := h\<rparr>) xs (entries zm xs)"
proof -
  note r = zset_rep_hmap [OF rep h]
  have "zmem_ok (zm\<lparr>zm_hmap := m\<rparr>)"
    using zset_rep_range [OF rep ok] by (intro zmem_ok_frame [OF ok r(3)]) simp_all
  then show ?thesis using r by (simp add: zset_step_def)
qed

lemma zref_step:
  assumes inv: "db_inv g A S F" and z: "zref_ok g A S F k (ZOf a) (F a)"
    and st: "zset_step (gd_zmem g) (F a) zm zs xs es"
  shows "\<exists>g'. zref_set (g\<lparr>gd_zmem := zm\<rparr>) (ZOf a) zs = Some g' \<and> gd_zmem g' = zm \<and>
    db_inv g' (A\<lparr>ks_map := (ks_map A)(k \<mapsto> DZSet es)\<rparr>) S (F(a := xs)) \<and>
    zref_ok g' (A\<lparr>ks_map := (ks_map A)(k \<mapsto> DZSet es)\<rparr>) S (F(a := xs)) k (ZOf a) xs"
proof -
  obtain e where e: "a \<in> S" "gd_entry g a = Some e" "en_type e = T_ZSET" "en_key e = k"
    using z by (auto simp: zref_ok_def)
  let ?g = "g\<lparr>gd_zmem := zm, gd_entry := (gd_entry g)(a \<mapsto> e\<lparr>en_zset := zs\<rparr>)\<rparr>"
  have "zref_set (g\<lparr>gd_zmem := zm\<rparr>) (ZOf a) zs = Some ?g" using e(2) by (simp add: modify_at_def)
  moreover have "db_inv ?g (A\<lparr>ks_map := (ks_map A)(k \<mapsto> DZSet es)\<rparr>) S (F(a := xs))"
    using db_set_zset [OF inv e(1-3) st] e(4) by simp
  moreover have "zref_ok ?g (A\<lparr>ks_map := (ks_map A)(k \<mapsto> DZSet es)\<rparr>) S (F(a := xs)) k (ZOf a) xs"
    using e by (simp add: zref_ok_def)
  ultimately show ?thesis by (intro exI [of _ ?g]) simp
qed

lemma zref_lookup_run:
  assumes inv: "db_inv g A S F" and z: "zref_ok g A S F k z xs"
  obtains g2 where "zref_lookup g z name = Some (by_name (gd_zmem g) name xs, g2)" "db_inv g2 A S F"
    "zref_ok g2 A S F k z xs" "zm_node (gd_zmem g2) = zm_node (gd_zmem g)"
proof (cases z)
  case EmptyZ
  then have "xs = []" using z by (simp add: zref_ok_def)
  then have "zref_lookup g z name = Some (by_name (gd_zmem g) name xs, g)"
    using EmptyZ by (simp add: zref_lookup_def zset_lookup_def zset_zero_def by_name_def)
  then show ?thesis using that inv z by blast
next
  case (ZOf a)
  then obtain e where e: "a \<in> S" "xs = F a" "gd_entry g a = Some e" "en_type e = T_ZSET" "en_key e = k"
    using z by (auto simp: zref_ok_def)
  note zs = db_zset [OF inv e(1,3,4)]
  obtain m h where l: "zset_lookup (gd_zmem g) (en_zset e) name =
      Some (by_name (gd_zmem g) name (F a), (gd_zmem g)\<lparr>zm_hmap := m\<rparr>, (en_zset e)\<lparr>zs_hmap := h\<rparr>)"
    "hm_holds m h (set (F a))" "next_frame (set (F a)) (zm_hmap (gd_zmem g)) m"
    using zset_lookup_run [OF zs(1,2)] by blast
  have A: "A\<lparr>ks_map := (ks_map A)(k \<mapsto> DZSet (entries (gd_zmem g) (F a)))\<rparr> = A" using ks_map_same zs(3) e(5) by simp
  have z': "zref_ok g A S F k (ZOf a) (F a)" using z ZOf e(2) by simp
  obtain g' where g': "zref_set (g\<lparr>gd_zmem := (gd_zmem g)\<lparr>zm_hmap := m\<rparr>\<rparr>) (ZOf a) ((en_zset e)\<lparr>zs_hmap := h\<rparr>) = Some g'"
    "gd_zmem g' = (gd_zmem g)\<lparr>zm_hmap := m\<rparr>" "db_inv g' A S F" "zref_ok g' A S F k (ZOf a) (F a)"
    using zref_step [OF inv z' lookup_step [OF zs(1,2) l(2,3)]] unfolding A fun_upd_triv by blast
  have "zref_lookup g z name = Some (by_name (gd_zmem g) name xs, g')"
    using ZOf e(2,3) l(1) g'(1) by (simp add: zref_lookup_def del: zref_set.simps)
  then show ?thesis using that g' ZOf e(2) by simp
qed

subsection \<open>Lookups\<close>

lemma zset_of_bad: "zset_of k A = None \<Longrightarrow> \<exists>s. ks_map A k = Some (DStr s)"
  by (auto simp: zset_of_def split: option.splits dvalue.splits)

lemma do_zscore_run:
  assumes inv: "db_inv g A S F" and room: "room (Suc n) S F"
  shows "performs n (do_zscore [c, k, name] g) (exec_zscore k name A)"
proof (rule expect_zset_run [OF inv, of k])
  fix g1 assume r: "expect_zset g k = Some (None, g1)" "db_inv g1 A S F" "zset_of k A = None"
  then have "yields (do_zscore [c, k, name] g) g1 (err ERR_BAD_TYP ''expect zset'')" unfolding err_def
    by (intro yields_err) (simp add: do_zscore_def vec_get_def)
  from performsI [OF this r(2) room_less [OF room]] show ?thesis using r(3) by (simp add: exec_zscore_def)
next
  fix z g1 xs
  assume r: "expect_zset g k = Some (Some z, g1)" "db_inv g1 A S F" "zref_ok g1 A S F k z xs"
    "zset_of k A = Some (entries (gd_zmem g1) xs)"
  obtain g2 where g2: "zref_lookup g1 z name = Some (by_name (gd_zmem g1) name xs, g2)" "db_inv g2 A S F"
    "zm_node (gd_zmem g2) = zm_node (gd_zmem g1)"
    using zref_lookup_run [OF r(2,3)] by blast
  have sc: "scores (entries (gd_zmem g1) xs) name =
      map_option (\<lambda>a. fst (zent (gd_zmem g1) a)) (by_name (gd_zmem g1) name xs)" by (rule by_name_score)
  show ?thesis
  proof (cases "by_name (gd_zmem g1) name xs")
    case None
    have "yields (do_zscore [c, k, name] g) g2 VNil"
      using r(1) g2(1) None by (intro yields_nil) (simp add: do_zscore_def vec_get_def)
    from performsI [OF this g2(2) room_less [OF room]] show ?thesis using r(4) sc None by (simp add: exec_zscore_def)
  next
    case (Some a)
    then have "a \<in> set xs" using by_nameD by blast
    moreover obtain zs where "zset_rep (gd_zmem g1) zs xs" using zref_rep [OF r(2,3)] by blast
    ultimately obtain nd where nd: "zm_node (gd_zmem g1) a = Some nd" "zent (gd_zmem g1) a = (zn_score nd, zn_name nd)"
      using zset_repD(3) by (meson node_okE)
    have "yields (do_zscore [c, k, name] g) g2 (VDbl (zn_score nd))"
      using r(1) g2(1,3) nd(1) Some by (intro yields_dbl) (simp add: do_zscore_def vec_get_def)
    from performsI [OF this g2(2) room_less [OF room]] show ?thesis
      using r(4) sc Some nd(2) by (simp add: exec_zscore_def)
  qed
qed

lemma do_zrank_run:
  assumes inv: "db_inv g A S F" and room: "room (Suc n) S F"
  shows "performs n (do_zrank [c, k, name] g) (exec_zrank k name A)"
proof (rule expect_zset_run [OF inv, of k])
  fix g1 assume r: "expect_zset g k = Some (None, g1)" "db_inv g1 A S F" "zset_of k A = None"
  then have "yields (do_zrank [c, k, name] g) g1 (err ERR_BAD_TYP ''expect zset'')" unfolding err_def
    by (intro yields_err) (simp add: do_zrank_def vec_get_def)
  from performsI [OF this r(2) room_less [OF room]] show ?thesis using r(3) by (simp add: exec_zrank_def)
next
  fix z g1 xs
  assume r: "expect_zset g k = Some (Some z, g1)" "db_inv g1 A S F" "zref_ok g1 A S F k z xs"
    "zset_of k A = Some (entries (gd_zmem g1) xs)"
  obtain g2 where g2: "zref_lookup g1 z name = Some (by_name (gd_zmem g1) name xs, g2)" "db_inv g2 A S F"
    "zref_ok g2 A S F k z xs"
    using zref_lookup_run [OF r(2,3)] by blast
  note dom = by_name_dom [of name "gd_zmem g1" xs]
  show ?thesis
  proof (cases "by_name (gd_zmem g1) name xs")
    case None
    have "yields (do_zrank [c, k, name] g) g2 VNil"
      using r(1) g2(1) None by (intro yields_nil) (simp add: do_zrank_def vec_get_def)
    from performsI [OF this g2(2) room_less [OF room]] show ?thesis using r(4) dom None by (simp add: exec_zrank_def)
  next
    case (Some a)
    let ?i = "zs_index name (entries (gd_zmem g1) xs)"
    have i: "?i < length xs" "xs ! ?i = a" using by_name_index [OF Some] by simp_all
    obtain zs where "zset_rep (gd_zmem g2) zs xs" using zref_rep [OF g2(2,3)] by blast
    then have rank: "avl_rank (zm_tree (gd_zmem g2)) a = Some (int ?i)" using zset_rank_at [OF _ i(1)] i(2) by blast
    have "yields (do_zrank [c, k, name] g) g2 (VInt (w64 ?i))"
      using r(1) g2(1) rank Some by (intro yields_int) (simp add: do_zrank_def vec_get_def w64_def)
    from performsI [OF this g2(2) room_less [OF room]] show ?thesis
      using r(4) dom Some by (simp add: exec_zrank_def)
  qed
qed

end
