(* ===== verification/CmdZmod.thy ===== *)
theory CmdZmod
  imports CmdZset
begin

text \<open>The commands that change a sorted set, and the queries over ranges.\<close>

subsection \<open>Insertion and removal\<close>

lemma zadd_step:
  assumes inv: "db_inv g A S F" and a: "a \<in> S" "gd_entry g a = Some e" "en_type e = T_ZSET" "en_key e = k"
    and nan: "\<not> dbl_isnan score" and sz: "Suc (length (F a)) < 2 ^ 32 - 2"
    and es: "es = entries (gd_zmem g) (F a)"
  obtains zm zs xs where "zset_insert (gd_zmem g) (en_zset e) name score = Some (name \<notin> dom (scores es), zm, zs)"
    "db_inv (g\<lparr>gd_zmem := zm, gd_entry := (gd_entry g)(a \<mapsto> e\<lparr>en_zset := zs\<rparr>)\<rparr>)
      (A\<lparr>ks_map := (ks_map A)(k \<mapsto> DZSet (zs_add (score, name) (zs_remove name es)))\<rparr>) S (F(a := xs))"
    "length xs \<le> Suc (length (F a))"
proof -
  note zs = db_zset [OF inv a(1-3)]
  obtain zm zs' xs where i: "zset_insert (gd_zmem g) (en_zset e) name score = Some (name \<notin> snd ` set es, zm, zs')"
    "zset_step (gd_zmem g) (F a) zm zs' xs (zs_add (score, name) (zs_remove name es))" "length xs \<le> Suc (length (F a))"
    using zset_insert_run [OF zs(1,2) nan sz, of name] unfolding es by blast
  show ?thesis using that [OF _ _ i(3)] i(1) db_set_zset [OF inv a(1-3) i(2)] a(4) by (simp add: dom_scores)
qed

lemma do_zadd_run:
  assumes inv: "db_inv g A S F" and room: "room (Suc n) S F"
  shows "performs n (do_zadd [c, k, sc, name] g) (exec_zadd k sc name A)"
proof (cases "str2dbl sc")
  case None
  then have "yields (do_zadd [c, k, sc, name] g) g (err ERR_BAD_ARG ''expect float'')" unfolding err_def
    by (intro yields_err) (simp add: do_zadd_def vec_get_def)
  from performsI [OF this inv room_less [OF room]] show ?thesis using None by (simp add: exec_zadd_def)
next
  case (Some score)
  note nan = str2dbl_not_nan [OF Some]
  obtain p g1 where l: "db_lookup g k = Some (p, g1)" "db_inv g1 A S F" "db_found g1 A S k p"
    using db_lookup_found [OF inv] by blast
  show ?thesis
  proof (cases p)
    case None
    then have k: "ks_map A k = None" "ks_ttl A k = None" using l(3) db_found_None by blast+
    have "Suc (card S) < 2 ^ 60" using room by (simp add: room_def)
    then obtain ent g2 where i: "db_insert g1 T_ZSET k [] = Some (ent, g2)"
      "db_inv g2 (A\<lparr>ks_map := (ks_map A)(k \<mapsto> DZSet [])\<rparr>) (insert ent S) (F(ent := []))"
      "gd_entry g2 ent = Some \<lparr>en_key = k, en_type = T_ZSET, en_str = [], en_zset = zset_zero\<rparr>" (is "_ = Some ?e")
      using db_insert_run [OF l(2) k, of T_ZSET "[]"] by auto
    obtain zm zs xs where z: "zset_insert (gd_zmem g2) zset_zero name score = Some (True, zm, zs)"
      "db_inv (g2\<lparr>gd_zmem := zm, gd_entry := (gd_entry g2)(ent \<mapsto> ?e\<lparr>en_zset := zs\<rparr>)\<rparr>)
        (A\<lparr>ks_map := (ks_map A)(k \<mapsto> DZSet (zs_add (score, name) (zs_remove name [])))\<rparr>) (insert ent S) (F(ent := xs))"
      "length xs \<le> 1"
      using zadd_step [OF i(2) insertI1 i(3) _ _ nan, of k "[]" name] by (auto simp: entries_def scores_def)
    have "yields (do_zadd [c, k, sc, name] g)
        (g2\<lparr>gd_zmem := zm, gd_entry := (gd_entry g2)(ent \<mapsto> ?e\<lparr>en_zset := zs\<rparr>)\<rparr>) (VInt 1)"
      using None l(1) i(1,3) z(1) Some by (intro yields_int) (simp add: do_zadd_def vec_get_def)
    from performsI [OF this z(2) room_insert [OF room db_finite [OF inv] z(3)]] show ?thesis
      using k Some by (simp add: exec_zadd_def zset_of_def count_reply_def scores_def)
  next
    case (Some a)
    obtain e where e: "gd_entry g1 a = Some e" "a \<in> S" "en_key e = k"
      "en_type e = T_STR \<and> ks_map A k = Some (DStr (en_str e)) \<or>
       en_type e = T_ZSET \<and> ks_map A k = Some (DZSet (entries (gd_zmem g1) (F a)))"
      using db_foundE [OF l(2)] l(3) Some by metis
    from e(4) show ?thesis
    proof (elim disjE conjE)
      assume t: "en_type e = T_STR" "ks_map A k = Some (DStr (en_str e))"
      have "yields (do_zadd [c, k, sc, name] g) g1 (err ERR_BAD_TYP ''expect zset'')" unfolding err_def
        using Some \<open>str2dbl sc = Some score\<close> l(1) e(1) t(1) by (intro yields_err) (simp add: do_zadd_def vec_get_def)
      from performsI [OF this l(2) room_less [OF room]] show ?thesis
        using t(2) \<open>str2dbl sc = Some score\<close> by (simp add: exec_zadd_def zset_of_def)
    next
      assume t: "en_type e = T_ZSET" "ks_map A k = Some (DZSet (entries (gd_zmem g1) (F a)))"
      have len: "length (F a) + Suc n < 2 ^ 32 - 2" using room e(2) by (auto simp: room_def)
      then have sz: "Suc (length (F a)) < 2 ^ 32 - 2" by simp
      obtain zm zs xs where z: "zset_insert (gd_zmem g1) (en_zset e) name score =
          Some (name \<notin> dom (scores (entries (gd_zmem g1) (F a))), zm, zs)"
        "db_inv (g1\<lparr>gd_zmem := zm, gd_entry := (gd_entry g1)(a \<mapsto> e\<lparr>en_zset := zs\<rparr>)\<rparr>)
          (A\<lparr>ks_map := (ks_map A)(k \<mapsto> DZSet (zs_add (score, name) (zs_remove name (entries (gd_zmem g1) (F a)))))\<rparr>)
          S (F(a := xs))"
        "length xs \<le> Suc (length (F a))"
        using zadd_step [OF l(2) e(2,1) t(1) e(3) nan sz refl] by blast
      have "yields (do_zadd [c, k, sc, name] g) (g1\<lparr>gd_zmem := zm, gd_entry := (gd_entry g1)(a \<mapsto> e\<lparr>en_zset := zs\<rparr>)\<rparr>)
          (VInt (if name \<notin> dom (scores (entries (gd_zmem g1) (F a))) then 1 else 0))"
        using Some \<open>str2dbl sc = Some score\<close> l(1) e(1) t(1) z(1)
        by (intro yields_int) (simp add: do_zadd_def vec_get_def)
      moreover have "room n S (F(a := xs))" using room len z(3) by (auto simp: room_def)
      ultimately show ?thesis
        using performsI [OF _ z(2)] t(2) \<open>str2dbl sc = Some score\<close>
        by (simp add: exec_zadd_def zset_of_def count_reply_def)
    qed
  qed
qed

lemma do_zrem_run:
  assumes inv: "db_inv g A S F" and room: "room (Suc n) S F"
  shows "performs n (do_zrem [c, k, name] g) (exec_zrem k name A)"
proof (rule expect_zset_run [OF inv, of k])
  fix g1 assume r: "expect_zset g k = Some (None, g1)" "db_inv g1 A S F" "zset_of k A = None"
  then have "yields (do_zrem [c, k, name] g) g1 (err ERR_BAD_TYP ''expect zset'')" unfolding err_def
    by (intro yields_err) (simp add: do_zrem_def vec_get_def)
  from performsI [OF this r(2) room_less [OF room]] show ?thesis using r(3) by (simp add: exec_zrem_def)
next
  fix z g1 xs
  assume r: "expect_zset g k = Some (Some z, g1)" "db_inv g1 A S F" "zref_ok g1 A S F k z xs"
    "zset_of k A = Some (entries (gd_zmem g1) xs)"
  obtain g2 where g2: "zref_lookup g1 z name = Some (by_name (gd_zmem g1) name xs, g2)" "db_inv g2 A S F"
    "zref_ok g2 A S F k z xs" "zm_node (gd_zmem g2) = zm_node (gd_zmem g1)"
    using zref_lookup_run [OF r(2,3)] by blast
  note dom = by_name_dom [of name "gd_zmem g1" xs]
  show ?thesis
  proof (cases "by_name (gd_zmem g1) name xs")
    case None
    have "yields (do_zrem [c, k, name] g) g2 (VInt 0)"
      using r(1) g2(1) None by (intro yields_int) (simp add: do_zrem_def vec_get_def)
    from performsI [OF this g2(2) room_less [OF room]] show ?thesis
      using r(4) dom None by (simp add: exec_zrem_def count_reply_def)
  next
    case (Some x)
    then have x: "x \<in> set xs" "snd (zent (gd_zmem g1) x) = name" using by_nameD by blast+
    then obtain a where a: "z = ZOf a" "xs = F a" using g2(3) by (cases z) (simp_all add: zref_ok_def)
    obtain zs where zs: "zref_get g2 z = Some zs" "zset_rep (gd_zmem g2) zs xs" "zmem_ok (gd_zmem g2)"
      using zref_rep [OF g2(2,3)] by blast
    have es: "entries (gd_zmem g2) xs = entries (gd_zmem g1) xs" "zent (gd_zmem g2) x = zent (gd_zmem g1) x"
      using g2(4) by (simp_all add: entries_def zent_def fun_eq_iff)
    obtain zm zs1 where d: "zset_delete (gd_zmem g2) zs x = Some (zm, zs1)"
      "zset_step (gd_zmem g2) xs zm zs1 (remove1 x xs) (zs_remove name (entries (gd_zmem g1) xs))"
      using zset_delete_run [OF zs(2,3) x(1)] es x(2) by auto
    obtain g3 where g3: "zref_set (g2\<lparr>gd_zmem := zm\<rparr>) (ZOf a) zs1 = Some g3"
      "db_inv g3 (A\<lparr>ks_map := (ks_map A)(k \<mapsto> DZSet (zs_remove name (entries (gd_zmem g1) xs)))\<rparr>) S (F(a := remove1 x xs))"
      using zref_step [OF g2(2) _ d(2) [unfolded a(2)]] g2(3) a by blast
    have "yields (do_zrem [c, k, name] g) g3 (VInt 1)"
      using r(1) g2(1) Some zs(1) d(1) g3(1) a(1)
      by (intro yields_int) (simp add: do_zrem_def vec_get_def del: zref_set.simps zref_get.simps)
    moreover have "room n S (F(a := remove1 x xs))"
      using room a(2) length_remove1 [of x "F a"] unfolding room_def by (auto split: if_splits)
    ultimately show ?thesis
      using performsI [OF _ g3(2)] r(4) dom Some by (simp add: exec_zrem_def count_reply_def)
  qed
qed


subsection \<open>Ranges\<close>

lemma zref_len: "zref_ok g A S F k z xs \<Longrightarrow> room n S F \<Longrightarrow> length xs < 2 ^ 32"
  unfolding zref_ok_def room_def by (cases z) fastforce+

lemma do_zcount_run:
  assumes inv: "db_inv g A S F" and room: "room (Suc n) S F"
  shows "performs n (do_zcount [c, k, sc1, name1, sc2, name2] g) (exec_zcount k sc1 name1 sc2 name2 A)"
proof (cases "\<exists>s1 s2. str2dbl sc1 = Some s1 \<and> str2dbl sc2 = Some s2")
  case False
  then have "yields (do_zcount [c, k, sc1, name1, sc2, name2] g) g (err ERR_BAD_ARG ''expect fp number'')" unfolding err_def
    by (intro yields_err) (auto simp: do_zcount_def vec_get_def split: option.splits)
  from performsI [OF this inv room_less [OF room]] show ?thesis
    using False by (auto simp: exec_zcount_def split: option.splits)
next
  case True
  then obtain s1 s2 where s: "str2dbl sc1 = Some s1" "str2dbl sc2 = Some s2" by blast
  note nan = str2dbl_not_nan [OF s(1)] str2dbl_not_nan [OF s(2)]
  show ?thesis
  proof (rule expect_zset_run [OF inv, of k])
    fix g1 assume r: "expect_zset g k = Some (None, g1)" "db_inv g1 A S F" "zset_of k A = None"
    then have "yields (do_zcount [c, k, sc1, name1, sc2, name2] g) g1 (err ERR_BAD_TYP ''expect zset'')" unfolding err_def
      using s by (intro yields_err) (simp add: do_zcount_def vec_get_def)
    from performsI [OF this r(2) room_less [OF room]] show ?thesis using r(3) s by (simp add: exec_zcount_def)
  next
    fix z g1 xs
    assume r: "expect_zset g k = Some (Some z, g1)" "db_inv g1 A S F" "zref_ok g1 A S F k z xs"
      "zset_of k A = Some (entries (gd_zmem g1) xs)"
    obtain zs where zs: "zref_get g1 z = Some zs" "zset_rep (gd_zmem g1) zs xs" using zref_rep [OF r(2,3)] by blast
    let ?es = "entries (gd_zmem g1) xs"
    let ?i = "zs_pos (s1, name1) ?es" and ?j = "zs_pos (s2, name2) ?es"
    have len: "length ?es = length xs" "length xs < 2 ^ 32" using zref_len [OF r(3) room] by (simp_all add: entries_def)
    have seek: "zset_seekge (gd_zmem g1) zs s1 name1 = Some (if ?i < length xs then Some (xs ! ?i) else None)"
      "zset_seekge (gd_zmem g1) zs s2 name2 = Some (if ?j < length xs then Some (xs ! ?j) else None)"
      using zset_pos_node [OF zs(2) refl] nan by blast+
    have "yields (do_zcount [c, k, sc1, name1, sc2, name2] g) g1 (VInt (w64 (zs_count (s1, name1) (s2, name2) ?es)))"
    proof (cases "?i < length xs \<and> ?j < length xs")
      case True
      then have "s64 (int ?j - int ?i) = Some (int ?j - int ?i)" using len(2) by (simp add: s64_def)
      moreover have "(word_of_int (if int ?j - int ?i < 0 then 0 else int ?j - int ?i) :: u64) = w64 (?j - ?i)"
        by (cases "?j < ?i") (simp_all add: w64_def of_nat_diff)
      ultimately show ?thesis
        using r(1) s zs(1) seek True zset_rank_at [OF zs(2)] len(1)
        by (intro yields_int) (simp add: do_zcount_def vec_get_def zs_count_def)
    next
      case False
      then show ?thesis
        using r(1) s zs(1) seek len(1)
        by (intro yields_int) (auto simp: do_zcount_def vec_get_def zs_count_def)
    qed
    from performsI [OF this r(2) room_less [OF room]] show ?thesis using r(4) s by (simp add: exec_zcount_def)
  qed
qed

lemma entry_values_bytes:
  "concat (map tlv_bytes (entry_values (e # es))) =
    tlv_bytes (VStr (snd e)) @ tlv_bytes (VDbl (fst e)) @ concat (map tlv_bytes (entry_values es))"
  by (simp add: entry_values_def split_def)

lemma length_entry_values: "length (entry_values es) = 2 * length es"
  by (induction es) (auto simp: entry_values_def)

lemma zquery_loop_run:
  assumes rep: "zset_rep zm zs xs" and lim: "limit < 2 ^ 63"
  shows "buf_ok b \<Longrightarrow> i \<le> length xs \<Longrightarrow> int n \<le> limit \<Longrightarrow>
    \<exists>b'. zquery_loop zm limit (if i < length xs then Some (xs ! i) else None) (int n) b =
        Some (int (n + length (take (nat limit - n) (drop i xs))), b') \<and> buf_ok b' \<and>
      content b' = content b @ concat (map tlv_bytes (entry_values (take (nat limit - n) (drop i (entries zm xs))))) \<and>
      marks b' = marks b"
proof (induction "length xs - i" arbitrary: i n b)
  case 0
  then show ?case by (subst zquery_loop.simps) (simp add: entry_values_def entries_def)
next
  case (Suc m)
  then have i: "i < length xs" by simp
  show ?case
  proof (cases "int n < limit")
    case False
    then show ?thesis using Suc.prems i by (subst zquery_loop.simps) (simp add: entry_values_def)
  next
    case True
    have "xs ! i \<in> set xs" using i by simp
    then obtain nd where nd: "zm_node zm (xs ! i) = Some nd" "zent zm (xs ! i) = (zn_score nd, zn_name nd)"
      "zn_len nd = length (zn_name nd)"
      using zset_repD(3) [OF rep] by (meson node_okE)
    obtain b1 where b1: "out_str b (zn_name nd) = Some b1" "buf_ok b1"
      "content b1 = content b @ tlv_bytes (VStr (zn_name nd))" "marks b1 = marks b"
      using sink.emitsD [OF emits_out_str Suc.prems(1)] by blast
    obtain b2 where b2: "out_dbl b1 (zn_score nd) = Some b2" "buf_ok b2"
      "content b2 = content b1 @ tlv_bytes (VDbl (zn_score nd))" "marks b2 = marks b1"
      using sink.emitsD [OF emits_out_dbl b1(2)] by blast
    have off: "znode_offset zm (Some (xs ! i)) 1 = Some (if Suc i < length xs then Some (xs ! Suc i) else None)"
      using znode_offset_at [OF rep i, of 1] by (simp add: nat_add_distrib)
    have n1: "s64 (int n + 1) = Some (int (Suc n))" using True lim by (simp add: s64_def)
    have hyps: "m = length xs - Suc i" "Suc i \<le> length xs" "int (Suc n) \<le> limit" using Suc.hyps(2) i True by simp_all
    obtain b' where b': "zquery_loop zm limit (if Suc i < length xs then Some (xs ! Suc i) else None) (int (Suc n)) b2 =
        Some (int (Suc n + length (take (nat limit - Suc n) (drop (Suc i) xs))), b')" "buf_ok b'"
      "content b' = content b2 @ concat (map tlv_bytes (entry_values (take (nat limit - Suc n) (drop (Suc i) (entries zm xs)))))"
      "marks b' = marks b2"
      using Suc.hyps(1) [OF hyps(1) b2(2) hyps(2,3)] by blast
    have step: "zquery_loop zm limit (Some (xs ! i)) (int n) b =
        zquery_loop zm limit (if Suc i < length xs then Some (xs ! Suc i) else None) (int (Suc n)) b2"
      using True nd b1(1) b2(1) off n1 by (subst zquery_loop.simps) simp
    obtain r where r: "nat limit - n = Suc r" "nat limit - Suc n = r" using True by (metis Suc_diff_Suc zless_nat_eq_int_zless)
    have dx: "drop i xs = xs ! i # drop (Suc i) xs" using i by (simp add: Cons_nth_drop_Suc)
    have de: "drop i (entries zm xs) = (zn_score nd, zn_name nd) # drop (Suc i) (entries zm xs)"
      using i nd(2) by (simp add: entries_def drop_map dx)
    show ?thesis
      using i step b' b1(3,4) b2(3,4) by (simp add: r dx de entry_values_bytes del: tlv_bytes.simps)
  qed
qed


lemma zquery_body:
  assumes rep: "zset_rep zm zs xs" and nan: "\<not> dbl_isnan score" and len: "length xs < 2 ^ 32"
    and off: "- (2 ^ 63) \<le> off" "off < 2 ^ 63" and lim: "0 < limit" "limit < 2 ^ 63"
    and es: "es = entries zm xs" and b: "buf_ok b"
  shows "\<exists>b'. (do {
      znode \<leftarrow> zset_seekge zm zs score name;
      znode1 \<leftarrow> znode_offset zm znode off;
      b1 \<leftarrow> out_begin_arr b;
      (n, b2) \<leftarrow> zquery_loop zm limit znode1 0 b1;
      n2 \<leftarrow> s64 (n * 2);
      out_end_arr b2 (word_of_int n2) }) = Some b' \<and> buf_ok b' \<and>
    content b' = content b @ tlv_bytes (VArr (entry_values (zs_slice (score, name) off limit es))) \<and> marks b' = marks b"
proof -
  let ?p = "zs_pos (score, name) es"
  define i where "i = (case zs_move (length es) ?p off of None \<Rightarrow> length xs | Some i \<Rightarrow> i)"
  have le: "length es = length xs" using es by (simp add: entries_def)
  have i: "i \<le> length xs" unfolding i_def zs_move_def le by (auto simp: nat_le_iff)
  have slice: "zs_slice (score, name) off limit es = take (nat limit) (drop i es)"
    using lim(1) le by (auto simp: zs_slice_def i_def split: option.splits)
  have seek: "zset_seekge zm zs score name = Some (if ?p < length xs then Some (xs ! ?p) else None)"
    using zset_pos_node [OF rep es [symmetric] nan] .
  have start: "znode_offset zm (if ?p < length xs then Some (xs ! ?p) else None) off =
      Some (if i < length xs then Some (xs ! i) else None)"
  proof (cases "?p < length xs")
    case True
    then show ?thesis using znode_offset_at [OF rep True off] by (simp add: i_def zs_move_def le nat_less_iff)
  next
    case False
    then show ?thesis by (simp add: znode_offset_def i_def zs_move_def le)
  qed
  obtain b1 where b1: "out_begin_arr b = Some b1" "buf_ok b1" "content b1 = content b @ [5] @ le32 0"
    "marks b1 = marks b @ [Suc (length (content b))]" using out_begin_arr_run [OF b] by blast
  let ?n = "length (take (nat limit) (drop i xs))" and ?vs = "entry_values (take (nat limit) (drop i es))"
  have "int 0 \<le> limit" using lim(1) by simp
  from zquery_loop_run [OF rep lim(2) b1(2) i this] obtain b2 where
    b2: "zquery_loop zm limit (if i < length xs then Some (xs ! i) else None) 0 b1 = Some (int ?n, b2)" "buf_ok b2"
      "content b2 = content b1 @ concat (map tlv_bytes ?vs)" "marks b2 = marks b1" unfolding es by auto
  have "length ?vs = 2 * ?n" using le by (simp add: length_entry_values)
  moreover have "?n < 2 ^ 32" using len by simp
  ultimately have n2: "s64 (int ?n * 2) = Some (int ?n * 2)" "word_of_int (int ?n * 2) = w32 (length ?vs)"
    by (simp_all add: s64_def w32_def)
  have c2: "content b2 = content b @ [5] @ le32 0 @ concat (map tlv_bytes ?vs)"
    "marks b2 = marks b @ [Suc (length (content b))]" using b1(3,4) b2(3,4) by simp_all
  obtain b3 where "out_end_arr b2 (w32 (length ?vs)) = Some b3" "buf_ok b3"
    "content b3 = content b @ [5] @ le32 (w32 (length ?vs)) @ concat (map tlv_bytes ?vs)" "marks b3 = marks b"
    using out_end_arr_run [OF b2(2) c2] by blast
  then show ?thesis using seek start b1(1) b2(1) n2 by (simp add: slice del: length_take)
qed

lemma do_zquery_run:
  assumes inv: "db_inv g A S F" and room: "room (Suc n) S F"
  shows "performs n (do_zquery [c, k, sc, name, off, lim] g) (exec_zquery k sc name off lim A)"
proof (cases "str2dbl sc")
  case None
  then have "yields (do_zquery [c, k, sc, name, off, lim] g) g (err ERR_BAD_ARG ''expect fp number'')" unfolding err_def
    by (intro yields_err) (simp add: do_zquery_def vec_get_def)
  from performsI [OF this inv room_less [OF room]] show ?thesis using None by (simp add: exec_zquery_def)
next
  case (Some score)
  note nan = str2dbl_not_nan [OF Some]
  show ?thesis
  proof (cases "\<exists>o1 l1. str2int off = Some o1 \<and> str2int lim = Some l1")
    case False
    then have "yields (do_zquery [c, k, sc, name, off, lim] g) g (err ERR_BAD_ARG ''expect int'')" unfolding err_def
      using Some by (intro yields_err) (auto simp: do_zquery_def vec_get_def split: option.splits)
    from performsI [OF this inv room_less [OF room]] show ?thesis
      using Some False by (auto simp: exec_zquery_def split: option.splits)
  next
    case True
    then obtain o1 l1 where i: "str2int off = Some o1" "str2int lim = Some l1" by blast
    note range = str2int_range [OF i(1)] str2int_range [OF i(2)]
    show ?thesis
    proof (rule expect_zset_run [OF inv, of k])
      fix g1 assume r: "expect_zset g k = Some (None, g1)" "db_inv g1 A S F" "zset_of k A = None"
      then have "yields (do_zquery [c, k, sc, name, off, lim] g) g1 (err ERR_BAD_TYP ''expect zset'')" unfolding err_def
        using Some i by (intro yields_err) (simp add: do_zquery_def vec_get_def)
      from performsI [OF this r(2) room_less [OF room]] show ?thesis using r(3) Some i by (simp add: exec_zquery_def)
    next
      fix z g1 xs
      assume r: "expect_zset g k = Some (Some z, g1)" "db_inv g1 A S F" "zref_ok g1 A S F k z xs"
        "zset_of k A = Some (entries (gd_zmem g1) xs)"
      obtain zs where zs: "zref_get g1 z = Some zs" "zset_rep (gd_zmem g1) zs xs" using zref_rep [OF r(2,3)] by blast
      let ?v = "VArr (entry_values (zs_slice (score, name) o1 l1 (entries (gd_zmem g1) xs)))"
      have "yields (do_zquery [c, k, sc, name, off, lim] g) g1 ?v"
      proof (cases "l1 \<le> 0")
        case True
        then have "?v = VArr []" by (simp add: zs_slice_def entry_values_def)
        moreover have "sink.emits (\<lambda>b. out_arr b 0) (tlv_bytes (VArr []))" using emits_out_arr [of 0] by simp
        ultimately show ?thesis
          using r(1) Some i True by (intro yieldsI [where out = "\<lambda>b. out_arr b 0"]) (simp_all add: do_zquery_def vec_get_def)
      next
        case False
        show ?thesis unfolding yields_def
        proof (intro allI impI)
          fix b assume b: "buf_ok b"
          obtain b' where b': "(do {
              znode \<leftarrow> zset_seekge (gd_zmem g1) zs score name;
              znode1 \<leftarrow> znode_offset (gd_zmem g1) znode o1;
              b1 \<leftarrow> out_begin_arr b;
              (n, b2) \<leftarrow> zquery_loop (gd_zmem g1) l1 znode1 0 b1;
              n2 \<leftarrow> s64 (n * 2);
              out_end_arr b2 (word_of_int n2) }) = Some b'"
            "buf_ok b'" "content b' = content b @ tlv_bytes ?v" "marks b' = marks b"
            using zquery_body [OF zs(2) nan zref_len [OF r(3) room] range(1,2) _ range(4) refl b, of name] False by auto
          have "do_zquery [c, k, sc, name, off, lim] g b = Some (g1, b')"
            using r(1) Some i zs(1) False b'(1)
            by (auto simp: do_zquery_def vec_get_def bind_eq_Some_conv split_def)
          then show "\<exists>b'. do_zquery [c, k, sc, name, off, lim] g b = Some (g1, b') \<and> buf_ok b' \<and>
              content b' = content b @ tlv_bytes ?v \<and> marks b' = marks b" using b'(2-4) by blast
        qed
      qed
      from performsI [OF this r(2) room_less [OF room]] show ?thesis using r(4) Some i by (simp add: exec_zquery_def)
    qed
  qed
qed

end
