(* ===== verification/CmdTtl.thy ===== *)
theory CmdTtl
  imports CmdBase
begin

text \<open>The commands on keys as a whole: \<open>keys\<close>, \<open>pexpire\<close> and \<open>pttl\<close>.\<close>

subsection \<open>The list of keys\<close>

lemma cb_keys_run:
  assumes "\<And>a. a \<in> set xs \<Longrightarrow> ents a \<noteq> None"
  shows "cb_run (cb_keys ents) xs (Some b) =
    (True, out_values (map (\<lambda>a. VStr (case ents a of None \<Rightarrow> [] | Some e \<Rightarrow> en_key e)) xs) b)"
proof -
  have none: "cb_run (cb_keys ents) ys None = (True, None)" for ys
    by (induction ys) (simp_all add: cb_keys_def)
  show ?thesis using assms
  proof (induction xs arbitrary: b)
    case (Cons a xs)
    obtain e where e: "ents a = Some e" using Cons.prems [of a] by auto
    show ?case
    proof (cases "out_str b (en_key e)")
      case None
      then have "cb_keys ents a (Some b) = (True, None)" using e by (simp add: cb_keys_def)
      then show ?thesis using e none None by simp
    next
      case (Some b1)
      then have "cb_keys ents a (Some b) = (True, Some b1)" using e by (simp add: cb_keys_def)
      then show ?thesis using e Cons.IH [of b1] Cons.prems Some by simp
    qed
  qed simp
qed

lemma do_keys_run:
  assumes inv: "db_inv g A S F" and room: "room (Suc n) S F"
  shows "\<exists>ks. distinct ks \<and> set ks = dom (ks_map A) \<and> performs n (do_keys [c] g) (VArr (map VStr ks), A)"
proof -
  obtain xs where xs: "distinct xs" "set xs = S" "\<And>cb (s::Buffer option). hm_foreach (gd_node g) (gd_db g) cb s = Some (snd (cb_run cb xs s))"
    using hm_foreach_run [OF db_invD(1) [OF inv]] by blast
  let ?ks = "map (key_of g) xs"
  have kd: "inj_on (key_of g) S" "dom (ks_map A) = key_of g ` S"
    using db_invD(2) [OF inv] by (simp_all add: keys_ok_def)
  have d: "distinct ?ks" "set ?ks = dom (ks_map A)" using kd xs(1,2) by (simp_all add: distinct_map)
  have "a \<in> set xs \<Longrightarrow> gd_entry g a \<noteq> None" for a using live_entry [OF inv] xs(2) by (metis option.distinct(1))
  from cb_keys_run [OF this] have cb: "snd (cb_run (cb_keys (gd_entry g)) xs (Some b)) = out_values (map VStr ?ks) b" for b
    by (simp add: key_of_def comp_def)
  have "hm_size (gd_db g) = w64 (length xs)"
  proof -
    have "unat (hm_size (gd_db g)) = card S" using hm_size_holds(2) [OF db_invD(1) [OF inv]] .
    then show ?thesis using distinct_card [OF xs(1)] xs(2) by (simp add: w64_def flip: word_unat_eq_iff) (metis of_nat_unat ucast_id)
  qed
  then have size: "ucast (hm_size (gd_db g)) = w32 (length (map VStr ?ks))" by simp
  have "sink.emits (\<lambda>b. Option.bind (out_arr b (ucast (hm_size (gd_db g)))) (out_values (map VStr ?ks)))
      (tlv_bytes (VArr (map VStr ?ks)))"
    unfolding size tlv_bytes.simps append_Cons [symmetric]
    by (intro sink.emits_seq emits_out_arr emits_out_values) (rule emits_out_value)
  then have "yields (do_keys [c] g) g (VArr (map VStr ?ks))"
    by (rule yieldsI) (simp only: do_keys_def xs(3) cb Option.bind_lunit Option.bind_assoc)
  from performsI [OF this inv room_less [OF room]] d show ?thesis by blast
qed


subsection \<open>Expiration\<close>

text \<open>The index an entry keeps leads to its item.\<close>

lemma ttl_cell:
  assumes "ttl_inv (a, rs)" "rs e = Some idx"
  shows "ttl_map a e = (if idx = npos then None else Some (hi_val (a ! idx)))"
    and "idx \<noteq> npos \<Longrightarrow> idx < length a"
proof -
  have k: "heap_inv a rs" "length a < npos" "ttl_map a e = None \<Longrightarrow> idx = npos"
    using assms by (auto simp: ttl_inv_def heapq.kept_def)
  have "idx < length a \<and> ttl_map a e = Some (hi_val (a ! idx))" if "ttl_map a e = Some v" for v
  proof -
    have "\<lparr>hi_val = v, hi_ref = e\<rparr> \<in> set a"
      using that ttl_map_iff heap_inv_distinct [OF k(1)] by blast
    then obtain i where i: "i < length a" "a ! i = \<lparr>hi_val = v, hi_ref = e\<rparr>" by (meson in_set_conv_nth)
    then have "rs (hi_ref (a ! i)) = Some i" using k(1) by (auto simp: heap_inv_def refs_ok_def)
    then show ?thesis using assms(2) that i by simp
  qed
  then show "ttl_map a e = (if idx = npos then None else Some (hi_val (a ! idx)))"
    "idx \<noteq> npos \<Longrightarrow> idx < length a"
    using k(2,3) by (cases "ttl_map a e"; auto)+
qed

lemma do_expire_run:
  assumes inv: "db_inv g A S F" and room: "room (Suc n) S F"
  shows "performs n (do_expire [c, k, t] g) (exec_expire k t A)"
proof (cases "str2int t")
  case None
  have "yields (do_expire [c, k, t] g) g (err ERR_BAD_ARG ''expect int64'')" unfolding err_def
    using None by (intro yields_err) (simp add: do_expire_def vec_get_def)
  from performsI [OF this inv room_less [OF room]] show ?thesis using None by (simp add: exec_expire_def)
next
  case (Some ttl)
  obtain p g1 where l: "db_lookup g k = Some (p, g1)" "db_inv g1 A S F" "db_found g1 A S k p"
    using db_lookup_found [OF inv] by blast
  show ?thesis
  proof (cases p)
    case None
    then have k: "ks_map A k = None" using l(3) db_found_None by blast
    have "yields (do_expire [c, k, t] g) g1 (VInt 0)"
      using None Some l(1) by (intro yields_int) (simp add: do_expire_def vec_get_def)
    from performsI [OF this l(2) room_less [OF room]] show ?thesis
      using Some k by (simp add: exec_expire_def count_reply_def)
  next
    case (Some a)
    then have a: "a \<in> S" "key_of g1 a = k" using l(3) by (simp_all add: db_found_def)
    have k: "\<exists>v. ks_map A k = Some v" using db_foundE [OF l(2)] l(3) Some by metis
    obtain g2 where g2: "db_set_ttl g1 a ttl = Some g2" "db_inv g2 (ttl_upd k ttl A) S F"
      using db_set_ttl_run [OF l(2) a room_card [OF room]] by blast
    have "yields (do_expire [c, k, t] g) g2 (VInt 1)"
      using Some \<open>str2int t = Some ttl\<close> l(1) g2(1) by (intro yields_int) (simp add: do_expire_def vec_get_def)
    from performsI [OF this g2(2) room_less [OF room]] show ?thesis
      using \<open>str2int t = Some ttl\<close> k by (auto simp: exec_expire_def count_reply_def ttl_upd_def)
  qed
qed

lemma do_ttl_run:
  assumes inv: "db_inv g A S F" and room: "room (Suc n) S F"
  shows "performs n (do_ttl [c, k] g) (exec_ttl k A)"
proof -
  obtain p g1 where l: "db_lookup g k = Some (p, g1)" "db_inv g1 A S F" "db_found g1 A S k p"
    using db_lookup_found [OF inv] by blast
  show ?thesis
  proof (cases p)
    case None
    then have k: "ks_map A k = None" using l(3) db_found_None by blast
    have "yields (do_ttl [c, k] g) g1 (VInt (- 2))"
      using None l(1) by (intro yields_int) (simp add: do_ttl_def vec_get_def)
    from performsI [OF this l(2) room_less [OF room]] show ?thesis using k by (simp add: exec_ttl_def)
  next
    case (Some a)
    then have a: "a \<in> S" "key_of g1 a = k" using l(3) by (simp_all add: db_found_def)
    obtain e where e: "\<exists>v. ks_map A k = Some v" "ks_ttl A k = ttl_map (gd_heap g1) a"
      using db_foundE [OF l(2)] l(3) Some by metis
    have "a \<in> dom (gd_hidx g1)" using db_invD(6) [OF l(2)] live_owner [OF a(1)] by (simp add: alloc_ok_def)
    then obtain idx where idx: "gd_hidx g1 a = Some idx" by blast
    have ttl: "ttl_inv (gd_heap g1, gd_hidx g1)" using db_invD(4) [OF l(2)] by (simp add: ttl_ok_def)
    note look = ttl_cell [OF ttl idx]
    show ?thesis
    proof (cases "idx = npos")
      case True
      have "yields (do_ttl [c, k] g) g1 (VInt (- 1))"
        using Some l(1) idx True by (intro yields_int) (simp add: do_ttl_def vec_get_def)
      from performsI [OF this l(2) room_less [OF room]] show ?thesis using e look True by (auto simp: exec_ttl_def)
    next
      case False
      let ?t = "hi_val (gd_heap g1 ! idx)"
      obtain now g2 where now: "get_monotonic_msec g1 = (now, g2)" by fastforce
      have clk: "db_inv g2 (ks_step A) S F" "now = ks_now A" using db_inv_clock [OF l(2)] now by simp_all
      have "yields (do_ttl [c, k] g) g2 (VInt (if now < ?t then ?t - now else 0))"
        using Some l(1) idx False look(2) now by (intro yields_int) (simp add: do_ttl_def vec_get_def)
      from performsI [OF this clk(1) room_less [OF room]] show ?thesis
        using e look False clk(2) by (auto simp: exec_ttl_def)
    qed
  qed
qed

end
