(* ===== verification/DbSpec.thy ===== *)
theory DbSpec
  imports CmdZmod CmdTtl
begin

text \<open>
  The dispatcher implements the keyspace: every command line, well-formed or not, gets the
  reply of the specification and leaves a state that represents the next keyspace.
\<close>

subsection \<open>Dispatch\<close>

lemma performsE:
  assumes "performs n f (v, A')" "buf_ok b"
  obtains g' b' where "f b = Some (g', b')" "repr n g' A'" "buf_ok b'" "content b' = content b @ tlv_bytes v"
    "marks b' = marks b"
proof -
  obtain g' where g': "yields f g' v" "repr n g' A'" using assms(1) unfolding performs_def by auto
  then show ?thesis using that assms(2) unfolding yields_def by blast
qed

lemma unknown_run:
  assumes "db_inv g A S F" "room (Suc n) S F" "\<And>b. f b = do { b1 \<leftarrow> out_err b (err_code ERR_UNKNOWN) (str_bytes ''unknown command''); Some (g, b1) }"
  shows "performs n f (err ERR_UNKNOWN ''unknown command'', A)"
proof -
  have "yields f g (err ERR_UNKNOWN ''unknown command'')" unfolding err_def using assms(3) by (rule yields_err)
  from performsI [OF this assms(1) room_less [OF assms(2)]] show ?thesis .
qed

lemma list_lengths:
  fixes cmd :: "'a list"
  obtains "cmd = []" | c where "cmd = [c]" | c k where "cmd = [c, k]" | c k x where "cmd = [c, k, x]"
    | c k s x where "cmd = [c, k, s, x]" | c k s x y where "cmd = [c, k, s, x, y]"
    | c k s x y z where "cmd = [c, k, s, x, y, z]" | c k s x y z w r where "cmd = c # k # s # x # y # z # w # r"
  by (metis list.exhaust)

lemma exec_run:
  assumes inv: "db_inv g A S F" and room: "room (Suc n) S F" and no_keys: "cmd \<noteq> [str_bytes ''keys'']"
  shows "performs n (do_request cmd g) (exec cmd A)"
proof -
  have unk: "performs n f (err ERR_UNKNOWN ''unknown command'', A)"
    if "f = (\<lambda>b. do { b1 \<leftarrow> out_err b (err_code ERR_UNKNOWN) (str_bytes ''unknown command''); Some (g, b1) })" for f
    using that by (intro unknown_run [OF inv room]) simp
  have other: ?thesis if "exec cmd A = (err ERR_UNKNOWN ''unknown command'', A)" "length cmd \<notin> {1, 2, 3, 4, 6}"
    using that unk by (auto intro!: unk ext simp: do_request_def)
  show ?thesis
  proof (cases cmd rule: list_lengths)
    case 1
    then show ?thesis by (intro other) (simp_all add: exec_def)
  next
    case (2 c)
    then show ?thesis using no_keys by (simp add: exec_def) (intro unk ext, simp add: do_request_def)
  next
    case (3 c k)
    have "do_request cmd g = (if c = str_bytes ''get'' then do_get [c, k] g else if c = str_bytes ''del'' then do_del [c, k] g
        else if c = str_bytes ''pttl'' then do_ttl [c, k] g
        else (\<lambda>b. do { b1 \<leftarrow> out_err b (err_code ERR_UNKNOWN) (str_bytes ''unknown command''); Some (g, b1) }))"
      by (rule ext) (simp add: do_request_def 3)
    then show ?thesis
      using do_get_run [OF inv room_less [OF room]] do_del_run [OF inv room] do_ttl_run [OF inv room] unk
      by (simp add: exec_def 3)
  next
    case (4 c k x)
    have "do_request cmd g = (if c = str_bytes ''set'' then do_set [c, k, x] g else if c = str_bytes ''zrem'' then do_zrem [c, k, x] g
        else if c = str_bytes ''zscore'' then do_zscore [c, k, x] g else if c = str_bytes ''zrank'' then do_zrank [c, k, x] g
        else if c = str_bytes ''pexpire'' then do_expire [c, k, x] g
        else (\<lambda>b. do { b1 \<leftarrow> out_err b (err_code ERR_UNKNOWN) (str_bytes ''unknown command''); Some (g, b1) }))"
      by (rule ext) (simp add: do_request_def 4)
    then show ?thesis
      using do_set_run [OF inv room] do_zrem_run [OF inv room] do_zscore_run [OF inv room] do_zrank_run [OF inv room]
        do_expire_run [OF inv room] unk
      by (simp add: exec_def 4)
  next
    case (5 c k s x)
    have "do_request cmd g = (if c = str_bytes ''zadd'' then do_zadd [c, k, s, x] g
        else (\<lambda>b. do { b1 \<leftarrow> out_err b (err_code ERR_UNKNOWN) (str_bytes ''unknown command''); Some (g, b1) }))"
      by (rule ext) (simp add: do_request_def 5)
    then show ?thesis using do_zadd_run [OF inv room] unk by (simp add: exec_def 5)
  next
    case (6 c k s x y)
    then show ?thesis by (intro other) (simp_all add: exec_def)
  next
    case (7 c k s x y z)
    have "do_request cmd g = (if c = str_bytes ''zquery'' then do_zquery [c, k, s, x, y, z] g
        else if c = str_bytes ''zcount'' then do_zcount [c, k, s, x, y, z] g
        else (\<lambda>b. do { b1 \<leftarrow> out_err b (err_code ERR_UNKNOWN) (str_bytes ''unknown command''); Some (g, b1) }))"
      by (rule ext) (simp add: do_request_def 7)
    then show ?thesis
      using do_zquery_run [OF inv room] do_zcount_run [OF inv room] unk by (simp add: exec_def 7)
  next
    case (8 c k s x y z w r)
    then show ?thesis by (intro other) (simp_all add: exec_def)
  qed
qed

lemma do_request_run:
  assumes "repr (Suc n) g A" "buf_ok b"
  shows "\<exists>g' b' v A'. do_request cmd g b = Some (g', b') \<and> db_spec cmd A v A' \<and> repr n g' A' \<and> buf_ok b' \<and>
    content b' = content b @ tlv_bytes v \<and> marks b' = marks b"
proof -
  obtain S F where inv: "db_inv g A S F" and room: "room (Suc n) S F" using assms(1) unfolding repr_def by blast
  obtain v A' where s: "db_spec cmd A v A'" "performs n (do_request cmd g) (v, A')"
  proof (cases "cmd = [str_bytes ''keys'']")
    case True
    have "do_request cmd g = do_keys cmd g" by (rule ext) (simp add: do_request_def True)
    then obtain ks where "distinct ks" "set ks = dom (ks_map A)" "performs n (do_request cmd g) (VArr (map VStr ks), A)"
      using do_keys_run [OF inv room] True by metis
    then show ?thesis using True that [of "VArr (map VStr ks)" A] unfolding db_spec_def by auto
  next
    case False
    obtain v A' where e: "exec cmd A = (v, A')" by fastforce
    then have "performs n (do_request cmd g) (v, A')" using exec_run [OF inv room False] by simp
    then show ?thesis using that e False by (simp add: db_spec_def)
  qed
  show ?thesis using performsE [OF s(2) assms(2)] s(1) by metis
qed

lemma do_request_responds: "responds do_request repr db_spec"
  unfolding responds_def using do_request_run by blast

end
