(* ===== verification/Client.thy ===== *)
theory Client
  imports Protocol
begin

text \<open>
  The client's reader, \<open>read_res\<close> and \<open>print_response\<close> of \<open>src/client/api.cc\<close>. What is
  printed is a list of \<open>printed\<close> items (messages to \<open>stderr\<close> are \<open>PMsg\<close>); the result
  \<open>None\<close> is a read outside the received bytes. \<open>printf\<close> with \<open>%.*s\<close> reads up to the
  precision or the first zero byte; a negative precision is as if it was omitted.
  A response is shorter than \<open>2 ^ 31\<close> bytes, since \<open>read_res\<close> rejects more than 32 MB.
  The sums \<open>1 + 8 + len\<close> and \<open>1 + 4 + len\<close> are \<open>uint32_t\<close>, as in the code.
\<close>

datatype printed = PNil | PErr int bytes | PStr bytes | PInt int | PDbl u64 | PArr u32 | PEnd | PMsg string

text \<open>The bytes \<open>printf("%.*s", prec, p)\<close> prints, \<open>p\<close> being the start of \<open>xs\<close>.\<close>

definition c_str_prec :: "bytes \<Rightarrow> int \<Rightarrow> bytes option" where
  "c_str_prec xs prec =
     (let s = takeWhile (\<lambda>b. b \<noteq> 0) xs in
      if 0 \<le> prec \<and> nat prec \<le> length xs then Some (takeWhile (\<lambda>b. b \<noteq> 0) (take (nat prec) xs))
      else if length s < length xs then Some s
      else None)"

text \<open>The conversion of a \<open>size_t\<close> or \<open>uint32_t\<close> to the return type \<open>int32_t\<close>.\<close>

definition to_i32 :: "nat \<Rightarrow> int" where
  "to_i32 n = sint (w32 n)"

function print_response :: "bytes \<Rightarrow> (int \<times> printed list) option"
  and print_elems :: "nat \<Rightarrow> bytes \<Rightarrow> ((int + nat) \<times> printed list) option"
where
  "print_response data =
     (if length data < 1 then Some (- 1, [PMsg ''empty response''])
      else if data ! 0 = tag_byte TAG_NIL then Some (1, [PNil])
      else if data ! 0 = tag_byte TAG_ERR then
        (if length data < 1 + 8 then Some (- 1, [PMsg ''bad error response''])
         else let code = (of_le (take 4 (drop 1 data)) :: u32); len = (of_le (take 4 (drop 5 data)) :: u32) in
           if length data < unat (1 + 8 + len) then Some (- 1, [PMsg ''bad error response''])
           else do {
             s \<leftarrow> c_str_prec (drop 9 data) (sint len);
             Some (sint (1 + 8 + len), [PErr (sint code) s])
           })
      else if data ! 0 = tag_byte TAG_STR then
        (if length data < 1 + 4 then Some (- 1, [PMsg ''bad string response''])
         else let len = (of_le (take 4 (drop 1 data)) :: u32) in
           if length data < unat (1 + 4 + len) then Some (- 1, [PMsg ''bad string response''])
           else do {
             s \<leftarrow> c_str_prec (drop 5 data) (sint len);
             Some (sint (1 + 4 + len), [PStr s])
           })
      else if data ! 0 = tag_byte TAG_INT then
        (if length data < 1 + 8 then Some (- 1, [PMsg ''bad int response''])
         else Some (1 + 8, [PInt (sint (of_le (take 8 (drop 1 data)) :: u64))]))
      else if data ! 0 = tag_byte TAG_DBL then
        (if length data < 1 + 8 then Some (- 1, [PMsg ''bad dbl response''])
         else Some (1 + 8, [PDbl (of_le (take 8 (drop 1 data)))]))
      else if data ! 0 = tag_byte TAG_ARR then
        (if length data < 1 + 4 then Some (- 1, [PMsg ''bad array response''])
         else let len = (of_le (take 4 (drop 1 data)) :: u32) in
           do {
             (r, out) \<leftarrow> print_elems (unat len) (drop 5 data);
             (case r of
                Inl rv \<Rightarrow> Some (rv, PArr len # out)
              | Inr n \<Rightarrow> Some (to_i32 (5 + n), PArr len # out @ [PEnd]))
           })
      else Some (- 1, [PMsg ''unknown response tag'']))"
| "print_elems 0 rest = Some (Inr 0, [])"
| "print_elems (Suc n) rest = do {
     (rv, out) \<leftarrow> print_response rest;
     (if rv < 0 then Some (Inl rv, out @ [PMsg ''bad array response''])
      else do {
        (r, out1) \<leftarrow> print_elems n (drop (nat rv) rest);
        Some (map_sum id (\<lambda>k. nat rv + k) r, out @ out1)
      })
   }"
  by pat_completeness auto
termination
  by (relation "measures [case_sum length (\<lambda>(n, rest). length rest), case_sum (\<lambda>_. 0) (\<lambda>(n, rest). Suc n)]") auto

declare print_response.simps [simp del]

text \<open>
  \<open>read_res\<close> on the bytes that \<open>read\<close> delivers until it fails or ends: the return value,
  what is printed, and the bytes left.
\<close>

definition read_res :: "bytes \<Rightarrow> (int \<times> printed list \<times> bytes) option" where
  "read_res stream =
     (if length stream < 4 then Some (- 1, [PMsg ''EOF''], [])
      else let len = (of_le (take 4 stream) :: u32); stream1 = drop 4 stream in
        if k_max_msg < unat len then Some (- 1, [PMsg ''response text too large''], stream1)
        else if length stream1 < unat len then Some (- 1, [PMsg ''read_res error''], [])
        else do {
          (rv, out) \<leftarrow> print_response (take (unat len) stream1);
          (if 0 < rv \<and> rv \<noteq> int (unat len)
           then Some (- 1, out @ [PMsg ''print_response: incomplete data''], drop (unat len) stream1)
           else Some (rv, out, drop (unat len) stream1))
        })"


subsection \<open>The reader inverts the writer\<close>

definition c_str :: "bytes \<Rightarrow> bytes" where
  "c_str s = takeWhile (\<lambda>b. b \<noteq> 0) s"

fun printed_of :: "tlv \<Rightarrow> printed list" where
  "printed_of VNil = [PNil]"
| "printed_of (VErr code msg) = [PErr (sint code) (c_str msg)]"
| "printed_of (VStr s) = [PStr (c_str s)]"
| "printed_of (VInt v) = [PInt (sint v)]"
| "printed_of (VDbl v) = [PDbl v]"
| "printed_of (VArr vs) = PArr (w32 (length vs)) # concat (map printed_of vs) @ [PEnd]"

lemma sint_w32: "n < 2 ^ 31 \<Longrightarrow> sint (w32 n) = int n"
  by (simp add: w32_def signed_of_nat signed_take_bit_int_eq_self)

lemma c_str_prec_prefix: "length s < 2 ^ 31 \<Longrightarrow> c_str_prec (s @ rest) (sint (w32 (length s))) = Some (c_str s)"
  by (simp add: c_str_prec_def sint_w32 c_str_def)

lemma w32_offset:
  assumes "n + k < 2 ^ 31"
  shows "unat (w32 k + w32 n) = k + n" "sint (w32 k + w32 n) = int (k + n)"
  using assms by (simp_all add: w32_add sint_w32)

lemma w32_9: "w32 9 = 9" and w32_5: "w32 5 = 5"
  by (simp_all add: w32_def)

lemma print_str:
  assumes "length s + 5 < 2 ^ 31"
  shows "print_response (tlv_bytes (VStr s) @ rest) = Some (int (length s + 5), printed_of (VStr s))"
proof -
  have "length s < 2 ^ 31" using assms by simp
  note c = c_str_prec_prefix [OF this]
  show ?thesis
    using assms w32_offset [of "length s" 5] c unfolding w32_5
    by (subst print_response.simps) (simp add: Let_def)
qed

lemma print_err:
  assumes "length msg + 9 < 2 ^ 31"
  shows "print_response (tlv_bytes (VErr code msg) @ rest) = Some (int (length msg + 9), printed_of (VErr code msg))"
proof -
  have "length msg < 2 ^ 31" using assms by simp
  note c = c_str_prec_prefix [OF this]
  have "drop 4 (le32 code) = []" by simp
  then show ?thesis
    using assms w32_offset [of "length msg" 9] c unfolding w32_9
    by (subst print_response.simps) (simp add: Let_def)
qed

lemma print_scalar:
  "print_response (tlv_bytes VNil @ rest) = Some (1, [PNil])"
  "print_response (tlv_bytes (VInt v) @ rest) = Some (9, [PInt (sint v)])"
  "print_response (tlv_bytes (VDbl v) @ rest) = Some (9, [PDbl v])"
  by (subst print_response.simps, simp)+

lemma tlv_bytes_nonempty: "0 < length (tlv_bytes v)"
  by (cases v) simp_all

lemma length_elems: "length vs \<le> length (concat (map tlv_bytes vs))"
proof (induction vs)
  case (Cons v vs)
  have "length (v # vs) \<le> length (tlv_bytes v) + length (concat (map tlv_bytes vs))"
    using Cons.IH tlv_bytes_nonempty [of v] unfolding list.size by linarith
  then show ?case by simp
qed simp

lemma print_elems_run:
  assumes "\<And>v rest. v \<in> set vs \<Longrightarrow> length (tlv_bytes v @ rest) < 2 ^ 31 \<Longrightarrow>
      print_response (tlv_bytes v @ rest) = Some (int (length (tlv_bytes v)), printed_of v)"
    and "length (concat (map tlv_bytes vs) @ rest) < 2 ^ 31"
  shows "print_elems (length vs) (concat (map tlv_bytes vs) @ rest) =
    Some (Inr (length (concat (map tlv_bytes vs))), concat (map printed_of vs))"
  using assms
proof (induction vs)
  case (Cons v vs)
  have "print_response (tlv_bytes v @ concat (map tlv_bytes vs) @ rest) =
      Some (int (length (tlv_bytes v)), printed_of v)"
    using Cons.prems(2) by (intro Cons.prems(1)) simp_all
  moreover have "print_elems (length vs) (concat (map tlv_bytes vs) @ rest) =
      Some (Inr (length (concat (map tlv_bytes vs))), concat (map printed_of vs))"
    using Cons.prems by (intro Cons.IH) simp_all
  ultimately show ?case by simp
qed simp

lemma print_value:
  "length (tlv_bytes v @ rest) < 2 ^ 31 \<Longrightarrow>
   print_response (tlv_bytes v @ rest) = Some (int (length (tlv_bytes v)), printed_of v)"
proof (induction v arbitrary: rest)
  case (VArr vs)
  have len: "length (concat (map tlv_bytes vs) @ rest) < 2 ^ 31" "length vs < 2 ^ 32"
    "5 + length (concat (map tlv_bytes vs)) < 2 ^ 31"
    using VArr.prems length_elems [of vs] by simp_all
  have "print_elems (length vs) (concat (map tlv_bytes vs) @ rest) =
      Some (Inr (length (concat (map tlv_bytes vs))), concat (map printed_of vs))"
    using VArr.IH len(1) by (rule print_elems_run)
  moreover have "to_i32 (5 + length (concat (map tlv_bytes vs))) = int (5 + length (concat (map tlv_bytes vs)))"
    using len(3) by (simp only: to_i32_def sint_w32)
  ultimately show ?case
    unfolding print_response.simps [of "tlv_bytes (VArr vs) @ rest"] using len(2) by (simp add: Let_def)
next
  case (VErr code msg)
  then have "length msg + 9 < 2 ^ 31" by simp
  from print_err [OF this] show ?case by (simp add: add.commute)
next
  case (VStr s)
  then have "length s + 5 < 2 ^ 31" by simp
  from print_str [OF this] show ?case by (simp add: add.commute)
qed (use print_scalar in simp_all)


text \<open>A length so large that the checked sum wraps passes the check, and \<open>printf\<close> looks for a zero byte.\<close>

lemma c_str_prec_negative:
  "prec < 0 \<Longrightarrow> c_str_prec xs prec = (if 0 \<in> set xs then Some (c_str xs) else None)"
proof -
  have "length (takeWhile (\<lambda>b. b \<noteq> 0) xs) < length xs \<longleftrightarrow> 0 \<in> set xs"
    by (induction xs) auto
  then show "prec < 0 \<Longrightarrow> ?thesis" by (simp add: c_str_prec_def c_str_def)
qed

lemma sint_neg:
  fixes w :: u32
  assumes "2 ^ 31 \<le> unat w"
  shows "sint w < 0"
proof -
  have "unat w < 2 ^ 32" using unsigned_less [of w, where ?'a = nat] by simp
  then have "unat w div 2 ^ 31 = 1" using assms by simp
  then have "bit (unat w) 31" by (simp add: bit_iff_odd)
  then have "bit w 31" by (simp add: bit_unsigned_iff)
  then show ?thesis using bit_last_iff [of w] by simp
qed

lemma wrapped_len:
  fixes k w :: u32
  assumes "2 ^ 32 - unat k \<le> unat w" "0 < unat k" "unat k < 2 ^ 31"
  shows "unat (k + w) < unat k" "sint w < 0"
proof -
  have lt: "unat w < 2 ^ 32" using unsigned_less [of w, where ?'a = nat] by simp
  have "unat (k + w) = (unat k + unat w) mod 2 ^ 32" by (simp add: unat_word_ariths(1))
  also have "\<dots> = unat k + unat w - 2 ^ 32" using assms lt by (simp add: mod_if)
  finally show "unat (k + w) < unat k" using assms lt by linarith
  have "2 ^ 31 \<le> unat w" using assms by simp
  then show "sint w < 0" by (rule sint_neg)
qed

text \<open>A whole response frame.\<close>

lemma read_res_run:
  assumes "length (tlv_bytes v) \<le> k_max_msg"
  shows "read_res (le32 (w32 (length (tlv_bytes v))) @ tlv_bytes v @ rest) =
    Some (int (length (tlv_bytes v)), printed_of v, rest)"
proof -
  have lt: "length (tlv_bytes v) < 2 ^ 31" using assms by (simp add: k_max_msg_def)
  then have "print_response (tlv_bytes v) = Some (int (length (tlv_bytes v)), printed_of v)"
    using print_value [of v "[]"] by simp
  then show ?thesis using assms lt by (simp add: read_res_def Let_def)
qed

definition too_big :: tlv where
  "too_big = VErr (err_code ERR_TOO_BIG) (str_bytes ''response too big'')"

lemma read_frame:
  "read_res (frame (tlv_bytes v) @ rest) =
    (let v' = if k_max_msg < length (tlv_bytes v) then too_big else v
     in Some (int (length (tlv_bytes v')), printed_of v', rest))"
proof (cases "k_max_msg < length (tlv_bytes v)")
  case True
  have "length (tlv_bytes too_big) \<le> k_max_msg" by (simp add: too_big_def str_bytes_def k_max_msg_def)
  then show ?thesis using True read_res_run [of too_big rest] by (simp add: frame_def limited_def too_big_def)
next
  case False
  then show ?thesis using read_res_run [of v rest] by (simp add: frame_def limited_def)
qed

end
