(* ===== verification/WireSpec.thy ===== *)
theory WireSpec
  imports Conn Client
begin

text \<open>
  The properties of the wire: the buffer, the serializer and parser, request framing and
  the connection handlers.
\<close>

subsection \<open>Concrete values for the witnesses\<close>

definition sample_buffer :: Buffer where
  "sample_buffer = \<lparr>bf_buf = [9, 9, 7, 8, 0, 0], bf_readable_begin = 2, bf_writable_begin = 4,
     bf_placeholder_stack = []\<rparr>"

lemma sample_buffer_ok: "buf_ok sample_buffer" "content sample_buffer = [7, 8]" "marks sample_buffer = []"
  by (simp_all add: sample_buffer_def buf_ok_def content_def readable_size_def marks_def)

definition sample_cmd :: "bytes list" where
  "sample_cmd = [str_bytes ''get'', str_bytes ''k'']"

lemma sample_cmd_sendable: "sendable sample_cmd"
  by (simp add: sendable_def sample_cmd_def req_body_def str_bytes_def k_max_msg_def k_max_args_def)

text \<open>The default branch of the dispatcher as a handler.\<close>

definition serve_unknown :: "'s handler" where
  "serve_unknown cmd st b =
     map_option (Pair st) (out_err b (err_code ERR_UNKNOWN) (str_bytes ''unknown command''))"

definition unknown_reply :: "bytes list \<Rightarrow> 'a \<Rightarrow> tlv \<Rightarrow> 'a \<Rightarrow> bool" where
  "unknown_reply cmd A v A' \<longleftrightarrow> v = VErr (err_code ERR_UNKNOWN) (str_bytes ''unknown command'') \<and> A' = A"

lemma serve_unknown_responds: "responds serve_unknown (\<lambda>n st (A :: unit). True) unknown_reply"
  unfolding responds_def
proof (intro allI impI)
  fix n cmd and st :: 's and A :: unit and b
  let ?e = "VErr (err_code ERR_UNKNOWN) (str_bytes ''unknown command'')"
  assume "buf_ok b"
  then obtain b' where "out_err b (err_code ERR_UNKNOWN) (str_bytes ''unknown command'') = Some b'"
    "buf_ok b' \<and> content b' = content b @ tlv_bytes ?e \<and> marks b' = marks b"
    using sink.emitsD [OF emits_out_err] by blast
  then have "serve_unknown cmd st b = Some (st, b') \<and> unknown_reply cmd A ?e A \<and> True \<and> buf_ok b' \<and>
      content b' = content b @ tlv_bytes ?e \<and> marks b' = marks b"
    by (simp add: serve_unknown_def unknown_reply_def)
  then show "\<exists>st' b' v A'. serve_unknown cmd st b = Some (st', b') \<and> unknown_reply cmd A v A' \<and> True \<and> buf_ok b' \<and>
      content b' = content b @ tlv_bytes v \<and> marks b' = marks b"
    by blast
qed

definition empty_buffer :: Buffer where
  "empty_buffer = buffer_new 4096"

lemma empty_buffer_ok: "buf_ok empty_buffer" "content empty_buffer = []" "bf_placeholder_stack empty_buffer = []"
  by (simp_all add: empty_buffer_def buffer_new_def buf_ok_def content_def readable_size_def)

definition buffer_of :: "bytes \<Rightarrow> Buffer" where
  "buffer_of bs = \<lparr>bf_buf = bs, bf_readable_begin = 0, bf_writable_begin = length bs, bf_placeholder_stack = []\<rparr>"

lemma buffer_of_ok: "buf_ok (buffer_of bs)" "content (buffer_of bs) = bs" "bf_placeholder_stack (buffer_of bs) = []"
  by (simp_all add: buffer_of_def buf_ok_def content_def readable_size_def)

definition sample_conn :: "bytes \<Rightarrow> Conn" where
  "sample_conn bs = \<lparr>cn_fd = 5, cn_want_read = True, cn_want_write = False, cn_want_close = False,
     cn_incoming = buffer_of bs, cn_outgoing = empty_buffer, cn_last_active_ms = 0\<rparr>"

lemma sample_conn_ok: "bufs_ok (sample_conn bs)" "content (cn_incoming (sample_conn bs)) = bs"
  "content (cn_outgoing (sample_conn bs)) = []"
  by (simp_all add: sample_conn_def bufs_ok_def buffer_of_ok empty_buffer_ok)

lemma needs_more_nil: "needs_more []"
  by (simp add: needs_more_def)

definition sample_net :: Net where
  "sample_net = \<lparr>nt_epoll_fd = 3, nt_interest = [5 \<mapsto> (True, False)], nt_sock = (\<lambda>_. 0), nt_socks = 1, nt_read = (\<lambda>_. []), nt_sent = (\<lambda>_. [])\<rparr>"

lemma sample_conn_net: "conn_ok (sample_conn []) sample_net"
  using sample_conn_ok [of "[]"] needs_more_nil by (simp add: conn_ok_def sample_net_def sample_conn_def)


subsection \<open>Properties\<close>

text \<open>
  Appending to any well-formed buffer succeeds, whether the bytes fit, the unread
  data is moved to the front or the vector grows; the unread data is kept, the new bytes
  follow it and every deferred position still names the same byte.
\<close>

theorem buf_append_correct:
  assumes "buf_ok b"
  shows "\<exists>b'. buf_append b bs = Some b' \<and> buf_ok b' \<and> content b' = content b @ bs \<and> marks b' = marks b"
  using buf_append_run [OF assms] .

theorem buf_append_correct_witness:
  "\<exists>b'. buf_append sample_buffer [1, 2, 3] = Some b' \<and> content b' = [7, 8, 1, 2, 3]"
  using buf_append_correct [OF sample_buffer_ok(1), of "[1, 2, 3]"] sample_buffer_ok(2) by auto

text \<open>
  Consuming removes exactly that many bytes from the front of the unread data (all of
  it, when fewer are left), and a following shrink loses none of the rest.
\<close>

theorem buf_consume_correct:
  assumes "buf_ok b" and "bf_placeholder_stack b = []"
  shows "\<exists>b'. shrink_if_wasteful (consume b n) k = Some b' \<and> buf_ok b' \<and> content b' = drop n (content b)"
proof -
  have "buf_ok (consume b n)" "content (consume b n) = drop n (content b)" using consume_run [OF assms] by auto
  then show ?thesis using shrink_run [of "consume b n" k] by auto
qed

theorem buf_consume_correct_witness:
  "\<exists>b'. shrink_if_wasteful (consume sample_buffer 1) 2 = Some b' \<and> content b' = [8]"
  using buf_consume_correct [OF sample_buffer_ok(1), of 1 2] sample_buffer_ok(2) by (auto simp: sample_buffer_def)

text \<open>
  C27. The serializer writes exactly the encoding of every value, arrays of any nesting
  included: the deferred lengths are filled in at the right places and the placeholder
  stack is left as it was.
\<close>

theorem out_value_correct:
  assumes "buf_ok b"
  shows "\<exists>b'. out_value v b = Some b' \<and> buf_ok b' \<and> content b' = content b @ tlv_bytes v \<and> marks b' = marks b"
  using sink.emitsD [OF emits_out_value assms] .

theorem out_value_correct_witness:
  "\<exists>b'. out_value (VArr [VInt 7, VArr [VNil]]) sample_buffer = Some b' \<and>
    content b' = [7, 8] @ tlv_bytes (VArr [VInt 7, VArr [VNil]]) \<and> marks b' = []"
  using out_value_correct [OF sample_buffer_ok(1), of "VArr [VInt 7, VArr [VNil]]"] sample_buffer_ok by auto

text \<open>
  The client's reader inverts the serializer: on the encoding of any value, followed by
  any bytes, \<open>print_response\<close> consumes exactly the encoding and prints the value.
\<close>

theorem print_response_correct:
  assumes "length (tlv_bytes v @ rest) < 2 ^ 31"
  shows "print_response (tlv_bytes v @ rest) = Some (int (length (tlv_bytes v)), printed_of v)"
  using print_value [OF assms] .

theorem print_response_correct_witness:
  "print_response (tlv_bytes (VArr [VInt 7, VStr [65, 66]]) @ [1]) = Some (21, [PArr 2, PInt 7, PStr [65, 66], PEnd])"
  using print_response_correct [of "VArr [VInt 7, VStr [65, 66]]" "[1]"]
  by (simp add: c_str_def w32_def)

text \<open>
  C28. The request parser accepts exactly the encodings of argument lists within the
  limits, and returns the arguments: truncated, oversized or trailing bytes are refused.
\<close>

theorem parse_req_exact: "parse_req data = Some cmd \<longleftrightarrow> data = req_body cmd \<and> small_args cmd"
  using parse_req_exact_lemma .

text \<open>
  What the client sends for a command within the limits is one framed request, and the
  server's parser gets the same arguments back from its body.
\<close>

theorem send_parse_roundtrip:
  assumes "length (req_body cmd) \<le> k_max_msg" and "length cmd \<le> k_max_args"
  shows "send_req cmd = Some (Send (request cmd)) \<and> parse_req (drop 4 (request cmd)) = Some cmd"
  using send_req_run [OF assms(1)] parse_req_exact_lemma small_args_of_size [OF assms]
  by (simp add: request_def)

theorem send_parse_roundtrip_witness:
  "send_req sample_cmd = Some (Send (request sample_cmd)) \<and> parse_req (drop 4 (request sample_cmd)) = Some sample_cmd"
  using send_parse_roundtrip [of sample_cmd] sample_cmd_sendable by (simp add: sendable_def)

text \<open>
  Pipelining: from a stream that holds any number of complete requests and then an
  incomplete one, the loop runs exactly these commands in this order, for any handler that
  implements a specification, answers each with one frame, in order, and leaves exactly
  the incomplete rest.
\<close>

theorem process_requests_correct:
  assumes "responds serve R spec" and "R (length cmds + n) st A" and "bufs_ok conn"
    and "content (cn_incoming conn) = concat (map request cmds) @ rest"
    and "\<forall>cmd\<in>set cmds. sendable cmd" and "needs_more rest"
  shows "\<exists>st' A' vs conn'. process_requests serve st conn = Some (Returned (st', conn')) \<and>
    session spec cmds A vs A' \<and> R n st' A' \<and>
    bufs_ok conn' \<and> cn_want_close conn' = cn_want_close conn \<and> content (cn_incoming conn') = rest \<and>
    content (cn_outgoing conn') = content (cn_outgoing conn) @ frames vs"
  using process_requests_run [OF assms] by blast

theorem process_requests_correct_witness:
  "\<exists>vs conn'. process_requests serve_unknown () (sample_conn (request sample_cmd @ request sample_cmd @ [1, 2])) =
      Some (Returned ((), conn')) \<and> length vs = 2 \<and> content (cn_incoming conn') = [1, 2] \<and>
      content (cn_outgoing conn') = frames vs"
proof -
  let ?conn = "sample_conn (request sample_cmd @ request sample_cmd @ [1, 2])"
  have c: "content (cn_incoming ?conn) = concat (map request [sample_cmd, sample_cmd]) @ [1, 2]"
    by (simp add: sample_conn_ok)
  have all: "\<forall>cmd\<in>set [sample_cmd, sample_cmd]. sendable cmd" and more: "needs_more [1, 2]"
    using sample_cmd_sendable by (simp_all add: needs_more_def)
  obtain st' A' vs conn' where "process_requests serve_unknown () ?conn = Some (Returned (st', conn'))"
    "session unknown_reply [sample_cmd, sample_cmd] () vs A'" "content (cn_incoming conn') = [1, 2]"
    "content (cn_outgoing conn') = content (cn_outgoing ?conn) @ frames vs"
    using process_requests_correct [where st = "()" and A = "()",
        OF serve_unknown_responds TrueI sample_conn_ok(1) c all more] by blast
  then show ?thesis using session_length [of unknown_reply] sample_conn_ok(3) by fastforce
qed

text \<open>
  C32. A malformed message marks the connection for closing: nothing is executed, no byte
  is added to the output, and the loop stops.
\<close>

theorem bad_request_closes:
  assumes "bufs_ok conn" and "content (cn_incoming conn) = le32 (w32 (length body)) @ body @ rest"
    and "length body \<le> k_max_msg" and "parse_req body = None"
  shows "process_requests serve st conn = Some (Returned (st, conn\<lparr>cn_want_close := True\<rparr>))"
  using try_bad [OF assms, of serve st] by (subst process_requests.simps) simp

theorem bad_request_closes_witness:
  "process_requests serve_unknown () (sample_conn (le32 1 @ [7])) =
    Some (Returned ((), sample_conn (le32 1 @ [7])\<lparr>cn_want_close := True\<rparr>))"
proof -
  have "content (cn_incoming (sample_conn (le32 1 @ [7]))) = le32 (w32 (length [7 :: u8])) @ [7] @ []"
    by (simp add: sample_conn_ok w32_def)
  moreover have "parse_req [7] = None" by (simp add: parse_req_def read_u32_def)
  ultimately show ?thesis
    using bad_request_closes [OF sample_conn_ok(1), of _ "[7]" "[]" serve_unknown "()"]
    by (simp add: k_max_msg_def)
qed


text \<open>
  Between two events a connection never gets stuck: after any readable event it is
  about to be closed, or it wants exactly one of reading and writing, wants to write
  exactly when it has output, holds no complete request, and is registered with the
  kernel for exactly what it wants. Only its own registration changes, and the effect on
  the database is that of a session of commands, whatever the bytes were: no byte of the
  requests is lost or read twice, and what is written or left to write is exactly the
  frames of the replies. The one exception is the abort on an oversized header that follows on any number of messages in
  the unread input, and the death of the process by SIGPIPE when the peer is gone. Where \<open>epoll_ctl\<close> fails,
  all of this holds but the registration, which is then the old one.
\<close>

theorem handle_read_ready:
  assumes "responds serve R spec" and "R k st A" and "conn_ok conn net" and "cn_want_read conn"
    and "length (content (cn_incoming conn)) + read_len io + n \<le> k"
  shows "(handle_read serve st io wr md conn net = Some Died \<and> (\<exists>data. io = RdBytes data \<and> (oversized (content (cn_incoming conn) @ data) \<or> wr = WrPipe))) \<or>
    (\<exists>st' conn' net' cmds vs A' k'. handle_read serve st io wr md conn net = Some (Returned (st', conn', net')) \<and>
      session spec cmds A vs A' \<and> length (content (cn_incoming conn')) + n \<le> k' \<and> R k' st' A' \<and>
      net_frame (cn_fd conn) net net' \<and> cn_fd conn' = cn_fd conn \<and>
      cn_last_active_ms conn' = cn_last_active_ms conn \<and> conn_left md net conn' net' \<and>
      exchanged cmds vs conn net conn' net')"
  using handle_read_run [OF assms] .

theorem handle_read_ready_witness:
  "handle_read serve_unknown () (RdBytes [1, 0]) WrAgain True (sample_conn []) sample_net = Some Died \<or>
    (\<exists>conn' net'. handle_read serve_unknown () (RdBytes [1, 0]) WrAgain True (sample_conn []) sample_net =
        Some (Returned ((), conn', net')) \<and>
      net_frame (cn_fd (sample_conn [])) sample_net net' \<and> cn_fd conn' = cn_fd (sample_conn []) \<and>
      conn_left True sample_net conn' net')"
proof -
  have c: "cn_want_read (sample_conn [])"
    "length (content (cn_incoming (sample_conn []))) + read_len (RdBytes [1, 0]) + 0 \<le> 2"
    using sample_conn_ok(2) [of "[]"] by (simp_all add: sample_conn_def read_len_def)
  show ?thesis
    using handle_read_ready [where st = "()" and A = "()",
        OF serve_unknown_responds TrueI sample_conn_net c] by fastforce
qed

text \<open>
  A writable event writes from the front of the output: what the kernel took is
  removed and nothing else, no byte is lost or repeated, and the connection is left ready in the sense above.
\<close>

theorem handle_write_ready:
  assumes "conn_ok conn net" and "cn_want_write conn" and "wr \<noteq> WrPipe"
  shows "\<exists>conn' net'. handle_write wr md conn net = Some (Returned (conn', net')) \<and> net_frame (cn_fd conn) net net' \<and>
    conn_left md net conn' net' \<and>
    fd_sent net' (cn_fd conn) @ content (cn_outgoing conn') = fd_sent net (cn_fd conn) @ content (cn_outgoing conn) \<and>
    content (cn_outgoing conn') = (case wr of WrDone n \<Rightarrow> drop n (content (cn_outgoing conn)) | _ \<Rightarrow> content (cn_outgoing conn))"
proof -
  have c: "bufs_ok conn" "cn_want_read conn = False" "cn_want_write conn = True" "content (cn_outgoing conn) \<noteq> []"
    "cn_want_close conn \<or> needs_more (content (cn_incoming conn))" "0 \<le> nt_epoll_fd net" "nt_interest net (cn_fd conn) \<noteq> None"
    using assms by (auto simp: conn_ok_def)
  from handle_write_run [OF c assms(3), of md] show ?thesis by blast
qed

definition sample_writer :: Conn where
  "sample_writer = sample_conn []\<lparr>cn_want_read := False, cn_want_write := True, cn_outgoing := buffer_of [1, 2, 3]\<rparr>"

theorem handle_write_ready_witness:
  "\<exists>conn' net'. handle_write (WrDone 2) True sample_writer (sample_net\<lparr>nt_interest := [5 \<mapsto> (False, True)]\<rparr>) = Some (Returned (conn', net')) \<and>
    content (cn_outgoing conn') = [3]"
proof -
  let ?net = "sample_net\<lparr>nt_interest := [5 \<mapsto> (False, True)]\<rparr>"
  have c: "conn_ok sample_writer ?net" "cn_want_write sample_writer" "content (cn_outgoing sample_writer) = [1, 2, 3]"
    by (simp_all add: conn_ok_def sample_writer_def sample_net_def sample_conn_def bufs_ok_def
        buffer_of_ok empty_buffer_ok needs_more_nil)
  show ?thesis using handle_write_ready [OF c(1,2), of "WrDone 2" True] c(3) by auto
qed

text \<open>
  A \<open>write\<close> to a socket whose peer is gone raises SIGPIPE, which nothing handles: whatever output waits,
  the process dies, with the connections of all other clients.
\<close>

theorem closed_peer_kills:
  assumes "conn_ok conn net" and "cn_want_write conn"
  shows "handle_write WrPipe md conn net = Some Died"
  by (rule handle_write_pipe) (use assms in \<open>simp_all add: conn_ok_def bufs_ok_def\<close>)

theorem closed_peer_kills_witness:
  "handle_write WrPipe True sample_writer (sample_net\<lparr>nt_interest := [5 \<mapsto> (False, True)]\<rparr>) = Some Died"
proof -
  have "conn_ok sample_writer (sample_net\<lparr>nt_interest := [5 \<mapsto> (False, True)]\<rparr>)" "cn_want_write sample_writer"
    by (simp_all add: conn_ok_def sample_writer_def sample_net_def sample_conn_def bufs_ok_def
        buffer_of_ok empty_buffer_ok needs_more_nil)
  then show ?thesis by (rule closed_peer_kills)
qed

text \<open>
  The registration that \<open>epoll_ctl\<close> has failed to change is kept: after requests whose replies could not
  all be written, the kernel still watches the descriptor for input while the connection does not want to
  read, which is what the assertion in front of \<open>handle_read\<close> excludes.
\<close>

theorem ignored_mod_failure:
  assumes "responds serve R spec" and "R (length cmds + n) st A" and "conn_ok conn net" and "cn_want_read conn"
    and "content (cn_incoming conn) @ data = concat (map request cmds)" and "\<forall>cmd\<in>set cmds. sendable cmd"
  shows "\<exists>st' conn' net' vs A'. handle_read serve st (RdBytes data) (WrDone m) False conn net = Some (Returned (st', conn', net')) \<and>
    session spec cmds A vs A' \<and> (m < length (frames vs) \<longrightarrow>
      \<not> cn_want_read conn' \<and> \<not> cn_want_close conn' \<and> nt_interest net' (cn_fd conn') = Some (True, False))"
proof -
  have d: "content (cn_incoming conn) @ data = concat (map request cmds) @ []" using assms(5) by simp
  from handle_read_whole [OF assms(1-4) d assms(6) needs_more_nil, of m False] obtain st' conn' net' vs A' where
    h: "handle_read serve st (RdBytes data) (WrDone m) False conn net = Some (Returned (st', conn', net'))"
      "session spec cmds A vs A'" "cn_fd conn' = cn_fd conn" "\<not> cn_want_close conn'" "conn_left False net conn' net'"
      "content (cn_outgoing conn') = drop m (frames vs)" by blast
  have "\<not> cn_want_read conn'" if "m < length (frames vs)"
    using h(4-6) that by (simp add: conn_left_def conn_ready_def)
  moreover have "nt_interest net' (cn_fd conn') = Some (True, False)"
    using h(3-5) assms(3,4) by (simp add: conn_left_def conn_ok_def)
  ultimately show ?thesis using h(1,2,4) by blast
qed

theorem ignored_mod_failure_witness:
  "\<exists>conn' net'. handle_read serve_unknown () (RdBytes (request sample_cmd)) (WrDone 3) False (sample_conn []) sample_net =
      Some (Returned ((), conn', net')) \<and> \<not> cn_want_read conn' \<and> nt_interest net' (cn_fd conn') = Some (True, False)"
proof -
  have c: "cn_want_read (sample_conn [])"
    "content (cn_incoming (sample_conn [])) @ request sample_cmd = concat (map request [sample_cmd])"
    "\<forall>cmd\<in>set [sample_cmd]. sendable cmd"
    using sample_conn_ok(2) [of "[]"] sample_cmd_sendable by (simp_all add: sample_conn_def)
  have more: "3 < length (frames vs)" if "session unknown_reply [sample_cmd] () vs A'" for vs A'
    using session_length [OF that] by (cases vs) (simp_all add: frame_def)
  show ?thesis
    using ignored_mod_failure [where st = "()" and A = "()" and m = 3, OF serve_unknown_responds TrueI sample_conn_net c] more
    by fastforce
qed

text \<open>
  An empty string as a reply, written where the vector has five bytes left: after the tag and the length
  the write position is the end of the vector, so the last \<open>append\<close> evaluates \<open>&buf[buf.size()]\<close>. It copies
  nothing, which is why the model, which counts accesses only, goes on.
\<close>

theorem empty_string_past_the_end:
  assumes "buf_ok b" and "writable_size b = 5"
  shows "\<exists>b1 b2. buf_append_u8 b (tag_byte TAG_STR) = Some b1 \<and> buf_append_u32 b1 (w32 (length [])) = Some b2 \<and>
    \<not> index_ok (bf_buf b2) (bf_writable_begin b2) \<and> buf_append_str b2 [] = Some b2 \<and> out_str b [] = Some b2"
proof -
  obtain x where x: "length (bf_buf b) = bf_writable_begin b + 5" "x = bf_writable_begin b"
    using assms by (simp add: writable_size_def capacity_def buf_ok_def)
  define b1 where "b1 = b\<lparr>bf_buf := take x (bf_buf b) @ [2] @ drop (x + 1) (bf_buf b), bf_writable_begin := x + 1\<rparr>"
  have 1: "buf_append_u8 b (tag_byte TAG_STR) = Some b1"
    using x by (simp add: buf_append_u8_def buf_append_def ensure_writable_def writable_size_def capacity_def put_bytes_def b1_def)
  define b2 where "b2 = b1\<lparr>bf_buf := take (x + 1) (bf_buf b1) @ le32 0 @ drop (x + 5) (bf_buf b1), bf_writable_begin := x + 5\<rparr>"
  have 2: "buf_append_u32 b1 0 = Some b2"
    using x by (simp add: buf_append_u32_def buf_append_def ensure_writable_def writable_size_def capacity_def put_bytes_def b1_def b2_def)
  have len: "length (bf_buf b2) = x + 5" "bf_writable_begin b2 = x + 5" using x by (simp_all add: b1_def b2_def)
  then have "buf_append_str b2 [] = Some b2"
    by (simp add: buf_append_str_def buf_append_def ensure_writable_def put_bytes_def)
  then show ?thesis using 1 2 len by (simp add: out_str_def index_ok_def)
qed

theorem empty_string_past_the_end_witness:
  "\<exists>b2. out_str (buffer_new 5) [] = Some b2 \<and> \<not> index_ok (bf_buf b2) (bf_writable_begin b2)"
proof -
  have "buf_ok (buffer_new 5)" "writable_size (buffer_new 5) = 5"
    by (simp_all add: buffer_new_def buf_ok_def writable_size_def capacity_def)
  from empty_string_past_the_end [OF this] show ?thesis by blast
qed

text \<open>
  C38. A message header above the limit ends the whole server process: \<open>die\<close> aborts
  before the two statements after it, which mark only this connection for closing.
\<close>

theorem oversized_header_aborts:
  assumes "bufs_ok conn" and "content (cn_incoming conn) = le32 w @ rest" and "k_max_msg < unat w"
  shows "process_requests serve st conn = Some Died"
proof -
  have "try_process_one_request serve st conn = Some Died"
    using assms by (intro try_oversized) (simp_all add: bufs_ok_def)
  then show ?thesis by (subst process_requests.simps) simp
qed

theorem oversized_header_aborts_witness:
  "process_requests serve_unknown () (sample_conn (le32 0xFFFFFFFF @ [])) = Some Died"
  using oversized_header_aborts [OF sample_conn_ok(1), of "le32 0xFFFFFFFF @ []" "0xFFFFFFFF" "[]"]
  by (simp add: sample_conn_ok k_max_msg_def)

text \<open>
  C39. \<open>send_req\<close> computes the payload size modulo \<open>2 ^ 32\<close>, and for every command its outcome is that
  of the reduced size: too large when the remainder is, the framed request when nothing was reduced, and
  otherwise the size check passes and a copy after it runs outside the vector.
\<close>

theorem send_req_size_wraps:
  "unat (payload_size cmd) = length (req_body cmd) mod 2 ^ 32 \<and>
   send_req cmd = (if k_max_msg < length (req_body cmd) mod 2 ^ 32 then Some TooLarge
     else if length (req_body cmd) < 2 ^ 32 then Some (Send (request cmd)) else None)"
  using send_req_exact by (simp add: payload_size_eq w32_def unat_of_nat)

theorem send_req_size_wraps_witness: "send_req [replicate (2 ^ 32 - 8) 0] = None"
proof -
  have "length (req_body [replicate (2 ^ 32 - 8) 0]) = 2 ^ 32" by (simp add: req_body_def)
  then show ?thesis using send_req_size_wraps [of "[replicate (2 ^ 32 - 8) 0]"] by simp
qed

text \<open>
  C40. The client trusts the length of a string or of an error message: the sums \<open>1 + 4 + len\<close> and
  \<open>1 + 8 + len\<close> wrap for the five and the nine largest lengths, the check passes whatever follows, and
  \<open>printf\<close> gets a negative precision: it prints up to a zero byte, and without one it reads beyond the
  received bytes. With a smaller length of a string no response makes the reader do so.
\<close>

theorem print_response_overread:
  "(2 ^ 32 - 5 \<le> unat len \<longrightarrow> print_response (tag_byte TAG_STR # le32 len @ rest) =
      (if 0 \<in> set rest then Some (sint (5 + len), [PStr (c_str rest)]) else None)) \<and>
   (2 ^ 32 - 9 \<le> unat len \<longrightarrow> print_response (tag_byte TAG_ERR # le32 code @ le32 len @ rest) =
      (if 0 \<in> set rest then Some (sint (9 + len), [PErr (sint code) (c_str rest)]) else None)) \<and>
   (unat len < 2 ^ 32 - 5 \<and> length rest < 2 ^ 31 \<longrightarrow> print_response (tag_byte TAG_STR # le32 len @ rest) \<noteq> None)"
proof (intro conjI impI)
  assume "2 ^ 32 - 5 \<le> unat len"
  then have w: "unat (5 + len) < 5" "sint len < 0" using wrapped_len [of 5 len] by simp_all
  then show "print_response (tag_byte TAG_STR # le32 len @ rest) =
      (if 0 \<in> set rest then Some (sint (5 + len), [PStr (c_str rest)]) else None)"
    by (subst print_response.simps) (simp add: Let_def c_str_prec_negative)
next
  assume "2 ^ 32 - 9 \<le> unat len"
  then have w: "unat (9 + len) < 9" "sint len < 0" using wrapped_len [of 9 len] by simp_all
  then show "print_response (tag_byte TAG_ERR # le32 code @ le32 len @ rest) =
      (if 0 \<in> set rest then Some (sint (9 + len), [PErr (sint code) (c_str rest)]) else None)"
    by (subst print_response.simps) (simp add: Let_def c_str_prec_negative)
next
  assume a: "unat len < 2 ^ 32 - 5 \<and> length rest < 2 ^ 31"
  then have u: "unat (5 + len) = 5 + unat len" by (simp add: unat_word_ariths(1))
  have "c_str_prec rest (sint len) \<noteq> None" if "unat len \<le> length rest"
  proof -
    have "len = w32 (unat len)" "unat len < 2 ^ 31" using a that by (simp_all add: w32_def)
    then have "sint len = int (unat len)" using sint_w32 by metis
    then show ?thesis using that by (simp add: c_str_prec_def)
  qed
  then show "print_response (tag_byte TAG_STR # le32 len @ rest) \<noteq> None"
    by (subst print_response.simps) (auto simp: Let_def u)
qed

theorem print_response_overread_witness: "print_response (tag_byte TAG_STR # le32 0xFFFFFFFF @ []) = None"
  using print_response_overread [of "0xFFFFFFFF" "[]" 0] by simp

end
