(* ===== verification/DbProps.thy ===== *)
theory DbProps
  imports DbSpec WireSpec
begin

text \<open>
  The properties of the server's commands, on any state that represents a keyspace. The state
  of a fresh process is \<open>init_db\<close>; its clock is arbitrary.
\<close>

definition init_db :: "(nat \<Rightarrow> timespec) \<Rightarrow> GlobalData" where
  "init_db clock = \<lparr>gd_db = hmap_zero, gd_node = Map.empty, gd_entry = Map.empty, gd_heap = [], gd_hidx = Map.empty,
     gd_zmem = no_zmem, gd_jobs = [], gd_busy = [], gd_next = 1, gd_clock = clock, gd_tick = 0\<rparr>"

definition empty_ks :: "(nat \<Rightarrow> timespec) \<Rightarrow> keyspace" where
  "empty_ks clock = \<lparr>ks_map = Map.empty, ks_ttl = Map.empty, ks_clock = msec_of \<circ> clock, ks_tick = 0\<rparr>"

lemma init_db_repr:
  assumes "n < 2 ^ 32 - 2"
  shows "repr n (init_db clock) (empty_ks clock)"
proof -
  let ?g = "init_db clock" and ?A = "empty_ks clock"
  have "zmem_ok no_zmem" using no_zmem_holds by (simp add: zset_holds_def)
  then have "zsets_ok ?g {} (\<lambda>_. [])" by (simp add: zsets_ok_def owners_def init_db_def)
  moreover have "hm_holds Map.empty hmap_zero {}"
    using zset_repD(2) [OF zset_rep_zero [of no_zmem]] by (simp add: zset_zero_def no_zmem_def)
  then have "hm_holds (gd_node ?g) (gd_db ?g) {}" by (simp add: init_db_def)
  moreover have "keys_ok ?g ?A {} (\<lambda>_. [])" by (simp add: keys_ok_def empty_ks_def)
  moreover have "ttl_inv (gd_heap ?g, gd_hidx ?g)"
    unfolding init_db_def by (simp, rule ttl_invI) (simp_all add: heap_inv_def is_heap_def refs_ok_def npos_def)
  then have "ttl_ok ?g {}" by (simp add: ttl_ok_def init_db_def ttl_map_def)
  moreover have "jobs_ok ?g {}" "alloc_ok ?g {}"
    by (simp_all add: jobs_ok_def alloc_ok_def owners_def init_db_def)
  ultimately have "db_inv ?g ?A {} (\<lambda>_. [])" by (simp add: db_inv_def init_db_def empty_ks_def)
  moreover have "room n {} (\<lambda>_. [])" using assms by (simp add: room_def)
  ultimately show ?thesis unfolding repr_def by blast
qed


subsection \<open>Sequences of commands\<close>

fun run_requests :: "bytes list list \<Rightarrow> GlobalData \<Rightarrow> Buffer \<Rightarrow> (GlobalData \<times> Buffer) option" where
  "run_requests [] g b = Some (g, b)"
| "run_requests (cmd # cmds) g b = do { (g1, b1) \<leftarrow> do_request cmd g b; run_requests cmds g1 b1 }"

definition replies :: "tlv list \<Rightarrow> bytes" where
  "replies vs = concat (map tlv_bytes vs)"

lemma run_requests_run:
  "repr (length cmds + n) g A \<Longrightarrow> buf_ok b \<Longrightarrow>
    \<exists>g' b' vs A'. run_requests cmds g b = Some (g', b') \<and> session db_spec cmds A vs A' \<and> repr n g' A' \<and>
      buf_ok b' \<and> content b' = content b @ replies vs"
proof (induction cmds arbitrary: g A b)
  case Nil
  then have "run_requests [] g b = Some (g, b) \<and> session db_spec [] A [] A \<and> repr n g A \<and> buf_ok b \<and>
      content b = content b @ replies []" by (simp add: session_nil replies_def)
  then show ?case by blast
next
  case (Cons cmd cmds)
  then have "repr (Suc (length cmds + n)) g A" by simp
  from do_request_run [OF this Cons.prems(2), of cmd] obtain g1 b1 v B where
    r: "do_request cmd g b = Some (g1, b1)" "db_spec cmd A v B" "repr (length cmds + n) g1 B" "buf_ok b1"
      "content b1 = content b @ tlv_bytes v" by blast
  from Cons.IH [OF r(3,4)] obtain g' b' vs A' where
    "run_requests cmds g1 b1 = Some (g', b') \<and> session db_spec cmds B vs A' \<and> repr n g' A' \<and> buf_ok b' \<and>
      content b' = content b1 @ replies vs" by blast
  then have "run_requests (cmd # cmds) g b = Some (g', b') \<and> session db_spec (cmd # cmds) A (v # vs) A' \<and> repr n g' A' \<and>
      buf_ok b' \<and> content b' = content b @ replies (v # vs)"
    using r session_cons [where spec = db_spec, OF r(2)] by (simp add: replies_def)
  then show ?case by blast
qed

text \<open>Two commands whose replies are determined.\<close>

lemma run_two:
  assumes "repr (n + 2) g A" "buf_ok b" and c: "c1 \<noteq> [str_bytes ''keys'']" "c2 \<noteq> [str_bytes ''keys'']"
    and e: "exec c1 A = (v1, A1)" "exec c2 A1 = (v2, A2)"
  shows "\<exists>g' b'. run_requests [c1, c2] g b = Some (g', b') \<and> repr n g' A2 \<and> buf_ok b' \<and>
    content b' = content b @ tlv_bytes v1 @ tlv_bytes v2"
proof -
  have "repr (length [c1, c2] + n) g A" using assms(1) by (simp add: add.commute)
  from run_requests_run [OF this assms(2)] obtain g' b' vs A' where
    r: "run_requests [c1, c2] g b = Some (g', b')" "session db_spec [c1, c2] A vs A'" "repr n g' A'" "buf_ok b'"
      "content b' = content b @ replies vs" by blast
  then have "vs = [v1, v2] \<and> A' = A2" using e c by (auto simp: session_simps db_spec_def)
  then show ?thesis using r by (simp add: replies_def)
qed

lemma run_one:
  assumes "repr (Suc n) g A" "buf_ok b" "c \<noteq> [str_bytes ''keys'']" "exec c A = (v, A1)"
  shows "\<exists>g' b'. do_request c g b = Some (g', b') \<and> repr n g' A1 \<and> buf_ok b' \<and> content b' = content b @ tlv_bytes v"
proof -
  from do_request_run [OF assms(1,2), of c] obtain g' b' v' A' where
    r: "do_request c g b = Some (g', b')" "db_spec c A v' A'" "repr n g' A'" "buf_ok b'"
      "content b' = content b @ tlv_bytes v'" by blast
  then have "v' = v \<and> A' = A1" using assms(3,4) by (simp add: db_spec_def)
  then show ?thesis using r by blast
qed

lemma not_keys: "x # y # zs \<noteq> [str_bytes ''keys'']"
  by simp

lemmas exec_simps = exec_def str_bytes_def

subsection \<open>Consequences of the representation\<close>

text \<open>The entries of the sorted sets of a keyspace are in order and have one name each.\<close>

lemma repr_sorted:
  assumes "repr n g A" "ks_map A k = Some (DZSet es)"
  shows "sorted_wrt (<) (map ekey es)" "distinct (map snd es)"
proof -
  obtain S F where inv: "db_inv g A S F" using assms(1) unfolding repr_def by blast
  then have "dom (ks_map A) = key_of g ` S" using db_invD(2) by (simp add: keys_ok_def)
  moreover have "k \<in> dom (ks_map A)" using assms(2) by (rule domI)
  ultimately obtain a where a: "a \<in> S" "key_of g a = k" by (metis imageE)
  then have "db_found g A S k (Some a)" by (simp add: db_found_def)
  from db_foundE [OF inv this] obtain e where e: "gd_entry g a = Some e"
    "en_type e = T_STR \<and> ks_map A k = Some (DStr (en_str e)) \<or>
     en_type e = T_ZSET \<and> ks_map A k = Some (DZSet (entries (gd_zmem g) (F a)))" by metis
  have t: "en_type e = T_ZSET" "es = entries (gd_zmem g) (F a)" using e(2) unfolding assms(2) by simp_all
  note rep = db_zset(1) [OF inv a(1) e(1) t(1)]
  show "sorted_wrt (<) (map ekey es)" "distinct (map snd es)" using zset_repD(4,5) [OF rep] t(2) by simp_all
qed

lemma zset_of_sorted:
  assumes "repr n g A" "zset_of k A = Some es"
  shows "sorted_wrt (<) (map ekey es)"
proof (cases "ks_map A k")
  case None
  then show ?thesis using assms(2) by (simp add: zset_of_def)
next
  case (Some v)
  then have "v = DZSet es" using assms(2) by (cases v) (simp_all add: zset_of_def)
  then show ?thesis using repr_sorted(1) [OF assms(1)] Some by simp
qed

lemmas exec_cmd_defs = exec_get_def exec_set_def exec_del_def exec_zadd_def exec_zrem_def exec_zscore_def exec_zrank_def
  exec_zquery_def exec_zcount_def exec_expire_def exec_ttl_def ks_step_def

lemma exec_frame:
  assumes "k \<notin> set (take 1 (drop 1 cmd))"
  shows "ks_map (snd (exec cmd A)) k = ks_map A k \<and> ks_ttl (snd (exec cmd A)) k = ks_ttl A k"
proof (cases cmd rule: list_lengths)
  case (3 c j)
  then show ?thesis using assms by (auto simp: exec_def exec_cmd_defs split: option.split)
next
  case (4 c j x)
  then show ?thesis using assms by (simp add: exec_def exec_cmd_defs split: option.split dvalue.split)
next
  case (5 c j s x)
  then show ?thesis using assms by (simp add: exec_def exec_cmd_defs split: option.split)
next
  case (7 c j s x y z)
  then show ?thesis by (simp add: exec_def exec_zquery_def exec_zcount_def)
qed (simp_all add: exec_def)

lemma count_filter:
  assumes "sorted_wrt (<) (map ekey es)" "\<exists>d\<in>set es. ekey e2 \<le> ekey d"
  shows "zs_count e1 e2 es = length (filter (\<lambda>d. ekey e1 \<le> ekey d \<and> ekey d < ekey e2) es)"
proof -
  let ?i = "zs_pos e1 es" and ?j = "zs_pos e2 es"
  note s1 = zs_pos_split [OF assms(1), of e1] and s2 = zs_pos_split [OF assms(1), of e2]
  have inside: "?j < length es"
  proof (rule ccontr)
    assume "\<not> ?j < length es"
    then have "\<forall>d\<in>set es. ekey d < ekey e2" using s2(1) by simp
    then show False using assms(2) by (meson leD)
  qed
  have lower: "ekey e1 \<le> ekey (es ! i) \<longleftrightarrow> ?i \<le> i" "ekey (es ! i) < ekey e2 \<longleftrightarrow> i < ?j" if "i < length es" for i
  proof -
    have "es ! i \<in> set (drop n es)" if "n \<le> i" for n
      using that \<open>i < length es\<close> by (auto simp: in_set_conv_nth intro!: exI [of _ "i - n"])
    moreover have "es ! i \<in> set (take n es)" if "i < n" for n
      using that \<open>i < length es\<close> by (auto simp: in_set_conv_nth intro!: exI [of _ i])
    ultimately show "ekey e1 \<le> ekey (es ! i) \<longleftrightarrow> ?i \<le> i" "ekey (es ! i) < ekey e2 \<longleftrightarrow> i < ?j"
      using s1 s2 by (meson leD not_le_imp_less)+
  qed
  have "{i. i < length es \<and> ekey e1 \<le> ekey (es ! i) \<and> ekey (es ! i) < ekey e2} = {?i..<?j}"
    using lower inside by auto
  then have "length (filter (\<lambda>d. ekey e1 \<le> ekey d \<and> ekey d < ekey e2) es) = ?j - ?i"
    by (simp add: length_filter_conv_card)
  then show ?thesis using inside by (auto simp: zs_count_def)
qed


subsection \<open>A concrete keyspace\<close>

text \<open>The keyspace with one set of one entry, which the witnesses query.\<close>

definition one_ks :: keyspace where
  "one_ks = (empty_ks (\<lambda>_. time_0))\<lparr>ks_map := [[122] \<mapsto> DZSet [(0x3FF0000000000000, [97])]]\<rparr>"

lemma dbl_args: "str2dbl [48] = Some 0" "str2dbl [49] = Some 0x3FF0000000000000"
proof -
  have "bitlen (Suc 0) = 1" by (simp add: bitlen.simps)
  then show "str2dbl [48] = Some 0" "str2dbl [49] = Some 0x3FF0000000000000"
    by (simp_all add: str2dbl_def strtod_def c_string_def c_isspace_def c_isdigit_def c_tolower_def digit_val_def
        digits_val_def c_sign_def c_mantissa_def c_exponent_def c_dec_def c_hex_def c_word_def dbl_of_def round_dbl_def
        scale2_def round_half_even_def dbl_inf_def dbl_isnan_def dbl_mag_def w64_def)
qed

lemma one_ks_repr: "\<exists>g. repr 2 g one_ks"
proof -
  have r: "repr (Suc 2) (init_db (\<lambda>_. time_0)) (empty_ks (\<lambda>_. time_0))" by (rule init_db_repr) simp
  have e: "exec [str_bytes ''zadd'', [122], [49], [97]] (empty_ks (\<lambda>_. time_0)) = (VInt 1, one_ks)"
    by (simp add: exec_simps exec_zadd_def zset_of_def empty_ks_def one_ks_def dbl_args scores_def count_reply_def
        zs_add_def zs_remove_def)
  from run_one [OF r empty_buffer_ok(1) _ e] show ?thesis by auto
qed


subsection \<open>Properties\<close>

text \<open>
  C8. On every state that represents a keyspace, every command line is answered: the
  dispatcher writes exactly the encoding of a reply that the keyspace allows and leaves a
  state that represents the next keyspace, with room for one command less.
\<close>

theorem do_request_correct:
  assumes "repr (Suc n) g A" and "buf_ok b"
  shows "\<exists>g' b' v A'. do_request cmd g b = Some (g', b') \<and> db_spec cmd A v A' \<and> repr n g' A' \<and> buf_ok b' \<and>
    content b' = content b @ tlv_bytes v \<and> marks b' = marks b"
  using do_request_run [OF assms] .

theorem do_request_correct_witness:
  "\<exists>g' b'. do_request [str_bytes ''set'', [1], [2]] (init_db (\<lambda>_. time_0)) empty_buffer = Some (g', b') \<and>
    repr 0 g' ((empty_ks (\<lambda>_. time_0))\<lparr>ks_map := [[1] \<mapsto> DStr [2]]\<rparr>) \<and> content b' = [0]"
proof -
  have "repr (Suc 0) (init_db (\<lambda>_. time_0)) (empty_ks (\<lambda>_. time_0))" by (rule init_db_repr) simp
  from do_request_correct [OF this empty_buffer_ok(1), of "[str_bytes ''set'', [1], [2]]"] show ?thesis
    by (auto simp: db_spec_def exec_simps exec_set_def empty_ks_def empty_buffer_ok)
qed

text \<open>What \<open>set\<close> stores under a key that holds no sorted set is what the next \<open>get\<close> replies.\<close>

theorem set_get_roundtrip:
  assumes "repr (n + 2) g A" and "buf_ok b" and "ks_map A k = None \<or> ks_map A k = Some (DStr t)"
  shows "\<exists>g' b'. run_requests [[str_bytes ''set'', k, s], [str_bytes ''get'', k]] g b = Some (g', b') \<and>
    repr n g' (A\<lparr>ks_map := (ks_map A)(k \<mapsto> DStr s)\<rparr>) \<and>
    content b' = content b @ tlv_bytes VNil @ tlv_bytes (VStr s)"
proof -
  have e1: "exec [str_bytes ''set'', k, s] A = (VNil, A\<lparr>ks_map := (ks_map A)(k \<mapsto> DStr s)\<rparr>)"
    using assms(3) by (auto simp: exec_simps exec_set_def)
  have e2: "exec [str_bytes ''get'', k] (A\<lparr>ks_map := (ks_map A)(k \<mapsto> DStr s)\<rparr>) =
      (VStr s, A\<lparr>ks_map := (ks_map A)(k \<mapsto> DStr s)\<rparr>)"
    by (simp add: exec_simps exec_get_def)
  from run_two [OF assms(1,2) not_keys not_keys e1 e2] show ?thesis by blast
qed

theorem set_get_roundtrip_witness:
  "\<exists>g' b'. run_requests [[str_bytes ''set'', [1], [2]], [str_bytes ''get'', [1]]] (init_db (\<lambda>_. time_0)) empty_buffer = Some (g', b') \<and>
    content b' = [0] @ tlv_bytes (VStr [2])"
proof -
  have "repr (0 + 2) (init_db (\<lambda>_. time_0)) (empty_ks (\<lambda>_. time_0))" by (rule init_db_repr) simp
  moreover have "ks_map (empty_ks (\<lambda>_. time_0)) [1] = None \<or> ks_map (empty_ks (\<lambda>_. time_0)) [1] = Some (DStr [])"
    by (simp add: empty_ks_def)
  ultimately show ?thesis using set_get_roundtrip [OF _ empty_buffer_ok(1)] empty_buffer_ok(2) by fastforce
qed


text \<open>
  C10. A command changes at most the key it names: the value and the expiration time of
  every other key stay what they were, whatever the command line is.
\<close>

theorem request_touches_one_key:
  assumes "repr (Suc n) g A" and "buf_ok b"
  shows "\<exists>g' b' A'. do_request cmd g b = Some (g', b') \<and> repr n g' A' \<and>
    (\<forall>k. k \<notin> set (take 1 (drop 1 cmd)) \<longrightarrow> ks_map A' k = ks_map A k \<and> ks_ttl A' k = ks_ttl A k)"
proof -
  from do_request_run [OF assms, of cmd] obtain g' b' v A' where
    r: "do_request cmd g b = Some (g', b')" "db_spec cmd A v A'" "repr n g' A'" by blast
  have "A' = A \<or> A' = snd (exec cmd A)" using r(2) by (auto simp: db_spec_def split: if_splits) (metis snd_conv)
  then show ?thesis using r(1,3) exec_frame [of _ cmd A] by blast
qed

theorem request_touches_one_key_witness:
  "\<exists>g' b' A'. do_request [str_bytes ''del'', [1]] (init_db (\<lambda>_. time_0)) empty_buffer = Some (g', b') \<and> repr 0 g' A' \<and>
    ks_map A' [2] = None"
proof -
  have "repr (Suc 0) (init_db (\<lambda>_. time_0)) (empty_ks (\<lambda>_. time_0))" by (rule init_db_repr) simp
  from request_touches_one_key [OF this empty_buffer_ok(1), of "[str_bytes ''del'', [1]]"] obtain g' b' A' where
    r: "do_request [str_bytes ''del'', [1]] (init_db (\<lambda>_. time_0)) empty_buffer = Some (g', b')" "repr 0 g' A'"
      "\<forall>k. k \<notin> set (take 1 (drop 1 [str_bytes ''del'', [1]])) \<longrightarrow>
        ks_map A' k = ks_map (empty_ks (\<lambda>_. time_0)) k \<and> ks_ttl A' k = ks_ttl (empty_ks (\<lambda>_. time_0)) k" by blast
  have "[2] \<notin> set (take 1 (drop 1 [str_bytes ''del'', [1 :: u8]]))" by simp
  with r(3) have "ks_map A' [2] = ks_map (empty_ks (\<lambda>_. time_0)) [2]" by blast
  then show ?thesis using r(1,2) by (auto simp: empty_ks_def)
qed

text \<open>
  C9. From a fresh process, any sequence of fewer than \<open>2 ^ 32 - 2\<close> commands runs without a
  failed assertion, an invalid memory access or a signed overflow, and leaves every sorted
  set with its entries in strictly increasing (score, name) order and one entry per name.
\<close>

theorem any_commands_run:
  assumes "length cmds < 2 ^ 32 - 2"
  shows "\<exists>g b A. run_requests cmds (init_db clock) empty_buffer = Some (g, b) \<and> repr 0 g A \<and>
    (\<forall>k es. ks_map A k = Some (DZSet es) \<longrightarrow> sorted_wrt (<) (map ekey es) \<and> distinct (map snd es))"
proof -
  have "repr (length cmds + 0) (init_db clock) (empty_ks clock)" using init_db_repr assms by simp
  from run_requests_run [OF this empty_buffer_ok(1)] obtain g b A where
    r: "run_requests cmds (init_db clock) empty_buffer = Some (g, b)" "repr 0 g A" by blast
  show ?thesis
  proof (intro exI conjI allI impI)
    show "run_requests cmds (init_db clock) empty_buffer = Some (g, b)" "repr 0 g A" using r .
  qed (use repr_sorted [OF r(2)] in simp_all)
qed

theorem any_commands_run_witness:
  "\<exists>g b A. run_requests [[], [str_bytes ''zadd'', [1], [49], [2]], [str_bytes ''keys'']] (init_db (\<lambda>_. time_0)) empty_buffer =
    Some (g, b) \<and> repr 0 g A"
proof -
  have "length [[], [str_bytes ''zadd'', [1], [49], [2]], [str_bytes ''keys'']] < 2 ^ 32 - 2" by simp
  from any_commands_run [OF this] show ?thesis by blast
qed


text \<open>
  C31. \<open>zcount\<close> with an upper bound that some entry reaches counts exactly the entries from
  the lower bound up to, and not including, the upper bound.
\<close>

theorem zcount_counts:
  assumes "repr (Suc n) g A" and "buf_ok b" and "zset_of k A = Some es"
    and "str2dbl sc1 = Some s1" and "str2dbl sc2 = Some s2" and "\<exists>d\<in>set es. ekey (s2, name2) \<le> ekey d"
  shows "\<exists>g' b'. do_request [str_bytes ''zcount'', k, sc1, name1, sc2, name2] g b = Some (g', b') \<and> repr n g' A \<and>
    content b' = content b @ tlv_bytes (VInt (w64 (length
      (filter (\<lambda>d. ekey (s1, name1) \<le> ekey d \<and> ekey d < ekey (s2, name2)) es))))"
proof -
  have "exec [str_bytes ''zcount'', k, sc1, name1, sc2, name2] A =
      (VInt (w64 (zs_count (s1, name1) (s2, name2) es)), A)"
    using assms(3-5) by (simp add: exec_simps exec_zcount_def)
  from run_one [OF assms(1,2) _ this] show ?thesis
    using count_filter [OF zset_of_sorted [OF assms(1,3)] assms(6)] by (simp del: tlv_bytes.simps) blast
qed

theorem zcount_counts_witness:
  "\<exists>g g' b'. repr 2 g one_ks \<and>
    do_request [str_bytes ''zcount'', [122], [48], [], [49], [97]] g empty_buffer = Some (g', b') \<and>
    content b' = tlv_bytes (VInt 0)"
proof -
  obtain g where g: "repr (Suc 1) g one_ks" using one_ks_repr by (auto simp: numeral_2_eq_2)
  have z: "zset_of [122] one_ks = Some [(0x3FF0000000000000, [97])]" by (simp add: zset_of_def one_ks_def)
  have "ekey (0x3FF0000000000000, [97]) \<le> ekey (0x3FF0000000000000, [97 :: u8])" by simp
  then have "\<exists>d\<in>set [(0x3FF0000000000000, [97])]. ekey (0x3FF0000000000000, [97]) \<le> ekey d" by simp
  from zcount_counts [OF g empty_buffer_ok(1) z dbl_args this, of "[]"] g show ?thesis
    by - (rule exI [of _ g], auto simp: empty_buffer_ok numeral_2_eq_2)
qed

text \<open>
  C33. When every entry lies below the upper bound, \<open>zcount\<close> replies 0, however many
  entries lie between the bounds: the code takes the null pointer behind the last entry for
  an empty range.
\<close>

theorem zcount_past_the_end:
  assumes "repr (Suc n) g A" and "buf_ok b" and "zset_of k A = Some es"
    and "str2dbl sc1 = Some s1" and "str2dbl sc2 = Some s2" and "\<forall>d\<in>set es. ekey d < ekey (s2, name2)"
  shows "\<exists>g' b'. do_request [str_bytes ''zcount'', k, sc1, name1, sc2, name2] g b = Some (g', b') \<and> repr n g' A \<and>
    content b' = content b @ tlv_bytes (VInt 0)"
proof -
  have "zs_pos (s2, name2) es = length es" using assms(6) takeWhile_eq_all_conv by (metis zs_pos_def)
  then have "exec [str_bytes ''zcount'', k, sc1, name1, sc2, name2] A = (VInt 0, A)"
    using assms(3-5) by (simp add: exec_simps exec_zcount_def zs_count_def)
  from run_one [OF assms(1,2) not_keys this] show ?thesis by blast
qed

theorem zcount_past_the_end_witness:
  "\<exists>g g' b'. repr 2 g one_ks \<and>
    do_request [str_bytes ''zcount'', [122], [48], [], [49], [98]] g empty_buffer = Some (g', b') \<and>
    content b' = tlv_bytes (VInt 0) \<and>
    filter (\<lambda>d. ekey (0, []) \<le> ekey d \<and> ekey d < ekey (0x3FF0000000000000, [98])) [(0x3FF0000000000000, [97])] =
      [(0x3FF0000000000000, [97])]"
proof -
  obtain g where g: "repr (Suc 1) g one_ks" using one_ks_repr by (auto simp: numeral_2_eq_2)
  have z: "zset_of [122] one_ks = Some [(0x3FF0000000000000, [97])]" by (simp add: zset_of_def one_ks_def)
  have less: "ekey (0x3FF0000000000000, [97]) < ekey (0x3FF0000000000000, [98])"
    "ekey (0, []) \<le> ekey (0x3FF0000000000000, [97])"
    by (simp_all add: ekey_def dbl_key_def dbl_mag_def)
  then have "\<forall>d\<in>set [(0x3FF0000000000000, [97])]. ekey d < ekey (0x3FF0000000000000, [98])" by simp
  from zcount_past_the_end [OF g empty_buffer_ok(1) z dbl_args this, of "[]"] g less show ?thesis
    by - (rule exI [of _ g], auto simp: empty_buffer_ok numeral_2_eq_2)
qed


text \<open>
  C29. After \<open>zadd\<close> the score of the added name is the given one, and every other name of the
  set has the score it had; the reply of \<open>zadd\<close> says whether the name is new.
\<close>

theorem zadd_zscore:
  assumes "repr (n + 2) g A" and "buf_ok b" and "zset_of k A = Some es" and "str2dbl sc = Some s"
  shows "\<exists>g' b'. run_requests [[str_bytes ''zadd'', k, sc, name], [str_bytes ''zscore'', k, x]] g b = Some (g', b') \<and>
    content b' = content b @ tlv_bytes (count_reply (name \<notin> dom (scores es))) @
      tlv_bytes (if x = name then VDbl s else case scores es x of None \<Rightarrow> VNil | Some t \<Rightarrow> VDbl t)"
proof -
  let ?A = "A\<lparr>ks_map := (ks_map A)(k \<mapsto> DZSet (zs_add (s, name) (zs_remove name es)))\<rparr>"
  have e1: "exec [str_bytes ''zadd'', k, sc, name] A = (count_reply (name \<notin> dom (scores es)), ?A)"
    using assms(3,4) by (simp add: exec_simps exec_zadd_def)
  have e2: "exec [str_bytes ''zscore'', k, x] ?A =
      (if x = name then VDbl s else case scores es x of None \<Rightarrow> VNil | Some t \<Rightarrow> VDbl t, ?A)"
    by (simp add: exec_simps exec_zscore_def zset_of_def scores_put)
  from run_two [OF assms(1,2) not_keys not_keys e1 e2] show ?thesis by blast
qed

theorem zadd_zscore_witness:
  "\<exists>g g' b'. repr 2 g one_ks \<and>
    run_requests [[str_bytes ''zadd'', [122], [48], [98]], [str_bytes ''zscore'', [122], [97]]] g empty_buffer = Some (g', b') \<and>
    content b' = tlv_bytes (VInt 1) @ tlv_bytes (VDbl 0x3FF0000000000000)"
proof -
  obtain g where g: "repr (0 + 2) g one_ks" using one_ks_repr by (metis add_0)
  have z: "zset_of [122] one_ks = Some [(0x3FF0000000000000, [97])]" by (simp add: zset_of_def one_ks_def)
  from zadd_zscore [OF g empty_buffer_ok(1) z dbl_args(1), of "[98]" "[97]"] g show ?thesis
    by - (rule exI [of _ g], auto simp: empty_buffer_ok scores_def count_reply_def numeral_2_eq_2 simp del: run_requests.simps tlv_bytes.simps)
qed

text \<open>
  C30. \<open>pttl\<close> after \<open>pexpire\<close> replies what is left of the given time, counted down by the
  monotonic clock between the two readings, and 0 once it has passed.
\<close>

theorem pexpire_pttl:
  assumes "repr (n + 2) g A" and "buf_ok b" and "ks_map A k = Some v" and "str2int t = Some ttl" and "0 \<le> ttl"
    and "unat (ks_now A) + nat ttl < 2 ^ 64" and "ks_now A \<le> ks_now (ks_step A)"
  shows "\<exists>g' b'. run_requests [[str_bytes ''pexpire'', k, t], [str_bytes ''pttl'', k]] g b = Some (g', b') \<and>
    content b' = content b @ tlv_bytes (VInt 1) @
      tlv_bytes (VInt (w64 (nat ttl - unat (ks_now (ks_step A) - ks_now A))))"
proof -
  let ?T = "ks_now A + word_of_int ttl" and ?N = "ks_now (ks_step A)"
  let ?A = "(ks_step A)\<lparr>ks_ttl := (ks_ttl A)(k \<mapsto> ?T)\<rparr>"
  have e1: "exec [str_bytes ''pexpire'', k, t] A = (VInt 1, ?A)"
    using assms(3-5) by (simp add: exec_simps exec_expire_def count_reply_def)
  have now: "ks_now ?A = ?N" by (simp add: ks_now_def ks_step_def)
  have "word_of_int ttl = w64 (nat ttl)" using assms(5) by (simp add: w64_def)
  then have "unat ?T = unat (ks_now A) + nat ttl" using assms(6) by (simp add: unat_word_ariths)
  moreover have "unat (?N - ks_now A) = unat ?N - unat (ks_now A)" using assms(7) by (rule unat_sub)
  moreover have "unat (ks_now A) \<le> unat ?N" using assms(7) by (simp add: word_le_nat_alt)
  moreover have "unat (w64 (nat ttl + unat (ks_now A) - i)) = nat ttl + unat (ks_now A) - i" for i using assms(6) by simp
  ultimately have left: "(if ?N < ?T then ?T - ?N else 0) = w64 (nat ttl - unat (?N - ks_now A))"
    by (simp add: word_less_nat_alt word_unat_eq_iff unat_sub_if' add.commute)
  have e2: "exec [str_bytes ''pttl'', k] ?A = (VInt (w64 (nat ttl - unat (?N - ks_now A))), ks_step ?A)"
  proof -
    have "ks_map ?A k = Some v" "ks_ttl ?A k = Some ?T" using assms(3) by (simp_all add: ks_step_def)
    then have "exec_ttl k ?A = (VInt (if ?N < ?T then ?T - ?N else 0), ks_step ?A)" by (simp only: exec_ttl_def now) simp
    then show ?thesis using left by (simp add: exec_simps)
  qed
  from run_two [OF assms(1,2) not_keys not_keys e1 e2] show ?thesis by blast
qed


theorem pexpire_pttl_witness:
  "\<exists>g g' b'. repr 2 g one_ks \<and>
    run_requests [[str_bytes ''pexpire'', [122], [53]], [str_bytes ''pttl'', [122]]] g empty_buffer = Some (g', b') \<and>
    content b' = tlv_bytes (VInt 1) @ tlv_bytes (VInt 5)"
proof -
  obtain g where g: "repr (0 + 2) g one_ks" using one_ks_repr by (metis add_0)
  have k: "ks_map one_ks [122] = Some (DZSet [(0x3FF0000000000000, [97])])" by (simp add: one_ks_def)
  have t: "str2int [53] = Some 5"
    by (simp add: str2int_def strtoll_def c_string_def c_isspace_def c_sign_def c_isdigit_def digits_val_def digit_val_def)
  have now: "ks_now one_ks = 0" "ks_now (ks_step one_ks) = 0" by (simp_all add: ks_now_def ks_step_def one_ks_def empty_ks_def)
  then have u: "unat (ks_now one_ks) + nat 5 < 2 ^ 64" "ks_now one_ks \<le> ks_now (ks_step one_ks)" by simp_all
  have "w64 (nat 5 - unat (ks_now (ks_step one_ks) - ks_now one_ks)) = 5" using now by (simp add: w64_def)
  with pexpire_pttl [OF g empty_buffer_ok(1) k t _ u] g show ?thesis
    by - (rule exI [of _ g], auto simp: empty_buffer_ok numeral_2_eq_2 simp del: run_requests.simps tlv_bytes.simps)
qed

text \<open>
  Type errors: the commands on sorted sets refuse a key that holds a string, \<open>get\<close> and
  \<open>set\<close> one that holds a sorted set; the reply is an error and the keyspace is unchanged.
\<close>

theorem wrong_type_refused:
  assumes "repr (Suc n) g A" and "buf_ok b" and
    "ks_map A k = Some (DStr s) \<and> cmd \<in> {[str_bytes ''zrem'', k, x], [str_bytes ''zscore'', k, x], [str_bytes ''zrank'', k, x]} \<or>
     ks_map A k = Some (DZSet es) \<and> cmd \<in> {[str_bytes ''get'', k], [str_bytes ''set'', k, x]}"
  shows "\<exists>g' b' msg. do_request cmd g b = Some (g', b') \<and> repr n g' A \<and>
    content b' = content b @ tlv_bytes (VErr (err_code ERR_BAD_TYP) msg)"
proof -
  have "\<exists>msg. exec cmd A = (VErr (err_code ERR_BAD_TYP) msg, A)" and keys: "cmd \<noteq> [str_bytes ''keys'']"
    using assms(3)
    by (auto simp: exec_simps exec_zrem_def exec_zscore_def exec_zrank_def exec_get_def exec_set_def zset_of_def err_def)
  then obtain msg where e: "exec cmd A = (VErr (err_code ERR_BAD_TYP) msg, A)" by blast
  from run_one [OF assms(1,2) keys e] show ?thesis by blast
qed

theorem wrong_type_refused_witness:
  "\<exists>g g' b' msg. repr 2 g one_ks \<and> do_request [str_bytes ''get'', [122]] g empty_buffer = Some (g', b') \<and>
    content b' = tlv_bytes (VErr (err_code ERR_BAD_TYP) msg)"
proof -
  obtain g where g: "repr (Suc 1) g one_ks" using one_ks_repr by (auto simp: numeral_2_eq_2)
  have k: "ks_map one_ks [122] = Some (DStr []) \<and>
      [str_bytes ''get'', [122]] \<in> {[str_bytes ''zrem'', [122], []], [str_bytes ''zscore'', [122], []], [str_bytes ''zrank'', [122], []]} \<or>
    ks_map one_ks [122] = Some (DZSet [(0x3FF0000000000000, [97])]) \<and>
      [str_bytes ''get'', [122]] \<in> {[str_bytes ''get'', [122]], [str_bytes ''set'', [122], []]}"
    by (simp add: one_ks_def)
  from wrong_type_refused [OF g empty_buffer_ok(1) k] g show ?thesis
    by - (rule exI [of _ g], auto simp: empty_buffer_ok numeral_2_eq_2)
qed

text \<open>
  C34. The number parsers take the empty string for 0: \<open>pexpire key\<close> with an empty time is
  not refused but sets the key to expire at once.
\<close>

theorem empty_number_accepted:
  assumes "repr (Suc n) g A" and "buf_ok b" and "ks_map A k = Some v"
  shows "\<exists>g' b'. do_request [str_bytes ''pexpire'', k, []] g b = Some (g', b') \<and>
    repr n g' ((ks_step A)\<lparr>ks_ttl := (ks_ttl A)(k \<mapsto> ks_now A)\<rparr>) \<and> content b' = content b @ tlv_bytes (VInt 1)"
proof -
  have "str2int [] = Some 0"
    by (simp add: str2int_def strtoll_def c_string_def c_sign_def)
  then have e: "exec [str_bytes ''pexpire'', k, []] A = (VInt 1, (ks_step A)\<lparr>ks_ttl := (ks_ttl A)(k \<mapsto> ks_now A)\<rparr>)"
    using assms(3) by (simp add: exec_simps exec_expire_def count_reply_def)
  from run_one [OF assms(1,2) not_keys e] show ?thesis by blast
qed

theorem empty_number_accepted_witness:
  "\<exists>g g' b'. repr 2 g one_ks \<and> do_request [str_bytes ''pexpire'', [122], []] g empty_buffer = Some (g', b') \<and>
    repr 1 g' ((ks_step one_ks)\<lparr>ks_ttl := [[122] \<mapsto> 0]\<rparr>)"
proof -
  obtain g where g: "repr (Suc 1) g one_ks" using one_ks_repr by (auto simp: numeral_2_eq_2)
  have k: "ks_map one_ks [122] = Some (DZSet [(0x3FF0000000000000, [97])])" by (simp add: one_ks_def)
  have "ks_now one_ks = 0" "ks_ttl one_ks = Map.empty" by (simp_all add: ks_now_def one_ks_def empty_ks_def)
  with empty_number_accepted [OF g empty_buffer_ok(1) k] g show ?thesis
    by - (rule exI [of _ g], auto simp: numeral_2_eq_2)
qed

end
