(* ===== verification/PoolSpec.thy ===== *)
theory PoolSpec
  imports ThreadPool DbProps
begin

text \<open>
  The thread pool and the database together: the jobs of the pool are the entries that
  \<open>entry_del\<close> hands over (\<open>gd_jobs\<close>), and those that workers have taken (\<open>gd_busy\<close>). The task of
  a job touches only the memory of its entry, so that running it is one step here.
\<close>

definition synced :: "ThreadPool \<Rightarrow> GlobalData \<Rightarrow> bool" where
  "synced tp g \<longleftrightarrow> map wk_arg (tp_queue tp) = map Some (gd_jobs g) \<and>
     image_mset wk_arg (in_hand (tp_threads tp)) = image_mset Some (mset (gd_busy g))"

fun db_event :: "job_event \<Rightarrow> GlobalData \<Rightarrow> GlobalData option" where
  "db_event Silent g = Some g"
| "db_event (Queued w) g = do { a \<leftarrow> wk_arg w; Some (thread_pool_queue g a) }"
| "db_event (Taken w) g = do { (a, g1) \<leftarrow> worker_take g; Some g1 }"
| "db_event (Finished w) g = do { a \<leftarrow> wk_arg w; worker_run g a }"

fun db_events :: "job_event list \<Rightarrow> GlobalData \<Rightarrow> GlobalData option" where
  "db_events [] g = Some g"
| "db_events (e # es) g = do { g1 \<leftarrow> db_event e g; db_events es g1 }"

lemma hand_arg:
  assumes "synced tp g" "w \<in># in_hand (tp_threads tp)"
  obtains a where "wk_arg w = Some a" "a \<in> set (gd_busy g)"
proof -
  have "wk_arg w \<in># image_mset wk_arg (in_hand (tp_threads tp))" using assms(2) by simp
  then have "wk_arg w \<in># image_mset Some (mset (gd_busy g))" using assms(1) unfolding synced_def by metis
  then show ?thesis using that by auto
qed

lemma mutex_exclusive:
  assumes "mutex_ok tp"
  shows "tally holding (tp_threads tp) + (if calling (tp_caller tp) then 1 else 0) \<le> 1"
proof -
  let ?H = "{i. i < length (tp_threads tp) \<and> holding (tp_threads tp ! i)}"
  have t: "tally holding (tp_threads tp) = card ?H" by (simp add: tally_def length_filter_conv_card)
  have sub: "?H \<subseteq> {i. tp_mu tp = Some (Worker i)}" and c: "calling (tp_caller tp) = (tp_mu tp = Some Caller)"
    using assms by (auto simp: mutex_ok_def)
  show ?thesis
  proof (cases "tp_mu tp")
    case None
    then have "?H = {}" using sub by auto
    then show ?thesis using c None by (simp only: t) simp
  next
    case (Some th)
    then show ?thesis
    proof (cases th)
      case Caller
      then have "?H = {}" using sub Some by auto
      then show ?thesis by (simp only: t) simp
    next
      case (Worker j)
      then have "?H \<subseteq> {j}" using sub Some by auto
      then have "card ?H \<le> 1" using card_mono [of "{j}" ?H] by simp
      then show ?thesis using c Some Worker by (simp only: t) simp
    qed
  qed
qed

text \<open>A step of a worker is a step of the database.\<close>

lemma db_follows:
  assumes inv: "db_inv g A S F" and sync: "synced tp g" and step: "worker i tp = Some tp'"
  shows "\<exists>g'. db_event (worker_event i tp) g = Some g' \<and> synced tp' g' \<and> db_inv g' A S F"
proof -
  have js: "job_spec (worker_event i tp) (pool_abs tp) (pool_abs tp')" using worker_jobs [OF step] .
  show ?thesis
  proof (cases "worker_event i tp")
    case Silent
    then show ?thesis using js inv sync by (simp add: job_spec_def pool_abs_def synced_def)
  next
    case (Queued w)
    then show ?thesis by (simp add: worker_event_def split: worker_pc.splits)
  next
    case (Taken w)
    then have q: "tp_queue tp = w # tp_queue tp'" "in_hand (tp_threads tp') = in_hand (tp_threads tp) + {#w#}"
      using js by (simp_all add: job_spec_def pool_abs_def)
    then obtain a jobs where a: "gd_jobs g = a # jobs" "wk_arg w = Some a" "map wk_arg (tp_queue tp') = map Some jobs"
      using sync by (cases "gd_jobs g") (auto simp: synced_def)
    let ?g = "g\<lparr>gd_jobs := jobs, gd_busy := gd_busy g @ [a]\<rparr>"
    have t: "worker_take g = Some (a, ?g)" using a(1) by (simp add: worker_take_def)
    have "synced tp' ?g" using sync q a by (simp add: synced_def)
    then show ?thesis using Taken t worker_take_run(1) [OF inv t] by simp
  next
    case (Finished w)
    then have q: "tp_queue tp' = tp_queue tp" "in_hand (tp_threads tp) = in_hand (tp_threads tp') + {#w#}"
      using js by (simp_all add: job_spec_def pool_abs_def)
    then obtain a where a: "wk_arg w = Some a" "a \<in> set (gd_busy g)" using hand_arg [OF sync, of w] by auto
    obtain g' where g': "entry_del_sync g a = Some g'" "gd_jobs g' = gd_jobs g" "gd_busy g' = gd_busy g"
      "db_inv (g'\<lparr>gd_busy := remove1 a (gd_busy g)\<rparr>) A S F"
      using entry_del_sync_run [OF inv a(2)] by blast
    let ?g = "g'\<lparr>gd_busy := remove1 a (gd_busy g)\<rparr>"
    have "worker_run g a = Some ?g" using g' a(2) by (simp add: worker_run_def)
    moreover have "image_mset wk_arg (in_hand (tp_threads tp')) = image_mset Some (mset (remove1 a (gd_busy g)))"
    proof -
      have "image_mset wk_arg (in_hand (tp_threads tp')) + {#Some a#} = image_mset Some (mset (gd_busy g))"
        using sync q(2) a(1) by (simp add: synced_def)
      moreover have "image_mset Some (mset (remove1 a (gd_busy g))) = image_mset Some (mset (gd_busy g)) - {#Some a#}"
        using a(2) by (simp add: image_mset_Diff)
      ultimately show ?thesis by (metis add_mset_add_single add_mset_remove_trivial)
    qed
    then have "synced tp' ?g" using sync q(1) g'(2) by (simp add: synced_def)
    ultimately show ?thesis using Finished a(1) g'(4) by auto
  qed
qed

lemma schedule_follows:
  "db_inv g A S F \<Longrightarrow> synced tp g \<Longrightarrow> run_workers is tp = Some (es, tp') \<Longrightarrow>
    \<exists>g'. db_events es g = Some g' \<and> synced tp' g' \<and> db_inv g' A S F"
proof (induction "is" arbitrary: tp g es)
  case (Cons i "is")
  then obtain tp1 es1 where s: "worker i tp = Some tp1" "run_workers is tp1 = Some (es1, tp')" "es = worker_event i tp # es1"
    by (auto split: Option.bind_splits)
  obtain g1 where g1: "db_event (worker_event i tp) g = Some g1" "synced tp1 g1" "db_inv g1 A S F"
    using db_follows [OF Cons.prems(1,2) s(1)] by blast
  from Cons.IH [OF g1(3,2) s(2)] g1(1) s(3) show ?case by auto
qed auto

lemma in_hand_waiting: "\<forall>i<length pcs. pcs ! i = W_Wait \<Longrightarrow> in_hand pcs = {#}"
proof (induction pcs)
  case (Cons pc pcs)
  have "pc = W_Wait" "\<forall>i<length pcs. pcs ! i = W_Wait" using Cons.prems by (auto simp: nth_Cons')
  then show ?case using Cons.IH by (simp add: in_hand_Cons job_of_def)
qed (simp add: in_hand_Cons)

lemma live_count:
  assumes "db_inv g A S F" "pending g = []"
  shows "card (dom (gd_entry g)) = card (dom (ks_map A))"
proof -
  have "dom (gd_entry g) = S" using db_invD(6) [OF assms(1)] assms(2) by (simp add: alloc_ok_def owners_def)
  moreover have "dom (ks_map A) = key_of g ` S" "inj_on (key_of g) S"
    using db_invD(2) [OF assms(1)] by (simp_all add: keys_ok_def)
  ultimately show ?thesis by (simp add: card_image)
qed


subsection \<open>Properties\<close>

text \<open>
  C17. The thread pool under every interleaving of its workers, of the caller and of spurious
  wake-ups: at most one thread is inside the critical section; \<open>front\<close> is never called on an
  empty queue; the jobs are taken in the order in which they were queued, each once, and
  each job taken is in the hands of one worker or finished; and no wake-up is lost: when the caller is outside
  and a worker waits, at least as many workers as there are queued jobs are on their way to the queue.
\<close>

theorem pool_correct:
  assumes "pool_run (thread_pool_init k) es tp"
  shows "tally holding (tp_threads tp) + (if calling (tp_caller tp) then 1 else 0) \<le> 1 \<and>
    (W_Pop \<in> set (tp_threads tp) \<longrightarrow> tp_queue tp \<noteq> []) \<and>
    queued es = taken es @ tp_queue tp \<and> mset (taken es) = mset (finished es) + in_hand (tp_threads tp) \<and>
    (tp_caller tp = C_Idle \<longrightarrow> W_Wait \<in> set (tp_threads tp) \<longrightarrow> length (tp_queue tp) \<le> tally looking (tp_threads tp))"
proof -
  have inv: "mutex_ok tp" "pop_ok tp" "wake_ok tp"
    using run_keeps [OF assms init_inv] by (simp_all add: pool_inv_def)
  have "jobs_kept es tp" using run_jobs [OF assms init_jobs] .
  moreover have "tally holding (tp_threads tp) + (if calling (tp_caller tp) then 1 else 0) \<le> 1"
    using mutex_exclusive [OF inv(1)] .
  ultimately show ?thesis using inv(2,3) unfolding jobs_kept_def pop_ok_def wake_ok_def by (elim conjE, intro conjI impI) simp_all
qed

text \<open>One job, through the lock, the queue, the signal and a worker.\<close>

definition sample_work :: Work where
  "sample_work = \<lparr>wk_task = 1, wk_arg = Some 7\<rparr>"

definition queued_one :: ThreadPool where
  "queued_one = \<lparr>tp_threads = replicate 4 W_Lock, tp_queue = [sample_work], tp_mu = None, tp_caller = C_Idle\<rparr>"

lemma queue_one: "pool_run (thread_pool_init 4) [Silent, Silent, Queued sample_work, Silent, Silent] queued_one"
proof -
  let ?p = "\<lambda>q mu c. \<lparr>tp_threads = replicate 4 W_Lock, tp_queue = q, tp_mu = mu, tp_caller = c\<rparr>"
  have init: "thread_pool_init 4 = ?p [] None C_Idle" by (simp add: thread_pool_init_def)
  have s1: "pool_step (?p [] None C_Idle) Silent (?p [] None (C_Lock sample_work))"
    using step_call [of "?p [] None C_Idle" sample_work] by simp
  have s2: "pool_step (?p [] None (C_Lock sample_work)) Silent (?p [] (Some Caller) (C_Push sample_work))"
    using step_queue [of 0 "?p [] None (C_Lock sample_work)"] by (simp add: thread_pool_queue_step_def caller_event_def)
  have s3: "pool_step (?p [] (Some Caller) (C_Push sample_work)) (Queued sample_work) (?p [sample_work] (Some Caller) C_Signal)"
    using step_queue [of 0 "?p [] (Some Caller) (C_Push sample_work)"] by (simp add: thread_pool_queue_step_def caller_event_def)
  have s4: "pool_step (?p [sample_work] (Some Caller) C_Signal) Silent (?p [sample_work] (Some Caller) C_Unlock)"
    using step_queue [of 0 "?p [sample_work] (Some Caller) C_Signal"] by (simp add: thread_pool_queue_step_def caller_event_def)
  have s5: "pool_step (?p [sample_work] (Some Caller) C_Unlock) Silent queued_one"
    using step_queue [of 0 "?p [sample_work] (Some Caller) C_Unlock"] by (simp add: thread_pool_queue_step_def caller_event_def queued_one_def)
  show ?thesis
    using run_more [OF run_more [OF run_more [OF run_more [OF run_more [OF run_none s1] s2] s3] s4] s5] by (simp add: init)
qed

theorem pool_correct_witness:
  "pool_run (thread_pool_init 4) [Silent, Silent, Queued sample_work, Silent, Silent] queued_one \<and>
    tally holding (tp_threads queued_one) \<le> 1"
  using pool_correct [OF queue_one] queue_one by simp

text \<open>
  C18. The queue is drained: from every reachable state in which the caller is outside, the workers
  alone come to rest after at most \<open>work_left\<close> steps in whatever order they run, and when none can move every
  queued job has been finished exactly once.
\<close>

theorem pool_drains:
  assumes "pool_run (thread_pool_init k) es tp" and "tp_caller tp = C_Idle"
  shows "(\<exists>is es' tp'. run_workers is tp = Some (es', tp') \<and> (\<forall>i. worker i tp' = None)) \<and>
    (\<forall>is es' tp'. run_workers is tp = Some (es', tp') \<longrightarrow> length is \<le> work_left tp \<and>
       ((\<forall>i. worker i tp' = None) \<longrightarrow> taken (es @ es') = queued es \<and> mset (finished (es @ es')) = mset (queued es)))"
proof (intro conjI allI impI)
  show "\<exists>is es' tp'. run_workers is tp = Some (es', tp') \<and> (\<forall>i. worker i tp' = None)" by (rule workers_come_to_rest)
  fix "is" es' tp' assume r: "run_workers is tp = Some (es', tp')"
  show "length is \<le> work_left tp" using run_workers_bound [OF r] by simp
  have run: "pool_run (thread_pool_init k) (es @ es') tp'" using pool_run_append [OF run_workers_run [OF r] assms(1)] .
  have kept: "jobs_kept (es @ es') tp'" using run_jobs [OF run init_jobs] .
  assume rest: "\<forall>i. worker i tp' = None"
  have caller: "tp_caller tp' = C_Idle" "queued es' = []" using run_workers_caller [OF r] assms(2) by simp_all
  have "length (tp_threads tp') = max k 4" using run_threads [OF run] by (simp add: thread_pool_init_def)
  then have "tp_threads tp' \<noteq> []" by auto
  note stop = at_rest [OF run_keeps [OF run init_inv] caller(1) rest this]
  have "in_hand (tp_threads tp') = {#}" using in_hand_waiting stop(2) by blast
  moreover have "queued (es @ es') = queued es" using caller(2) by (simp add: queued_def List.map_filter_def)
  ultimately show "taken (es @ es') = queued es" "mset (finished (es @ es')) = mset (queued es)"
    using kept stop(1) by (auto simp: jobs_kept_def)
qed

theorem pool_drains_witness:
  "\<exists>is es' tp'. run_workers is queued_one = Some (es', tp') \<and> mset (finished es') = {#sample_work#}"
proof -
  let ?es = "[Silent, Silent, Queued sample_work, Silent, Silent]"
  have "tp_caller queued_one = C_Idle" by (simp add: queued_one_def)
  note d = pool_drains [OF queue_one this]
  obtain "is" es' tp' where r: "run_workers is queued_one = Some (es', tp')" "\<forall>i. worker i tp' = None" using d by blast
  then have "mset (finished (?es @ es')) = mset (queued ?es)" using d by blast
  moreover have "finished (?es @ es') = finished es'" "queued ?es = [sample_work]"
    by (simp_all add: finished_def queued_def List.map_filter_def)
  ultimately show ?thesis using r(1) by (intro exI [of _ "is"] exI [of _ es'] exI [of _ tp']) simp
qed

text \<open>
  C7. Large values are destroyed in the background without being noticed: whatever the workers
  have done at any moment, no step of theirs has failed and the database represents the same keyspace;
  and they come to rest with every entry that was handed over freed, so that the entries in memory are exactly the
  live ones.
\<close>

theorem background_destruction:
  assumes "repr n g A" and "pool_run (thread_pool_init k) es0 tp" and "tp_caller tp = C_Idle" and "synced tp g"
  shows "(\<forall>is es tp'. run_workers is tp = Some (es, tp') \<longrightarrow> (\<exists>g'. db_events es g = Some g' \<and> repr n g' A)) \<and>
    (\<exists>is es tp' g'. run_workers is tp = Some (es, tp') \<and> db_events es g = Some g' \<and> repr n g' A \<and>
       gd_jobs g' = [] \<and> gd_busy g' = [] \<and> card (dom (gd_entry g')) = card (dom (ks_map A)))"
proof -
  obtain S F where inv: "db_inv g A S F" and room: "room n S F" using assms(1) unfolding repr_def by blast
  have follow: "\<exists>g'. db_events es g = Some g' \<and> synced tp' g' \<and> db_inv g' A S F \<and> repr n g' A"
    if "run_workers is tp = Some (es, tp')" for "is" es tp'
    using schedule_follows [OF inv assms(4) that] room unfolding repr_def by blast
  obtain "is" es tp' where r: "run_workers is tp = Some (es, tp')" "\<forall>i. worker i tp' = None"
    using workers_come_to_rest by blast
  obtain g' where g': "db_events es g = Some g'" "synced tp' g'" "db_inv g' A S F" "repr n g' A" using follow [OF r(1)] by blast
  have run: "pool_run (thread_pool_init k) (es0 @ es) tp'" using pool_run_append [OF run_workers_run [OF r(1)] assms(2)] .
  have "length (tp_threads tp') = max k 4" using run_threads [OF run] by (simp add: thread_pool_init_def)
  then have ne: "tp_threads tp' \<noteq> []" by auto
  have caller: "tp_caller tp' = C_Idle" using run_workers_caller [OF r(1)] assms(3) by simp
  note stop = at_rest [OF run_keeps [OF run init_inv] caller r(2) ne]
  have "in_hand (tp_threads tp') = {#}" using in_hand_waiting stop(2) by blast
  then have p: "gd_jobs g' = []" "gd_busy g' = []" using g'(2) stop(1) by (simp_all add: synced_def)
  have "card (dom (gd_entry g')) = card (dom (ks_map A))" using live_count [OF g'(3)] p by simp
  then have "\<exists>is es tp' g'. run_workers is tp = Some (es, tp') \<and> db_events es g = Some g' \<and> repr n g' A \<and>
       gd_jobs g' = [] \<and> gd_busy g' = [] \<and> card (dom (gd_entry g')) = card (dom (ks_map A))"
    using r(1) g'(1,4) p by blast
  then show ?thesis using follow by blast
qed

text \<open>A database without keys, and one entry that waits for its destruction.\<close>

definition one_pending :: GlobalData where
  "one_pending = (init_db (\<lambda>_. time_0))\<lparr>gd_entry := [7 \<mapsto> \<lparr>en_key = [107], en_type = T_STR, en_str = [], en_zset = zset_zero\<rparr>],
     gd_hidx := [7 \<mapsto> npos], gd_jobs := [7], gd_next := 8\<rparr>"

lemma one_pending_repr: "repr 0 one_pending (empty_ks (\<lambda>_. time_0))"
proof -
  let ?g = "one_pending" and ?A = "empty_ks (\<lambda>_. time_0)"
  have "zmem_ok no_zmem" using no_zmem_holds by (simp add: zset_holds_def)
  then have "zsets_ok ?g {} (\<lambda>_. [])" by (simp add: zsets_ok_def owners_def zset_owned_def one_pending_def init_db_def)
  moreover have "hm_holds Map.empty hmap_zero {}"
    using zset_repD(2) [OF zset_rep_zero [of no_zmem]] by (simp add: zset_zero_def no_zmem_def)
  then have "hm_holds (gd_node ?g) (gd_db ?g) {}" by (simp add: one_pending_def init_db_def)
  moreover have "keys_ok ?g ?A {} (\<lambda>_. [])" by (simp add: keys_ok_def empty_ks_def)
  moreover have "ttl_inv (gd_heap ?g, gd_hidx ?g)"
    unfolding one_pending_def init_db_def
    by (simp, rule ttl_invI) (auto simp: heap_inv_def is_heap_def refs_ok_def npos_def split: if_splits)
  then have "ttl_ok ?g {}" by (simp add: ttl_ok_def one_pending_def init_db_def ttl_map_def)
  moreover have "jobs_ok ?g {}" by (simp add: jobs_ok_def one_pending_def init_db_def)
  moreover have "alloc_ok ?g {}"
    by (auto simp: alloc_ok_def owners_def one_pending_def init_db_def stack_key_def)
  ultimately have "db_inv ?g ?A {} (\<lambda>_. [])" by (simp add: db_inv_def one_pending_def init_db_def empty_ks_def)
  moreover have "room 0 {} (\<lambda>_. [])" by (simp add: room_def)
  ultimately show ?thesis unfolding repr_def by blast
qed

theorem background_destruction_witness:
  "\<exists>is es tp' g'. run_workers is queued_one = Some (es, tp') \<and> db_events es one_pending = Some g' \<and>
    gd_jobs g' = [] \<and> gd_busy g' = [] \<and> card (dom (gd_entry g')) = 0"
proof -
  have c: "tp_caller queued_one = C_Idle" by (simp add: queued_one_def)
  have "in_hand (replicate 4 W_Lock) = {#}" by (simp add: in_hand_Cons job_of_def numeral_eq_Suc)
  then have "synced queued_one one_pending"
    by (simp add: synced_def queued_one_def one_pending_def init_db_def sample_work_def)
  from background_destruction [OF one_pending_repr queue_one c this]
  obtain "is" es tp' g' where "run_workers is queued_one = Some (es, tp')" "db_events es one_pending = Some g'"
    "gd_jobs g' = []" "gd_busy g' = []" "card (dom (gd_entry g')) = card (dom (ks_map (empty_ks (\<lambda>_. time_0))))" by blast
  then show ?thesis by (intro exI [of _ "is"] exI [of _ es] exI [of _ tp'] exI [of _ g']) (simp add: empty_ks_def)
qed

end
