(* ===== verification/DList.thy ===== *)
theory DList
  imports Prelude
begin

text \<open>
  The intrusive circular list of \<open>include/byoredis/ds/list.hh\<close> at pointer level. A list is a
  ring through a dummy node; \<open>dlist m h xs\<close> says that \<open>xs\<close> are the other nodes of the ring of
  \<open>h\<close> in order. A null pointer that is dereferenced is the result \<open>None\<close>.
\<close>

record DList =
  dl_prev :: ptr
  dl_next :: ptr

type_synonym dl_mem = "addr \<rightharpoonup> DList"

definition dlist_init :: "dl_mem \<Rightarrow> addr \<Rightarrow> dl_mem option" where
  "dlist_init m node = modify_at m node (\<lambda>d. d\<lparr>dl_prev := Some node, dl_next := Some node\<rparr>)"

definition dlist_empty :: "dl_mem \<Rightarrow> addr \<Rightarrow> bool option" where
  "dlist_empty m node = do { d \<leftarrow> m node; Some (dl_next d = Some node) }"

definition dlist_detach :: "dl_mem \<Rightarrow> addr \<Rightarrow> dl_mem option" where
  "dlist_detach m node = do {
     d \<leftarrow> m node;
     prev \<leftarrow> dl_prev d;
     next \<leftarrow> dl_next d;
     m1 \<leftarrow> modify_at m prev (\<lambda>p. p\<lparr>dl_next := Some next\<rparr>);
     modify_at m1 next (\<lambda>n. n\<lparr>dl_prev := Some prev\<rparr>)
   }"

definition dlist_insert_before :: "dl_mem \<Rightarrow> addr \<Rightarrow> addr \<Rightarrow> dl_mem option" where
  "dlist_insert_before m target rookie = do {
     t \<leftarrow> m target;
     prev \<leftarrow> dl_prev t;
     m1 \<leftarrow> modify_at m prev (\<lambda>p. p\<lparr>dl_next := Some rookie\<rparr>);
     m2 \<leftarrow> modify_at m1 rookie (\<lambda>r. r\<lparr>dl_prev := Some prev\<rparr>);
     m3 \<leftarrow> modify_at m2 rookie (\<lambda>r. r\<lparr>dl_next := Some target\<rparr>);
     modify_at m3 target (\<lambda>t. t\<lparr>dl_prev := Some rookie\<rparr>)
   }"


subsection \<open>Rings\<close>

definition link :: "dl_mem \<Rightarrow> addr \<Rightarrow> addr \<Rightarrow> bool" where
  "link m a b \<longleftrightarrow> (\<exists>d. m a = Some d \<and> dl_next d = Some b) \<and> (\<exists>d. m b = Some d \<and> dl_prev d = Some a)"

definition dlist :: "dl_mem \<Rightarrow> addr \<Rightarrow> addr list \<Rightarrow> bool" where
  "dlist m h xs \<longleftrightarrow> distinct (h # xs) \<and> successively (link m) (h # xs @ [h])"

lemma successively_cong_ends:
  "successively P xs \<Longrightarrow> (\<And>a b. a \<in> set (butlast xs) \<Longrightarrow> b \<in> set (tl xs) \<Longrightarrow> P a b \<Longrightarrow> Q a b) \<Longrightarrow> successively Q xs"
proof (induction P xs rule: successively.induct)
  case (3 P x y xs)
  have "successively Q (y # xs)"
  proof (rule "3.IH")
    fix a b assume "a \<in> set (butlast (y # xs))" "b \<in> set (tl (y # xs))" "P a b"
    then show "Q a b" by (intro "3.prems"(2)) auto
  qed (use "3.prems"(1) in simp)
  moreover have "Q x y" using "3.prems" by simp
  ultimately show ?case by simp
qed simp_all

text \<open>The ring around one place.\<close>

lemma dlist_split:
  "dlist m h (ys @ zs) \<longleftrightarrow> distinct (h # ys @ zs) \<and> successively (link m) (h # ys) \<and>
    successively (link m) (zs @ [h]) \<and> link m (last (h # ys)) (hd (zs @ [h]))"
proof -
  have "h # (ys @ zs) @ [h] = (h # ys) @ zs @ [h]" by simp
  then show ?thesis unfolding dlist_def by (simp only: successively_append_iff) auto
qed

lemma link_alloc: "link m a b \<Longrightarrow> m a \<noteq> None" "link m a b \<Longrightarrow> m b \<noteq> None"
  by (auto simp: link_def)

lemma dlist_head:
  assumes "dlist m h xs"
  shows "\<exists>d. m h = Some d \<and> dl_next d = Some (hd (xs @ [h]))" "dlist_empty m h = Some (xs = [])"
proof -
  have "link m h (hd (xs @ [h]))" using dlist_split [of m h "[]" xs] assms by simp
  then obtain d where d: "m h = Some d" "dl_next d = Some (hd (xs @ [h]))" by (auto simp: link_def)
  then show "\<exists>d. m h = Some d \<and> dl_next d = Some (hd (xs @ [h]))" by blast
  have "hd (xs @ [h]) = h \<longleftrightarrow> xs = []" using assms by (cases xs) (auto simp: dlist_def)
  then show "dlist_empty m h = Some (xs = [])" using d by (simp add: dlist_empty_def)
qed

lemma dlist_cong:
  assumes "dlist m h xs" "\<And>a. a \<in> set (h # xs) \<Longrightarrow> m' a = m a"
  shows "dlist m' h xs"
proof -
  have "successively (link m') (h # xs @ [h])"
    by (rule successively_mono [of "link m"]) (use assms in \<open>auto simp: dlist_def link_def\<close>)
  then show ?thesis using assms(1) by (simp add: dlist_def)
qed

lemma dlist_init_run:
  assumes "m h \<noteq> None"
  shows "\<exists>m'. dlist_init m h = Some m' \<and> dlist m' h [] \<and> dom m' = dom m \<and> (\<forall>a. a \<noteq> h \<longrightarrow> m' a = m a)"
  using assms by (auto simp: dlist_init_def modify_at_def dlist_def link_def)

text \<open>Joining two places of the ring: \<open>p -> next = n\<close> and \<open>n -> prev = p\<close>.\<close>

lemma link_join:
  assumes "modify_at m p (\<lambda>d. d\<lparr>dl_next := Some n\<rparr>) = Some m1" "modify_at m1 n (\<lambda>d. d\<lparr>dl_prev := Some p\<rparr>) = Some m2"
  shows "link m2 p n" "link m a b \<Longrightarrow> a \<noteq> p \<Longrightarrow> b \<noteq> n \<Longrightarrow> link m2 a b" "dom m2 = dom m"
    "a \<noteq> p \<Longrightarrow> a \<noteq> n \<Longrightarrow> m2 a = m a"
  using assms by (auto simp: modify_at_def link_def split: option.splits if_splits)

lemma join_run:
  assumes "m p \<noteq> None" "m n \<noteq> None"
  obtains m1 m2 where "modify_at m p (\<lambda>d. d\<lparr>dl_next := Some n\<rparr>) = Some m1"
    "modify_at m1 n (\<lambda>d. d\<lparr>dl_prev := Some p\<rparr>) = Some m2"
proof -
  have "\<exists>m1. modify_at m p (\<lambda>d. d\<lparr>dl_next := Some n\<rparr>) = Some m1 \<and> m1 n \<noteq> None"
    using assms by (auto simp: modify_at_def)
  then obtain m1 where m1: "modify_at m p (\<lambda>d. d\<lparr>dl_next := Some n\<rparr>) = Some m1" "m1 n \<noteq> None" by blast
  then have "\<exists>m2. modify_at m1 n (\<lambda>d. d\<lparr>dl_prev := Some p\<rparr>) = Some m2" by (auto simp: modify_at_def)
  then show ?thesis using that m1(1) by blast
qed

lemma not_last: "distinct xs \<Longrightarrow> a \<in> set (butlast xs) \<Longrightarrow> a \<noteq> last xs"
  by (induction xs) (auto split: if_splits)

lemma detach_run:
  assumes "dlist m h (ys @ x # zs)"
  shows "\<exists>m'. dlist_detach m x = Some m' \<and> dlist m' h (ys @ zs) \<and> dom m' = dom m \<and>
    (\<forall>a. a \<notin> set (h # ys @ zs) \<longrightarrow> m' a = m a)"
proof -
  let ?p = "last (h # ys)" and ?n = "hd (zs @ [h])"
  have px: "link m ?p x" "successively (link m) (h # ys)" and dist: "distinct (h # ys @ x # zs)"
    using assms unfolding dlist_split by simp_all
  have "dlist m h ((ys @ [x]) @ zs)" using assms by simp
  then have xn: "link m x ?n" "successively (link m) (zs @ [h])" unfolding dlist_split by simp_all
  have mem: "?p \<in> set (h # ys)" "?n \<in> set (zs @ [h])" using last_in_set [of "h # ys"] hd_in_set [of "zs @ [h]"] by auto
  obtain m1 m2 where j: "modify_at m ?p (\<lambda>d. d\<lparr>dl_next := Some ?n\<rparr>) = Some m1"
    "modify_at m1 ?n (\<lambda>d. d\<lparr>dl_prev := Some ?p\<rparr>) = Some m2"
    using join_run [OF link_alloc(1) [OF px(1)] link_alloc(2) [OF xn(1)]] by blast
  note k = link_join [OF j]
  have "dlist_detach m x = Some m2" using px(1) xn(1) j by (auto simp: dlist_detach_def link_def)
  moreover have "successively (link m2) (h # ys)"
  proof (rule successively_cong_ends [OF px(2)])
    fix a b assume ab: "a \<in> set (butlast (h # ys))" "b \<in> set (tl (h # ys))" "link m a b"
    have "a \<noteq> ?p" using not_last [OF _ ab(1)] dist by simp
    moreover have "b \<noteq> ?n" using ab(2) dist mem(2) by auto
    ultimately show "link m2 a b" using k(2) ab(3) by blast
  qed
  moreover have "successively (link m2) (zs @ [h])"
  proof (rule successively_cong_ends [OF xn(2)])
    fix a b assume ab: "a \<in> set (butlast (zs @ [h]))" "b \<in> set (tl (zs @ [h]))" "link m a b"
    have "a \<noteq> ?p" using ab(1) dist mem(1) by auto
    moreover have "b \<noteq> ?n" using ab(2) dist by (cases zs) auto
    ultimately show "link m2 a b" using k(2) ab(3) by blast
  qed
  ultimately have "dlist m2 h (ys @ zs)" using k(1) dist unfolding dlist_split by simp
  moreover have "m2 a = m a" if "a \<notin> set (h # ys @ zs)" for a
    using that mem k(4) [of a] by auto
  ultimately show ?thesis using \<open>dlist_detach m x = Some m2\<close> k(3) by blast
qed


lemma insert_before_run:
  assumes r: "dlist m h xs" and x: "x \<notin> set (h # xs)" "m x \<noteq> None"
  shows "\<exists>m'. dlist_insert_before m h x = Some m' \<and> dlist m' h (xs @ [x]) \<and> dom m' = dom m \<and>
    (\<forall>a. a \<notin> set (h # x # xs) \<longrightarrow> m' a = m a)"
proof -
  let ?p = "last (h # xs)"
  have ph: "link m ?p h" "successively (link m) (h # xs)" and dist: "distinct (h # xs)"
    using r dlist_split [of m h xs "[]"] by simp_all
  have mem: "?p \<in> set (h # xs)" using last_in_set [of "h # xs"] by blast
  obtain m1 m2 where j: "modify_at m ?p (\<lambda>d. d\<lparr>dl_next := Some x\<rparr>) = Some m1"
    "modify_at m1 x (\<lambda>d. d\<lparr>dl_prev := Some ?p\<rparr>) = Some m2"
    using join_run [OF link_alloc(1) [OF ph(1)] x(2)] by blast
  note k = link_join [OF j]
  have alloc: "m2 x \<noteq> None" "m2 h \<noteq> None" using k(3) x(2) link_alloc(2) [OF ph(1)] by blast+
  obtain m3 m4 where j': "modify_at m2 x (\<lambda>d. d\<lparr>dl_next := Some h\<rparr>) = Some m3"
    "modify_at m3 h (\<lambda>d. d\<lparr>dl_prev := Some x\<rparr>) = Some m4"
    using join_run [OF alloc] by blast
  note k' = link_join [OF j']
  have "dlist_insert_before m h x = Some m4"
    using ph(1) j j' by (auto simp: dlist_insert_before_def link_def)
  moreover have "?p \<noteq> x" "x \<noteq> h" using x(1) mem by auto
  then have "link m4 ?p x" using k'(2) [OF k(1)] by blast
  moreover have "successively (link m4) (h # xs)"
  proof (rule successively_cong_ends [OF ph(2)])
    fix a b assume ab: "a \<in> set (butlast (h # xs))" "b \<in> set (tl (h # xs))" "link m a b"
    have "a \<noteq> ?p" using not_last [OF dist ab(1)] .
    moreover have "b \<noteq> x" "b \<noteq> h" using ab(2) x(1) dist by auto
    moreover have "a \<noteq> x" using in_set_butlastD [OF ab(1)] x(1) by blast
    ultimately show "link m4 a b" using k(2) [OF ab(3)] k'(2) by blast
  qed
  ultimately have "dlist m4 h (xs @ [x])" using k'(1) dist x(1) unfolding dlist_split by simp
  moreover have "m4 a = m a" if "a \<notin> set (h # x # xs)" for a
    using that mem k(4) [of a] k'(4) [of a] by auto
  moreover have "dom m4 = dom m" using k(3) k'(3) by simp
  ultimately show ?thesis using \<open>dlist_insert_before m h x = Some m4\<close> by (intro exI [of _ m4]) simp
qed


subsection \<open>The list as a queue\<close>

text \<open>
  What the idle timers need of the list: \<open>detach\<close> takes one element out wherever it is,
  \<open>push\<close> puts a free node behind the last one.
\<close>

locale linked_queue =
  fixes holds :: "'m \<Rightarrow> addr list \<Rightarrow> bool"
    and alloc :: "'m \<Rightarrow> addr set"
    and is_empty :: "'m \<Rightarrow> bool option"
    and front :: "'m \<Rightarrow> ptr"
    and detach :: "'m \<Rightarrow> addr \<Rightarrow> 'm option"
    and push :: "'m \<Rightarrow> addr \<Rightarrow> 'm option"
  assumes empty_law: "holds m xs \<Longrightarrow> is_empty m = Some (xs = [])"
    and front_law: "holds m (x # xs) \<Longrightarrow> front m = Some x"
    and detach_law: "holds m xs \<Longrightarrow> x \<in> set xs \<Longrightarrow>
      \<exists>m'. detach m x = Some m' \<and> holds m' (remove1 x xs) \<and> alloc m' = alloc m"
    and push_law: "holds m xs \<Longrightarrow> x \<in> alloc m \<Longrightarrow> x \<notin> set xs \<Longrightarrow>
      \<exists>m'. push m x = Some m' \<and> holds m' (xs @ [x]) \<and> alloc m' = alloc m"
    and nodes_law: "holds m xs \<Longrightarrow> distinct xs \<and> set xs \<subseteq> alloc m"
begin

text \<open>Moving an element to the back, as every event on a connection does.\<close>

lemma refresh:
  assumes "holds m xs" "x \<in> set xs"
  shows "\<exists>m1 m2. detach m x = Some m1 \<and> push m1 x = Some m2 \<and> holds m2 (remove1 x xs @ [x]) \<and> alloc m2 = alloc m"
proof -
  have n: "distinct xs" "set xs \<subseteq> alloc m" using nodes_law [OF assms(1)] by simp_all
  obtain m1 where m1: "detach m x = Some m1" "holds m1 (remove1 x xs)" "alloc m1 = alloc m"
    using detach_law [OF assms] by blast
  have "x \<in> alloc m1" "x \<notin> set (remove1 x xs)" using n assms(2) m1(3) by auto
  from push_law [OF m1(2) this] show ?thesis using m1(1,3) by auto
qed

end

definition dl_alloc :: "addr \<Rightarrow> dl_mem \<Rightarrow> addr set" where
  "dl_alloc h m = dom m - {h}"

interpretation idle: linked_queue "\<lambda>m. dlist m h" "dl_alloc h" "\<lambda>m. dlist_empty m h"
  "\<lambda>m. Option.bind (m h) dl_next" dlist_detach "\<lambda>m. dlist_insert_before m h"
proof unfold_locales
  show "dlist_empty m h = Some (xs = [])" if "dlist m h xs" for m xs using dlist_head(2) [OF that] .
  show "Option.bind (m h) dl_next = Some x" if "dlist m h (x # xs)" for m x xs using dlist_head(1) [OF that] by auto
  show "\<exists>m'. dlist_detach m x = Some m' \<and> dlist m' h (remove1 x xs) \<and> dl_alloc h m' = dl_alloc h m"
    if r: "dlist m h xs" "x \<in> set xs" for m xs x
  proof -
    obtain ys zs where s: "xs = ys @ x # zs" "x \<notin> set ys" using split_list_first [OF r(2)] by blast
    then show ?thesis using detach_run [of m h ys x zs] r(1) by (auto simp: remove1_append dl_alloc_def)
  qed
  show "\<exists>m'. dlist_insert_before m h x = Some m' \<and> dlist m' h (xs @ [x]) \<and> dl_alloc h m' = dl_alloc h m"
    if "dlist m h xs" "x \<in> dl_alloc h m" "x \<notin> set xs" for m xs x
  proof -
    have "x \<notin> set (h # xs)" "m x \<noteq> None" using that(2,3) by (auto simp: dl_alloc_def)
    from insert_before_run [OF that(1) this] show ?thesis by (auto simp: dl_alloc_def)
  qed
  show "distinct xs \<and> set xs \<subseteq> dl_alloc h m" if "dlist m h xs" for m xs
  proof -
    have "successively (link m) (h # xs)" "distinct (h # xs)" using that dlist_split [of m h xs "[]"] by simp_all
    moreover have "m x \<noteq> None" if "successively (link m) (a # ys)" "x \<in> set ys" for a ys x
      using that by (induction ys arbitrary: a) (auto dest: link_alloc(2) simp: successively_Cons)
    ultimately show ?thesis by (auto simp: dl_alloc_def)
  qed
qed

end
