(* ===== verification/Server.thy ===== *)
theory Server
  imports DList Commands
begin

text \<open>
  The server around the commands: the connections and the idle list of \<open>src/server/conn.cc\<close>,
  the timers of \<open>src/server/time.cc\<close> and the event loop of \<open>src/server/main.cc\<close>. The state is
  \<open>g_data\<close> with the objects it reaches: \<open>sv_db\<close> for the database part, \<open>sv_fd2conn\<close> for the
  vector of connection pointers, \<open>sv_conn\<close> for the \<open>Conn\<close> objects, \<open>sv_idle\<close> for the list nodes
  inside them and the head \<open>idle_list\<close>, and \<open>sv_net\<close> for the epoll registrations. What the
  kernel answers is an argument of every step: the result of \<open>accept\<close>, \<open>fcntl\<close>, \<open>read\<close>, \<open>write\<close>,
  \<open>epoll_ctl\<close> and \<open>epoll_wait\<close>, and the descriptor a new connection gets (\<open>fresh\<close>).
\<close>

record Server =
  sv_db :: GlobalData
  sv_fd2conn :: "ptr list"
  sv_idle :: dl_mem
  sv_conn :: "addr \<rightharpoonup> Conn"
  sv_next :: addr
  sv_net :: Net

text \<open>The address of \<open>g_data.idle_list\<close>; the list node of a connection has its address.\<close>

definition idle_head :: addr where
  "idle_head = 0"

definition k_idle_timeout_ms :: u64 where
  "k_idle_timeout_ms = 5 * 1000"

definition k_max_works :: nat where
  "k_max_works = 2000"


subsection \<open>Connections\<close>

definition conn_destroy :: "Server \<Rightarrow> addr \<Rightarrow> Server option" where
  "conn_destroy sv a = do {
     conn \<leftarrow> sv_conn sv a;
     let net = (if 0 \<le> nt_epoll_fd (sv_net sv) \<and> 0 \<le> cn_fd conn
                then (sv_net sv)\<lparr>nt_interest := (nt_interest (sv_net sv))(cn_fd conn := None)\<rparr> else sv_net sv);
     fds \<leftarrow> (if cn_fd conn < 0 then None else vec_set (sv_fd2conn sv) (nat (cn_fd conn)) None);
     idle \<leftarrow> dlist_detach (sv_idle sv) a;
     Some (sv\<lparr>sv_net := net, sv_fd2conn := fds, sv_idle := idle(a := None), sv_conn := (sv_conn sv)(a := None)\<rparr>)
   }"

text \<open>\<open>new Conn()\<close> with the descriptor and the clock of its creation.\<close>

definition conn_new :: "int \<Rightarrow> u64 \<Rightarrow> Conn" where
  "conn_new fd now = \<lparr>cn_fd = fd, cn_want_read = True, cn_want_write = False, cn_want_close = False,
     cn_incoming = buffer_new 4096, cn_outgoing = buffer_new 4096, cn_last_active_ms = now\<rparr>"

text \<open>
  One turn of the loop of \<open>handle_accept\<close> after \<open>accept\<close> has returned \<open>fd\<close>; \<open>ok\<close> is the answer
  of \<open>epoll_ctl\<close>. On the kernel's side the descriptor stands for a new socket, from which nothing has been read and to which
  nothing was written. The result says whether the connection is counted as accepted.
\<close>

definition accept_one :: "int \<Rightarrow> bool \<Rightarrow> Server \<Rightarrow> (bool \<times> Server) option" where
  "accept_one fd ok sv = do {
     let a = sv_next sv;
     let net = kernel_open fd (sv_net sv);
     let (now, g) = get_monotonic_msec (sv_db sv);
     idle \<leftarrow> dlist_insert_before ((sv_idle sv)(a \<mapsto> \<lparr>dl_prev = None, dl_next = None\<rparr>)) idle_head a;
     let fds = (if length (sv_fd2conn sv) \<le> nat fd
                then sv_fd2conn sv @ replicate (nat fd + 1 - length (sv_fd2conn sv)) None else sv_fd2conn sv);
     old \<leftarrow> vec_get fds (nat fd);
     (if fd < 0 \<or> old \<noteq> None then None
      else do {
        fds1 \<leftarrow> vec_set fds (nat fd) (Some a);
        let sv1 = sv\<lparr>sv_db := g, sv_fd2conn := fds1, sv_idle := idle,
                     sv_conn := (sv_conn sv)(a \<mapsto> conn_new fd now), sv_next := a + 1, sv_net := net\<rparr>;
        (if 0 \<le> nt_epoll_fd net then
           (if ok then Some (True, sv1\<lparr>sv_net := net\<lparr>nt_interest := (nt_interest net)(fd \<mapsto> (True, False))\<rparr>\<rparr>)
            else do { sv2 \<leftarrow> conn_destroy sv1 a; Some (False, sv2) })
         else Some (True, sv1))
      })
   }"

text \<open>
  The answers of \<open>accept\<close>: EINTR, an error, or a connection, with what \<open>fcntl\<close> and \<open>epoll_ctl\<close> say
  about its descriptor; after the last one EAGAIN.
\<close>

datatype io_accept = AcIntr | AcError | AcConn io_fcntl bool

fun accept_loop :: "(Net \<Rightarrow> int) \<Rightarrow> io_accept list \<Rightarrow> nat \<Rightarrow> Server \<Rightarrow> (int \<times> Server) outcome option" where
  "accept_loop fresh [] accepted sv = Some (Returned (0, sv))"
| "accept_loop fresh (AcIntr # acs) accepted sv = accept_loop fresh acs accepted sv"
| "accept_loop fresh (AcError # acs) accepted sv = Some (Returned (if 0 < accepted then 0 else - 1, sv))"
| "accept_loop fresh (AcConn nb ok # acs) accepted sv =
     (case fd_set_nb nb of
        Died \<Rightarrow> Some Died
      | Returned _ \<Rightarrow> do {
          (added, sv1) \<leftarrow> accept_one (fresh (sv_net sv)) ok sv;
          accept_loop fresh acs (if added then accepted + 1 else accepted) sv1
        })"

definition handle_accept :: "(Net \<Rightarrow> int) \<Rightarrow> io_accept list \<Rightarrow> Server \<Rightarrow> (int \<times> Server) outcome option" where
  "handle_accept fresh acs sv = accept_loop fresh acs 0 sv"


subsection \<open>Timers\<close>

definition next_timer_ms :: "Server \<Rightarrow> (int \<times> Server) option" where
  "next_timer_ms sv = do {
     let (now_ms, g) = get_monotonic_msec (sv_db sv);
     empty \<leftarrow> dlist_empty (sv_idle sv) idle_head;
     next1 \<leftarrow> (if \<not> empty then do {
                  d \<leftarrow> sv_idle sv idle_head;
                  a \<leftarrow> dl_next d;
                  conn \<leftarrow> sv_conn sv a;
                  Some (cn_last_active_ms conn + k_idle_timeout_ms)
                } else Some (- 1));
     let next_ms = (case gd_heap g of item # _ \<Rightarrow> if hi_val item < next1 then hi_val item else next1 | [] \<Rightarrow> next1);
     Some (if next_ms = - 1 then - 1
           else if next_ms \<le> now_ms then 0
           else sint (ucast (next_ms - now_ms) :: 32 word), sv\<lparr>sv_db := g\<rparr>)
   }"

partial_function (option) process_idle :: "u64 \<Rightarrow> Server \<Rightarrow> Server option" where
  "process_idle now_ms sv = do {
     empty \<leftarrow> dlist_empty (sv_idle sv) idle_head;
     (if empty then Some sv
      else do {
        d \<leftarrow> sv_idle sv idle_head;
        a \<leftarrow> dl_next d;
        conn \<leftarrow> sv_conn sv a;
        let next_ms = cn_last_active_ms conn + k_idle_timeout_ms;
        (if now_ms \<le> next_ms then Some sv
         else do { sv1 \<leftarrow> conn_destroy sv a; process_idle now_ms sv1 })
      })
   }"

partial_function (option) process_ttl :: "u64 \<Rightarrow> nat \<Rightarrow> GlobalData \<Rightarrow> GlobalData option" where
  "process_ttl now_ms nworks g =
     (case gd_heap g of
        [] \<Rightarrow> Some g
      | item # _ \<Rightarrow>
          if now_ms \<le> hi_val item then Some g
          else do {
            let ent = hi_ref item;
            (node, m, h) \<leftarrow> hm_delete (gd_node g) (gd_db g) ent hnode_same;
            (if node \<noteq> Some ent then None
             else do {
               g1 \<leftarrow> entry_del (g\<lparr>gd_node := m, gd_db := h\<rparr>) ent;
               (if k_max_works \<le> nworks then Some g1 else process_ttl now_ms (nworks + 1) g1)
             })
          })"

declare process_idle.simps [code] process_ttl.simps [code]

definition process_timers :: "Server \<Rightarrow> Server option" where
  "process_timers sv = do {
     let (now_ms, g) = get_monotonic_msec (sv_db sv);
     sv1 \<leftarrow> process_idle now_ms (sv\<lparr>sv_db := g\<rparr>);
     g1 \<leftarrow> process_ttl now_ms 0 (sv_db sv1);
     Some (sv1\<lparr>sv_db := g1\<rparr>)
   }"


subsection \<open>The event loop\<close>

text \<open>
  A reported event with the answers of the calls its handlers make: \<open>ev_wr1\<close> for the write
  that \<open>handle_read\<close> tries at once, \<open>ev_wr2\<close> for that of a writable event, \<open>ev_md1\<close> and \<open>ev_md2\<close> for
  the \<open>epoll_ctl\<close> of the two handlers.
\<close>

record io_event =
  ev_fd :: int
  ev_in :: bool
  ev_out :: bool
  ev_err :: bool
  ev_rd :: io_read
  ev_wr1 :: io_write
  ev_wr2 :: io_write
  ev_md1 :: bool
  ev_md2 :: bool
  ev_ac :: "io_accept list"

definition fd_conn :: "Server \<Rightarrow> int \<Rightarrow> ptr" where
  "fd_conn sv fd = (if 0 \<le> fd \<and> nat fd < length (sv_fd2conn sv) then sv_fd2conn sv ! nat fd else None)"

text \<open>The connection is moved to the end of the idle list.\<close>

definition conn_touch :: "Server \<Rightarrow> addr \<Rightarrow> Server option" where
  "conn_touch sv a = do {
     let (now, g) = get_monotonic_msec (sv_db sv);
     conns \<leftarrow> modify_at (sv_conn sv) a (\<lambda>c. c\<lparr>cn_last_active_ms := now\<rparr>);
     idle1 \<leftarrow> dlist_detach (sv_idle sv) a;
     idle2 \<leftarrow> dlist_insert_before idle1 idle_head a;
     Some (sv\<lparr>sv_db := g, sv_conn := conns, sv_idle := idle2\<rparr>)
   }"

definition conn_readable :: "io_read \<Rightarrow> io_write \<Rightarrow> bool \<Rightarrow> Server \<Rightarrow> addr \<Rightarrow> Server outcome option" where
  "conn_readable rd wr md sv a = do {
     conn \<leftarrow> sv_conn sv a;
     (if \<not> cn_want_read conn then None
      else do {
        r \<leftarrow> handle_read do_request (sv_db sv) rd wr md conn (sv_net sv);
        (case r of
           Died \<Rightarrow> Some Died
         | Returned (g, conn1, net) \<Rightarrow>
             Some (Returned (sv\<lparr>sv_db := g, sv_conn := (sv_conn sv)(a \<mapsto> conn1), sv_net := net\<rparr>)))
      })
   }"

definition conn_writable :: "io_write \<Rightarrow> bool \<Rightarrow> Server \<Rightarrow> addr \<Rightarrow> Server outcome option" where
  "conn_writable wr md sv a = do {
     conn \<leftarrow> sv_conn sv a;
     (if \<not> cn_want_write conn then None
      else do {
        r \<leftarrow> handle_write wr md conn (sv_net sv);
        (case r of
           Died \<Rightarrow> Some Died
         | Returned (conn1, net) \<Rightarrow>
             Some (Returned (sv\<lparr>sv_conn := (sv_conn sv)(a \<mapsto> conn1), sv_net := net\<rparr>)))
      })
   }"

definition handle_event :: "(Net \<Rightarrow> int) \<Rightarrow> int \<Rightarrow> io_event \<Rightarrow> Server \<Rightarrow> Server outcome option" where
  "handle_event fresh lfd ev sv =
     (if ev_fd ev = lfd then
        (if ev_in ev then do {
           r \<leftarrow> handle_accept fresh (ev_ac ev) sv;
           (case r of Died \<Rightarrow> Some Died | Returned (_, sv1) \<Rightarrow> Some (Returned sv1))
         }
         else Some (Returned sv))
      else case fd_conn sv (ev_fd ev) of
        None \<Rightarrow> Some (Returned sv)
      | Some a \<Rightarrow> do {
          sv1 \<leftarrow> conn_touch sv a;
          r \<leftarrow> (if ev_in ev then conn_readable (ev_rd ev) (ev_wr1 ev) (ev_md1 ev) sv1 a else Some (Returned sv1));
          (case r of
             Died \<Rightarrow> Some Died
           | Returned sv2 \<Rightarrow> do {
               w \<leftarrow> (if ev_out ev then conn_writable (ev_wr2 ev) (ev_md2 ev) sv2 a else Some (Returned sv2));
               (case w of
                  Died \<Rightarrow> Some Died
                | Returned sv3 \<Rightarrow> do {
                    conn \<leftarrow> sv_conn sv3 a;
                    sv4 \<leftarrow> (if ev_err ev \<or> cn_want_close conn then conn_destroy sv3 a else Some sv3);
                    Some (Returned sv4)
                  })
             })
        })"

fun handle_events :: "(Net \<Rightarrow> int) \<Rightarrow> int \<Rightarrow> io_event list \<Rightarrow> Server \<Rightarrow> Server outcome option" where
  "handle_events fresh lfd [] sv = Some (Returned sv)"
| "handle_events fresh lfd (ev # evs) sv = do {
     r \<leftarrow> handle_event fresh lfd ev sv;
     (case r of Died \<Rightarrow> Some Died | Returned sv1 \<Rightarrow> handle_events fresh lfd evs sv1)
   }"

text \<open>The answers of \<open>epoll_wait\<close>, and one turn of the loop with the timeout it waits for.\<close>

datatype io_poll = PollIntr | PollError | PollEvents "io_event list"

definition loop_turn :: "(Net \<Rightarrow> int) \<Rightarrow> int \<Rightarrow> io_poll \<Rightarrow> Server \<Rightarrow> (int \<times> Server outcome) option" where
  "loop_turn fresh lfd poll sv = do {
     (timeout_ms, sv1) \<leftarrow> next_timer_ms sv;
     (case poll of
        PollIntr \<Rightarrow> Some (timeout_ms, Returned sv1)
      | PollError \<Rightarrow> Some (timeout_ms, die)
      | PollEvents evs \<Rightarrow> do {
          r \<leftarrow> handle_events fresh lfd evs sv1;
          (case r of
             Died \<Rightarrow> Some (timeout_ms, Died)
           | Returned sv2 \<Rightarrow> do { sv3 \<leftarrow> process_timers sv2; Some (timeout_ms, Returned sv3) })
        })
   }"

text \<open>The state in front of the loop: an empty idle list, and only the listening socket watched.\<close>

definition server_init :: "GlobalData \<Rightarrow> int \<Rightarrow> int \<Rightarrow> Server option" where
  "server_init g lfd epoll_fd = do {
     idle \<leftarrow> dlist_init [idle_head \<mapsto> \<lparr>dl_prev = None, dl_next = None\<rparr>] idle_head;
     Some \<lparr>sv_db = g, sv_fd2conn = [], sv_idle = idle, sv_conn = Map.empty, sv_next = idle_head + 1,
           sv_net = \<lparr>nt_epoll_fd = epoll_fd, nt_interest = [lfd \<mapsto> (True, False)],
             nt_sock = (\<lambda>_. 0), nt_socks = 0, nt_read = (\<lambda>_. []), nt_sent = (\<lambda>_. [])\<rparr>\<rparr>
   }"

text \<open>
  \<open>main\<close> up to the loop, with what its calls answer: the descriptors of \<open>socket\<close> and \<open>epoll_create1\<close>, the
  results of \<open>bind\<close>, \<open>listen\<close> and \<open>epoll_ctl\<close>, and what \<open>fcntl\<close> says about the listening socket; the
  result of \<open>setsockopt\<close> is not looked at, and \<open>thread_pool_init\<close> is in \<open>ThreadPool\<close>. The result is
  that socket and the state.
\<close>

record io_start =
  st_socket :: int
  st_bind :: int
  st_fcntl :: io_fcntl
  st_listen :: int
  st_epoll :: int
  st_ctl :: int

definition server_start :: "io_start \<Rightarrow> GlobalData \<Rightarrow> (int \<times> Server) outcome option" where
  "server_start io g =
     (let fd = st_socket io in
      if fd < 0 then Some die
      else if st_bind io \<noteq> 0 then Some die
      else case fd_set_nb (st_fcntl io) of
        Died \<Rightarrow> Some Died
      | Returned _ \<Rightarrow>
          if st_listen io \<noteq> 0 then Some die
          else if st_epoll io < 0 then Some die
          else if st_ctl io < 0 then Some die
          else do { sv \<leftarrow> server_init g fd (st_epoll io); Some (Returned (fd, sv)) })"

end
