(* ===== verification/ServerLog.thy ===== *)
theory ServerLog
  imports Server DbProps
begin

text \<open>
  The history of a run of the server: the commands it has executed, in order, each with the socket
  it came from and with its reply. Sockets are numbered in the order they were accepted, so that one that is
  closed keeps its part of the history. \<open>served\<close> says what the sockets have to do with the history. It
  accounts for all of it: every entry belongs to an accepted socket, and the entries of a socket, open or
  closed, are exactly the whole valid requests among the bytes that were read from it; what was written to it are
  the frames of their replies from the first on. For an open connection the rest of the bytes is in its buffers.
\<close>

type_synonym history = "(nat \<times> bytes list \<times> tlv) list"

definition of_conn :: "nat \<Rightarrow> history \<Rightarrow> (bytes list \<times> tlv) list" where
  "of_conn s L = map snd (filter (\<lambda>e. fst e = s) L)"

definition requests :: "(bytes list \<times> tlv) list \<Rightarrow> bytes" where
  "requests ts = concat (map (\<lambda>t. request (fst t)) ts)"

definition accounted :: "Net \<Rightarrow> nat \<Rightarrow> (bytes list \<times> tlv) list \<Rightarrow> bool" where
  "accounted net s ts \<longleftrightarrow> (\<forall>t\<in>set ts. sendable (fst t)) \<and>
     (\<exists>rest. nt_read net s = requests ts @ rest \<and> no_request rest) \<and>
     (\<exists>pend. nt_sent net s @ pend = frames (map snd ts))"

definition streams :: "Net \<Rightarrow> Conn \<Rightarrow> (bytes list \<times> tlv) list \<Rightarrow> bool" where
  "streams net c ts \<longleftrightarrow> (\<forall>t\<in>set ts. sendable (fst t)) \<and> no_request (content (cn_incoming c)) \<and>
     fd_read net (cn_fd c) = requests ts @ content (cn_incoming c) \<and>
     fd_sent net (cn_fd c) @ content (cn_outgoing c) = frames (map snd ts)"

abbreviation sock_of :: "Server \<Rightarrow> Conn \<Rightarrow> nat" where
  "sock_of sv c \<equiv> nt_sock (sv_net sv) (cn_fd c)"

definition served :: "history \<Rightarrow> Server \<Rightarrow> bool" where
  "served L sv \<longleftrightarrow> (\<forall>e\<in>set L. fst e < nt_socks (sv_net sv)) \<and>
     (\<forall>s<nt_socks (sv_net sv). accounted (sv_net sv) s (of_conn s L)) \<and>
     (\<forall>a c. sv_conn sv a = Some c \<longrightarrow> sock_of sv c < nt_socks (sv_net sv) \<and> streams (sv_net sv) c (of_conn (sock_of sv c) L)) \<and>
     (\<forall>a c b d. sv_conn sv a = Some c \<longrightarrow> sv_conn sv b = Some d \<longrightarrow> sock_of sv c = sock_of sv d \<longrightarrow> a = b)"

lemma servedD:
  assumes "served L sv"
  shows "e \<in> set L \<Longrightarrow> fst e < nt_socks (sv_net sv)"
    "s < nt_socks (sv_net sv) \<Longrightarrow> accounted (sv_net sv) s (of_conn s L)"
    "sv_conn sv a = Some c \<Longrightarrow> sock_of sv c < nt_socks (sv_net sv)"
    "sv_conn sv a = Some c \<Longrightarrow> streams (sv_net sv) c (of_conn (sock_of sv c) L)"
    "sv_conn sv a = Some c \<Longrightarrow> sv_conn sv b = Some d \<Longrightarrow> sock_of sv c = sock_of sv d \<Longrightarrow> a = b"
  using assms unfolding served_def by blast+

lemma requests_simps [simp]: "requests [] = []" "requests (ts @ us) = requests ts @ requests us"
  by (simp_all add: requests_def)

lemma requests_zip: "length vs = length cmds \<Longrightarrow> requests (zip cmds vs) = concat (map request cmds)"
  using map_fst_zip [of cmds vs] unfolding requests_def by (metis (no_types, lifting) map_map o_apply map_cong)

text \<open>No stream can be read as requests in two ways.\<close>

lemma request_prefix:
  assumes "sendable c" "sendable d" "request c @ xs = request d @ ys"
  shows "c = d \<and> xs = ys"
proof -
  have len: "length (req_body c) \<le> k_max_msg" "length (req_body d) \<le> k_max_msg" using assms(1,2) by (simp_all add: sendable_def)
  have "le32 (w32 (length (req_body c))) @ req_body c @ xs = le32 (w32 (length (req_body d))) @ req_body d @ ys"
    using assms(3) by (simp add: request_def)
  then have eq: "le32 (w32 (length (req_body c))) = le32 (w32 (length (req_body d)))" "req_body c @ xs = req_body d @ ys"
    by (simp_all add: append_eq_append_conv)
  have "length (req_body c) = length (req_body d)"
    using arg_cong [OF eq(1), of "of_le :: _ \<Rightarrow> u32"] header_len(1) [OF len(1)] header_len(1) [OF len(2)] by (metis of_le32)
  then have b: "req_body c = req_body d \<and> xs = ys" using append_eq_append_conv [OF disjI1, THEN iffD1, OF _ eq(2)] by simp
  then have "Some c = Some d" using sendable_parse [OF assms(1)] sendable_parse [OF assms(2)] by metis
  then show ?thesis using b by blast
qed

lemma requests_unique:
  "concat (map request cs) @ r = concat (map request ds) @ r' \<Longrightarrow> \<forall>c\<in>set cs. sendable c \<Longrightarrow> \<forall>d\<in>set ds. sendable d \<Longrightarrow>
    no_request r \<Longrightarrow> no_request r' \<Longrightarrow> cs = ds \<and> r = r'"
proof (induction ds arbitrary: cs)
  case Nil
  then show ?case by (cases cs) (auto simp: no_request_def)
next
  case (Cons d ds)
  have "cs \<noteq> []" using Cons.prems by (auto simp: no_request_def)
  then obtain c cs' where cs: "cs = c # cs'" by (cases cs) simp_all
  from request_prefix [of c d "concat (map request cs') @ r" "concat (map request ds) @ r'"] Cons.prems cs
  have "c = d" "concat (map request cs') @ r = concat (map request ds) @ r'" by simp_all
  then show ?case using Cons.IH [of cs'] Cons.prems cs by simp
qed

lemma accounted_unique:
  assumes "accounted net s ts" "concat (map request cmds) @ rest = nt_read net s" "\<forall>cmd\<in>set cmds. sendable cmd" "no_request rest"
  shows "map fst ts = cmds"
proof -
  obtain r where r: "concat (map request cmds) @ rest = concat (map request (map fst ts)) @ r" "no_request r"
    using assms(1,2) by (auto simp: accounted_def requests_def comp_def)
  have "\<forall>t\<in>set (map fst ts). sendable t" using assms(1) by (simp add: accounted_def)
  from requests_unique [OF r(1) assms(3) this assms(4) r(2)] show ?thesis by simp
qed

lemma streams_accounted: "streams net c ts \<Longrightarrow> accounted net (nt_sock net (cn_fd c)) ts"
  unfolding streams_def accounted_def by blast

lemma of_conn_simps [simp]: "of_conn a [] = []" "of_conn a (L @ M) = of_conn a L @ of_conn a M"
  by (simp_all add: of_conn_def)

lemma of_conn_tag [simp]: "of_conn a (map (Pair b) ts) = (if a = b then ts else [])"
  by (induction ts) (auto simp: of_conn_def)

lemma of_conn_new: "\<forall>e\<in>set L. fst e < n \<Longrightarrow> n \<le> a \<Longrightarrow> of_conn a L = []"
  by (auto simp: of_conn_def filter_empty_conv)

lemma frames_append: "frames (vs @ ws) = frames vs @ frames ws"
  by (simp add: frames_def)

lemma streams_exchanged:
  assumes "streams net c ts" "exchanged cmds vs c net c' net'" "cn_fd c' = cn_fd c" "length vs = length cmds"
  shows "streams net' c' (ts @ zip cmds vs)"
proof -
  obtain data where d: "fd_read net' (cn_fd c) = fd_read net (cn_fd c) @ data"
    "content (cn_incoming c) @ data = concat (map request cmds) @ content (cn_incoming c')"
    using assms(2) unfolding exchanged_def by blast
  have "fd_read net' (cn_fd c) = requests ts @ content (cn_incoming c) @ data"
    using d(1) assms(1) by (simp add: streams_def)
  then have "fd_read net' (cn_fd c') = requests (ts @ zip cmds vs) @ content (cn_incoming c')"
    unfolding d(2) assms(3) using requests_zip [OF assms(4)] by simp
  moreover have "fd_sent net' (cn_fd c') @ content (cn_outgoing c') = frames (map snd (ts @ zip cmds vs))"
    using assms unfolding exchanged_def streams_def by (simp add: frames_append flip: append_assoc)
  moreover have "\<forall>t\<in>set (ts @ zip cmds vs). sendable (fst t)" "no_request (content (cn_incoming c'))"
    using assms(1,2) unfolding streams_def exchanged_def by (auto dest: set_zip_leftD)
  ultimately show ?thesis by (simp add: streams_def)
qed

lemma streams_frame:
  "streams net c ts \<Longrightarrow> net_frame fd net net' \<Longrightarrow> nt_sock net (cn_fd c) \<noteq> nt_sock net fd \<Longrightarrow> streams net' c ts"
  by (simp add: streams_def net_frame_def)

lemma accounted_frame: "accounted net s ts \<Longrightarrow> net_frame fd net net' \<Longrightarrow> s \<noteq> nt_sock net fd \<Longrightarrow> accounted net' s ts"
  by (simp add: accounted_def net_frame_def)

lemma served_cong:
  assumes "served L sv" "sv_conn sv' \<subseteq>\<^sub>m sv_conn sv" "nt_read (sv_net sv') = nt_read (sv_net sv)"
    "nt_sent (sv_net sv') = nt_sent (sv_net sv)" "nt_sock (sv_net sv') = nt_sock (sv_net sv)"
    "nt_socks (sv_net sv') = nt_socks (sv_net sv)"
  shows "served L sv'"
proof -
  have "sv_conn sv a = Some c" if "sv_conn sv' a = Some c" for a c
    using assms(2) that by (auto simp: map_le_def dom_def)
  then show ?thesis using assms(1) unfolding served_def streams_def accounted_def assms(3-6) by blast
qed

lemma served_db: "served L (sv\<lparr>sv_db := g\<rparr>) = served L sv"
  by (simp add: served_def)

lemma served_destroy:
  assumes "served L sv" "conn_destroy sv a = Some sv'"
  shows "served L sv'"
proof (rule served_cong [OF assms(1)])
  show "sv_conn sv' \<subseteq>\<^sub>m sv_conn sv" using assms(2)
    by (auto simp: conn_destroy_def Let_def map_le_def split: Option.bind_split_asm if_splits)
qed (use assms(2) in \<open>auto simp: conn_destroy_def Let_def split: Option.bind_split_asm if_splits\<close>)

text \<open>A connection and its registration change; \<open>cmds\<close> and \<open>vs\<close> are what it has been served meanwhile.\<close>

lemma served_update:
  assumes s: "served L sv" and a: "sv_conn sv a = Some c"
    and e: "exchanged cmds vs c (sv_net sv) c' net'" "cn_fd c' = cn_fd c" "length vs = length cmds"
    and n: "net_frame (cn_fd c) (sv_net sv) net'"
  shows "served (L @ map (Pair (sock_of sv c)) (zip cmds vs)) (sv\<lparr>sv_db := g, sv_conn := (sv_conn sv)(a \<mapsto> c'), sv_net := net'\<rparr>)"
    (is "served ?L ?sv")
proof -
  note d = servedD [OF s]
  let ?s = "sock_of sv c"
  have sock: "nt_sock net' = nt_sock (sv_net sv)" "nt_socks net' = nt_socks (sv_net sv)"
    using net_frame_sock [OF n] by simp_all
  have own: "streams net' c' (of_conn ?s ?L)" using streams_exchanged [OF d(4) [OF a] e] by simp
  have acc: "accounted net' s (of_conn s ?L)" if "s < nt_socks (sv_net sv)" for s
  proof (cases "s = ?s")
    case True
    then show ?thesis using streams_accounted [OF own] e(2) sock by simp
  next
    case False
    then show ?thesis using accounted_frame [OF d(2) [OF that] n] by simp
  qed
  have conn: "nt_sock net' (cn_fd e) < nt_socks net' \<and> streams net' e (of_conn (nt_sock net' (cn_fd e)) ?L)"
    if b: "sv_conn ?sv b = Some e" for b e
  proof (cases "b = a")
    case True
    then show ?thesis using own b d(3) [OF a] e(2) sock by simp
  next
    case False
    then have be: "sv_conn sv b = Some e" using b by simp
    then have "sock_of sv e \<noteq> ?s" using d(5) [OF be a] False by blast
    then show ?thesis using streams_frame [OF d(4) [OF be] n] d(3) [OF be] sock by simp
  qed
  have same: "\<exists>e'. sv_conn sv b = Some e' \<and> cn_fd e' = cn_fd e" if "sv_conn ?sv b = Some e" for b e
    using that a e(2) by (cases "b = a") auto
  have inj: "b = b'" if "sv_conn ?sv b = Some e" "sv_conn ?sv b' = Some e'" "nt_sock net' (cn_fd e) = nt_sock net' (cn_fd e')" for b b' e e'
  proof -
    from same [OF that(1)] same [OF that(2)] obtain x y where
      x: "sv_conn sv b = Some x" "cn_fd x = cn_fd e" "sv_conn sv b' = Some y" "cn_fd y = cn_fd e'" by blast
    show ?thesis by (rule d(5) [OF x(1,3)]) (simp add: x(2,4) that(3) flip: sock(1))
  qed
  have own_log: "\<forall>e\<in>set ?L. fst e < nt_socks net'" using d(1) d(3) [OF a] sock by auto
  have net: "sv_net ?sv = net'" by simp
  show ?thesis using own_log acc conn inj unfolding served_def net sock(2) by blast
qed

text \<open>A new connection has sent nothing and received nothing.\<close>

lemma no_request_nil: "no_request []"
  using no_request_more [OF needs_more_nil] .

lemma served_new:
  assumes s: "served L sv"
    and n: "nt_sock (sv_net sv') = nt_sock (kernel_open fd (sv_net sv))" "nt_socks (sv_net sv') = nt_socks (kernel_open fd (sv_net sv))"
      "nt_read (sv_net sv') = nt_read (kernel_open fd (sv_net sv))" "nt_sent (sv_net sv') = nt_sent (kernel_open fd (sv_net sv))"
    and c: "sv_conn sv' = (sv_conn sv)(b0 \<mapsto> conn_new fd now)" "sv_conn sv b0 = None"
    and apart: "\<And>b e. sv_conn sv b = Some e \<Longrightarrow> cn_fd e \<noteq> fd"
  shows "served L sv'"
proof -
  note d = servedD [OF s]
  let ?n = "nt_socks (sv_net sv)"
  have none: "of_conn ?n L = []" using d(1) by (intro of_conn_new [OF _ order_refl]) simp
  have old: "sock_of sv' e = sock_of sv e \<and> sock_of sv e < ?n" if "sv_conn sv b = Some e" for b e
    using d(3) [OF that] apart [OF that] n(1) by simp
  have new: "sock_of sv' (conn_new fd now) = ?n" using n(1) by (simp add: conn_new_def)
  have fresh: "streams (sv_net sv') (conn_new fd now) []" "accounted (sv_net sv') ?n []"
    using n new empty_buffer_ok no_request_nil
    by (simp_all add: streams_def accounted_def conn_new_def flip: empty_buffer_def)
  have acc: "accounted (sv_net sv') s (of_conn s L)" if "s < Suc ?n" for s
  proof (cases "s = ?n")
    case True
    then show ?thesis using fresh(2) none by simp
  next
    case False
    then have "accounted (sv_net sv) s (of_conn s L)" using that d(2) by simp
    then show ?thesis using n(3,4) False by (simp add: accounted_def)
  qed
  have conn: "sock_of sv' e < Suc ?n \<and> streams (sv_net sv') e (of_conn (sock_of sv' e) L)" if b: "sv_conn sv' b = Some e" for b e
  proof (cases "b = b0")
    case True
    then show ?thesis using b c(1) new none fresh(1) by simp
  next
    case False
    then have be: "sv_conn sv b = Some e" using b c(1) by simp
    have "streams (sv_net sv') e (of_conn (sock_of sv e) L)"
      using d(4) [OF be] old [OF be] n(3,4) by (simp add: streams_def)
    then show ?thesis using old [OF be] by simp
  qed
  have inj: "b = b'" if "sv_conn sv' b = Some e" "sv_conn sv' b' = Some e'" "sock_of sv' e = sock_of sv' e'" for b b' e e'
    using that old new d(5) unfolding c(1) by (fastforce split: if_splits)
  have "\<forall>e\<in>set L. fst e < Suc ?n" using d(1) by (simp add: less_SucI)
  moreover have "nt_socks (sv_net sv') = Suc ?n" using n(2) by simp
  ultimately show ?thesis using acc conn inj unfolding served_def by metis
qed

lemma served_touch:
  assumes "served L sv" "sv_conn sv a = Some c" "sv_conn sv' = (sv_conn sv)(a \<mapsto> c\<lparr>cn_last_active_ms := t\<rparr>)"
    "sv_net sv' = sv_net sv"
  shows "served L sv'"
proof -
  note d = servedD [OF assms(1)]
  have same: "\<exists>e'. sv_conn sv b = Some e' \<and> cn_fd e' = cn_fd e \<and> cn_incoming e' = cn_incoming e \<and> cn_outgoing e' = cn_outgoing e"
    if "sv_conn sv' b = Some e" for b e
    using that assms(2,3) by (cases "b = a") auto
  have "sock_of sv e < nt_socks (sv_net sv) \<and> streams (sv_net sv) e (of_conn (sock_of sv e) L)" if e: "sv_conn sv' b = Some e" for b e
  proof -
    obtain e' where e': "sv_conn sv b = Some e'" "cn_fd e' = cn_fd e" "cn_incoming e' = cn_incoming e" "cn_outgoing e' = cn_outgoing e"
      using same [OF e] by blast
    then show ?thesis using d(3,4) [OF e'(1)] by (simp add: streams_def)
  qed
  moreover have "b = b'" if "sv_conn sv' b = Some e" "sv_conn sv' b' = Some e'" "sock_of sv e = sock_of sv e'" for b b' e e'
  proof -
    from same [OF that(1)] same [OF that(2)] obtain x y where
      x: "sv_conn sv b = Some x" "cn_fd x = cn_fd e" "sv_conn sv b' = Some y" "cn_fd y = cn_fd e'" by blast
    show ?thesis by (rule d(5) [OF x(1,3)]) (simp add: x(2,4) that(3))
  qed
  ultimately show ?thesis unfolding served_def assms(4) using d(1,2) by blast
qed

end
