(* ===== verification/ServerInv.thy ===== *)
theory ServerInv
  imports ServerLog
begin

text \<open>
  The invariant of the whole server between two steps. \<open>xs\<close> are the connections in the order
  of the idle list; those in \<open>B\<close> may be about to be closed. The descriptors, the \<open>Conn\<close>
  objects, the list nodes and the epoll registrations agree, every connection is ready in
  the sense of \<open>conn_ok\<close>, the database represents the keyspace \<open>A\<close>, and there is room for the
  commands in the unread input and in \<open>n\<close> more bytes.
\<close>

definition unread :: "(addr \<rightharpoonup> Conn) \<Rightarrow> addr \<Rightarrow> nat" where
  "unread conns a = (case conns a of None \<Rightarrow> 0 | Some c \<Rightarrow> length (content (cn_incoming c)))"

definition ready_conn :: "int \<Rightarrow> addr set \<Rightarrow> Server \<Rightarrow> addr \<Rightarrow> bool" where
  "ready_conn lfd B sv a \<longleftrightarrow> a < sv_next sv \<and> (\<exists>c. sv_conn sv a = Some c \<and> 0 \<le> cn_fd c \<and> cn_fd c \<noteq> lfd \<and>
     fd_conn sv (cn_fd c) = Some a \<and> (a \<notin> B \<longrightarrow> conn_ok c (sv_net sv)))"

definition net_inv :: "int \<Rightarrow> Server \<Rightarrow> bool" where
  "net_inv lfd sv \<longleftrightarrow> 0 \<le> nt_epoll_fd (sv_net sv) \<and> nt_interest (sv_net sv) lfd = Some (True, False) \<and>
     (\<forall>fd. nt_interest (sv_net sv) fd \<noteq> None \<longrightarrow> fd = lfd \<or> fd_conn sv fd \<noteq> None)"

definition conns_inv :: "int \<Rightarrow> addr set \<Rightarrow> Server \<Rightarrow> addr list \<Rightarrow> bool" where
  "conns_inv lfd B sv xs \<longleftrightarrow> dlist (sv_idle sv) idle_head xs \<and> dom (sv_idle sv) = insert idle_head (set xs) \<and>
     dom (sv_conn sv) = set xs \<and> idle_head < sv_next sv \<and> (\<forall>a\<in>set xs. ready_conn lfd B sv a) \<and>
     (\<forall>fd a. fd_conn sv fd = Some a \<longrightarrow> a \<in> set xs \<and> map_option cn_fd (sv_conn sv a) = Some fd)"

text \<open>The idle list is ordered by the time of the last activity, and no activity is in the future.\<close>

definition active :: "(addr \<rightharpoonup> Conn) \<Rightarrow> addr \<Rightarrow> u64" where
  "active conns a = (case conns a of None \<Rightarrow> 0 | Some c \<Rightarrow> cn_last_active_ms c)"

definition idle_order :: "keyspace \<Rightarrow> Server \<Rightarrow> addr list \<Rightarrow> bool" where
  "idle_order A sv xs \<longleftrightarrow> mono (ks_clock A) \<and> sorted (map (active (sv_conn sv)) xs) \<and>
     (\<forall>a\<in>set xs. active (sv_conn sv) a \<le> ks_now A)"

definition server_inv :: "int \<Rightarrow> addr set \<Rightarrow> nat \<Rightarrow> keyspace \<Rightarrow> Server \<Rightarrow> addr list \<Rightarrow> bool" where
  "server_inv lfd B n A sv xs \<longleftrightarrow> conns_inv lfd B sv xs \<and> net_inv lfd sv \<and> idle_order A sv xs \<and>
     (\<exists>k. repr k (sv_db sv) A \<and> n + sum_list (map (unread (sv_conn sv)) xs) \<le> k)"

text \<open>What the code relies on: a new descriptor is not open, and it is not negative.\<close>

definition fresh_fd :: "(Net \<Rightarrow> int) \<Rightarrow> bool" where
  "fresh_fd fresh \<longleftrightarrow> (\<forall>net. finite (dom (nt_interest net)) \<longrightarrow> 0 \<le> fresh net \<and> nt_interest net (fresh net) = None)"

lemma server_invD:
  assumes "server_inv lfd B n A sv xs"
  shows "conns_inv lfd B sv xs" "net_inv lfd sv" "idle_order A sv xs"
    "\<exists>k. repr k (sv_db sv) A \<and> n + sum_list (map (unread (sv_conn sv)) xs) \<le> k"
  using assms by (simp_all add: server_inv_def)

lemma conns_invD:
  assumes "conns_inv lfd B sv xs"
  shows "dlist (sv_idle sv) idle_head xs" "dom (sv_idle sv) = insert idle_head (set xs)" "dom (sv_conn sv) = set xs"
    "idle_head < sv_next sv" "a \<in> set xs \<Longrightarrow> ready_conn lfd B sv a"
    "fd_conn sv fd = Some a \<Longrightarrow> a \<in> set xs \<and> map_option cn_fd (sv_conn sv a) = Some fd"
    "distinct xs" "idle_head \<notin> set xs"
  using assms by (auto simp: conns_inv_def dlist_def)

lemma ready_connE:
  assumes "ready_conn lfd B sv a"
  obtains c where "sv_conn sv a = Some c" "0 \<le> cn_fd c" "cn_fd c \<noteq> lfd" "fd_conn sv (cn_fd c) = Some a"
    "a < sv_next sv" "a \<notin> B \<Longrightarrow> conn_ok c (sv_net sv)"
  using assms by (auto simp: ready_conn_def)

text \<open>Only the vector of descriptors matters to \<open>fd_conn\<close>.\<close>

lemma fd_conn_cong: "sv_fd2conn sv' = sv_fd2conn sv \<Longrightarrow> fd_conn sv' = fd_conn sv"
  by (simp add: fd_conn_def fun_eq_iff)

lemma finite_fds: "finite {fd. fd_conn sv fd \<noteq> None}"
proof (rule finite_subset)
  show "{fd. fd_conn sv fd \<noteq> None} \<subseteq> int ` {..<length (sv_fd2conn sv)}"
    by (auto simp: fd_conn_def image_iff split: if_splits intro!: bexI [of _ "nat _"])
qed simp

lemma finite_interest:
  assumes "net_inv lfd sv"
  shows "finite (dom (nt_interest (sv_net sv)))"
proof (rule finite_subset [OF _ finite.insertI [OF finite_fds]])
  show "dom (nt_interest (sv_net sv)) \<subseteq> insert lfd {fd. fd_conn sv fd \<noteq> None}"
  proof
    fix fd assume "fd \<in> dom (nt_interest (sv_net sv))"
    then have "fd = lfd \<or> fd_conn sv fd \<noteq> None" using assms unfolding net_inv_def by blast
    then show "fd \<in> insert lfd {fd. fd_conn sv fd \<noteq> None}" by blast
  qed
qed

lemma repr_clock: "repr k g A \<Longrightarrow> repr k (snd (get_monotonic_msec g)) (ks_step A)"
  using db_inv_clock(1) unfolding repr_def by blast

lemma clock_read: "repr k g A \<Longrightarrow> get_monotonic_msec g = (now, g') \<Longrightarrow> now = ks_now A \<and> repr k g' (ks_step A)"
  using db_inv_clock unfolding repr_def by fastforce

lemma repr_room: "repr k g A \<Longrightarrow> j \<le> k \<Longrightarrow> repr j g A"
  unfolding repr_def room_def by fastforce

text \<open>The connections do not depend on the database and on the counter of addresses.\<close>

lemma conns_inv_db: "conns_inv lfd B (sv\<lparr>sv_db := g\<rparr>) xs = conns_inv lfd B sv xs" "net_inv lfd (sv\<lparr>sv_db := g\<rparr>) = net_inv lfd sv"
proof -
  have "fd_conn (sv\<lparr>sv_db := g\<rparr>) = fd_conn sv" by (rule fd_conn_cong) simp
  then show "conns_inv lfd B (sv\<lparr>sv_db := g\<rparr>) xs = conns_inv lfd B sv xs" "net_inv lfd (sv\<lparr>sv_db := g\<rparr>) = net_inv lfd sv"
    by (simp_all add: conns_inv_def net_inv_def ready_conn_def)
qed

text \<open>Time only goes on.\<close>

definition later :: "keyspace \<Rightarrow> keyspace \<Rightarrow> bool" where
  "later A B \<longleftrightarrow> ks_clock B = ks_clock A \<and> ks_tick A \<le> ks_tick B"

lemma later_refl [simp]: "later A A"
  by (simp add: later_def)

lemma later_trans: "later A B \<Longrightarrow> later B C \<Longrightarrow> later A C"
  by (auto simp: later_def)

lemma later_step [simp]: "later A (ks_step A)"
  by (simp add: later_def ks_step_def)

lemma later_now: "later A B \<Longrightarrow> mono (ks_clock A) \<Longrightarrow> ks_now A \<le> ks_now B"
  by (auto simp: later_def ks_now_def intro: monoD)

lemma idle_order_later:
  assumes "idle_order A sv xs" "later A B" "sv_conn sv' = sv_conn sv"
  shows "idle_order B sv' xs"
proof -
  have "mono (ks_clock A)" using assms(1) by (simp add: idle_order_def)
  then have "ks_now A \<le> ks_now B" using later_now assms(2) by blast
  then show ?thesis using assms unfolding idle_order_def later_def by auto
qed

lemma server_inv_db:
  assumes "server_inv lfd B n A sv xs" "later A A'" "repr k g A'" "n' + sum_list (map (unread (sv_conn sv)) xs) \<le> k"
  shows "server_inv lfd B n' A' (sv\<lparr>sv_db := g\<rparr>) xs"
proof -
  have "idle_order A' (sv\<lparr>sv_db := g\<rparr>) xs" by (rule idle_order_later [OF server_invD(3) [OF assms(1)] assms(2)]) simp
  then show ?thesis using assms(3,4) server_invD(1,2) [OF assms(1)] unfolding server_inv_def conns_inv_db by auto
qed

lemma sum_unread_cong:
  "(\<And>a. a \<in> set xs \<Longrightarrow> conns' a = conns a) \<Longrightarrow> sum_list (map (unread conns') xs) = sum_list (map (unread conns) xs)"
  by (rule arg_cong [of _ _ sum_list]) (simp add: unread_def)

lemma sum_unread_remove:
  "a \<in> set xs \<Longrightarrow> sum_list (map (unread conns) xs) = unread conns a + sum_list (map (unread conns) (remove1 a xs))"
  by (induction xs) auto

lemma server_inv_clock:
  assumes "server_inv lfd B n A sv xs" "get_monotonic_msec (sv_db sv) = (now, g)"
  shows "server_inv lfd B n (ks_step A) (sv\<lparr>sv_db := g\<rparr>) xs" "now = ks_now A"
proof -
  obtain k where k: "repr k (sv_db sv) A" "n + sum_list (map (unread (sv_conn sv)) xs) \<le> k"
    using server_invD(4) [OF assms(1)] by blast
  note c = clock_read [OF k(1) assms(2)]
  show "server_inv lfd B n (ks_step A) (sv\<lparr>sv_db := g\<rparr>) xs" using server_inv_db [OF assms(1) later_step _ k(2)] c by blast
  show "now = ks_now A" using c by blast
qed

lemma server_inv_mono: "server_inv lfd B n A sv xs \<Longrightarrow> m \<le> n \<Longrightarrow> B \<subseteq> C \<Longrightarrow> server_inv lfd C m A sv xs"
  unfolding server_inv_def conns_inv_def ready_conn_def by fastforce


subsection \<open>Closing a connection\<close>

lemma nth_vec: "fd_conn sv fd = Some a \<Longrightarrow> 0 \<le> fd \<and> nat fd < length (sv_fd2conn sv) \<and> sv_fd2conn sv ! nat fd = Some a"
  by (simp add: fd_conn_def split: if_splits)

lemma fd_conn_set:
  assumes "0 \<le> fd" "nat fd < length (sv_fd2conn sv)" "sv_fd2conn sv' = (sv_fd2conn sv)[nat fd := p]"
  shows "fd_conn sv' = (fd_conn sv)(fd := p)"
  using assms by (auto simp: fd_conn_def fun_eq_iff nth_list_update)

definition epoll_frame :: "int \<Rightarrow> Net \<Rightarrow> Net \<Rightarrow> bool" where
  "epoll_frame fd net net' \<longleftrightarrow> nt_epoll_fd net' = nt_epoll_fd net \<and> (\<forall>f. f \<noteq> fd \<longrightarrow> nt_interest net' f = nt_interest net f)"

lemma frame_epoll: "net_frame fd net net' \<Longrightarrow> epoll_frame fd net net'"
  by (simp add: net_frame_def epoll_frame_def)

lemma net_frame_conn_ok: "epoll_frame fd net net' \<Longrightarrow> cn_fd c \<noteq> fd \<Longrightarrow> conn_ok c net \<Longrightarrow> conn_ok c net'"
  by (simp add: epoll_frame_def conn_ok_def)

lemma conn_left_registered: "conn_left True net c net' \<longleftrightarrow> cn_want_close c \<or> conn_ok c net'"
  by (simp add: conn_left_def)

lemma conn_destroy_conns:
  assumes inv: "conns_inv lfd B sv xs" "net_inv lfd sv" and a: "a \<in> set xs" "sv_conn sv a = Some c"
  shows "\<exists>sv'. conn_destroy sv a = Some sv' \<and> conns_inv lfd (B - {a}) sv' (remove1 a xs) \<and> net_inv lfd sv' \<and>
    sv_db sv' = sv_db sv \<and> sv_conn sv' = (sv_conn sv)(a := None) \<and> sv_next sv' = sv_next sv \<and>
    nt_epoll_fd (sv_net sv') = nt_epoll_fd (sv_net sv) \<and> fd_conn sv' = (fd_conn sv)(cn_fd c := None) \<and>
    nt_interest (sv_net sv') = (nt_interest (sv_net sv))(cn_fd c := None)"
proof -
  note d = conns_invD [OF inv(1)]
  have r: "0 \<le> cn_fd c" "cn_fd c \<noteq> lfd" "fd_conn sv (cn_fd c) = Some a"
    using d(5) [OF a(1)] a(2) by (auto elim: ready_connE)
  note v = nth_vec [OF r(3)]
  obtain m where m: "dlist_detach (sv_idle sv) a = Some m" "dlist m idle_head (remove1 a xs)" "dl_alloc idle_head m = dl_alloc idle_head (sv_idle sv)"
    using idle.detach_law [OF d(1) a(1)] by blast
  have ep: "0 \<le> nt_epoll_fd (sv_net sv)" using inv(2) by (simp add: net_inv_def)
  let ?net = "(sv_net sv)\<lparr>nt_interest := (nt_interest (sv_net sv))(cn_fd c := None)\<rparr>"
  let ?sv = "sv\<lparr>sv_net := ?net, sv_fd2conn := (sv_fd2conn sv)[nat (cn_fd c) := None], sv_idle := m(a := None),
    sv_conn := (sv_conn sv)(a := None)\<rparr>"
  have run: "conn_destroy sv a = Some ?sv"
    using a(2) r(1) ep v m(1) by (simp add: conn_destroy_def vec_set_def Let_def)
  have fc: "fd_conn ?sv = (fd_conn sv)(cn_fd c := None)"
    by (rule fd_conn_set) (use r(1) v in simp_all)
  have xs: "set (remove1 a xs) = set xs - {a}" using d(7) by (simp add: set_remove1_eq)
  have "dlist (m(a := None)) idle_head (remove1 a xs)"
    by (rule dlist_cong [OF m(2)]) (use xs a(1) d(8) in auto)
  moreover have "dom (m(a := None)) = insert idle_head (set (remove1 a xs))"
  proof -
    have "idle_head \<in> dom m" using dlist_head(1) [OF m(2)] by auto
    then show ?thesis using m(3) d(2,8) a(1) unfolding xs dl_alloc_def by auto
  qed
  moreover have "dom ((sv_conn sv)(a := None)) = set (remove1 a xs)" using d(3) xs by auto
  moreover have "ready_conn lfd (B - {a}) ?sv b" if b: "b \<in> set (remove1 a xs)" for b
  proof -
    have bx: "b \<in> set xs" "b \<noteq> a" using b xs by auto
    obtain e where e: "sv_conn sv b = Some e" "0 \<le> cn_fd e" "cn_fd e \<noteq> lfd" "fd_conn sv (cn_fd e) = Some b"
      "b < sv_next sv" "b \<notin> B \<longrightarrow> conn_ok e (sv_net sv)" using d(5) [OF bx(1)] unfolding ready_conn_def by blast
    have "cn_fd e \<noteq> cn_fd c" using e(4) r(3) bx(2) by auto
    then show ?thesis using e bx unfolding ready_conn_def fc by (auto simp: conn_ok_def)
  qed
  moreover have "b \<in> set (remove1 a xs) \<and> map_option cn_fd (sv_conn ?sv b) = Some fd" if "fd_conn ?sv fd = Some b" for fd b
  proof -
    have f: "fd \<noteq> cn_fd c" "fd_conn sv fd = Some b" using that unfolding fc by (auto split: if_splits)
    from d(6) [OF f(2)] have "b \<in> set xs" "map_option cn_fd (sv_conn sv b) = Some fd" by simp_all
    moreover from this have "b \<noteq> a" using a(2) f(1) by auto
    ultimately show ?thesis using xs by auto
  qed
  ultimately have "conns_inv lfd (B - {a}) ?sv (remove1 a xs)" using d(4) unfolding conns_inv_def by simp
  moreover have "net_inv lfd ?sv" using inv(2) r(2) unfolding net_inv_def fc by simp
  ultimately show ?thesis using run fc by (intro exI [of _ ?sv]) simp
qed

text \<open>What the handler of one descriptor leaves to the others: registration and connection.\<close>

definition untouched :: "int \<Rightarrow> Server \<Rightarrow> Server \<Rightarrow> bool" where
  "untouched fd sv sv' \<longleftrightarrow> (\<forall>f. f \<noteq> fd \<longrightarrow> nt_interest (sv_net sv) f \<noteq> None \<longrightarrow>
     nt_interest (sv_net sv') f = nt_interest (sv_net sv) f \<and> fd_conn sv' f = fd_conn sv f \<and>
     (\<forall>a. fd_conn sv f = Some a \<longrightarrow> sv_conn sv' a = sv_conn sv a))"

lemma untouched_refl: "untouched fd sv sv"
  by (simp add: untouched_def)

lemma untouched_trans: "untouched fd sv sv1 \<Longrightarrow> untouched fd sv1 sv2 \<Longrightarrow> untouched fd sv sv2"
  unfolding untouched_def by (metis (no_types, lifting))

lemma untouchedI:
  assumes "conns_inv lfd B sv xs" "sv_conn sv a = Some c"
    and "\<And>f. f \<noteq> cn_fd c \<Longrightarrow> nt_interest (sv_net sv') f = nt_interest (sv_net sv) f"
    and "\<And>f. f \<noteq> cn_fd c \<Longrightarrow> fd_conn sv' f = fd_conn sv f" and "\<And>b. b \<noteq> a \<Longrightarrow> sv_conn sv' b = sv_conn sv b"
  shows "untouched (cn_fd c) sv sv'"
proof -
  have "sv_conn sv' b = sv_conn sv b" if "f \<noteq> cn_fd c" "fd_conn sv f = Some b" for f b
  proof -
    have "map_option cn_fd (sv_conn sv b) = Some f" using conns_invD(6) [OF assms(1) that(2)] by simp
    then have "b \<noteq> a" using assms(2) that(1) by auto
    then show ?thesis by (rule assms(5))
  qed
  then show ?thesis using assms(3,4) unfolding untouched_def by blast
qed

lemma sorted_remove: "sorted (map f xs) \<Longrightarrow> sorted (map f (remove1 a xs))"
  by (induction xs) (auto dest: notin_set_remove1)

lemma active_cong: "(\<And>a. a \<in> set xs \<Longrightarrow> conns' a = conns a) \<Longrightarrow> map (active conns') xs = map (active conns) xs"
  by (simp add: active_def)

lemma conn_destroy_run:
  assumes inv: "server_inv lfd B n A sv xs" and a: "a \<in> set xs" "sv_conn sv a = Some c"
  shows "\<exists>sv'. conn_destroy sv a = Some sv' \<and> server_inv lfd (B - {a}) n A sv' (remove1 a xs) \<and>
    sv_db sv' = sv_db sv \<and> sv_conn sv' = (sv_conn sv)(a := None) \<and> untouched (cn_fd c) sv sv'"
proof -
  note d = server_invD [OF inv]
  obtain sv' where s: "conn_destroy sv a = Some sv'" "conns_inv lfd (B - {a}) sv' (remove1 a xs)" "net_inv lfd sv'"
    "sv_db sv' = sv_db sv" "sv_conn sv' = (sv_conn sv)(a := None)" "fd_conn sv' = (fd_conn sv)(cn_fd c := None)"
    "nt_interest (sv_net sv') = (nt_interest (sv_net sv))(cn_fd c := None)"
    using conn_destroy_conns [OF d(1,2) a] by blast
  have "untouched (cn_fd c) sv sv'" by (rule untouchedI [OF d(1) a(2)]) (simp_all add: s(5-7))
  have dist: "distinct xs" using conns_invD(7) [OF d(1)] .
  have same: "sv_conn sv' b = sv_conn sv b" if "b \<in> set (remove1 a xs)" for b
    using that dist s(5) by auto
  have act: "map (active (sv_conn sv')) (remove1 a xs) = map (active (sv_conn sv)) (remove1 a xs)"
    by (rule active_cong) (rule same)
  have "active (sv_conn sv') b \<le> ks_now A" if b: "b \<in> set (remove1 a xs)" for b
    using same [OF b] d(3) notin_set_remove1 [of b xs a] b unfolding idle_order_def active_def by auto
  moreover have "sorted (map (active (sv_conn sv)) xs)" "mono (ks_clock A)" using d(3) by (simp_all add: idle_order_def)
  ultimately have "idle_order A sv' (remove1 a xs)"
    unfolding idle_order_def act by (intro conjI ballI sorted_remove)
  moreover have "sum_list (map (unread (sv_conn sv')) (remove1 a xs)) \<le> sum_list (map (unread (sv_conn sv)) xs)"
    using sum_unread_cong [of "remove1 a xs" "sv_conn sv'" "sv_conn sv"] same sum_unread_remove [OF a(1), of "sv_conn sv"] by auto
  then have "\<exists>k. repr k (sv_db sv') A \<and> n + sum_list (map (unread (sv_conn sv')) (remove1 a xs)) \<le> k"
    using d(4) s(4) by fastforce
  ultimately show ?thesis using s(1-5) \<open>untouched (cn_fd c) sv sv'\<close> unfolding server_inv_def by blast
qed


subsection \<open>Events on a connection\<close>

text \<open>A connection and its registration change; the others do not notice.\<close>

lemma conn_update:
  assumes inv: "conns_inv lfd {} sv xs" "net_inv lfd sv" and a: "a \<in> set xs" "sv_conn sv a = Some c"
    and c': "cn_fd c' = cn_fd c" "net_frame (cn_fd c) (sv_net sv) net'" "conn_ok c' net' \<or> a \<in> B"
    and sv': "sv' = sv\<lparr>sv_db := g, sv_conn := (sv_conn sv)(a \<mapsto> c'), sv_net := net'\<rparr>"
  shows "conns_inv lfd B sv' xs" "net_inv lfd sv'"
proof -
  note d = conns_invD [OF inv(1)]
  have r: "a < sv_next sv" "0 \<le> cn_fd c" "cn_fd c \<noteq> lfd" "fd_conn sv (cn_fd c) = Some a"
    using d(5) [OF a(1)] a(2) unfolding ready_conn_def by auto
  have fc: "fd_conn sv' = fd_conn sv" by (rule fd_conn_cong) (simp add: sv')
  have "ready_conn lfd B sv' b" if b: "b \<in> set xs" for b
  proof (cases "b = a")
    case True
    then show ?thesis using r c' unfolding ready_conn_def fc by (auto simp: sv')
  next
    case False
    obtain e where e: "sv_conn sv b = Some e" "0 \<le> cn_fd e" "cn_fd e \<noteq> lfd" "fd_conn sv (cn_fd e) = Some b"
      "b < sv_next sv" "conn_ok e (sv_net sv)" using d(5) [OF b] unfolding ready_conn_def by auto
    have "cn_fd e \<noteq> cn_fd c" using e(4) r(4) False by auto
    from net_frame_conn_ok [OF frame_epoll [OF c'(2)] this e(6)] show ?thesis
      using e False unfolding ready_conn_def fc by (auto simp: sv')
  qed
  moreover have "map_option cn_fd (sv_conn sv' b) = map_option cn_fd (sv_conn sv b)" for b
    using a(2) c'(1) by (simp add: sv')
  moreover have "dom (sv_conn sv') = set xs" using d(3) a(1) by (auto simp: sv')
  ultimately show "conns_inv lfd B sv' xs" using inv(1) unfolding conns_inv_def fc by (simp add: sv')
  have "fd = lfd \<or> fd_conn sv fd \<noteq> None" if "nt_interest net' fd \<noteq> None" for fd
  proof (cases "fd = cn_fd c")
    case True
    then show ?thesis using r(4) by simp
  next
    case False
    then show ?thesis using that c'(2) inv(2) unfolding net_inv_def net_frame_def by metis
  qed
  then show "net_inv lfd sv'"
    using inv(2) r(3) c'(2) unfolding net_inv_def net_frame_def fc by (simp add: sv')
qed

lemma idle_order_conn:
  assumes "idle_order A sv xs" "sv_conn sv a = Some c" "cn_last_active_ms c' = cn_last_active_ms c"
    "sv_conn sv' = (sv_conn sv)(a \<mapsto> c')" "later A A'"
  shows "idle_order A' sv' xs"
proof -
  have "active (sv_conn sv') = active (sv_conn sv)" using assms(2-4) by (auto simp: active_def fun_eq_iff)
  then have "idle_order A sv' xs" using assms(1) by (simp add: idle_order_def)
  then show ?thesis using assms(5) by (rule idle_order_later) simp
qed

text \<open>Commands read the clock, they do not turn it back.\<close>

lemma later_write: "later A (A\<lparr>ks_map := f\<rparr>)" "later A (A\<lparr>ks_ttl := t\<rparr>)" "later A (A\<lparr>ks_map := f, ks_ttl := t\<rparr>)"
  "later A ((ks_step A)\<lparr>ks_ttl := t\<rparr>)"
  by (simp_all add: later_def ks_step_def)

lemma exec_ops_later:
  "later A (snd (exec_get k A))" "later A (snd (exec_del k A))" "later A (snd (exec_ttl k A))"
  "later A (snd (exec_set k x A))" "later A (snd (exec_zrem k x A))" "later A (snd (exec_zscore k x A))"
  "later A (snd (exec_zrank k x A))" "later A (snd (exec_expire k x A))" "later A (snd (exec_zadd k x y A))"
  "later A (snd (exec_zquery k x y z w A))" "later A (snd (exec_zcount k x y z w A))"
  by (simp_all add: exec_get_def exec_del_def exec_ttl_def exec_set_def exec_zrem_def exec_zscore_def exec_zrank_def
      exec_expire_def exec_zadd_def exec_zcount_def exec_zquery_def later_write split: option.split dvalue.split)

lemma exec_later: "later A (snd (exec cmd A))"
proof -
  have branch: "later A (snd (if P then x else y))" if "later A (snd x)" "later A (snd y)" for P and x y :: "tlv \<times> keyspace"
    using that by simp
  have err: "later A (snd (v, A))" for v :: tlv by simp
  show ?thesis
    unfolding exec_def
    by (simp only: split: list.split) (intro conjI allI impI branch exec_ops_later err)
qed

lemma db_spec_later: "db_spec cmd A v B \<Longrightarrow> later A B"
  using exec_later [of A cmd] unfolding db_spec_def by (auto simp: prod_eq_iff split: if_splits)

lemma session_later: "session db_spec cmds A vs B \<Longrightarrow> later A B"
  by (induction rule: session.induct) (auto intro: later_trans db_spec_later)


text \<open>The connection that moves to the end of the idle list is the one that was active last.\<close>

lemma conns_inv_idle:
  assumes "conns_inv lfd B sv xs" "dlist m idle_head ys" "dl_alloc idle_head m = dl_alloc idle_head (sv_idle sv)" "set ys = set xs"
  shows "conns_inv lfd B (sv\<lparr>sv_idle := m\<rparr>) ys" "net_inv lfd (sv\<lparr>sv_idle := m\<rparr>) = net_inv lfd sv"
proof -
  let ?sv = "sv\<lparr>sv_idle := m\<rparr>"
  have fc: "fd_conn ?sv = fd_conn sv" by (rule fd_conn_cong) simp
  have "idle_head \<in> dom m" "idle_head \<in> dom (sv_idle sv)"
    using dlist_head(1) [OF assms(2)] dlist_head(1) [OF conns_invD(1) [OF assms(1)]] by auto
  then have "dom m = dom (sv_idle sv)" using assms(3) unfolding dl_alloc_def by blast
  then show "conns_inv lfd B ?sv ys"
    using assms(1,2,4) unfolding conns_inv_def ready_conn_def fc by simp
  show "net_inv lfd ?sv = net_inv lfd sv" unfolding net_inv_def fc by simp
qed

lemma conn_touch_run:
  assumes inv: "server_inv lfd {} n A sv xs" and a: "a \<in> set xs" "sv_conn sv a = Some c"
  shows "\<exists>sv'. conn_touch sv a = Some sv' \<and> server_inv lfd {} n (ks_step A) sv' (remove1 a xs @ [a]) \<and>
    sv_net sv' = sv_net sv \<and> sv_conn sv' = (sv_conn sv)(a \<mapsto> c\<lparr>cn_last_active_ms := ks_now A\<rparr>) \<and> untouched (cn_fd c) sv sv' \<and>
    sv_next sv' = sv_next sv \<and> sv_db sv' = snd (get_monotonic_msec (sv_db sv)) \<and> fd_conn sv' = fd_conn sv"
proof -
  note d = server_invD [OF inv]
  obtain now g where g: "get_monotonic_msec (sv_db sv) = (now, g)" by fastforce
  note clock = server_inv_clock [OF inv g]
  let ?c = "c\<lparr>cn_last_active_ms := ks_now A\<rparr>" and ?ys = "remove1 a xs @ [a]"
  obtain m1 m2 where m: "dlist_detach (sv_idle sv) a = Some m1" "dlist_insert_before m1 idle_head a = Some m2"
    "dlist m2 idle_head ?ys" "dl_alloc idle_head m2 = dl_alloc idle_head (sv_idle sv)"
    using idle.refresh [OF conns_invD(1) [OF d(1)] a(1)] by blast
  have dist: "distinct xs" using conns_invD(7) [OF d(1)] .
  have ys: "set ?ys = set xs" using dist a(1) by auto
  have ok: "conn_ok c (sv_net sv)"
    using conns_invD(5) [OF d(1) a(1)] a(2) unfolding ready_conn_def by auto
  let ?sv1 = "sv\<lparr>sv_db := g, sv_conn := (sv_conn sv)(a \<mapsto> ?c), sv_net := sv_net sv\<rparr>" and ?sv = "sv\<lparr>sv_db := g, sv_conn := (sv_conn sv)(a \<mapsto> ?c), sv_idle := m2\<rparr>"
  have ok': "conn_ok ?c (sv_net sv) \<or> a \<in> {}" using ok by (simp add: conn_ok_def bufs_ok_def)
  have c1: "conns_inv lfd {} ?sv1 xs" "net_inv lfd ?sv1"
    using conn_update [OF d(1,2) a _ _ ok' refl] by (simp_all add: net_frame_def)
  have "dl_alloc idle_head m2 = dl_alloc idle_head (sv_idle ?sv1)" using m(4) by simp
  from conns_inv_idle [OF c1(1) m(3) this ys] c1(2)
  have c2: "conns_inv lfd {} ?sv ?ys" "net_inv lfd ?sv" by simp_all
  have other: "sv_conn ?sv b = sv_conn sv b" if "b \<in> set (remove1 a xs)" for b using that dist by auto
  have act: "map (active (sv_conn ?sv)) ?ys = map (active (sv_conn sv)) (remove1 a xs) @ [ks_now A]"
    using active_cong [of "remove1 a xs" "sv_conn ?sv" "sv_conn sv"] other by (simp add: active_def)
  have old: "mono (ks_clock A)" "sorted (map (active (sv_conn sv)) (remove1 a xs))"
    "\<forall>x\<in>set (map (active (sv_conn sv)) (remove1 a xs)). x \<le> ks_now A"
    using d(3) sorted_remove notin_set_remove1 unfolding idle_order_def by (auto dest: notin_set_remove1)
  have now: "ks_now A \<le> ks_now (ks_step A)" using later_now [OF later_step old(1)] .
  have "\<forall>x\<in>set (map (active (sv_conn ?sv)) ?ys). x \<le> ks_now (ks_step A)"
    unfolding act using old(3) now by auto
  moreover have "sorted (map (active (sv_conn ?sv)) ?ys)"
    unfolding act using old(2,3) by (simp add: sorted_append)
  ultimately have "idle_order (ks_step A) ?sv ?ys"
    using old(1) unfolding idle_order_def by (simp add: ks_step_def)
  moreover have "unread (sv_conn ?sv) = unread (sv_conn sv)" using a(2) by (auto simp: unread_def fun_eq_iff)
  then have "sum_list (map (unread (sv_conn ?sv)) ?ys) = sum_list (map (unread (sv_conn sv)) xs)"
    using sum_unread_remove [OF a(1), of "sv_conn sv"] by simp
  then have "\<exists>k. repr k (sv_db ?sv) (ks_step A) \<and> n + sum_list (map (unread (sv_conn ?sv)) ?ys) \<le> k"
    using server_invD(4) [OF clock(1)] by simp
  moreover have "conn_touch sv a = Some ?sv"
    using g clock(2) a(2) m(1,2) by (simp add: conn_touch_def modify_at_def)
  moreover have fc: "fd_conn ?sv = fd_conn sv" by (rule fd_conn_cong) simp
  then have "untouched (cn_fd c) sv ?sv" by (intro untouchedI [OF d(1) a(2)]) simp_all
  ultimately show ?thesis using c2 g fc unfolding server_inv_def by (intro exI [of _ ?sv]) simp
qed

text \<open>No two connections have the same descriptor, and none has one that is not open.\<close>

lemma conns_apart:
  assumes "conns_inv lfd B sv xs" "sv_conn sv b = Some e"
  shows "fd_conn sv (cn_fd e) = Some b" "sv_conn sv a = Some c \<Longrightarrow> b \<noteq> a \<Longrightarrow> cn_fd e \<noteq> cn_fd c"
proof -
  have fd: "fd_conn sv (cn_fd e) = Some b" if "sv_conn sv b = Some e" for b e
  proof -
    have "b \<in> set xs" using conns_invD(3) [OF assms(1)] that by blast
    then show ?thesis using conns_invD(5) [OF assms(1)] that unfolding ready_conn_def by fastforce
  qed
  show "fd_conn sv (cn_fd e) = Some b" using fd assms(2) by blast
  show "cn_fd e \<noteq> cn_fd c" if "sv_conn sv a = Some c" "b \<noteq> a" using fd [OF that(1)] fd [OF assms(2)] that(2) by auto
qed

text \<open>After the handler of an event: the connection is to be closed, or as ready as all others.\<close>

definition settled :: "int \<Rightarrow> nat \<Rightarrow> keyspace \<Rightarrow> Server \<Rightarrow> addr list \<Rightarrow> addr \<Rightarrow> int \<Rightarrow> bool" where
  "settled lfd n A sv xs a fd \<longleftrightarrow> server_inv lfd {a} n A sv xs \<and>
     (\<exists>c. sv_conn sv a = Some c \<and> cn_fd c = fd \<and> (cn_want_close c \<or> server_inv lfd {} n A sv xs))"

lemma settledI:
  assumes inv: "server_inv lfd {} m A sv xs" and a: "a \<in> set xs" "sv_conn sv a = Some c"
    and c': "cn_fd c' = cn_fd c" "net_frame (cn_fd c) (sv_net sv) net'" "cn_want_close c' \<or> conn_ok c' net'"
      "cn_last_active_ms c' = cn_last_active_ms c"
    and g: "later A A'" "repr k g A'" "length (content (cn_incoming c')) + (n + sum_list (map (unread (sv_conn sv)) (remove1 a xs))) \<le> k"
  shows "settled lfd n A' (sv\<lparr>sv_db := g, sv_conn := (sv_conn sv)(a \<mapsto> c'), sv_net := net'\<rparr>) xs a (cn_fd c) \<and>
    untouched (cn_fd c) sv (sv\<lparr>sv_db := g, sv_conn := (sv_conn sv)(a \<mapsto> c'), sv_net := net'\<rparr>)"
proof -
  note d = server_invD [OF inv]
  let ?sv = "sv\<lparr>sv_db := g, sv_conn := (sv_conn sv)(a \<mapsto> c'), sv_net := net'\<rparr>"
  have dist: "distinct xs" using conns_invD(7) [OF d(1)] .
  have io: "idle_order A' ?sv xs" by (rule idle_order_conn [OF d(3) a(2) c'(4) _ g(1)]) simp
  have "sum_list (map (unread (sv_conn ?sv)) (remove1 a xs)) = sum_list (map (unread (sv_conn sv)) (remove1 a xs))"
    by (rule sum_unread_cong) (use dist in auto)
  then have "n + sum_list (map (unread (sv_conn ?sv)) xs) \<le> k"
    using g(3) sum_unread_remove [OF a(1), of "sv_conn ?sv"] by (simp add: unread_def)
  then have fin: "\<exists>k. repr k (sv_db ?sv) A' \<and> n + sum_list (map (unread (sv_conn ?sv)) xs) \<le> k" using g(2) by auto
  note up = conn_update [OF d(1,2) a c'(1,2)]
  have "server_inv lfd {a} n A' ?sv xs" unfolding server_inv_def using up [of "{a}", OF _ refl] io fin by simp
  moreover have "server_inv lfd {} n A' ?sv xs" if "conn_ok c' net'"
    unfolding server_inv_def using up [of "{}", OF _ refl] that io fin by simp
  ultimately have "settled lfd n A' ?sv xs a (cn_fd c)" using c'(1,3) unfolding settled_def by auto
  moreover have "fd_conn ?sv = fd_conn sv" by (rule fd_conn_cong) simp
  then have "untouched (cn_fd c) sv ?sv"
    using c'(2) by (intro untouchedI [OF d(1) a(2)]) (simp_all add: net_frame_def)
  ultimately show ?thesis by blast
qed

lemma conn_readable_run:
  assumes inv: "server_inv lfd {} (read_len rd + n) A sv xs" and a: "a \<in> set xs" "sv_conn sv a = Some c" "cn_want_read c"
  shows "(conn_readable rd wr True sv a = Some Died \<and> (\<exists>data. rd = RdBytes data \<and> (oversized (content (cn_incoming c) @ data) \<or> wr = WrPipe))) \<or>
    (\<exists>sv' cmds vs A'. conn_readable rd wr True sv a = Some (Returned sv') \<and> session db_spec cmds A vs A' \<and>
      settled lfd n A' sv' xs a (cn_fd c) \<and> untouched (cn_fd c) sv sv' \<and>
      (\<forall>L. served L sv \<longrightarrow> served (L @ map (Pair (sock_of sv c)) (zip cmds vs)) sv'))"
proof -
  note d = server_invD [OF inv]
  have ok: "conn_ok c (sv_net sv)" "a < sv_next sv"
    using conns_invD(5) [OF d(1) a(1)] a(2) unfolding ready_conn_def by auto
  obtain k where k: "repr k (sv_db sv) A" "read_len rd + n + sum_list (map (unread (sv_conn sv)) xs) \<le> k"
    using d(4) by blast
  have "length (content (cn_incoming c)) + read_len rd + (n + sum_list (map (unread (sv_conn sv)) (remove1 a xs))) \<le> k"
    using k(2) sum_unread_remove [OF a(1), of "sv_conn sv"] a(2) by (simp add: unread_def)
  from handle_read_run [OF do_request_responds k(1) ok(1) a(3) this, of wr True, unfolded conn_left_registered]
  consider "handle_read do_request (sv_db sv) rd wr True c (sv_net sv) = Some Died" "\<exists>data. rd = RdBytes data \<and> (oversized (content (cn_incoming c) @ data) \<or> wr = WrPipe)"
    | g c' net' cmds vs A' k' where "handle_read do_request (sv_db sv) rd wr True c (sv_net sv) = Some (Returned (g, c', net'))"
      "session db_spec cmds A vs A'" "length (content (cn_incoming c')) + (n + sum_list (map (unread (sv_conn sv)) (remove1 a xs))) \<le> k'"
      "repr k' g A'" "net_frame (cn_fd c) (sv_net sv) net'" "cn_fd c' = cn_fd c"
      "cn_last_active_ms c' = cn_last_active_ms c" "cn_want_close c' \<or> conn_ok c' net'"
      "exchanged cmds vs c (sv_net sv) c' net'" by blast
  then show ?thesis
  proof cases
    case 1
    then show ?thesis using a by (simp add: conn_readable_def)
  next
    case 2
    let ?sv = "sv\<lparr>sv_db := g, sv_conn := (sv_conn sv)(a \<mapsto> c'), sv_net := net'\<rparr>"
    have "settled lfd n A' ?sv xs a (cn_fd c) \<and> untouched (cn_fd c) sv ?sv"
      using settledI [OF inv a(1,2) 2(6,5,8,7) session_later [OF 2(2)] 2(4,3)] .
    moreover have "conn_readable rd wr True sv a = Some (Returned ?sv)" using a 2(1) by (simp add: conn_readable_def)
    moreover have "served (L @ map (Pair (sock_of sv c)) (zip cmds vs)) ?sv" if "served L sv" for L
      by (rule served_update [OF that a(2) 2(9,6) session_length [OF 2(2)] 2(5)])
    ultimately show ?thesis using 2(2,5) by (intro disjI2 exI [of _ ?sv] exI [of _ cmds] exI [of _ vs] exI [of _ A']) simp
  qed
qed

lemma conn_writable_run:
  assumes inv: "server_inv lfd {} n A sv xs" and a: "a \<in> set xs" "sv_conn sv a = Some c" "cn_want_write c"
  shows "(conn_writable wr True sv a = Some Died \<and> wr = WrPipe) \<or>
    (\<exists>sv'. conn_writable wr True sv a = Some (Returned sv') \<and> settled lfd n A sv' xs a (cn_fd c) \<and> untouched (cn_fd c) sv sv' \<and>
    (\<forall>L. served L sv \<longrightarrow> served L sv'))"
proof -
  note d = server_invD [OF inv]
  have ok: "conn_ok c (sv_net sv)" "a < sv_next sv"
    using conns_invD(5) [OF d(1) a(1)] a(2) unfolding ready_conn_def by auto
  obtain k where k: "repr k (sv_db sv) A" "n + sum_list (map (unread (sv_conn sv)) xs) \<le> k"
    using d(4) by blast
  have w: "bufs_ok c" "cn_want_read c = False" "cn_want_write c = True" "content (cn_outgoing c) \<noteq> []"
    "cn_want_close c \<or> needs_more (content (cn_incoming c))" "0 \<le> nt_epoll_fd (sv_net sv)" "nt_interest (sv_net sv) (cn_fd c) \<noteq> None"
    using ok a(3) by (simp_all add: conn_ok_def)
  show ?thesis
  proof (cases "wr = WrPipe")
    case True
    have "handle_write wr True c (sv_net sv) = Some Died"
      unfolding True by (rule handle_write_pipe) (use w(1,4) in \<open>simp_all add: bufs_ok_def\<close>)
    then show ?thesis using a True by (simp add: conn_writable_def)
  next
    case False
    from handle_write_run [OF w False, of True, unfolded conn_left_registered] obtain c' net' where
      r: "handle_write wr True c (sv_net sv) = Some (Returned (c', net'))" "net_frame (cn_fd c) (sv_net sv) net'" "cn_fd c' = cn_fd c"
        "cn_last_active_ms c' = cn_last_active_ms c" "cn_incoming c' = cn_incoming c" "cn_want_close c' \<or> conn_ok c' net'"
        "nt_read net' = nt_read (sv_net sv)"
        "fd_sent net' (cn_fd c) @ content (cn_outgoing c') = fd_sent (sv_net sv) (cn_fd c) @ content (cn_outgoing c)" by blast
    let ?sv = "sv\<lparr>sv_db := sv_db sv, sv_conn := (sv_conn sv)(a \<mapsto> c'), sv_net := net'\<rparr>"
    have "length (content (cn_incoming c')) + (n + sum_list (map (unread (sv_conn sv)) (remove1 a xs))) \<le> k"
      using k(2) sum_unread_remove [OF a(1), of "sv_conn sv"] a(2) r(5) by (simp add: unread_def)
    from settledI [OF inv a(1,2) r(3,2,6,4) later_refl k(1) this]
    have "settled lfd n A ?sv xs a (cn_fd c) \<and> untouched (cn_fd c) sv ?sv" .
    moreover have "conn_writable wr True sv a = Some (Returned ?sv)" using a r(1) by (simp add: conn_writable_def)
    moreover have "exchanged [] [] c (sv_net sv) c' net'" using r(5,7,8) net_frame_sock [OF r(2)] by (simp add: exchanged_def)
    note quiet = this
    have "served L ?sv" if "served L sv" for L
      using served_update [OF that a(2) quiet r(3) _ r(2), where g = "sv_db sv"] by simp
    ultimately show ?thesis by (intro disjI2 exI [of _ ?sv]) simp
  qed
qed


subsection \<open>Accepting connections\<close>

lemma fresh_unused:
  assumes "conns_inv lfd {} sv xs" "net_inv lfd sv" "nt_interest (sv_net sv) fd = None"
  shows "fd_conn sv fd = None" "fd \<noteq> lfd"
proof -
  show "fd \<noteq> lfd" using assms(2,3) by (auto simp: net_inv_def)
  show "fd_conn sv fd = None"
  proof (rule ccontr)
    assume "fd_conn sv fd \<noteq> None"
    then obtain a where a: "fd_conn sv fd = Some a" by blast
    from conns_invD(6) [OF assms(1) a] have "a \<in> set xs" "map_option cn_fd (sv_conn sv a) = Some fd" by simp_all
    moreover from this obtain c where "sv_conn sv a = Some c" "cn_fd c = fd" by blast
    ultimately have "conn_ok c (sv_net sv)" "cn_fd c = fd"
      using conns_invD(5) [OF assms(1), of a] unfolding ready_conn_def by auto
    then show False using assms(3) by (simp add: conn_ok_def)
  qed
qed

lemma conn_new_ok:
  assumes "0 \<le> nt_epoll_fd net" "nt_interest net fd = Some (True, False)"
  shows "conn_ok (conn_new fd now) net"
  using assms empty_buffer_ok needs_more_nil
  by (simp add: conn_ok_def bufs_ok_def conn_new_def flip: empty_buffer_def)

lemma conns_inv_add:
  assumes inv: "conns_inv lfd {} sv xs" "net_inv lfd sv" and fd: "0 \<le> fd" "nt_interest (sv_net sv) fd = None"
    and m: "dlist (sv_idle sv') idle_head (xs @ [sv_next sv])" "dom (sv_idle sv') = insert (sv_next sv) (dom (sv_idle sv))"
    and sv': "fd_conn sv' = (fd_conn sv)(fd \<mapsto> sv_next sv)" "sv_conn sv' = (sv_conn sv)(sv_next sv \<mapsto> conn_new fd now)"
      "sv_next sv' = sv_next sv + 1"
    and net: "epoll_frame fd (sv_net sv) (sv_net sv')" "nt_interest (sv_net sv') fd = Some (True, False) \<or> sv_next sv \<in> B"
  shows "conns_inv lfd B sv' (xs @ [sv_next sv])" "net_inv lfd sv'"
proof -
  let ?a = "sv_next sv"
  note d = conns_invD [OF inv(1)]
  note u = fresh_unused [OF inv fd(2)]
  have aa: "?a \<notin> set xs" "sv_conn sv ?a = None"
    using d(5) [of ?a] d(3) unfolding ready_conn_def by auto
  have ep: "0 \<le> nt_epoll_fd (sv_net sv')" using inv(2) net(1) by (simp add: net_inv_def epoll_frame_def)
  have "ready_conn lfd B sv' b" if b: "b \<in> set (xs @ [?a])" for b
  proof (cases "b = ?a")
    case True
    then show ?thesis
      using sv' fd(1) u(2) net(2) conn_new_ok [OF ep] unfolding ready_conn_def by (auto simp: conn_new_def)
  next
    case False
    then have "b \<in> set xs" using b by simp
    from d(5) [OF this] obtain e where e: "sv_conn sv b = Some e" "0 \<le> cn_fd e" "cn_fd e \<noteq> lfd"
      "fd_conn sv (cn_fd e) = Some b" "b < sv_next sv" "conn_ok e (sv_net sv)" unfolding ready_conn_def by auto
    have "cn_fd e \<noteq> fd" using e(4) u(1) by auto
    from net_frame_conn_ok [OF net(1) this e(6)] show ?thesis
      using e False \<open>cn_fd e \<noteq> fd\<close> unfolding ready_conn_def sv' by auto
  qed
  moreover have "b \<in> set (xs @ [?a]) \<and> map_option cn_fd (sv_conn sv' b) = Some f" if f: "fd_conn sv' f = Some b" for f b
  proof (cases "f = fd")
    case True
    then show ?thesis using f sv' by (simp add: conn_new_def)
  next
    case False
    then have "fd_conn sv f = Some b" using f sv'(1) by simp
    from d(6) [OF this] show ?thesis using aa sv'(2) by auto
  qed
  moreover have "dom (sv_conn sv') = set (xs @ [?a])" using d(3) sv'(2) by auto
  ultimately show "conns_inv lfd B sv' (xs @ [?a])"
    using m d(2,4) sv'(3) unfolding conns_inv_def by (simp add: insert_commute)
  have "f = lfd \<or> fd_conn sv' f \<noteq> None" if "nt_interest (sv_net sv') f \<noteq> None" for f
    using that inv(2) net(1) sv'(1) unfolding net_inv_def epoll_frame_def by (cases "f = fd") auto
  then show "net_inv lfd sv'" using ep inv(2) net(1) u(2) unfolding net_inv_def epoll_frame_def by simp
qed

lemma accept_one_run:
  assumes inv: "server_inv lfd {} n A sv xs" and fd: "0 \<le> fd" "nt_interest (sv_net sv) fd = None"
  shows "\<exists>added sv' xs'. accept_one fd ok sv = Some (added, sv') \<and> server_inv lfd {} n (ks_step A) sv' xs' \<and>
    (\<forall>f. untouched f sv sv') \<and> (\<forall>L. served L sv \<longrightarrow> served L sv')"
proof -
  note d = server_invD [OF inv]
  note c = conns_invD [OF d(1)]
  note u = fresh_unused [OF d(1,2) fd(2)]
  let ?a = "sv_next sv"
  obtain now g where g: "get_monotonic_msec (sv_db sv) = (now, g)" by fastforce
  note clock = server_inv_clock [OF inv g]
  have aa: "?a \<notin> set xs" "sv_conn sv ?a = None" "?a \<noteq> idle_head" using c(3,4) c(5) [of ?a] unfolding ready_conn_def by auto
  let ?idle = "(sv_idle sv)(?a \<mapsto> \<lparr>dl_prev = None, dl_next = None\<rparr>)"
  have "dlist ?idle idle_head xs" by (rule dlist_cong [OF c(1)]) (use aa in auto)
  moreover have "?a \<in> dl_alloc idle_head ?idle" using aa(3) by (simp add: dl_alloc_def)
  ultimately obtain m where m: "dlist_insert_before ?idle idle_head ?a = Some m" "dlist m idle_head (xs @ [?a])"
    "dl_alloc idle_head m = dl_alloc idle_head ?idle" using idle.push_law aa(1) by blast
  have "idle_head \<in> dom m" "idle_head \<in> dom (sv_idle sv)" using dlist_head(1) [OF m(2)] dlist_head(1) [OF c(1)] by auto
  then have dom: "dom m = insert ?a (dom (sv_idle sv))" using m(3) aa(3) unfolding dl_alloc_def by auto
  define fds where "fds = (if length (sv_fd2conn sv) \<le> nat fd
    then sv_fd2conn sv @ replicate (nat fd + 1 - length (sv_fd2conn sv)) None else sv_fd2conn sv)"
  have fds: "nat fd < length fds" "fds ! nat fd = None" "fds[nat fd := Some ?a] ! i = (if i = nat fd then Some ?a else fds ! i)"
    "i < length fds \<Longrightarrow> fds ! i = (if i < length (sv_fd2conn sv) then sv_fd2conn sv ! i else None)" for i
    using u(1) fd(1) by (auto simp: fds_def fd_conn_def nth_append nth_list_update split: if_splits)
  have len: "length (sv_fd2conn sv) \<le> length fds" by (simp add: fds_def)
  define sv1 where "sv1 = sv\<lparr>sv_db := g, sv_fd2conn := fds[nat fd := Some ?a], sv_idle := m,
    sv_conn := (sv_conn sv)(?a \<mapsto> conn_new fd now), sv_next := ?a + 1, sv_net := kernel_open fd (sv_net sv)\<rparr>"
  have fc: "fd_conn sv1 = (fd_conn sv)(fd \<mapsto> ?a)"
    using fd(1) fds len by (auto simp: sv1_def fd_conn_def fun_eq_iff eq_nat_nat_iff)
  have ep: "0 \<le> nt_epoll_fd (sv_net sv)" using d(2) by (simp add: net_inv_def)
  define sv2 where "sv2 = sv1\<lparr>sv_net := (kernel_open fd (sv_net sv))\<lparr>nt_interest := (nt_interest (sv_net sv))(fd \<mapsto> (True, False))\<rparr>\<rparr>"
  have fc2: "fd_conn sv2 = fd_conn sv1" by (rule fd_conn_cong) (simp add: sv2_def)
  have vec: "vec_get fds (nat fd) = Some None" "vec_set fds (nat fd) (Some ?a) = Some (fds[nat fd := Some ?a])"
    using fds(1,2) by (simp_all add: vec_get_def vec_set_def)
  have run: "accept_one fd ok sv = (if ok then Some (True, sv2) else do { sv3 \<leftarrow> conn_destroy sv1 ?a; Some (False, sv3) })"
    using g m(1) vec fd(1) ep by (simp add: accept_one_def Let_def sv2_def sv1_def flip: fds_def)
  have sum: "sum_list (map (unread (sv_conn sv1)) xs) = sum_list (map (unread (sv_conn sv)) xs)"
    by (rule sum_unread_cong) (use aa(1) in \<open>auto simp: sv1_def\<close>)
  have new: "unread (sv_conn sv1) ?a = 0"
    using empty_buffer_ok by (simp add: sv1_def unread_def conn_new_def flip: empty_buffer_def)
  have io: "idle_order (ks_step A) (sv\<lparr>sv_db := g\<rparr>) xs" using server_invD(3) [OF clock(1)] .
  have apart: "f \<noteq> fd \<and> (\<forall>b. fd_conn sv f = Some b \<longrightarrow> b \<noteq> ?a)" if "nt_interest (sv_net sv) f \<noteq> None" for f
    using that fd(2) c(6) aa(1) by blast
  have act: "map (active (sv_conn sv1)) xs = map (active (sv_conn sv)) xs"
    by (rule active_cong) (use aa(1) in \<open>auto simp: sv1_def\<close>)
  have served1: "served L sv'" if "served L sv" "sv' = sv1 \<or> sv' = sv2" for L sv'
    by (rule served_new [OF that(1), of sv' fd ?a now])
      (use that(2) u(1) aa(2) conns_apart(1) [OF d(1)] in \<open>auto simp: sv1_def sv2_def\<close>)
  show ?thesis
  proof (cases ok)
    case True
    have n: "epoll_frame fd (sv_net sv) (sv_net sv2)" "nt_interest (sv_net sv2) fd = Some (True, False) \<or> ?a \<in> {}"
      by (simp_all add: sv2_def epoll_frame_def)
    have "conns_inv lfd {} sv2 (xs @ [?a])" "net_inv lfd sv2"
      using conns_inv_add [OF d(1,2) fd _ _ _ _ _ n] m(2) dom fc fc2 by (simp_all add: sv2_def sv1_def)
    moreover have "idle_order (ks_step A) sv2 (xs @ [?a])"
    proof -
      have act2: "map (active (sv_conn sv2)) xs = map (active (sv_conn sv)) xs" using act by (simp add: sv2_def)
      have "active (sv_conn sv) b \<le> now" if "b \<in> set xs" for b using d(3) clock(2) that by (simp add: idle_order_def)
      moreover have "now \<le> ks_now (ks_step A)" using clock(2) later_now [OF later_step] d(3) by (simp add: idle_order_def)
      moreover have "active (sv_conn sv2) b = active (sv_conn sv) b" if "b \<in> set xs" for b
        using that aa(1) by (auto simp: sv2_def sv1_def active_def)
      moreover have "active (sv_conn sv2) ?a = now" by (simp add: sv2_def sv1_def active_def conn_new_def)
      ultimately show ?thesis using io unfolding idle_order_def by (auto simp: sorted_append act2)
    qed
    moreover have "\<exists>k. repr k (sv_db sv2) (ks_step A) \<and> n + sum_list (map (unread (sv_conn sv2)) (xs @ [?a])) \<le> k"
      using server_invD(4) [OF clock(1)] sum new by (simp add: sv2_def sv1_def)
    ultimately have "server_inv lfd {} n (ks_step A) sv2 (xs @ [?a])" unfolding server_inv_def by blast
    moreover have "untouched f sv sv2" for f
      using apart by (simp add: untouched_def fc2 fc) (auto simp: sv2_def sv1_def fd(2))
    ultimately show ?thesis using run True served1 by (intro exI [of _ True] exI [of _ sv2] exI [of _ "xs @ [?a]"]) simp
  next
    case False
    have n: "epoll_frame fd (sv_net sv) (sv_net sv1)" "nt_interest (sv_net sv1) fd = Some (True, False) \<or> ?a \<in> {?a}"
      by (simp_all add: sv1_def epoll_frame_def)
    have i1: "conns_inv lfd {?a} sv1 (xs @ [?a])" "net_inv lfd sv1"
      using conns_inv_add [OF d(1,2) fd _ _ _ _ _ n] m(2) dom fc by (simp_all add: sv1_def)
    have "?a \<in> set (xs @ [?a])" "sv_conn sv1 ?a = Some (conn_new fd now)" by (simp_all add: sv1_def)
    from conn_destroy_conns [OF i1 this] aa(1) obtain sv3 where
      s: "conn_destroy sv1 ?a = Some sv3" "conns_inv lfd {} sv3 xs" "net_inv lfd sv3" "sv_db sv3 = g"
        "sv_conn sv3 = sv_conn sv" "nt_interest (sv_net sv3) = (nt_interest (sv_net sv))(fd := None)"
        "fd_conn sv3 = (fd_conn sv)(fd := None)"
      using aa(2) unfolding fc by (auto simp: remove1_append sv1_def conn_new_def fun_upd_idem)
    have "idle_order (ks_step A) sv3 xs" using io s(5) by (simp add: idle_order_def)
    moreover have "\<exists>k. repr k (sv_db sv3) (ks_step A) \<and> n + sum_list (map (unread (sv_conn sv3)) xs) \<le> k"
      using server_invD(4) [OF clock(1)] s(4,5) by simp
    ultimately have "server_inv lfd {} n (ks_step A) sv3 xs" using s unfolding server_inv_def by blast
    moreover have "untouched f sv sv3" for f
      using apart by (auto simp: untouched_def s(5-7))
    moreover have "served L sv3" if "served L sv" for L by (rule served_destroy [OF served1 [OF that] s(1)]) simp
    ultimately show ?thesis using run False s(1) by (intro exI [of _ False] exI [of _ sv3] exI [of _ xs]) simp
  qed
qed

end
