(* ===== verification/ServerRun.thy ===== *)
theory ServerRun
  imports ServerInv
begin

text \<open>
  The turns of the event loop keep the invariant, and the keyspace changes by commands, by
  clock readings and by the expiry of keys whose time has passed, never otherwise. The commands
  are recorded in a history.
\<close>

inductive ks_log :: "keyspace \<Rightarrow> history \<Rightarrow> keyspace \<Rightarrow> bool" for A where
  log_done: "ks_log A [] A"
| log_cmd: "ks_log A L B \<Longrightarrow> db_spec cmd B v C \<Longrightarrow> ks_log A (L @ [(a, cmd, v)]) C"
| log_tick: "ks_log A L B \<Longrightarrow> ks_log A L (ks_step B)"
| log_expiry: "ks_log A L B \<Longrightarrow> ks_ttl B k = Some t \<Longrightarrow> j < ks_tick B \<Longrightarrow> t < ks_clock B j \<Longrightarrow>
    ks_log A L (snd (exec_del k B))"

definition ks_run :: "keyspace \<Rightarrow> keyspace \<Rightarrow> bool" where
  "ks_run A B \<longleftrightarrow> (\<exists>L. ks_log A L B)"

lemma ks_log_trans: "ks_log B M C \<Longrightarrow> ks_log A L B \<Longrightarrow> ks_log A (L @ M) C"
proof (induction rule: ks_log.induct)
  case (log_cmd M B' cmd v C a)
  then show ?case using ks_log.log_cmd [of A "L @ M" B' cmd v C a] by simp
qed (auto intro: ks_log.intros)

lemma ks_log_session: "session db_spec cmds B vs C \<Longrightarrow> ks_log B (map (Pair a) (zip cmds vs)) C"
proof (induction rule: session.induct)
  case (session_cons cmd B v B' cmds vs C)
  have "ks_log B [(a, cmd, v)] B'" using log_cmd [OF log_done session_cons.hyps(1), of a] by simp
  from ks_log_trans [OF session_cons.IH this] show ?case by simp
qed (simp add: log_done)

lemma ks_log_later: "ks_log A L B \<Longrightarrow> later A B"
proof (induction rule: ks_log.induct)
  case (log_cmd L B cmd v C)
  then show ?case using db_spec_later later_trans by blast
next
  case (log_tick L B)
  then show ?case using later_step later_trans by blast
next
  case (log_expiry L B k t j)
  then show ?case using exec_ops_later(2) later_trans by blast
qed simp

text \<open>A step of the server with the keyspaces before and after it: the commands it has executed prolong the history.\<close>

definition moves :: "Server \<Rightarrow> keyspace \<Rightarrow> Server \<Rightarrow> keyspace \<Rightarrow> bool" where
  "moves sv A sv' A' \<longleftrightarrow> (\<exists>M. ks_log A M A' \<and> (\<forall>L. served L sv \<longrightarrow> served (L @ M) sv'))"

lemma moves_quiet: "ks_log A [] A' \<Longrightarrow> (\<And>L. served L sv \<Longrightarrow> served L sv') \<Longrightarrow> moves sv A sv' A'"
  unfolding moves_def by (intro exI [of _ "[]"]) simp

lemma moves_refl: "moves sv A sv A"
  by (simp add: moves_quiet log_done)

lemma moves_tick: "(\<And>L. served L sv \<Longrightarrow> served L sv') \<Longrightarrow> moves sv A sv' (ks_step A)"
  by (simp add: moves_quiet log_tick log_done)

lemma moves_trans:
  assumes "moves sv1 A1 sv2 A2" "moves sv A sv1 A1"
  shows "moves sv A sv2 A2"
proof -
  obtain M where M: "ks_log A1 M A2" "\<And>L. served L sv1 \<Longrightarrow> served (L @ M) sv2" using assms(1) unfolding moves_def by blast
  obtain N where N: "ks_log A N A1" "\<And>L. served L sv \<Longrightarrow> served (L @ N) sv1" using assms(2) unfolding moves_def by blast
  have "served (L @ (N @ M)) sv2" if "served L sv" for L using M(2) [OF N(2) [OF that]] by simp
  then show ?thesis using ks_log_trans [OF M(1) N(1)] unfolding moves_def by blast
qed

lemma moves_run: "moves sv A sv' A' \<Longrightarrow> ks_run A A'"
  unfolding moves_def ks_run_def by blast


subsection \<open>Handling the reported events\<close>

text \<open>\<open>fcntl\<close> fails for one of the new descriptors.\<close>

definition nb_fails :: "io_accept list \<Rightarrow> bool" where
  "nb_fails acs \<longleftrightarrow> (\<exists>nb ok. AcConn nb ok \<in> set acs \<and> fd_set_nb nb = Died)"

lemma accept_loop_run:
  assumes fresh: "fresh_fd fresh" and inv: "server_inv lfd {} n A sv xs"
  shows "(accept_loop fresh acs i sv = Some Died \<and> nb_fails acs) \<or>
    (\<exists>rv sv' A' xs'. accept_loop fresh acs i sv = Some (Returned (rv, sv')) \<and> server_inv lfd {} n A' sv' xs' \<and> moves sv A sv' A' \<and>
    (\<forall>f. untouched f sv sv'))"
  using inv
proof (induction acs arbitrary: i sv A xs)
  case Nil
  then show ?case using moves_refl untouched_refl by auto
next
  case (Cons ac acs)
  show ?case
  proof (cases ac)
    case AcIntr
    then have "accept_loop fresh (ac # acs) i sv = accept_loop fresh acs i sv" "nb_fails (ac # acs) = nb_fails acs"
      by (simp_all add: nb_fails_def)
    then show ?thesis using Cons by simp
  next
    case AcError
    then show ?thesis using Cons.prems moves_refl untouched_refl by auto
  next
    case (AcConn nb ok)
    have fails: "nb_fails acs \<Longrightarrow> nb_fails (ac # acs)" by (auto simp: nb_fails_def)
    show ?thesis
    proof (cases "fd_set_nb nb")
      case Died
      then show ?thesis using AcConn by (auto simp: nb_fails_def)
    next
      case nb: (Returned fl)
      have "finite (dom (nt_interest (sv_net sv)))" using finite_interest [OF server_invD(2) [OF Cons.prems]] .
      then have fd: "0 \<le> fresh (sv_net sv)" "nt_interest (sv_net sv) (fresh (sv_net sv)) = None"
        using fresh by (simp_all add: fresh_fd_def)
      obtain added sv1 ys where one: "accept_one (fresh (sv_net sv)) ok sv = Some (added, sv1)"
        "server_inv lfd {} n (ks_step A) sv1 ys"
        "\<forall>f. untouched f sv sv1" "\<forall>L. served L sv \<longrightarrow> served L sv1"
        using accept_one_run [OF Cons.prems fd] by blast
      have step: "accept_loop fresh (ac # acs) i sv = accept_loop fresh acs (if added then i + 1 else i) sv1"
        using AcConn nb one(1) by simp
      from Cons.IH [OF one(2), of "if added then i + 1 else i"] consider
        (died) "accept_loop fresh acs (if added then i + 1 else i) sv1 = Some Died" "nb_fails acs"
        | (ran) rv sv' A' xs' where "accept_loop fresh acs (if added then i + 1 else i) sv1 = Some (Returned (rv, sv'))" "server_inv lfd {} n A' sv' xs'"
          "moves sv1 (ks_step A) sv' A'"
          "\<forall>f. untouched f sv1 sv'" by blast
      then show ?thesis
      proof cases
        case died
        then show ?thesis using step fails by simp
      next
        case r: (ran rv sv' A' xs')
        have "accept_loop fresh (ac # acs) i sv = Some (Returned (rv, sv'))" using step r(1) by simp
        moreover have "moves sv A sv' A'" using moves_trans [OF r(3) moves_tick] one(4) by blast
        moreover have "untouched f sv sv'" for f using untouched_trans one(3) r(4) by blast
        ultimately show ?thesis using r(2) by blast
      qed
    qed
  qed
qed

text \<open>
  What the kernel promises: \<open>epoll_wait\<close> reports every descriptor at most once, and reading and
  writing only where it was asked for, and \<open>epoll_ctl\<close> does not run out of memory when it changes the
  registration of a descriptor that is registered (\<open>mod_ok\<close>). Without the last promise an assertion can fail:
  \<open>ignored_mod_failure\<close> in \<open>WireSpec\<close>.
\<close>

definition mod_ok :: "io_event \<Rightarrow> bool" where
  "mod_ok ev \<longleftrightarrow> ev_md1 ev \<and> ev_md2 ev"

definition reported :: "Net \<Rightarrow> io_event \<Rightarrow> bool" where
  "reported net ev \<longleftrightarrow> mod_ok ev \<and> (\<exists>r w. nt_interest net (ev_fd ev) = Some (r, w) \<and> (ev_in ev \<longrightarrow> r) \<and> (ev_out ev \<longrightarrow> w))"

definition batch_ok :: "Net \<Rightarrow> io_event list \<Rightarrow> bool" where
  "batch_ok net evs \<longleftrightarrow> distinct (map ev_fd evs) \<and> (\<forall>ev\<in>set evs. reported net ev)"

lemma batch_other:
  assumes "batch_ok net (ev # evs)" "e \<in> set evs"
  shows "ev_fd e \<noteq> ev_fd ev" "reported net e" "nt_interest net (ev_fd e) \<noteq> None"
proof -
  have "ev_fd e \<in> ev_fd ` set evs" "ev_fd ev \<notin> ev_fd ` set evs" using assms by (simp_all add: batch_ok_def)
  then show "ev_fd e \<noteq> ev_fd ev" by metis
  show r: "reported net e" using assms by (simp add: batch_ok_def)
  then show "nt_interest net (ev_fd e) \<noteq> None" by (auto simp: reported_def)
qed

lemma batch_ok_later:
  assumes "batch_ok (sv_net sv) (ev # evs)"
    and "untouched (ev_fd ev) sv sv'"
  shows "batch_ok (sv_net sv') evs"
proof -
  have "reported (sv_net sv') e" if e: "e \<in> set evs" for e
  proof -
    note o = batch_other [OF assms(1) e]
    have "nt_interest (sv_net sv') (ev_fd e) = nt_interest (sv_net sv) (ev_fd e)"
      using assms(2) o(1,3) unfolding untouched_def by blast
    then show ?thesis using o(2) by (simp add: reported_def)
  qed
  then show ?thesis using assms(1) by (simp add: batch_ok_def)
qed

text \<open>
  What ends the process: a new descriptor cannot be made non-blocking, the data read makes the unread input start
  with messages and an oversized header, or output is written to a socket whose peer is gone.
\<close>

definition fatal_input :: "Conn \<Rightarrow> io_read \<Rightarrow> io_write \<Rightarrow> bool" where
  "fatal_input c rd wr \<longleftrightarrow> (\<exists>data. rd = RdBytes data \<and> (oversized (content (cn_incoming c) @ data) \<or> wr = WrPipe))"

definition fatal :: "int \<Rightarrow> Server \<Rightarrow> io_event \<Rightarrow> bool" where
  "fatal lfd sv ev \<longleftrightarrow> (ev_fd ev = lfd \<and> nb_fails (ev_ac ev)) \<or>
     (\<exists>a c. fd_conn sv (ev_fd ev) = Some a \<and> sv_conn sv a = Some c \<and>
        (ev_in ev \<and> fatal_input c (ev_rd ev) (ev_wr1 ev) \<or> ev_out ev \<and> ev_wr2 ev = WrPipe))"

lemma fatal_before:
  assumes "batch_ok (sv_net sv) (ev # evs)" "untouched (ev_fd ev) sv sv'" "e \<in> set evs" "fatal lfd sv' e"
  shows "fatal lfd sv e"
proof -
  note o = batch_other [OF assms(1,3)]
  have "fd_conn sv' (ev_fd e) = fd_conn sv (ev_fd e)"
    "\<forall>a. fd_conn sv (ev_fd e) = Some a \<longrightarrow> sv_conn sv' a = sv_conn sv a"
    using assms(2) o(1,3) unfolding untouched_def by blast+
  then show ?thesis using assms(4) unfolding fatal_def by auto
qed

text \<open>The last lines of an event: the connection is closed if that was decided.\<close>

lemma event_end:
  assumes s: "settled lfd n A sv xs a fd"
  shows "\<exists>conn sv' xs'. sv_conn sv a = Some conn \<and>
    (if broken \<or> cn_want_close conn then conn_destroy sv a else Some sv) = Some sv' \<and> server_inv lfd {} n A sv' xs' \<and>
    untouched fd sv sv' \<and> (\<forall>L. served L sv \<longrightarrow> served L sv')"
proof -
  obtain c where c: "server_inv lfd {a} n A sv xs" "sv_conn sv a = Some c" "cn_fd c = fd"
    "cn_want_close c \<or> server_inv lfd {} n A sv xs" using s unfolding settled_def by blast
  have a: "a \<in> set xs" using conns_invD(3) [OF server_invD(1) [OF c(1)]] c(2) by blast
  show ?thesis
  proof (cases "broken \<or> cn_want_close c")
    case True
    from conn_destroy_run [OF c(1) a c(2)] obtain sv' where
      "conn_destroy sv a = Some sv'" "server_inv lfd {} n A sv' (remove1 a xs)"
      "untouched (cn_fd c) sv sv'" by auto
    then show ?thesis using True c(2,3) served_destroy by auto
  next
    case False
    then show ?thesis using c(2,4) untouched_refl by auto
  qed
qed

lemma settled_ready:
  assumes "server_inv lfd {} n A sv xs" "a \<in> set xs" "sv_conn sv a = Some c" "conn_ok c (sv_net sv)"
  shows "settled lfd n A sv xs a (cn_fd c)"
  using assms server_inv_mono [OF assms(1) le_refl empty_subsetI] unfolding settled_def by blast

text \<open>One event. A connection is never read while it waits for writing, nor the other way round.\<close>

lemma conn_event_run:
  assumes inv: "server_inv lfd {} (read_len (ev_rd ev) + n) A sv xs" and a: "a \<in> set xs" "sv_conn sv a = Some c"
    and ok: "conn_ok c (sv_net sv)" and rep: "ev_in ev \<longrightarrow> cn_want_read c" "ev_out ev \<longrightarrow> cn_want_write c" and md: "mod_ok ev"
  shows "((if ev_in ev then conn_readable (ev_rd ev) (ev_wr1 ev) (ev_md1 ev) sv a else Some (Returned sv)) = Some Died \<and> ev_in ev \<and> fatal_input c (ev_rd ev) (ev_wr1 ev)) \<or>
    (\<exists>sv2. (if ev_in ev then conn_readable (ev_rd ev) (ev_wr1 ev) (ev_md1 ev) sv a else Some (Returned sv)) = Some (Returned sv2) \<and>
      ((if ev_out ev then conn_writable (ev_wr2 ev) (ev_md2 ev) sv2 a else Some (Returned sv2)) = Some Died \<and>
         ev_out ev \<and> ev_wr2 ev = WrPipe \<or>
       (\<exists>sv3 A'. (if ev_out ev then conn_writable (ev_wr2 ev) (ev_md2 ev) sv2 a else Some (Returned sv2)) = Some (Returned sv3) \<and>
         settled lfd n A' sv3 xs a (cn_fd c) \<and> moves sv A sv3 A' \<and> untouched (cn_fd c) sv sv3)))"
proof -
  have one: "\<not> (ev_in ev \<and> ev_out ev)" using rep ok by (auto simp: conn_ok_def)
  have inv': "server_inv lfd {} n A sv xs" by (rule server_inv_mono [OF inv]) simp_all
  have md': "ev_md1 ev" "ev_md2 ev" using md by (simp_all add: mod_ok_def)
  consider (inp) "ev_in ev" "\<not> ev_out ev" | (outp) "\<not> ev_in ev" "ev_out ev" | (none) "\<not> ev_in ev" "\<not> ev_out ev" using one by blast
  then show ?thesis
  proof cases
    case inp
    from conn_readable_run [OF inv a, of "ev_wr1 ev"] inp rep consider "conn_readable (ev_rd ev) (ev_wr1 ev) True sv a = Some Died"
        "fatal_input c (ev_rd ev) (ev_wr1 ev)"
      | sv' cmds vs A' where "conn_readable (ev_rd ev) (ev_wr1 ev) True sv a = Some (Returned sv')" "session db_spec cmds A vs A'"
        "settled lfd n A' sv' xs a (cn_fd c)" "untouched (cn_fd c) sv sv'"
        "\<forall>L. served L sv \<longrightarrow> served (L @ map (Pair (sock_of sv c)) (zip cmds vs)) sv'" unfolding fatal_input_def by blast
    then show ?thesis
    proof cases
      case 1
      then show ?thesis using inp md' by simp
    next
      case 2
      have "moves sv A sv' A'" using ks_log_session [OF 2(2), of "sock_of sv c"] 2(5) unfolding moves_def by blast
      then show ?thesis using inp 2 md' by auto
    qed
  next
    case outp
    from conn_writable_run [OF inv' a, of "ev_wr2 ev"] outp rep consider "conn_writable (ev_wr2 ev) True sv a = Some Died" "ev_wr2 ev = WrPipe"
      | sv' where "conn_writable (ev_wr2 ev) True sv a = Some (Returned sv')" "settled lfd n A sv' xs a (cn_fd c)"
        "untouched (cn_fd c) sv sv'" "\<forall>L. served L sv \<longrightarrow> served L sv'" by blast
    then show ?thesis using outp moves_quiet [OF log_done] md' by cases auto
  next
    case none
    then show ?thesis using settled_ready [OF inv' a ok] moves_refl untouched_refl by auto
  qed
qed

lemma handle_event_run:
  assumes fresh: "fresh_fd fresh" and inv: "server_inv lfd {} (read_len (ev_rd ev) + n) A sv xs"
    and rep: "reported (sv_net sv) ev"
  shows "(handle_event fresh lfd ev sv = Some Died \<and> fatal lfd sv ev) \<or>
    (\<exists>sv' A' xs'. handle_event fresh lfd ev sv = Some (Returned sv') \<and> server_inv lfd {} n A' sv' xs' \<and> moves sv A sv' A' \<and>
      untouched (ev_fd ev) sv sv')"
proof -
  have inv': "server_inv lfd {} n A sv xs" by (rule server_inv_mono [OF inv]) simp_all
  have skip: ?thesis if "handle_event fresh lfd ev sv = Some (Returned sv)"
    using that inv' moves_refl untouched_refl by blast
  consider (listen) "ev_fd ev = lfd" "ev_in ev" | (idle) "ev_fd ev = lfd" "\<not> ev_in ev"
    | (gone) "ev_fd ev \<noteq> lfd" "fd_conn sv (ev_fd ev) = None" | (conn) a where "ev_fd ev \<noteq> lfd" "fd_conn sv (ev_fd ev) = Some a"
    by fastforce
  then show ?thesis
  proof cases
    case listen
    from accept_loop_run [OF fresh inv', of "ev_ac ev" 0] consider
      (died) "accept_loop fresh (ev_ac ev) 0 sv = Some Died" "nb_fails (ev_ac ev)"
      | (ran) rv sv' A' xs' where "accept_loop fresh (ev_ac ev) 0 sv = Some (Returned (rv, sv'))" "server_inv lfd {} n A' sv' xs'" "moves sv A sv' A'"
        "\<forall>f. untouched f sv sv'" by blast
    then show ?thesis
    proof cases
      case died
      then show ?thesis using listen by (simp add: handle_event_def handle_accept_def fatal_def)
    next
      case r: (ran rv sv' A' xs')
      have "handle_event fresh lfd ev sv = Some (Returned sv')"
        using listen r(1) by (simp add: handle_event_def handle_accept_def)
      then show ?thesis using r by blast
    qed
  next
    case idle
    then show ?thesis by (intro skip) (simp add: handle_event_def)
  next
    case gone
    then show ?thesis by (intro skip) (simp add: handle_event_def)
  next
    case (conn a)
    have a: "a \<in> set xs" "map_option cn_fd (sv_conn sv a) = Some (ev_fd ev)"
      using conns_invD(6) [OF server_invD(1) [OF inv] conn(2)] by simp_all
    then obtain c where c: "sv_conn sv a = Some c" "cn_fd c = ev_fd ev" by blast
    have ok: "conn_ok c (sv_net sv)"
      using conns_invD(5) [OF server_invD(1) [OF inv] a(1)] c(1) unfolding ready_conn_def by auto
    let ?c = "c\<lparr>cn_last_active_ms := ks_now A\<rparr>"
    obtain sv1 where t: "conn_touch sv a = Some sv1"
      "server_inv lfd {} (read_len (ev_rd ev) + n) (ks_step A) sv1 (remove1 a xs @ [a])" "sv_net sv1 = sv_net sv"
      "sv_conn sv1 = (sv_conn sv)(a \<mapsto> ?c)" "untouched (ev_fd ev) sv sv1" "sv_next sv1 = sv_next sv"
      using conn_touch_run [OF inv a(1) c(1)] unfolding c(2) by blast
    have c1: "a \<in> set (remove1 a xs @ [a])" "sv_conn sv1 a = Some ?c" "conn_ok ?c (sv_net sv1)" "cn_fd ?c = ev_fd ev"
      using t(3,4) ok c(2) by (simp_all add: conn_ok_def bufs_ok_def)
    have w: "ev_in ev \<longrightarrow> cn_want_read ?c" "ev_out ev \<longrightarrow> cn_want_write ?c" "mod_ok ev"
      using rep ok c(2) by (auto simp: reported_def conn_ok_def)
    let ?rd = "if ev_in ev then conn_readable (ev_rd ev) (ev_wr1 ev) (ev_md1 ev) sv1 a else Some (Returned sv1)"
    let ?wr = "\<lambda>sv2. if ev_out ev then conn_writable (ev_wr2 ev) (ev_md2 ev) sv2 a else Some (Returned sv2)"
    from conn_event_run [OF t(2) c1(1-3) w] consider (in_died) "?rd = Some Died" "ev_in ev" "fatal_input ?c (ev_rd ev) (ev_wr1 ev)"
      | (out_died) sv2 where "?rd = Some (Returned sv2)" "?wr sv2 = Some Died" "ev_out ev" "ev_wr2 ev = WrPipe"
      | (ran) sv2 sv3 A' where "?rd = Some (Returned sv2)" "?wr sv2 = Some (Returned sv3)"
        "settled lfd n A' sv3 (remove1 a xs @ [a]) a (ev_fd ev)" "moves sv1 (ks_step A) sv3 A'" "untouched (ev_fd ev) sv1 sv3"
      unfolding c1(4) by blast
    then show ?thesis
    proof cases
      case in_died
      then have "fatal lfd sv ev" using conn(2) c(1) unfolding fatal_def fatal_input_def by auto
      then show ?thesis using in_died(1) conn t(1) by (simp add: handle_event_def)
    next
      case out_died
      then have "fatal lfd sv ev" using conn(2) c(1) unfolding fatal_def by auto
      then show ?thesis using out_died(1,2) conn t(1) by (simp add: handle_event_def)
    next
      case ran
      obtain e sv4 xs' where e: "sv_conn sv3 a = Some e"
        "(if ev_err ev \<or> cn_want_close e then conn_destroy sv3 a else Some sv3) = Some sv4"
        "server_inv lfd {} n A' sv4 xs'" "untouched (ev_fd ev) sv3 sv4" "\<forall>L. served L sv3 \<longrightarrow> served L sv4"
        using event_end [OF ran(3), of "ev_err ev"] by blast
      have "handle_event fresh lfd ev sv = Some (Returned sv4)"
        unfolding handle_event_def using conn t(1) ran(1,2) e(1,2) by simp
      moreover have "moves sv A sv1 (ks_step A)" using moves_tick served_touch [OF _ c(1) t(4,3)] by blast
      then have "moves sv A sv4 A'" using moves_trans ran(4) moves_quiet [OF log_done, of sv3 sv4] e(5) by blast
      moreover have "untouched (ev_fd ev) sv sv4" using untouched_trans t(5) ran(5) e(4) by blast
      ultimately show ?thesis using e(3) by blast
    qed
  qed
qed

text \<open>The bytes that a batch of events brings.\<close>

definition batch_bytes :: "io_event list \<Rightarrow> nat" where
  "batch_bytes evs = sum_list (map (read_len \<circ> ev_rd) evs)"

lemma handle_events_run:
  assumes fresh: "fresh_fd fresh" and inv: "server_inv lfd {} (batch_bytes evs + n) A sv xs"
    and batch: "batch_ok (sv_net sv) evs"
  shows "(handle_events fresh lfd evs sv = Some Died \<and> (\<exists>ev\<in>set evs. fatal lfd sv ev)) \<or>
    (\<exists>sv' A' xs'. handle_events fresh lfd evs sv = Some (Returned sv') \<and> server_inv lfd {} n A' sv' xs' \<and> moves sv A sv' A')"
  using inv batch
proof (induction evs arbitrary: sv A xs)
  case Nil
  then show ?case using moves_refl by (auto simp: batch_bytes_def)
next
  case (Cons ev evs)
  have "server_inv lfd {} (read_len (ev_rd ev) + (batch_bytes evs + n)) A sv xs"
    using Cons.prems(1) by (simp add: batch_bytes_def add.assoc)
  moreover have "reported (sv_net sv) ev" using Cons.prems(2) by (simp add: batch_ok_def)
  ultimately consider "handle_event fresh lfd ev sv = Some Died" "fatal lfd sv ev"
    | sv1 A1 xs1 where "handle_event fresh lfd ev sv = Some (Returned sv1)" "server_inv lfd {} (batch_bytes evs + n) A1 sv1 xs1"
      "moves sv A sv1 A1" "untouched (ev_fd ev) sv sv1"
    using handle_event_run [OF fresh] by blast
  then show ?case
  proof cases
    case 1
    then show ?thesis by simp
  next
    case 2
    have "batch_ok (sv_net sv1) evs" using batch_ok_later [OF Cons.prems(2) 2(4)] .
    from Cons.IH [OF 2(2) this] consider "handle_events fresh lfd evs sv1 = Some Died" "\<exists>e\<in>set evs. fatal lfd sv1 e"
      | sv' A' xs' where "handle_events fresh lfd evs sv1 = Some (Returned sv')" "server_inv lfd {} n A' sv' xs'" "moves sv1 A1 sv' A'" by blast
    then show ?thesis
    proof cases
      case 1
      then have "\<exists>e\<in>set evs. fatal lfd sv e" using fatal_before [OF Cons.prems(2) 2(4)] by blast
      then show ?thesis using 1(1) 2(1) by simp
    next
      case ran: 2
      then show ?thesis using 2(1) moves_trans [OF ran(3) 2(3)] by auto
    qed
  qed
qed


subsection \<open>The idle timers\<close>

text \<open>A connection that has been idle for longer than the limit.\<close>

definition overdue :: "u64 \<Rightarrow> (addr \<rightharpoonup> Conn) \<Rightarrow> addr \<Rightarrow> bool" where
  "overdue now conns a \<longleftrightarrow> active conns a + k_idle_timeout_ms < now"

lemma idle_front:
  assumes "conns_inv lfd B sv xs"
  shows "dlist_empty (sv_idle sv) idle_head = Some (xs = [])"
    "xs = a # ys \<Longrightarrow> \<exists>d c. sv_idle sv idle_head = Some d \<and> dl_next d = Some a \<and> sv_conn sv a = Some c"
proof -
  show "dlist_empty (sv_idle sv) idle_head = Some (xs = [])" using idle.empty_law [OF conns_invD(1) [OF assms]] .
  assume xs: "xs = a # ys"
  have "Option.bind (sv_idle sv idle_head) dl_next = Some a"
    using idle.front_law [of "sv_idle sv" idle_head a ys] conns_invD(1) [OF assms] xs by simp
  then obtain d where d: "sv_idle sv idle_head = Some d" "dl_next d = Some a" by (cases "sv_idle sv idle_head") auto
  have "a \<in> dom (sv_conn sv)" using conns_invD(3) [OF assms] xs by simp
  then show "\<exists>d c. sv_idle sv idle_head = Some d \<and> dl_next d = Some a \<and> sv_conn sv a = Some c" using d by blast
qed

lemma process_idle_run:
  "server_inv lfd {} n A sv xs \<Longrightarrow>
    \<exists>sv'. process_idle now sv = Some sv' \<and> server_inv lfd {} n A sv' (dropWhile (overdue now (sv_conn sv)) xs) \<and>
      sv_db sv' = sv_db sv \<and> (\<forall>a\<in>set (dropWhile (overdue now (sv_conn sv)) xs). sv_conn sv' a = sv_conn sv a) \<and>
      (\<forall>L. served L sv \<longrightarrow> served L sv')"
proof (induction xs arbitrary: sv)
  case Nil
  have "process_idle now sv = Some sv"
    using idle_front(1) [OF server_invD(1) [OF Nil]] by (simp add: process_idle.simps)
  then show ?case using Nil by simp
next
  case (Cons a xs)
  note inv = server_invD(1) [OF Cons.prems]
  obtain d c where d: "sv_idle sv idle_head = Some d" "dl_next d = Some a" "sv_conn sv a = Some c"
    using idle_front(2) [OF inv refl] by blast
  have od: "overdue now (sv_conn sv) a \<longleftrightarrow> \<not> now \<le> cn_last_active_ms c + k_idle_timeout_ms"
    using d(3) by (simp add: overdue_def active_def not_le)
  note step = process_idle.simps [of now sv] idle_front(1) [OF inv] d
  show ?case
  proof (cases "overdue now (sv_conn sv) a")
    case False
    then have "process_idle now sv = Some sv" using od by (simp add: step)
    then show ?thesis using Cons.prems False by simp
  next
    case True
    have "a \<in> set (a # xs)" by simp
    from conn_destroy_run [OF Cons.prems this d(3)] obtain sv1 where
      s: "conn_destroy sv a = Some sv1" "server_inv lfd {} n A sv1 xs" "sv_db sv1 = sv_db sv" "sv_conn sv1 = (sv_conn sv)(a := None)"
      by auto
    have same: "sv_conn sv1 b = sv_conn sv b" if "b \<in> set xs" for b
      using that s(4) conns_invD(7) [OF inv] by auto
    have dw: "dropWhile (overdue now (sv_conn sv1)) xs = dropWhile (overdue now (sv_conn sv)) xs"
      using same by (intro dropWhile_cong refl) (simp add: overdue_def active_def)
    have run: "process_idle now sv = process_idle now sv1" using True od s(1) by (simp add: step)
    from Cons.IH [OF s(2)] obtain sv' where
      "process_idle now sv1 = Some sv'" "server_inv lfd {} n A sv' (dropWhile (overdue now (sv_conn sv)) xs)"
      "sv_db sv' = sv_db sv1" "\<forall>b\<in>set (dropWhile (overdue now (sv_conn sv)) xs). sv_conn sv' b = sv_conn sv1 b"
      "\<forall>L. served L sv1 \<longrightarrow> served L sv'" unfolding dw by blast
    moreover from this(5) have "served L sv'" if "served L sv" for L using served_destroy [OF that s(1)] by blast
    ultimately show ?thesis using True s(3) run same set_dropWhileD by (intro exI [of _ sv']) fastforce
  qed
qed

text \<open>The list is in the order of the last activity, so that no idle connection is overlooked.\<close>

lemma idle_cut:
  assumes "sorted (map f xs)" "\<And>a b. f a \<le> f b \<Longrightarrow> P b \<Longrightarrow> P a"
  shows "dropWhile P xs = filter (\<lambda>a. \<not> P a) xs"
  using assms(1)
proof (induction xs)
  case (Cons a xs)
  show ?case
  proof (cases "P a")
    case False
    then have "\<forall>b\<in>set xs. \<not> P b" using Cons.prems assms(2) by auto
    then show ?thesis using False by simp
  qed (use Cons in simp)
qed simp


subsection \<open>The expiry of keys\<close>

text \<open>\<open>ks\<close> are keys whose time has passed at \<open>now\<close>, and none that stays expires before one of them.\<close>

definition expired :: "u64 \<Rightarrow> keyspace \<Rightarrow> bytes list \<Rightarrow> keyspace \<Rightarrow> bool" where
  "expired now A ks A' \<longleftrightarrow> A' = fold (\<lambda>k B. snd (exec_del k B)) ks A \<and> distinct ks \<and>
     (\<forall>k\<in>set ks. \<exists>t. ks_ttl A k = Some t \<and> t < now \<and> (\<forall>k' t'. ks_ttl A' k' = Some t' \<longrightarrow> t \<le> t'))"

lemma del_ttl: "ks_ttl (snd (exec_del k A)) = (ks_ttl A)(k := None)" "ks_map (snd (exec_del k A)) = (ks_map A)(k := None)"
  "ks_tick (snd (exec_del k A)) = ks_tick A" "ks_clock (snd (exec_del k A)) = ks_clock A"
  by (simp_all add: exec_del_def)

lemma dels: "ks_ttl (fold (\<lambda>k B. snd (exec_del k B)) ks A) x = (if x \<in> set ks then None else ks_ttl A x)"
  by (induction ks arbitrary: A) (auto simp: del_ttl)

lemma expired_nil: "expired now A [] A"
  by (simp add: expired_def)

lemma expired_cons:
  assumes "ks_ttl A k = Some t" "t < now" "\<forall>k' t'. ks_ttl A k' = Some t' \<longrightarrow> t \<le> t'" "expired now (snd (exec_del k A)) ks A'"
  shows "expired now A (k # ks) A'"
proof -
  let ?D = "snd (exec_del k A)"
  have A': "A' = fold (\<lambda>k B. snd (exec_del k B)) ks ?D" "distinct ks"
    and each: "\<forall>x\<in>set ks. \<exists>t. ks_ttl ?D x = Some t \<and> t < now \<and> (\<forall>k' t'. ks_ttl A' k' = Some t' \<longrightarrow> t \<le> t')"
    using assms(4) unfolding expired_def by blast+
  have kk: "k \<notin> set ks" using each by (auto simp: del_ttl)
  have each': "\<exists>t. ks_ttl A x = Some t \<and> t < now \<and> (\<forall>k' t'. ks_ttl A' k' = Some t' \<longrightarrow> t \<le> t')" if "x \<in> set ks" for x
  proof -
    have "x \<noteq> k" using that kk by blast
    then have "ks_ttl (snd (exec_del k A)) x = ks_ttl A x" by (simp add: del_ttl)
    then show ?thesis using bspec [OF each that] by simp
  qed
  have "t \<le> t'" if "ks_ttl A' k' = Some t'" for k' t'
    using that assms(3) unfolding A'(1) dels by (auto simp: del_ttl split: if_splits)
  then show ?thesis using assms(1,2) A' kk each' unfolding expired_def by simp
qed

lemma expired_run:
  assumes "expired now A ks A'" "j < ks_tick A" "now = ks_clock A j"
  shows "ks_log A [] A'"
proof -
  have "ks_log A [] (fold (\<lambda>k B. snd (exec_del k B)) ks B)"
    if "ks_log A [] B" "distinct ks" "\<forall>k\<in>set ks. \<exists>t. ks_ttl B k = Some t \<and> t < now" for B
    using that
  proof (induction ks arbitrary: B)
    case (Cons k ks)
    obtain t where t: "ks_ttl B k = Some t" "t < now" using Cons.prems(3) by auto
    have "later A B" using ks_log_later [OF Cons.prems(1)] .
    then have "j < ks_tick B" "t < ks_clock B j" using t(2) assms(2,3) by (auto simp: later_def)
    then have "ks_log A [] (snd (exec_del k B))" by (rule log_expiry [OF Cons.prems(1) t(1)])
    moreover have "\<forall>x\<in>set ks. \<exists>t. ks_ttl (snd (exec_del k B)) x = Some t \<and> t < now"
      using Cons.prems(2,3) by (auto simp: del_ttl)
    ultimately show ?case using Cons.IH Cons.prems(2) by simp
  qed simp
  moreover have "A' = fold (\<lambda>k B. snd (exec_del k B)) ks A" "distinct ks" "\<forall>k\<in>set ks. \<exists>t. ks_ttl A k = Some t \<and> t < now"
    using assms(1) unfolding expired_def by blast+
  ultimately show ?thesis using log_done by metis
qed

text \<open>The first item of the heap is the entry that expires next.\<close>

lemma next_expiry:
  assumes inv: "db_inv g A S F" and h: "gd_heap g = item # rest"
  shows "hi_ref item \<in> S" "ks_ttl A (key_of g (hi_ref item)) = Some (hi_val item)"
    "ks_ttl A k = Some t \<Longrightarrow> hi_val item \<le> t"
proof -
  note d = db_invD [OF inv]
  have hi: "heap_inv (gd_heap g) (gd_hidx g)" and dom: "dom (ttl_map (gd_heap g)) \<subseteq> S"
    using d(4) heapq.keptD(1) by (auto simp: ttl_ok_def ttl_inv_def)
  have top: "ttl_map (gd_heap g) (hi_ref item) = Some (hi_val item)"
    "\<forall>e w. ttl_map (gd_heap g) e = Some w \<longrightarrow> hi_val item \<le> w"
    using heapq.first_least [of "(gd_heap g, gd_hidx g)" "hi_ref item" "hi_val item"] hi h by (simp_all add: heap_top_def)
  show "hi_ref item \<in> S" using top(1) dom by blast
  then show "ks_ttl A (key_of g (hi_ref item)) = Some (hi_val item)"
    using top(1) live_entry [OF inv] by metis
  assume k: "ks_ttl A k = Some t"
  then have "k \<in> key_of g ` S" using d(2) unfolding keys_ok_def by blast
  then obtain a where a: "a \<in> S" "k = key_of g a" by blast
  then have "ttl_map (gd_heap g) a = Some t" using live_entry [OF inv a(1)] k by metis
  then show "hi_val item \<le> t" using top(2) by blast
qed

lemma no_expiry:
  assumes inv: "db_inv g A S F" and h: "gd_heap g = []"
  shows "ks_ttl A k = None"
proof (rule ccontr)
  assume "ks_ttl A k \<noteq> None"
  then have "k \<in> key_of g ` S" using db_invD(2) [OF inv] unfolding keys_ok_def by blast
  then obtain a where a: "a \<in> S" "k = key_of g a" by blast
  then have "ttl_map (gd_heap g) a \<noteq> None" using live_entry [OF inv a(1)] \<open>ks_ttl A k \<noteq> None\<close> by metis
  then show False using h by (simp add: ttl_map_def)
qed

lemma room_shrinks: "room n S F \<Longrightarrow> room n (S - {a}) F"
  using card_Diff1_le [of S a] unfolding room_def by auto

text \<open>\<open>hm_delete\<close> with \<open>hnode_same\<close> takes out the entry itself.\<close>

lemma unlink_same:
  assumes inv: "db_inv g A S F" and a: "a \<in> S"
  shows "\<exists>m h. hm_delete (gd_node g) (gd_db g) a hnode_same = Some (Some a, m, h) \<and> hm_holds m h (S - {a}) \<and> next_frame S (gd_node g) m"
proof -
  have "gd_node g a \<noteq> None" using live_entry [OF inv a] by (metis hcode_is_def option.map_disc_iff option.distinct(1))
  from hm_delete_run [OF db_invD(1) [OF inv] this, of hnode_same] obtain p m h where
    r: "hm_delete (gd_node g) (gd_db g) a hnode_same = Some (p, m, h)" "next_frame S (gd_node g) m"
      "case p of None \<Rightarrow> hm_holds m h S \<and> (\<forall>x\<in>S. \<not> hits (gd_node g) a hnode_same x)
       | Some x \<Rightarrow> hm_holds m h (S - {x}) \<and> x \<in> S \<and> hits (gd_node g) a hnode_same x" by blast
  have hit: "hits (gd_node g) a hnode_same x \<longleftrightarrow> x = a" for x by (auto simp: hits_def hnode_same_def)
  then have "p = Some a" using r(3) a by (cases p) auto
  then show ?thesis using r by auto
qed

lemma process_ttl_run:
  assumes "db_inv g A S F" "room n S F" "j \<le> k_max_works"
  shows "\<exists>g' A' S' F' ks. process_ttl now j g = Some g' \<and> db_inv g' A' S' F' \<and> room n S' F' \<and> expired now A ks A' \<and>
    (length ks + j = k_max_works + 1 \<or> length ks + j \<le> k_max_works \<and> (\<forall>k t. ks_ttl A' k = Some t \<longrightarrow> now \<le> t))"
  using assms
proof (induction "k_max_works - j" arbitrary: j g A S rule: less_induct)
  case less
  note inv = less.prems(1)
  have stop: ?case if "process_ttl now j g = Some g" "\<forall>k t. ks_ttl A k = Some t \<longrightarrow> now \<le> t"
    using that less.prems expired_nil by (intro exI [of _ g] exI [of _ A] exI [of _ S] exI [of _ F] exI [of _ "[]"]) simp
  show ?case
  proof (cases "gd_heap g")
    case Nil
    then show ?thesis using no_expiry [OF inv Nil] by (intro stop) (simp_all add: process_ttl.simps)
  next
    case (Cons item rest)
    note top = next_expiry [OF inv Cons]
    let ?a = "hi_ref item" and ?k = "key_of g (hi_ref item)"
    show ?thesis
    proof (cases "now \<le> hi_val item")
      case True
      then show ?thesis using Cons top(3) by (intro stop) (auto simp: process_ttl.simps intro: order_trans)
    next
      case False
      obtain m h where u: "hm_delete (gd_node g) (gd_db g) ?a hnode_same = Some (Some ?a, m, h)" "hm_holds m h (S - {?a})"
        "next_frame S (gd_node g) m" using unlink_same [OF inv top(1)] by blast
      have small: "card S < 2 ^ 60" using less.prems(2) by (simp add: room_def)
      let ?A = "snd (exec_del ?k A)"
      obtain g1 where g1: "entry_del (g\<lparr>gd_node := m, gd_db := h\<rparr>) ?a = Some g1" "db_inv g1 ?A (S - {?a}) F"
        using entry_del_run [OF inv top(1) refl small u(2,3)] by (auto simp: exec_del_def)
      have room1: "room n (S - {?a}) F" using room_shrinks [OF less.prems(2)] .
      have step: "process_ttl now j g = (if k_max_works \<le> j then Some g1 else process_ttl now (j + 1) g1)"
        using Cons False u(1) g1(1) by (subst process_ttl.simps) simp
      have cons: "expired now A (?k # ks) A'" if "expired now ?A ks A'" for ks A'
        using expired_cons [OF top(2) _ _ that] top(3) False by auto
      show ?thesis
      proof (cases "k_max_works \<le> j")
        case True
        have "expired now A [?k] ?A" using cons [OF expired_nil] .
        then show ?thesis using step True less.prems(3) g1(2) room1
          by (intro exI [of _ g1] exI [of _ ?A] exI [of _ "S - {?a}"] exI [of _ F] exI [of _ "[?k]"]) simp
      next
        case False
        then have "k_max_works - (j + 1) < k_max_works - j" "j + 1 \<le> k_max_works" by simp_all
        from less.hyps [OF this(1) g1(2) room1 this(2)] obtain g' A' S' F' ks where
          r: "process_ttl now (j + 1) g1 = Some g'" "db_inv g' A' S' F'" "room n S' F'" "expired now ?A ks A'"
            "length ks + (j + 1) = k_max_works + 1 \<or> length ks + (j + 1) \<le> k_max_works \<and> (\<forall>k t. ks_ttl A' k = Some t \<longrightarrow> now \<le> t)"
          by blast
        have "length (?k # ks) + j = k_max_works + 1 \<or> length (?k # ks) + j \<le> k_max_works \<and> (\<forall>k t. ks_ttl A' k = Some t \<longrightarrow> now \<le> t)"
          using r(5) by simp
        moreover have "process_ttl now j g = Some g'" using step False r(1) by simp
        ultimately show ?thesis using r(2,3) cons [OF r(4)] by blast
      qed
    qed
  qed
qed


subsection \<open>Both timers\<close>

text \<open>The clock never comes near its end: adding the idle timeout does not wrap.\<close>

definition clock_ok :: "keyspace \<Rightarrow> bool" where
  "clock_ok A \<longleftrightarrow> (\<forall>i. ks_clock A i \<le> - 1 - k_idle_timeout_ms)"

lemma timeout_mono:
  fixes x y :: u64
  assumes "x \<le> y" "y \<le> - 1 - k_idle_timeout_ms"
  shows "x + k_idle_timeout_ms \<le> y + k_idle_timeout_ms"
proof -
  have "unat y + 5000 < 2 ^ 64" "unat x \<le> unat y" using assms by (simp_all add: k_idle_timeout_ms_def word_le_nat_alt)
  then show ?thesis by (simp add: k_idle_timeout_ms_def word_le_nat_alt unat_word_ariths)
qed

lemma overdue_all:
  assumes io: "idle_order A sv xs" and clock: "clock_ok A"
  shows "dropWhile (overdue now (sv_conn sv)) xs = filter (\<lambda>a. \<not> overdue now (sv_conn sv) a) xs"
proof -
  let ?f = "\<lambda>a. active (sv_conn sv) a + k_idle_timeout_ms"
  have small: "active (sv_conn sv) a \<le> - 1 - k_idle_timeout_ms" if "a \<in> set xs" for a
    using io clock that unfolding idle_order_def clock_ok_def ks_now_def by (meson order_trans)
  have "sorted_wrt (\<lambda>a b. active (sv_conn sv) a \<le> active (sv_conn sv) b) xs"
    using io by (simp add: idle_order_def sorted_map)
  then have "sorted_wrt (\<lambda>a b. ?f a \<le> ?f b) xs"
    by (rule sorted_wrt_mono_rel [rotated]) (use small timeout_mono in blast)
  then have "sorted (map ?f xs)" by (simp add: sorted_map)
  then show ?thesis by (rule idle_cut) (auto simp: overdue_def intro: order_le_less_trans)
qed

lemma dels_later: "later A (fold (\<lambda>k B. snd (exec_del k B)) ks A)"
  by (induction ks arbitrary: A) (auto intro: later_trans exec_ops_later(2))

lemma process_timers_run:
  assumes inv: "server_inv lfd {} n A sv xs"
  shows "\<exists>sv' A' ks. process_timers sv = Some sv' \<and>
    server_inv lfd {} n A' sv' (dropWhile (overdue (ks_now A) (sv_conn sv)) xs) \<and> expired (ks_now A) (ks_step A) ks A' \<and>
    (length ks = k_max_works + 1 \<or> length ks \<le> k_max_works \<and> (\<forall>k t. ks_ttl A' k = Some t \<longrightarrow> ks_now A \<le> t)) \<and>
    (\<forall>L. served L sv \<longrightarrow> served L sv')"
proof -
  let ?ys = "dropWhile (overdue (ks_now A) (sv_conn sv)) xs"
  obtain now g where g: "get_monotonic_msec (sv_db sv) = (now, g)" by fastforce
  note clock = server_inv_clock [OF inv g]
  obtain sv1 where s: "process_idle now (sv\<lparr>sv_db := g\<rparr>) = Some sv1" "server_inv lfd {} n (ks_step A) sv1 ?ys"
    "\<forall>L. served L sv \<longrightarrow> served L sv1"
    using process_idle_run [OF clock(1), of now] clock(2) by (auto simp: served_db)
  obtain k where k: "repr k (sv_db sv1) (ks_step A)" "n + sum_list (map (unread (sv_conn sv1)) ?ys) \<le> k"
    using server_invD(4) [OF s(2)] by blast
  then obtain S F where r: "db_inv (sv_db sv1) (ks_step A) S F" "room k S F" unfolding repr_def by blast
  obtain g' A' S' F' ks where t: "process_ttl now 0 (sv_db sv1) = Some g'" "db_inv g' A' S' F'" "room k S' F'"
    "expired now (ks_step A) ks A'"
    "length ks + 0 = k_max_works + 1 \<or> length ks + 0 \<le> k_max_works \<and> (\<forall>k t. ks_ttl A' k = Some t \<longrightarrow> now \<le> t)"
    using process_ttl_run [OF r, of 0 now] by blast
  have "later (ks_step A) A'" using t(4) dels_later unfolding expired_def by blast
  moreover have "repr k g' A'" using t(2,3) unfolding repr_def by blast
  ultimately have "server_inv lfd {} n A' (sv1\<lparr>sv_db := g'\<rparr>) ?ys" using server_inv_db [OF s(2)] k(2) by blast
  moreover have "process_timers sv = Some (sv1\<lparr>sv_db := g'\<rparr>)" using g s(1) t(1) by (simp add: process_timers_def)
  moreover have "\<forall>L. served L sv \<longrightarrow> served L (sv1\<lparr>sv_db := g'\<rparr>)" using s(3) by (simp add: served_db)
  ultimately show ?thesis using t(4,5) clock(2) by auto
qed

text \<open>Without an overdue connection only the database changes.\<close>

lemma quiet_timers:
  assumes inv: "server_inv lfd {} n A sv xs" and quiet: "\<forall>a\<in>set xs. \<not> overdue (ks_now A) (sv_conn sv) a"
  shows "\<exists>g. process_timers sv = Some (sv\<lparr>sv_db := g\<rparr>)"
proof -
  obtain now g where g: "get_monotonic_msec (sv_db sv) = (now, g)" by fastforce
  note clock = server_inv_clock [OF inv g]
  let ?sv = "sv\<lparr>sv_db := g\<rparr>"
  note c = server_invD(1) [OF clock(1)]
  have idle: "process_idle now ?sv = Some ?sv"
  proof (cases xs)
    case Nil
    then show ?thesis using idle_front(1) [OF c] by (simp add: process_idle.simps)
  next
    case (Cons a ys)
    obtain d e where d: "sv_idle ?sv idle_head = Some d" "dl_next d = Some a" "sv_conn ?sv a = Some e"
      using idle_front(2) [OF c Cons] by blast
    have "now \<le> cn_last_active_ms e + k_idle_timeout_ms"
      using quiet Cons d(3) clock(2) by (simp add: overdue_def active_def not_less)
    then show ?thesis using idle_front(1) [OF c] d Cons by (simp add: process_idle.simps [of now ?sv])
  qed
  obtain k where k: "repr k g (ks_step A)" using server_invD(4) [OF clock(1)] by auto
  then obtain S F where r: "db_inv g (ks_step A) S F" "room k S F" unfolding repr_def by blast
  from process_ttl_run [OF r, of 0 now] obtain g' where "process_ttl now 0 g = Some g'" by auto
  then have "process_timers sv = Some (?sv\<lparr>sv_db := g'\<rparr>)" using g idle by (simp add: process_timers_def)
  then show ?thesis by auto
qed

text \<open>The moments at which something is due: the end of the patience with a connection, the expiry of a key.\<close>

definition dues :: "keyspace \<Rightarrow> (addr \<rightharpoonup> Conn) \<Rightarrow> addr list \<Rightarrow> u64 set" where
  "dues A conns xs = (\<lambda>a. active conns a + k_idle_timeout_ms) ` set xs \<union> ran (ks_ttl A)"

definition earliest :: "u64 set \<Rightarrow> u64 \<Rightarrow> bool" where
  "earliest D d \<longleftrightarrow> (if D = {} then d = - 1 else d \<in> D \<and> (\<forall>e\<in>D. d \<le> e))"

lemma earliest_idle:
  assumes "idle_order A sv (a # ys)" "clock_ok A" "b \<in> set (a # ys)"
  shows "active (sv_conn sv) a + k_idle_timeout_ms \<le> active (sv_conn sv) b + k_idle_timeout_ms"
proof (rule timeout_mono)
  show "active (sv_conn sv) a \<le> active (sv_conn sv) b" using assms(1,3) by (auto simp: idle_order_def)
  show "active (sv_conn sv) b \<le> - 1 - k_idle_timeout_ms"
    using assms unfolding idle_order_def clock_ok_def ks_now_def by (meson order_trans)
qed

lemma next_timer_run:
  assumes inv: "server_inv lfd {} n A sv xs"
  shows "\<exists>t g. next_timer_ms sv = Some (t, sv\<lparr>sv_db := g\<rparr>) \<and> server_inv lfd {} n (ks_step A) (sv\<lparr>sv_db := g\<rparr>) xs \<and>
    (clock_ok A \<longrightarrow> (\<exists>d. earliest (dues A (sv_conn sv) xs) d \<and>
       t = (if d = - 1 then - 1 else if d \<le> ks_now A then 0 else sint (ucast (d - ks_now A) :: 32 word))))"
proof -
  obtain now g where g: "get_monotonic_msec (sv_db sv) = (now, g)" by fastforce
  note clock = server_inv_clock [OF inv g]
  have io: "idle_order A sv xs" using server_invD(3) [OF inv] .
  define n1 where "n1 = (case xs of [] \<Rightarrow> - 1 | a # _ \<Rightarrow> active (sv_conn sv) a + k_idle_timeout_ms)"
  have one: "(if \<not> (xs = []) then do { d \<leftarrow> sv_idle sv idle_head; a \<leftarrow> dl_next d; conn \<leftarrow> sv_conn sv a;
       Some (cn_last_active_ms conn + k_idle_timeout_ms) } else Some (- 1)) = Some n1"
  proof (cases xs)
    case (Cons a ys)
    then show ?thesis using idle_front(2) [OF server_invD(1) [OF inv] Cons] by (auto simp: n1_def active_def)
  qed (simp add: n1_def)
  define d where "d = (case gd_heap (sv_db sv) of item # _ \<Rightarrow> if hi_val item < n1 then hi_val item else n1 | [] \<Rightarrow> n1)"
  have hg: "gd_heap g = gd_heap (sv_db sv)" using g by (auto simp: get_monotonic_msec_def)
  have "next_timer_ms sv = Some (if d = - 1 then - 1 else if d \<le> now then 0 else sint (ucast (d - now) :: 32 word), sv\<lparr>sv_db := g\<rparr>)"
    unfolding next_timer_ms_def using g one idle_front(1) [OF server_invD(1) [OF inv]] by (simp add: d_def hg Let_def)
  moreover have "earliest (dues A (sv_conn sv) xs) d" if ok: "clock_ok A"
  proof -
    obtain S F where r: "db_inv (sv_db sv) A S F" using server_invD(4) [OF inv] unfolding repr_def by blast
    let ?D = "(\<lambda>a. active (sv_conn sv) a + k_idle_timeout_ms) ` set xs"
    have i: "earliest ?D n1"
      using earliest_idle [OF _ ok] io by (cases xs) (auto simp: n1_def earliest_def)
    have "n1 \<le> - 1" by simp
    show ?thesis
    proof (cases "gd_heap (sv_db sv)")
      case Nil
      then have "ran (ks_ttl A) = {}" using no_expiry [OF r Nil] by (auto simp: ran_def)
      then show ?thesis using i Nil by (simp add: d_def dues_def)
    next
      case (Cons item rest)
      have v: "hi_val item \<in> ran (ks_ttl A)" "\<forall>e\<in>ran (ks_ttl A). hi_val item \<le> e"
        using next_expiry(2,3) [OF r Cons] by (auto simp: ran_def)
      have d: "d = min (hi_val item) n1" using Cons by (simp add: d_def min_def not_less less_le)
      have "\<forall>e\<in>?D. n1 \<le> e" using i by (auto simp: earliest_def split: if_splits)
      moreover have "n1 \<in> ?D \<or> n1 = - 1" using i by (auto simp: earliest_def split: if_splits)
      then have "d \<in> ?D \<union> ran (ks_ttl A)" using v(1) d by (auto simp: min_def)
      ultimately show ?thesis using v unfolding earliest_def dues_def d by (auto simp: min_le_iff_disj)
    qed
  qed
  ultimately show ?thesis using clock by (intro exI [of _ "if d = - 1 then - 1 else if d \<le> now then 0 else sint (ucast (d - now) :: 32 word)"] exI [of _ g]) auto
qed


subsection \<open>A turn of the loop\<close>

definition poll_ok :: "Net \<Rightarrow> io_poll \<Rightarrow> bool" where
  "poll_ok net poll \<longleftrightarrow> (case poll of PollEvents evs \<Rightarrow> batch_ok net evs | _ \<Rightarrow> True)"

definition poll_bytes :: "io_poll \<Rightarrow> nat" where
  "poll_bytes poll = (case poll of PollEvents evs \<Rightarrow> batch_bytes evs | _ \<Rightarrow> 0)"

definition deadly :: "int \<Rightarrow> Server \<Rightarrow> io_poll \<Rightarrow> bool" where
  "deadly lfd sv poll \<longleftrightarrow> (case poll of PollIntr \<Rightarrow> False | PollError \<Rightarrow> True | PollEvents evs \<Rightarrow> \<exists>ev\<in>set evs. fatal lfd sv ev)"

lemma loop_turn_run:
  assumes fresh: "fresh_fd fresh" and inv: "server_inv lfd {} (poll_bytes poll + n) A sv xs" and poll: "poll_ok (sv_net sv) poll"
  shows "\<exists>t r. loop_turn fresh lfd poll sv = Some (t, r) \<and>
    (r = Died \<and> deadly lfd sv poll \<or> (\<exists>sv' A' xs'. r = Returned sv' \<and> server_inv lfd {} n A' sv' xs' \<and> moves sv A sv' A'))"
proof -
  obtain t g where nt: "next_timer_ms sv = Some (t, sv\<lparr>sv_db := g\<rparr>)"
    "server_inv lfd {} (poll_bytes poll + n) (ks_step A) (sv\<lparr>sv_db := g\<rparr>) xs" using next_timer_run [OF inv] by blast
  let ?sv = "sv\<lparr>sv_db := g\<rparr>"
  have tick: "moves sv A ?sv (ks_step A)" using moves_tick by (simp add: served_db)
  show ?thesis
  proof (cases poll)
    case PollIntr
    then show ?thesis using nt tick by (auto simp: loop_turn_def poll_bytes_def)
  next
    case PollError
    then show ?thesis using nt by (auto simp: loop_turn_def deadly_def die_def)
  next
    case (PollEvents evs)
    have i: "server_inv lfd {} (batch_bytes evs + n) (ks_step A) ?sv xs" "batch_ok (sv_net ?sv) evs"
      using nt(2) poll PollEvents by (simp_all add: poll_bytes_def poll_ok_def)
    have "fd_conn ?sv = fd_conn sv" by (rule fd_conn_cong) simp
    then have same: "fatal lfd ?sv = fatal lfd sv" by (intro ext) (simp add: fatal_def)
    from handle_events_run [OF fresh i] consider "handle_events fresh lfd evs ?sv = Some Died" "\<exists>ev\<in>set evs. fatal lfd sv ev"
      | sv2 A2 ys where "handle_events fresh lfd evs ?sv = Some (Returned sv2)" "server_inv lfd {} n A2 sv2 ys" "moves ?sv (ks_step A) sv2 A2"
      unfolding same by blast
    then show ?thesis
    proof cases
      case 1
      then show ?thesis using nt(1) PollEvents by (simp add: loop_turn_def deadly_def)
    next
      case 2
      from process_timers_run [OF 2(2)] obtain sv3 A3 ks where
        t: "process_timers sv2 = Some sv3" "server_inv lfd {} n A3 sv3 (dropWhile (overdue (ks_now A2) (sv_conn sv2)) ys)"
          "expired (ks_now A2) (ks_step A2) ks A3" "\<forall>L. served L sv2 \<longrightarrow> served L sv3" by blast
      have gone: "ks_log (ks_step A2) [] A3"
        by (rule expired_run [OF t(3), of "ks_tick A2"]) (simp_all add: ks_step_def ks_now_def)
      have "ks_log A2 [] A3" using ks_log_trans [OF gone log_tick [OF log_done]] by simp
      then have "moves sv2 A2 sv3 A3" using moves_quiet t(4) by blast
      then have "moves sv A sv3 A3" using moves_trans 2(3) tick by blast
      moreover have "loop_turn fresh lfd poll sv = Some (t, Returned sv3)" using nt(1) PollEvents 2(1) t(1) by (simp add: loop_turn_def)
      ultimately show ?thesis using t(2) by blast
    qed
  qed
qed

text \<open>A worker of the thread pool takes a job from the queue, or finishes the one it has taken.\<close>

definition background :: "GlobalData \<Rightarrow> GlobalData \<Rightarrow> bool" where
  "background g g' \<longleftrightarrow> (\<exists>a. worker_take g = Some (a, g')) \<or> (\<exists>a\<in>set (gd_busy g). worker_run g a = Some g')"

lemma background_run:
  assumes "server_inv lfd B n A sv xs" "background (sv_db sv) g"
  shows "server_inv lfd B n A (sv\<lparr>sv_db := g\<rparr>) xs"
proof -
  obtain k where k: "repr k (sv_db sv) A" "n + sum_list (map (unread (sv_conn sv)) xs) \<le> k"
    using server_invD(4) [OF assms(1)] by blast
  then obtain S F where r: "db_inv (sv_db sv) A S F" "room k S F" unfolding repr_def by blast
  have "db_inv g A S F"
    using assms(2) worker_take_run(1) [OF r(1)] worker_run_run [OF r(1)] unfolding background_def by fastforce
  then have "repr k g A" using r(2) unfolding repr_def by blast
  from server_inv_db [OF assms(1) later_refl this k(2)] show ?thesis .
qed

text \<open>
  Any number of turns: what \<open>epoll_wait\<close> answers is arbitrary within its promises, and the workers
  run in between as they like. The first argument counts the bytes that were received.
\<close>

inductive turns :: "(Net \<Rightarrow> int) \<Rightarrow> int \<Rightarrow> nat \<Rightarrow> Server \<Rightarrow> Server \<Rightarrow> bool" for fresh lfd where
  turns_none: "turns fresh lfd 0 sv sv"
| turns_more: "turns fresh lfd b sv sv1 \<Longrightarrow> poll_ok (sv_net sv1) poll \<Longrightarrow>
    loop_turn fresh lfd poll sv1 = Some (t, Returned sv2) \<Longrightarrow> turns fresh lfd (b + poll_bytes poll) sv sv2"
| turns_worker: "turns fresh lfd b sv sv1 \<Longrightarrow> background (sv_db sv1) g \<Longrightarrow> turns fresh lfd b sv (sv1\<lparr>sv_db := g\<rparr>)"

lemma turns_run:
  assumes fresh: "fresh_fd fresh"
  shows "turns fresh lfd b sv sv' \<Longrightarrow> server_inv lfd {} (b + n) A sv xs \<Longrightarrow>
    \<exists>A' xs'. server_inv lfd {} n A' sv' xs' \<and> moves sv A sv' A'"
proof (induction arbitrary: n rule: turns.induct)
  case (turns_none sv)
  then show ?case using moves_refl by auto
next
  case (turns_more b sv sv1 poll t sv2)
  have "server_inv lfd {} (b + (poll_bytes poll + n)) A sv xs" using turns_more.prems by (simp add: add.assoc)
  from turns_more.IH [OF this] obtain A1 ys where
    r: "server_inv lfd {} (poll_bytes poll + n) A1 sv1 ys" "moves sv A sv1 A1" by blast
  from loop_turn_run [OF fresh r(1) turns_more.hyps(2)] turns_more.hyps(3)
  obtain A' xs' where "server_inv lfd {} n A' sv2 xs'" "moves sv1 A1 sv2 A'" by auto
  then show ?case using moves_trans r(2) by blast
next
  case (turns_worker b sv sv1 g)
  from turns_worker.IH [OF turns_worker.prems] obtain A1 ys where r: "server_inv lfd {} n A1 sv1 ys" "moves sv A sv1 A1" by blast
  have "moves sv1 A1 (sv1\<lparr>sv_db := g\<rparr>) A1" using moves_quiet [OF log_done] by (simp add: served_db)
  then show ?case using background_run [OF r(1) turns_worker.hyps(2)] moves_trans r(2) by blast
qed

lemma server_init_run:
  assumes "repr k g A" "n \<le> k" "mono (ks_clock A)" "0 \<le> efd"
  shows "\<exists>sv. server_init g lfd efd = Some sv \<and> server_inv lfd {} n A sv [] \<and> served [] sv"
proof -
  obtain m where m: "dlist_init [idle_head \<mapsto> \<lparr>dl_prev = None, dl_next = None\<rparr>] idle_head = Some m"
    "dlist m idle_head []" "dom m = {idle_head}"
    using dlist_init_run [of "[idle_head \<mapsto> \<lparr>dl_prev = None, dl_next = None\<rparr>]" idle_head] by auto
  let ?sv = "\<lparr>sv_db = g, sv_fd2conn = [], sv_idle = m, sv_conn = Map.empty, sv_next = idle_head + 1,
     sv_net = \<lparr>nt_epoll_fd = efd, nt_interest = [lfd \<mapsto> (True, False)],
       nt_sock = (\<lambda>_. 0), nt_socks = 0, nt_read = (\<lambda>_. []), nt_sent = (\<lambda>_. [])\<rparr>\<rparr>"
  have "server_init g lfd efd = Some ?sv" using m(1) by (simp add: server_init_def)
  moreover have "conns_inv lfd {} ?sv []" using m(2,3) by (simp add: conns_inv_def fd_conn_def)
  moreover have "net_inv lfd ?sv" using assms(4) by (simp add: net_inv_def)
  moreover have "idle_order A ?sv []" using assms(3) by (simp add: idle_order_def)
  moreover have "served [] ?sv" by (simp add: served_def)
  ultimately show ?thesis using assms(1,2) by (intro exI [of _ ?sv]) (auto simp: server_inv_def)
qed

text \<open>The start of the process fails exactly when one of the calls does.\<close>

definition start_ok :: "io_start \<Rightarrow> bool" where
  "start_ok io \<longleftrightarrow> 0 \<le> st_socket io \<and> st_bind io = 0 \<and> fd_set_nb (st_fcntl io) \<noteq> Died \<and> st_listen io = 0 \<and>
     0 \<le> st_epoll io \<and> 0 \<le> st_ctl io"

lemma server_start_run:
  assumes "repr k g A" "n \<le> k" "mono (ks_clock A)"
  shows "if start_ok io
    then \<exists>sv. server_start io g = Some (Returned (st_socket io, sv)) \<and> server_inv (st_socket io) {} n A sv [] \<and> served [] sv
    else server_start io g = Some Died"
proof (cases "start_ok io")
  case True
  then obtain fl where c: "0 \<le> st_socket io" "st_bind io = 0" "fd_set_nb (st_fcntl io) = Returned fl" "st_listen io = 0"
    "0 \<le> st_epoll io" "0 \<le> st_ctl io" by (cases "fd_set_nb (st_fcntl io)") (auto simp: start_ok_def)
  from server_init_run [OF assms c(5), of "st_socket io"] show ?thesis
    using True c by (auto simp: server_start_def)
next
  case False
  then show ?thesis by (auto simp: server_start_def start_ok_def die_def Let_def split: outcome.split)
qed

end
