(* ===== verification/ServerSpec.thy ===== *)
theory ServerSpec
  imports ServerRun
begin

text \<open>
  The properties of the server as a whole: event loop, connections and timers over any answers
  of the kernel. The descriptors the kernel hands out are unused ones; \<open>lowest_fd\<close> is one
  such kernel, where the descriptors below 5 are in use elsewhere.
\<close>

partial_function (option) free_from :: "Net \<Rightarrow> int \<Rightarrow> int option" where
  "free_from net fd = (if nt_interest net fd = None then Some fd else free_from net (fd + 1))"

declare free_from.simps [code]

definition lowest_fd :: "Net \<Rightarrow> int" where
  "lowest_fd net = (case free_from net 5 of None \<Rightarrow> 5 | Some fd \<Rightarrow> fd)"

lemma free_from_run:
  "nt_interest net (fd + int j) = None \<Longrightarrow> \<exists>f. free_from net fd = Some f \<and> fd \<le> f \<and> nt_interest net f = None"
proof (induction j arbitrary: fd)
  case 0
  then show ?case by (subst free_from.simps) simp
next
  case (Suc j)
  then have "nt_interest net ((fd + 1) + int j) = None" by (simp add: algebra_simps)
  from Suc.IH [OF this] show ?case by (subst free_from.simps) (auto intro: order_trans [of fd "fd + 1"])
qed

lemma lowest_fd_fresh: "fresh_fd lowest_fd"
proof -
  have "0 \<le> lowest_fd net \<and> nt_interest net (lowest_fd net) = None" if fin: "finite (dom (nt_interest net))" for net
  proof -
    have "inj (\<lambda>j. 5 + int j)" by (simp add: inj_on_def)
    then have "infinite (range (\<lambda>j. 5 + int j))" using finite_imageD infinite_UNIV_nat by blast
    then have "\<not> (\<lambda>j. 5 + int j) ` UNIV \<subseteq> dom (nt_interest net)" using fin finite_subset by blast
    then obtain j where "nt_interest net (5 + int j) = None" by blast
    from free_from_run [OF this] show ?thesis by (auto simp: lowest_fd_def)
  qed
  then show ?thesis unfolding fresh_fd_def by blast
qed

text \<open>A server that holds one key, and its clock, which stops after ten readings.\<close>

definition ten_times :: "nat \<Rightarrow> timespec" where
  "ten_times i = \<lparr>tv_sec = 0, tv_nsec = int (min i 9) * 1000000\<rparr>"

definition ten_clock :: "nat \<Rightarrow> u64" where
  "ten_clock i = w64 (min i 9)"

lemma ten_times: "msec_of \<circ> ten_times = ten_clock"
proof
  fix i
  have "(int (min i 9) * 1000000 sdiv 1000) sdiv 1000 = int (min i 9)" by (simp add: sdiv_nonneg flip: zdiv_zmult2_eq)
  then show "(msec_of \<circ> ten_times) i = ten_clock i"
    unfolding comp_def msec_of_def ten_times_def ten_clock_def w64_def by (simp del: of_nat_min)
qed

lemma ten_clock: "mono ten_clock" "ten_clock i \<le> - 1 - k_idle_timeout_ms"
proof -
  have u: "unat (ten_clock i) = min i 9" for i by (simp add: ten_clock_def)
  show "mono ten_clock" by (rule monoI) (simp add: word_le_nat_alt u min_le_iff_disj)
  show "ten_clock i \<le> - 1 - k_idle_timeout_ms" by (simp add: word_le_nat_alt u k_idle_timeout_ms_def)
qed

definition ttl_ks :: "u64 \<Rightarrow> keyspace" where
  "ttl_ks t = \<lparr>ks_map = [[107] \<mapsto> DStr [118]], ks_ttl = [[107] \<mapsto> t], ks_clock = ten_clock, ks_tick = 1\<rparr>"

lemma ttl_server:
  assumes "str2int t = Some ttl" "0 \<le> ttl"
  shows "\<exists>sv. server_inv 4 {} 0 (ttl_ks (word_of_int ttl)) sv []"
proof -
  have r: "repr (0 + 2) (init_db ten_times) (empty_ks ten_times)" by (rule init_db_repr) simp
  have e: "exec [str_bytes ''set'', [107], [118]] (empty_ks ten_times) =
      (VNil, (empty_ks ten_times)\<lparr>ks_map := [[107] \<mapsto> DStr [118]]\<rparr>)"
    "exec [str_bytes ''pexpire'', [107], t] ((empty_ks ten_times)\<lparr>ks_map := [[107] \<mapsto> DStr [118]]\<rparr>) =
      (VInt 1, ttl_ks (word_of_int ttl))"
    using assms by (simp_all add: exec_simps exec_set_def exec_expire_def empty_ks_def ten_times ttl_ks_def ks_step_def ks_now_def
        ten_clock_def w64_def count_reply_def)
  from run_two [OF r empty_buffer_ok(1) not_keys not_keys e] obtain g where g: "repr 0 g (ttl_ks (word_of_int ttl))" by blast
  have "mono (ks_clock (ttl_ks (word_of_int ttl)))" using ten_clock(1) by (simp add: ttl_ks_def)
  from server_init_run [OF g le0 this, of 3 4] show ?thesis by auto
qed

lemma ttl_ks_clock: "clock_ok (ttl_ks t)"
  using ten_clock(2) by (simp add: clock_ok_def ttl_ks_def)


subsection \<open>Properties\<close>

text \<open>
  C4. The server never gets stuck. Started on a fresh process, with a kernel that hands out
  unused descriptors, reports only what is registered, can change a registration that exists and otherwise answers anything (any
  bytes in any portions, errors, short writes, closed peers, refused registrations, hang-ups), and with workers
  that destroy queued entries between the turns, every turn of the event loop ends; as long as fewer than
  2^32 - 2 bytes have been received, no assertion fails, nothing outside an object or in a freed one is accessed and no
  signed sum overflows. The turn ends the process, which happens only on an error of
  \<open>epoll_wait\<close>, on one of \<open>fcntl\<close> for a new descriptor, on a message header above the limit in what some connection
  has sent, or by SIGPIPE on a write to a peer that is gone; or all connections, the idle list, the epoll registrations and the database are
  consistent again and the keyspace has changed by commands, clock readings and expiries of due
  keys only.
\<close>

theorem server_never_stuck:
  assumes "fresh_fd fresh" and "mono (msec_of \<circ> clock)" and "0 \<le> efd" and "server_init (init_db clock) lfd efd = Some sv0"
    and "turns fresh lfd b sv0 sv" and "poll_ok (sv_net sv) poll" and "b + poll_bytes poll < 2 ^ 32 - 2"
  shows "\<exists>t r. loop_turn fresh lfd poll sv = Some (t, r) \<and>
    (r = Died \<and> deadly lfd sv poll \<or> (\<exists>sv' A xs. r = Returned sv' \<and> server_inv lfd {} 0 A sv' xs \<and> ks_run (empty_ks clock) A))"
proof -
  have r: "repr (b + poll_bytes poll) (init_db clock) (empty_ks clock)" using init_db_repr [OF assms(7)] .
  have "mono (ks_clock (empty_ks clock))" using assms(2) by (simp add: empty_ks_def)
  from server_init_run [OF r order_refl this assms(3), of lfd] assms(4)
  have "server_inv lfd {} (b + (poll_bytes poll + 0)) (empty_ks clock) sv0 []" by auto
  from turns_run [OF assms(1,5) this] obtain A xs where
    i: "server_inv lfd {} (poll_bytes poll + 0) A sv xs" "moves sv0 (empty_ks clock) sv A" by blast
  from loop_turn_run [OF assms(1) i(1) assms(6)] obtain t r where
    l: "loop_turn fresh lfd poll sv = Some (t, r)"
      "r = Died \<and> deadly lfd sv poll \<or> (\<exists>sv' A' xs'. r = Returned sv' \<and> server_inv lfd {} 0 A' sv' xs' \<and> moves sv A sv' A')" by blast
  have "r = Died \<and> deadly lfd sv poll \<or> (\<exists>sv' A xs. r = Returned sv' \<and> server_inv lfd {} 0 A sv' xs \<and> ks_run (empty_ks clock) A)"
    using l(2) moves_run moves_trans [OF _ i(2)] by blast
  then show ?thesis using l(1) by (intro exI [of _ t] exI [of _ r] conjI)
qed

text \<open>
  What it means that a history explains what has happened on the sockets. It holds nothing that no client has
  sent: its commands are, socket by socket and in order, exactly the whole valid requests in the bytes that
  were read, for the connections that are closed as well as for the open ones, and what was written to a socket
  are the frames of the replies, from the first on. On an open connection only an incomplete request is unread,
  and all the frames are written or in the output buffer. Open descriptors stand for different sockets.
\<close>

definition explains :: "history \<Rightarrow> Server \<Rightarrow> bool" where
  "explains L sv \<longleftrightarrow> (\<forall>e\<in>set L. fst e < nt_socks (sv_net sv)) \<and>
     (\<forall>s<nt_socks (sv_net sv). accounted (sv_net sv) s (of_conn s L)) \<and>
     (\<forall>fd a. fd_conn sv fd = Some a \<longrightarrow> nt_sock (sv_net sv) fd < nt_socks (sv_net sv) \<and> (\<exists>c. sv_conn sv a = Some c \<and>
        fd_read (sv_net sv) fd = requests (of_conn (nt_sock (sv_net sv) fd) L) @ content (cn_incoming c) \<and>
        needs_more (content (cn_incoming c)) \<and>
        fd_sent (sv_net sv) fd @ content (cn_outgoing c) = frames (map snd (of_conn (nt_sock (sv_net sv) fd) L)))) \<and>
     (\<forall>fd fd'. fd_conn sv fd \<noteq> None \<longrightarrow> fd_conn sv fd' \<noteq> None \<longrightarrow> nt_sock (sv_net sv) fd = nt_sock (sv_net sv) fd' \<longrightarrow> fd = fd')"

text \<open>The bytes read from the sockets leave no choice in which commands a history has.\<close>

lemma explains_unique:
  assumes "explains L sv" "explains M sv"
  shows "map fst (of_conn s L) = map fst (of_conn s M)"
proof (cases "s < nt_socks (sv_net sv)")
  case True
  then have a: "accounted (sv_net sv) s (of_conn s L)" "accounted (sv_net sv) s (of_conn s M)"
    using assms by (simp_all add: explains_def)
  obtain rest where r: "nt_read (sv_net sv) s = requests (of_conn s M) @ rest" "no_request rest" "\<forall>t\<in>set (of_conn s M). sendable (fst t)"
    using a(2) by (auto simp: accounted_def)
  show ?thesis by (rule accounted_unique [OF a(1), of _ rest]) (use r in \<open>simp_all add: requests_def comp_def\<close>)
next
  case False
  then have "of_conn s L = []" "of_conn s M = []"
    using assms unfolding explains_def of_conn_def by (auto simp: filter_empty_conv)
  then show ?thesis by simp
qed

lemma served_explains:
  assumes inv: "server_inv lfd {} n A sv xs" and s: "served L sv"
  shows "explains L sv"
proof -
  note c = conns_invD [OF server_invD(1) [OF inv]] and d = servedD [OF s]
  have conn: "\<exists>e. sv_conn sv a = Some e \<and> cn_fd e = fd \<and> needs_more (content (cn_incoming e))" if fd: "fd_conn sv fd = Some a" for fd a
  proof -
    obtain e where e: "sv_conn sv a = Some e" "cn_fd e = fd" "a \<in> set xs" using c(6) [OF fd] by auto
    then show ?thesis using c(5) [OF e(3)] by (auto simp: ready_conn_def conn_ok_def)
  qed
  have "fd = fd'" if "fd_conn sv fd = Some a" "fd_conn sv fd' = Some b" "nt_sock (sv_net sv) fd = nt_sock (sv_net sv) fd'" for fd fd' a b
  proof -
    from conn [OF that(1)] conn [OF that(2)] obtain e f where
      e: "sv_conn sv a = Some e" "cn_fd e = fd" "sv_conn sv b = Some f" "cn_fd f = fd'" by blast
    have "a = b" by (rule d(5) [OF e(1,3)]) (simp add: e(2,4) that(3))
    then show ?thesis using e by simp
  qed
  moreover have "nt_sock (sv_net sv) fd < nt_socks (sv_net sv) \<and> (\<exists>c. sv_conn sv a = Some c \<and>
        fd_read (sv_net sv) fd = requests (of_conn (nt_sock (sv_net sv) fd) L) @ content (cn_incoming c) \<and>
        needs_more (content (cn_incoming c)) \<and>
        fd_sent (sv_net sv) fd @ content (cn_outgoing c) = frames (map snd (of_conn (nt_sock (sv_net sv) fd) L)))"
    if fd: "fd_conn sv fd = Some a" for fd a
  proof -
    obtain e where e: "sv_conn sv a = Some e" "cn_fd e = fd" "needs_more (content (cn_incoming e))" using conn [OF fd] by blast
    then show ?thesis using d(3,4) [OF e(1)] by (auto simp: streams_def)
  qed
  ultimately show ?thesis unfolding explains_def using d(1,2) by blast
qed

text \<open>A run of the server has a history, and a longer run prolongs it.\<close>

lemma turns_history:
  assumes "fresh_fd fresh" "mono (msec_of \<circ> clock)" "server_start io (init_db clock) = Some (Returned (lfd, sv0))"
    "turns fresh lfd b sv0 sv" "turns fresh lfd b' sv sv'" "b + b' < 2 ^ 32 - 2"
  shows "\<exists>L A M A' k k'. ks_log (empty_ks clock) L A \<and> explains L sv \<and> repr k (sv_db sv) A \<and>
    ks_log A M A' \<and> explains (L @ M) sv' \<and> repr k' (sv_db sv') A'"
proof -
  have r: "repr (b + b') (init_db clock) (empty_ks clock)" using init_db_repr [OF assms(6)] .
  have "mono (ks_clock (empty_ks clock))" using assms(2) by (simp add: empty_ks_def)
  from server_start_run [OF r order_refl this, of io] assms(3)
  have i0: "server_inv lfd {} (b + (b' + 0)) (empty_ks clock) sv0 []" "served [] sv0" by (auto split: if_splits)
  from turns_run [OF assms(1,4) i0(1)] obtain A xs where
    i: "server_inv lfd {} (b' + 0) A sv xs" "moves sv0 (empty_ks clock) sv A" by blast
  from turns_run [OF assms(1,5) i(1)] obtain A' xs' where
    i': "server_inv lfd {} 0 A' sv' xs'" "moves sv A sv' A'" by blast
  from i(2) obtain L where L: "ks_log (empty_ks clock) L A" "served ([] @ L) sv" using i0(2) unfolding moves_def by blast
  from i'(2) obtain M where M: "ks_log A M A'" "served (L @ M) sv'" using L(2) unfolding moves_def by fastforce
  have "explains L sv" "explains (L @ M) sv'" using served_explains [OF i(1)] L(2) served_explains [OF i'(1) M(2)] by simp_all
  moreover obtain k k' where "repr k (sv_db sv) A" "repr k' (sv_db sv') A'" using server_invD(4) [OF i(1)] server_invD(4) [OF i'(1)] by blast
  ultimately show ?thesis using L(1) M(1) by blast
qed

text \<open>
  C1. The server is linearizable. After a start of the process and any number of turns of the event loop, with any interleaving
  of connections, any split of their bytes by the kernel, short writes, timers and workers, there is one
  sequence of commands, executed one after the other on the abstract keyspace, that explains everything that
  every socket has seen: all commands of the sequence were sent by a client, every whole valid request that was read is
  in it, those of one client in the order it sent them, and what was written to each socket are the frames of the
  replies to its commands in that order; no reply is lost, repeated, reordered or sent to another client, also
  when a descriptor is used again. The order respects real time: at any earlier point of the run a
  first part of the sequence explains what had happened until then, and the commands that are read later come later.
  The database holds the keyspace that the sequence leads to.
\<close>

theorem server_linearizable:
  assumes "fresh_fd fresh" and "mono (msec_of \<circ> clock)" and "server_start io (init_db clock) = Some (Returned (lfd, sv0))"
    and "turns fresh lfd b sv0 sv" and "turns fresh lfd b' sv sv'" and "b + b' < 2 ^ 32 - 2"
  shows "\<exists>L A M A' k k'. ks_log (empty_ks clock) L A \<and> explains L sv \<and> repr k (sv_db sv) A \<and>
    ks_log A M A' \<and> explains (L @ M) sv' \<and> repr k' (sv_db sv') A'"
  using turns_history [OF assms] .

text \<open>A start in which every call succeeds.\<close>

definition sample_nb :: io_fcntl where
  "sample_nb = \<lparr>fc_flags = 2, fc_get_errno = 0, fc_set_errno = 0\<rparr>"

definition sample_start :: io_start where
  "sample_start = \<lparr>st_socket = 4, st_bind = 0, st_fcntl = sample_nb, st_listen = 0, st_epoll = 3, st_ctl = 0\<rparr>"

text \<open>One client connects, after an interrupted \<open>accept\<close>.\<close>

definition accept_five :: io_poll where
  "accept_five = PollEvents [\<lparr>ev_fd = 4, ev_in = True, ev_out = False, ev_err = False, ev_rd = RdAgain, ev_wr1 = WrAgain,
     ev_wr2 = WrAgain, ev_md1 = True, ev_md2 = True, ev_ac = [AcIntr, AcConn sample_nb True]\<rparr>]"

lemma accept_five_eval:
  "(do { r0 \<leftarrow> server_start sample_start (init_db (\<lambda>_. time_0));
     (case r0 of
        Died \<Rightarrow> None
      | Returned (lfd, sv0) \<Rightarrow> do {
          (t, r) \<leftarrow> loop_turn lowest_fd lfd accept_five sv0;
          (case r of Died \<Rightarrow> None | Returned sv1 \<Rightarrow> Some ((lfd, nt_interest (sv_net sv0) 4),
            (fd_conn sv1 5, nt_interest (sv_net sv1) 5, nt_sock (sv_net sv1) 5, nt_socks (sv_net sv1), nt_read (sv_net sv1) 0, nt_sent (sv_net sv1) 0)))
        }) }) = Some ((4, Some (True, False)), (Some 1, Some (True, False), 0, 1, [], []))"
  by code_simp

lemma accept_five_run:
  "\<exists>sv0 sv. server_start sample_start (init_db (\<lambda>_. time_0)) = Some (Returned (4, sv0)) \<and> turns lowest_fd 4 0 sv0 sv \<and>
    fd_conn sv 5 = Some 1 \<and> nt_interest (sv_net sv) 5 = Some (True, False) \<and> nt_sock (sv_net sv) 5 = 0 \<and> nt_socks (sv_net sv) = 1 \<and>
    nt_read (sv_net sv) 0 = [] \<and> nt_sent (sv_net sv) 0 = []"
proof -
  obtain sv0 t sv where s: "server_start sample_start (init_db (\<lambda>_. time_0)) = Some (Returned (4, sv0))"
    "loop_turn lowest_fd 4 accept_five sv0 = Some (t, Returned sv)" "fd_conn sv 5 = Some 1"
    "nt_interest (sv_net sv0) 4 = Some (True, False)" "nt_interest (sv_net sv) 5 = Some (True, False)"
    "nt_sock (sv_net sv) 5 = 0" "nt_socks (sv_net sv) = 1" "nt_read (sv_net sv) 0 = []" "nt_sent (sv_net sv) 0 = []"
    using accept_five_eval by (auto split: Option.bind_split_asm outcome.splits)
  have "poll_ok (sv_net sv0) accept_five" using s(4) by (simp add: poll_ok_def accept_five_def batch_ok_def reported_def mod_ok_def) blast
  from turns_more [OF turns_none this s(2)] have "turns lowest_fd 4 0 sv0 sv"
    by (simp add: poll_bytes_def accept_five_def batch_bytes_def read_len_def)
  then show ?thesis using s by blast
qed

lemma zero_clock: "mono (msec_of \<circ> (\<lambda>_ :: nat. time_0))"
  by (rule monoI) simp

theorem server_linearizable_witness:
  "\<exists>sv0 sv L A M A'. server_start sample_start (init_db (\<lambda>_. time_0)) = Some (Returned (4, sv0)) \<and>
    turns lowest_fd 4 0 sv0 sv \<and> fd_conn sv 5 = Some 1 \<and> ks_log (empty_ks (\<lambda>_. time_0)) L A \<and> explains L sv0 \<and>
    ks_log A M A' \<and> explains (L @ M) sv"
proof -
  obtain sv0 sv where s: "server_start sample_start (init_db (\<lambda>_. time_0)) = Some (Returned (4, sv0))"
    "turns lowest_fd 4 0 sv0 sv" "fd_conn sv 5 = Some 1" using accept_five_run by blast
  from server_linearizable [OF lowest_fd_fresh zero_clock s(1) turns_none s(2)] show ?thesis using s by fastforce
qed

text \<open>Two clients connect, the second registration fails; then the first one sends two bytes.\<close>

definition accept_two :: io_poll where
  "accept_two = PollEvents [\<lparr>ev_fd = 4, ev_in = True, ev_out = False, ev_err = False, ev_rd = RdAgain, ev_wr1 = WrAgain,
     ev_wr2 = WrAgain, ev_md1 = True, ev_md2 = True, ev_ac = [AcConn sample_nb True, AcIntr, AcConn sample_nb False]\<rparr>]"

theorem server_never_stuck_witness:
  "\<exists>sv0 t sv'. server_init (init_db (\<lambda>_. time_0)) 4 3 = Some sv0 \<and> loop_turn lowest_fd 4 accept_two sv0 = Some (t, Returned sv')"
proof -
  obtain sv0 where s: "server_init (init_db (\<lambda>_. time_0)) 4 3 = Some sv0" "server_inv 4 {} 0 (empty_ks (\<lambda>_. time_0)) sv0 []"
    using server_init_run [OF init_db_repr [of 0 "\<lambda>_. time_0"], of 0 3 4] zero_clock by (auto simp: empty_ks_def)
  have "nt_interest (sv_net sv0) 4 = Some (True, False)" using server_invD(2) [OF s(2)] by (simp add: net_inv_def)
  then have "poll_ok (sv_net sv0) accept_two" by (simp add: poll_ok_def accept_two_def batch_ok_def reported_def mod_ok_def) blast
  from server_never_stuck [OF lowest_fd_fresh zero_clock _ s(1) turns_none this]
  show ?thesis using s(1) by (auto simp: poll_bytes_def accept_two_def batch_bytes_def read_len_def deadly_def fatal_def fatal_input_def
        nb_fails_def sample_nb_def fd_set_nb_def)
qed

text \<open>
  C15. Both timer loops end. \<open>process_timers\<close> closes exactly the connections that have been
  idle for more than five seconds, and removes keys whose time has passed, those with the
  earliest times first: all of them, or exactly \<open>k_max_works + 1\<close> (2001) of them. Everything
  else of the server's state stays consistent.
\<close>

theorem process_timers_correct:
  assumes "server_inv lfd {} n A sv xs" and "clock_ok A"
  shows "\<exists>sv' A' ks. process_timers sv = Some sv' \<and>
    server_inv lfd {} n A' sv' (filter (\<lambda>a. \<not> overdue (ks_now A) (sv_conn sv) a) xs) \<and> expired (ks_now A) (ks_step A) ks A' \<and>
    (length ks = k_max_works + 1 \<or> length ks \<le> k_max_works \<and> (\<forall>k t. ks_ttl A' k = Some t \<longrightarrow> ks_now A \<le> t))"
  using process_timers_run [OF assms(1)] unfolding overdue_all [OF server_invD(3) [OF assms(1)] assms(2)] by blast

theorem process_timers_correct_witness:
  "\<exists>sv sv' A'. server_inv 4 {} 0 (ttl_ks 0) sv [] \<and> process_timers sv = Some sv' \<and> server_inv 4 {} 0 A' sv' [] \<and> ks_map A' = Map.empty"
proof -
  have "str2int [48] = Some 0"
    by (simp add: str2int_def strtoll_def c_string_def c_isspace_def c_sign_def c_isdigit_def digits_val_def digit_val_def)
  then obtain sv where sv: "server_inv 4 {} 0 (ttl_ks 0) sv []" using ttl_server [of "[48]" 0] by auto
  have now: "ks_now (ttl_ks 0) = 1" by (simp add: ks_now_def ttl_ks_def ten_clock_def w64_def)
  from process_timers_correct [OF sv ttl_ks_clock] obtain sv' A' ks where
    r: "process_timers sv = Some sv'" "server_inv 4 {} 0 A' sv' []" "expired 1 (ks_step (ttl_ks 0)) ks A'"
      "length ks = k_max_works + 1 \<or> (\<forall>k t. ks_ttl A' k = Some t \<longrightarrow> 1 \<le> t)" unfolding now by auto
  have A': "A' = fold (\<lambda>k B. snd (exec_del k B)) ks (ks_step (ttl_ks 0))" "distinct ks" "set ks \<subseteq> {[107]}"
    using r(3) by (auto simp: expired_def ks_step_def ttl_ks_def split: if_splits)
  have "ks = [[107]]"
  proof (rule ccontr)
    assume n: "ks \<noteq> [[107]]"
    have "length ks \<le> 1" using A'(2,3) card_mono [of "{[107]}" "set ks"] distinct_card by fastforce
    then have "ks = []" using n A'(3) by (cases ks) auto
    then have "ks_ttl A' [107] = Some 0" using A'(1) by (simp add: ks_step_def ttl_ks_def)
    moreover have "\<forall>k t. ks_ttl A' k = Some t \<longrightarrow> 1 \<le> t" using r(4) \<open>ks = []\<close> by (simp add: k_max_works_def)
    ultimately have "(1 :: u64) \<le> 0" by blast
    then show False by simp
  qed
  then have "ks_map A' = Map.empty" using A'(1) by (simp add: del_ttl ks_step_def ttl_ks_def)
  then show ?thesis using sv r(1,2) by blast
qed

text \<open>
  C16. The timeout of the event loop: -1 when nothing is due ever, 0 when something is due now,
  and otherwise the time to the earliest of all deadlines, the ends of the idle times of all
  connections and the expiries of all keys, as far as it fits an \<open>int32_t\<close>.
\<close>

theorem next_timer_ms_correct:
  assumes "server_inv lfd {} n A sv xs" and "clock_ok A"
  shows "\<exists>t g d. next_timer_ms sv = Some (t, sv\<lparr>sv_db := g\<rparr>) \<and> server_inv lfd {} n (ks_step A) (sv\<lparr>sv_db := g\<rparr>) xs \<and>
    earliest (dues A (sv_conn sv) xs) d \<and>
    t = (if d = - 1 then - 1 else if d \<le> ks_now A then 0 else sint (ucast (d - ks_now A) :: 32 word))"
  using next_timer_run [OF assms(1)] assms(2) by blast

theorem next_timer_ms_correct_witness:
  "\<exists>sv sv'. server_inv 4 {} 0 (ttl_ks 7) sv [] \<and> next_timer_ms sv = Some (6, sv')"
proof -
  have "str2int [55] = Some 7"
    by (simp add: str2int_def strtoll_def c_string_def c_isspace_def c_sign_def c_isdigit_def digits_val_def digit_val_def)
  then obtain sv where sv: "server_inv 4 {} 0 (ttl_ks 7) sv []" using ttl_server [of "[55]" 7] by auto
  have now: "ks_now (ttl_ks 7) = 1" by (simp add: ks_now_def ttl_ks_def ten_clock_def w64_def)
  have D: "dues (ttl_ks 7) (sv_conn sv) [] = {7}" by (simp add: dues_def ttl_ks_def)
  from next_timer_ms_correct [OF sv ttl_ks_clock] obtain t g d where
    r: "next_timer_ms sv = Some (t, sv\<lparr>sv_db := g\<rparr>)" "earliest {7} d"
      "t = (if d = - 1 then - 1 else if d \<le> 1 then 0 else sint (ucast (d - 1) :: 32 word))" unfolding now D by blast
  have "\<not> (7 :: u64) \<le> 1" by (simp add: word_le_nat_alt)
  then have "t = 6" using r(2,3) by (simp add: earliest_def)
  then show ?thesis using sv r(1) by blast
qed

lemma truncated_negative:
  fixes x :: u64
  assumes "2 ^ 31 \<le> unat x" "unat x < 2 ^ 32"
  shows "sint (ucast x :: 32 word) < 0"
proof -
  have "int (2 ^ 31) \<le> int (unat x)" "int (unat x) < int (2 ^ 32)" using assms by (simp_all only: of_nat_le_iff of_nat_less_iff)
  then have far: "2 ^ 31 \<le> uint x" "uint x < 2 ^ 32" by simp_all
  have "uint (ucast x :: 32 word) = take_bit 32 (uint x)" by (simp add: unsigned_ucast_eq)
  also have "\<dots> = uint x" using far(2) by (intro take_bit_int_eq_self) simp_all
  finally have s: "sint (ucast x :: 32 word) = signed_take_bit 31 (uint x)" by (simp add: sint_uint del: of_int_uint)
  have "uint x - 2 ^ Suc 31 < 0" using far(2) by simp
  then show ?thesis unfolding s by (rule le_less_trans [OF signed_take_bit_int_less_eq [OF far(1)]])
qed

text \<open>
  C37. A deadline that is 2^31 ms (25 days) or more away, and less than 2^32 ms, gives a negative timeout:
  \<open>epoll_wait\<close> then waits without limit and the key outlives its time while no client connects.
\<close>

theorem far_deadline_lost:
  assumes "server_inv lfd {} n A sv xs" and "clock_ok A" and "earliest (dues A (sv_conn sv) xs) d"
    and "ks_now A < d" and "2 ^ 31 \<le> unat (d - ks_now A)" and "unat (d - ks_now A) < 2 ^ 32"
  shows "\<exists>t sv'. next_timer_ms sv = Some (t, sv') \<and> t < 0"
proof -
  from next_timer_run [OF assms(1)] assms(2) obtain t g d' where
    r: "next_timer_ms sv = Some (t, sv\<lparr>sv_db := g\<rparr>)" "earliest (dues A (sv_conn sv) xs) d'"
      "t = (if d' = - 1 then - 1 else if d' \<le> ks_now A then 0 else sint (ucast (d' - ks_now A) :: 32 word))" by blast
  have "d' = d" using r(2) assms(3) by (auto simp: earliest_def split: if_splits intro: antisym)
  moreover have "sint (ucast (d - ks_now A) :: 32 word) < 0" using truncated_negative [OF assms(5,6)] .
  ultimately show ?thesis using r(1,3) assms(4) by auto
qed

text \<open>A key that expires in 25 days, and no connection.\<close>

theorem far_deadline_lost_witness:
  "\<exists>sv t sv'. server_inv 4 {} 0 (ttl_ks (2 ^ 31 + 1)) sv [] \<and> next_timer_ms sv = Some (t, sv') \<and> t < 0"
proof -
  have "str2int [50, 49, 52, 55, 52, 56, 51, 54, 52, 57] = Some 2147483649"
    by (simp add: str2int_def strtoll_def c_string_def c_isspace_def c_sign_def c_isdigit_def digits_val_def digit_val_def)
  then obtain sv where sv: "server_inv 4 {} 0 (ttl_ks 2147483649) sv []" using ttl_server [of _ 2147483649] by fastforce
  have now: "ks_now (ttl_ks 2147483649) = 1" by (simp add: ks_now_def ttl_ks_def ten_clock_def w64_def)
  have "earliest (dues (ttl_ks 2147483649) (sv_conn sv) []) 2147483649" by (simp add: dues_def ttl_ks_def earliest_def)
  from far_deadline_lost [OF sv ttl_ks_clock this] now sv show ?thesis by (auto simp: word_less_nat_alt)
qed

text \<open>
  The idle list is a ring through its head. Taking a connection out of it, wherever it
  stands, and inserting it before the head makes it the last one and keeps the order of the
  others; both directions of the ring stay consistent and no node outside it is written.
\<close>

theorem list_refresh_correct:
  assumes "dlist m h xs" and "x \<in> set xs"
  shows "\<exists>m1 m2. dlist_detach m x = Some m1 \<and> dlist m1 h (remove1 x xs) \<and> dlist_insert_before m1 h x = Some m2 \<and>
    dlist m2 h (remove1 x xs @ [x]) \<and> (\<forall>a. a \<notin> set (h # xs) \<longrightarrow> m2 a = m a)"
proof -
  obtain ys zs where s: "xs = ys @ x # zs" "x \<notin> set ys" using split_list_first [OF assms(2)] by blast
  obtain m1 where m1: "dlist_detach m x = Some m1" "dlist m1 h (ys @ zs)" "dom m1 = dom m"
    "\<forall>a. a \<notin> set (h # ys @ zs) \<longrightarrow> m1 a = m a" using detach_run [of m h ys x zs] assms(1) s(1) by blast
  have "x \<notin> set (h # ys @ zs)" using assms(1) s by (auto simp: dlist_def)
  moreover have "m1 x \<noteq> None" using m1(3) idle.nodes_law [OF assms(1)] assms(2) by (auto simp: dl_alloc_def)
  ultimately obtain m2 where m2: "dlist_insert_before m1 h x = Some m2" "dlist m2 h ((ys @ zs) @ [x])"
    "\<forall>a. a \<notin> set (h # x # ys @ zs) \<longrightarrow> m2 a = m1 a" using insert_before_run [OF m1(2)] by blast
  have r: "remove1 x xs = ys @ zs" using s by (simp add: remove1_append)
  have "\<forall>a. a \<notin> set (h # xs) \<longrightarrow> m2 a = m a" using m1(4) m2(3) s(1) by auto
  then show ?thesis unfolding r using m1(1,2) m2(1,2) by (intro exI [of _ m1] exI [of _ m2] conjI) simp_all
qed

definition sample_ring :: dl_mem where
  "sample_ring = [0 \<mapsto> \<lparr>dl_prev = Some 2, dl_next = Some 1\<rparr>, 1 \<mapsto> \<lparr>dl_prev = Some 0, dl_next = Some 2\<rparr>,
     2 \<mapsto> \<lparr>dl_prev = Some 1, dl_next = Some 0\<rparr>]"

theorem list_refresh_correct_witness:
  "dlist sample_ring 0 [1, 2] \<and>
    (\<exists>m1 m2. dlist_detach sample_ring 1 = Some m1 \<and> dlist_insert_before m1 0 1 = Some m2 \<and> dlist m2 0 [2, 1])"
proof -
  have "dlist sample_ring 0 [1, 2]" by (simp add: dlist_def link_def sample_ring_def)
  with list_refresh_correct [OF this, of 1] show ?thesis by auto
qed

end
