(* ===== verification/EndToEnd.thy ===== *)
theory EndToEnd
  imports DbProps
begin

text \<open>
  Client, connection and keyspace together. \<open>send_all\<close> is what a client that sends several
  requests at once puts on the wire, \<open>read_all\<close> what it prints when it reads the replies.
\<close>

fun send_all :: "bytes list list \<Rightarrow> bytes option" where
  "send_all [] = Some []"
| "send_all (cmd # cmds) = do {
     r \<leftarrow> send_req cmd;
     (case r of TooLarge \<Rightarrow> None | Send bs \<Rightarrow> do { rest \<leftarrow> send_all cmds; Some (bs @ rest) })
   }"

fun read_all :: "nat \<Rightarrow> bytes \<Rightarrow> printed list list option" where
  "read_all 0 stream = Some []"
| "read_all (Suc n) stream = do { (rv, out, rest) \<leftarrow> read_res stream; outs \<leftarrow> read_all n rest; Some (out # outs) }"

text \<open>What the client sees of a reply: one above the message limit is replaced by an error.\<close>

definition visible :: "tlv \<Rightarrow> tlv" where
  "visible v = (if k_max_msg < length (tlv_bytes v) then too_big else v)"

lemma send_all_run: "\<forall>cmd\<in>set cmds. sendable cmd \<Longrightarrow> send_all cmds = Some (concat (map request cmds))"
  by (induction cmds) (simp_all add: sendable_def send_req_run)

lemma read_all_run: "read_all (length vs) (frames vs @ rest) = Some (map (printed_of \<circ> visible) vs)"
  by (induction vs) (simp_all add: read_frame Let_def visible_def)

text \<open>
  C3. Client, wire, server loop and keyspace together: a client sends any number of commands
  within the limits at once; the server runs them in order as the keyspace says, consumes
  exactly what was sent, and the client prints exactly the replies, in order.
\<close>

theorem client_server_session:
  assumes "repr (length cmds + n) g A" and "\<forall>cmd\<in>set cmds. sendable cmd" and "bufs_ok conn"
    and "send_all cmds = Some sent" and "content (cn_incoming conn) = sent" and "content (cn_outgoing conn) = []"
  shows "\<exists>g' A' vs conn'. process_requests do_request g conn = Some (Returned (g', conn')) \<and>
    session db_spec cmds A vs A' \<and> repr n g' A' \<and> content (cn_incoming conn') = [] \<and>
    cn_want_close conn' = cn_want_close conn \<and>
    read_all (length cmds) (content (cn_outgoing conn')) = Some (map (printed_of \<circ> visible) vs)"
proof -
  have "content (cn_incoming conn) = concat (map request cmds) @ []"
    using assms(2,4,5) send_all_run by simp
  from process_requests_run [OF do_request_responds assms(1,3) this assms(2) needs_more_nil]
  obtain g' A' vs conn' where r: "process_requests do_request g conn = Some (Returned (g', conn'))"
    "session db_spec cmds A vs A'" "repr n g' A'" "cn_want_close conn' = cn_want_close conn"
    "content (cn_incoming conn') = []" "content (cn_outgoing conn') = content (cn_outgoing conn) @ frames vs" by blast
  have "read_all (length cmds) (content (cn_outgoing conn')) = Some (map (printed_of \<circ> visible) vs)"
    using read_all_run [of vs "[]"] session_length [OF r(2)] r(6) assms(6) by simp
  then show ?thesis using r(1-5) by blast
qed

text \<open>A client that stores a value and reads it back.\<close>

definition set_get :: "bytes list list" where
  "set_get = [[str_bytes ''set'', [107], [118]], [str_bytes ''get'', [107]]]"

theorem client_server_session_witness:
  "\<exists>sent g' conn'. send_all set_get = Some sent \<and>
    process_requests do_request (init_db (\<lambda>_. time_0)) (sample_conn sent) = Some (Returned (g', conn')) \<and>
    read_all 2 (content (cn_outgoing conn')) = Some [[PNil], [PStr [118]]]"
proof -
  have all: "\<forall>cmd\<in>set set_get. sendable cmd"
    by (simp add: set_get_def sendable_def req_body_def str_bytes_def k_max_msg_def k_max_args_def)
  let ?sent = "concat (map request set_get)"
  have send: "send_all set_get = Some ?sent" using send_all_run [OF all] .
  have "repr (length set_get + 0) (init_db (\<lambda>_. time_0)) (empty_ks (\<lambda>_. time_0))" by (rule init_db_repr) (simp add: set_get_def)
  from client_server_session [OF this all sample_conn_ok(1) send sample_conn_ok(2,3)]
  obtain g' A' vs conn' where r: "process_requests do_request (init_db (\<lambda>_. time_0)) (sample_conn ?sent) = Some (Returned (g', conn'))"
    "session db_spec set_get (empty_ks (\<lambda>_. time_0)) vs A'"
    "read_all (length set_get) (content (cn_outgoing conn')) = Some (map (printed_of \<circ> visible) vs)" by blast
  have "vs = [VNil, VStr [118]]"
    using r(2) by (auto simp: set_get_def session_simps db_spec_def exec_simps exec_set_def exec_get_def empty_ks_def)
  then have "map (printed_of \<circ> visible) vs = [[PNil], [PStr [118]]]"
    by (simp add: visible_def k_max_msg_def c_str_def)
  moreover have "length set_get = 2" by (simp add: set_get_def)
  ultimately have "read_all 2 (content (cn_outgoing conn')) = Some [[PNil], [PStr [118]]]" using r(3) by simp
  then show ?thesis using send r(1) by blast
qed

text \<open>
  Whatever bytes a client sends, and however the kernel splits them, a readable event
  never makes the server fail an assertion or leave its memory: it ends the process on an oversized
  header or by a write to a closed peer, or it has executed a session of commands and left the connection ready or marked
  for closing.
\<close>

theorem server_survives_any_bytes:
  assumes "repr k g A" and "conn_ok conn net" and "cn_want_read conn"
    and "length (content (cn_incoming conn)) + read_len io + n \<le> k"
  shows "(handle_read do_request g io wr md conn net = Some Died \<and> (\<exists>data. io = RdBytes data \<and> (oversized (content (cn_incoming conn) @ data) \<or> wr = WrPipe))) \<or>
    (\<exists>g' conn' net' cmds vs A' k'. handle_read do_request g io wr md conn net = Some (Returned (g', conn', net')) \<and>
      session db_spec cmds A vs A' \<and> length (content (cn_incoming conn')) + n \<le> k' \<and> repr k' g' A' \<and>
      conn_left md net conn' net')"
proof -
  from handle_read_run [OF do_request_responds assms, of wr md]
  consider "handle_read do_request g io wr md conn net = Some Died" "\<exists>data. io = RdBytes data \<and> (oversized (content (cn_incoming conn) @ data) \<or> wr = WrPipe)"
    | g' conn' net' cmds vs A' k' where "handle_read do_request g io wr md conn net = Some (Returned (g', conn', net'))"
      "session db_spec cmds A vs A'" "length (content (cn_incoming conn')) + n \<le> k'" "repr k' g' A'" "conn_left md net conn' net'" by blast
  then show ?thesis by cases blast+
qed

theorem server_survives_any_bytes_witness:
  "handle_read do_request (init_db (\<lambda>_. time_0)) (RdBytes [7, 7]) WrAgain True (sample_conn []) sample_net = Some Died \<or>
    (\<exists>g' conn' net' A' k'. handle_read do_request (init_db (\<lambda>_. time_0)) (RdBytes [7, 7]) WrAgain True (sample_conn []) sample_net =
        Some (Returned (g', conn', net')) \<and> repr k' g' A' \<and> conn_left True sample_net conn' net')"
proof -
  have r: "repr 2 (init_db (\<lambda>_. time_0)) (empty_ks (\<lambda>_. time_0))" by (rule init_db_repr) simp
  have c: "cn_want_read (sample_conn [])"
    "length (content (cn_incoming (sample_conn []))) + read_len (RdBytes [7, 7]) + 0 \<le> 2"
    using sample_conn_ok(2) [of "[]"] by (simp_all add: sample_conn_def read_len_def)
  from server_survives_any_bytes [OF r sample_conn_net c, of WrAgain True] show ?thesis by blast
qed

end
