(* ===== verification/ClientIO.thy ===== *)
theory ClientIO
  imports EndToEnd
begin

text \<open>
  The rest of the client, \<open>src/client/api.cc\<close> and \<open>src/client/main.cc\<close>: the loops around
  \<open>read\<close> and \<open>write\<close>, the splitting of command lines, and the two ways to run several
  commands. A connected socket is the state \<open>Sock\<close>: the bytes the server has sent, those the
  client has written, and for every system call the size of the portion the kernel is willing
  to transfer (0 if the call fails).
\<close>

record Sock =
  sk_in :: bytes
  sk_out :: bytes
  sk_cut :: "nat \<Rightarrow> nat"
  sk_calls :: nat

definition sys_read :: "nat \<Rightarrow> Sock \<Rightarrow> bytes option \<times> Sock" where
  "sys_read n s =
     (let k = min (min (sk_cut s (sk_calls s)) n) (length (sk_in s)) in
      (if k = 0 then None else Some (take k (sk_in s)), s\<lparr>sk_in := drop k (sk_in s), sk_calls := sk_calls s + 1\<rparr>))"

definition sys_write :: "bytes \<Rightarrow> Sock \<Rightarrow> nat option \<times> Sock" where
  "sys_write bs s =
     (let k = min (sk_cut s (sk_calls s)) (length bs) in
      (if k = 0 then None else Some k, s\<lparr>sk_out := sk_out s @ take k bs, sk_calls := sk_calls s + 1\<rparr>))"

lemma sys_read_some: "sys_read n s = (Some bs, s') \<Longrightarrow> 0 < length bs \<and> length bs \<le> n"
  by (auto simp: sys_read_def Let_def min_def split: if_splits)

lemma sys_write_some: "sys_write bs s = (Some k, s') \<Longrightarrow> 0 < k \<and> k \<le> length bs"
  by (auto simp: sys_write_def Let_def min_def split: if_splits)

text \<open>The result \<open>None\<close> is the return value -1.\<close>

function read_full :: "nat \<Rightarrow> Sock \<Rightarrow> bytes option \<times> Sock" where
  "read_full n s =
     (if n = 0 then (Some [], s)
      else case sys_read n s of
        (None, s1) \<Rightarrow> (None, s1)
      | (Some bs, s1) \<Rightarrow> (case read_full (n - length bs) s1 of (r, s2) \<Rightarrow> (map_option ((@) bs) r, s2)))"
  by pat_completeness auto
termination
  by (relation "measure fst") (auto dest!: sys_read_some [OF sym])

function write_all :: "bytes \<Rightarrow> Sock \<Rightarrow> int \<times> Sock" where
  "write_all bs s =
     (if bs = [] then (0, s)
      else case sys_write bs s of
        (None, s1) \<Rightarrow> (- 1, s1)
      | (Some k, s1) \<Rightarrow> write_all (drop k bs) s1)"
  by pat_completeness auto
termination
  by (relation "measure (length \<circ> fst)") (auto dest!: sys_write_some [OF sym])

declare read_full.simps [simp del] write_all.simps [simp del]

text \<open>
  \<open>send_req\<close> and \<open>read_res\<close> on a socket. A read that fails although the stream has not ended is
  an error with \<open>errno\<close> set.
\<close>

definition client_send :: "bytes list \<Rightarrow> Sock \<Rightarrow> (int \<times> printed list \<times> Sock) option" where
  "client_send cmd s = do {
     r \<leftarrow> send_req cmd;
     Some (case r of
         TooLarge \<Rightarrow> (- 1, [PMsg ''request too large''], s)
       | Send bs \<Rightarrow> (case write_all bs s of (rv, s1) \<Rightarrow> (rv, [], s1)))
   }"

definition client_read :: "Sock \<Rightarrow> (int \<times> printed list \<times> Sock) option" where
  "client_read s = (case read_full 4 s of
     (None, s1) \<Rightarrow> Some (- 1, [PMsg (if sk_in s1 = [] then ''EOF'' else ''read_res error'')], s1)
   | (Some header, s1) \<Rightarrow>
       let len = (of_le header :: u32) in
       if k_max_msg < unat len then Some (- 1, [PMsg ''response text too large''], s1)
       else case read_full (unat len) s1 of
         (None, s2) \<Rightarrow> Some (- 1, [PMsg ''read_res error''], s2)
       | (Some body, s2) \<Rightarrow> do {
           (rv, out) \<leftarrow> print_response body;
           (if 0 < rv \<and> rv \<noteq> int (unat len) then Some (- 1, out @ [PMsg ''print_response: incomplete data''], s2)
            else Some (rv, out, s2))
         })"

text \<open>Command lines: \<open>isspace\<close> in the C locale, and the blanks of \<open>run_commands_from_file\<close>.\<close>

definition is_space :: "8 word \<Rightarrow> bool" where
  "is_space b \<longleftrightarrow> b \<in> {9, 10, 11, 12, 13, 32}"

definition is_blank :: "8 word \<Rightarrow> bool" where
  "is_blank b \<longleftrightarrow> b \<in> {9, 10, 13, 32}"

function split_cmd :: "bytes \<Rightarrow> bytes list" where
  "split_cmd line =
     (let l = dropWhile is_space line in
      if l = [] then [] else takeWhile (\<lambda>b. \<not> is_space b) l # split_cmd (dropWhile (\<lambda>b. \<not> is_space b) l))"
  by pat_completeness auto
termination
proof (relation "measure length")
  fix line l assume l: "l = dropWhile is_space line" "l \<noteq> []"
  then have "\<not> is_space (hd l)" using hd_dropWhile [of is_space line] by simp
  then have "length (dropWhile (\<lambda>b. \<not> is_space b) l) < length l"
    using l(2) length_dropWhile_le [of "\<lambda>b. \<not> is_space b" "tl l"] by (cases l) auto
  moreover have "length l \<le> length line" using l(1) length_dropWhile_le by metis
  ultimately show "(dropWhile (\<lambda>b. \<not> is_space b) l, line) \<in> measure length" by simp
qed simp

declare split_cmd.simps [simp del]

text \<open>\<open>std::getline\<close> until the end of the file.\<close>

function lines_of :: "bytes \<Rightarrow> bytes list" where
  "lines_of data = (if data = [] then [] else takeWhile (\<lambda>b. b \<noteq> 10) data # lines_of (drop 1 (dropWhile (\<lambda>b. b \<noteq> 10) data)))"
  by pat_completeness auto
termination
proof (relation "measure length")
  fix data :: bytes assume "data \<noteq> []"
  then show "(drop 1 (dropWhile (\<lambda>b. b \<noteq> 10) data), data) \<in> measure length"
    using length_dropWhile_le [of "\<lambda>b. b \<noteq> 10" data] by (cases data) (auto intro: le_less_trans [OF diff_le_self])
qed simp

declare lines_of.simps [simp del]

definition trim :: "bytes \<Rightarrow> bytes" where
  "trim line = rev (dropWhile is_blank (rev (dropWhile is_blank line)))"

text \<open>The command on a line: none if it is blank or a comment.\<close>

definition line_cmd :: "bytes \<Rightarrow> bytes list option" where
  "line_cmd line = (let trimmed = trim line; tokens = split_cmd trimmed in
     if trimmed = [] \<or> hd trimmed = 35 \<or> tokens = [] then None else Some tokens)"

fun run_commands :: "bytes list list \<Rightarrow> Sock \<Rightarrow> (int \<times> printed list \<times> Sock) option" where
  "run_commands [] s = Some (0, [], s)"
| "run_commands (cmd # cmds) s = do {
     (err, out1, s1) \<leftarrow> client_send cmd s;
     (if err < 0 then Some (err, out1, s1)
      else do {
        (err, out2, s2) \<leftarrow> client_read s1;
        (if err < 0 then Some (err, out1 @ out2, s2)
         else do { (err, out3, s3) \<leftarrow> run_commands cmds s2; Some (err, out1 @ out2 @ out3, s3) })
      })
   }"

definition run_commands_from_file :: "bytes option \<Rightarrow> Sock \<Rightarrow> (int \<times> printed list \<times> Sock) option" where
  "run_commands_from_file data s = (case data of
     None \<Rightarrow> Some (- 1, [PMsg ''failed to open file''], s)
   | Some text_bytes \<Rightarrow> run_commands (List.map_filter line_cmd (lines_of text_bytes)) s)"

definition multi_req :: "Sock \<Rightarrow> (int \<times> printed list \<times> Sock) option" where
  "multi_req s = run_commands (filter (\<lambda>tokens. tokens \<noteq> []) (map (split_cmd \<circ> str_bytes)
     [''set k 1'', ''get k'', ''zadd z 10 a'', ''zadd z 20 b'', ''zquery z 0 0 0 10''])) s"

text \<open>\<open>main\<close> after \<open>connect\<close>, with the arguments behind the program's name and the file they name.\<close>

definition client_main :: "bytes list \<Rightarrow> bytes option \<Rightarrow> Sock \<Rightarrow> (int \<times> printed list \<times> Sock) option" where
  "client_main args data s =
     (if args = [str_bytes ''--multi''] then do { (_, out, s1) \<leftarrow> multi_req s; Some (0, out, s1) }
      else if args \<noteq> [] \<and> hd args = str_bytes ''--file'' then
        (if length args < 2 then Some (1, [PMsg ''--file requires a path''], s)
         else do { (err, out, s1) \<leftarrow> run_commands_from_file data s; Some (if err \<noteq> 0 then 1 else 0, out, s1) })
      else do {
        (err, out1, s1) \<leftarrow> client_send args s;
        (if err \<noteq> 0 then Some (0, out1, s1)
         else do { (_, out2, s2) \<leftarrow> client_read s1; Some (0, out1 @ out2, s2) })
      })"

text \<open>The whole \<open>main\<close>, with what \<open>socket\<close> and \<open>connect\<close> answer.\<close>

definition client_start :: "int \<Rightarrow> int \<Rightarrow> bytes list \<Rightarrow> bytes option \<Rightarrow> Sock \<Rightarrow> (int \<times> printed list \<times> Sock) outcome option" where
  "client_start fd rv args data s =
     (if fd < 0 then Some die
      else if rv \<noteq> 0 then Some die
      else map_option Returned (client_main args data s))"

end
