(* ===== verification/ClientSpec.thy ===== *)
theory ClientSpec
  imports ClientIO
begin

text \<open>The properties of the client: its transfer loops, its command lines, and whole sessions.\<close>

subsection \<open>Transfers\<close>

lemma write_all_cases:
  "\<exists>k. sk_out (snd (write_all bs s)) = sk_out s @ take k bs \<and> sk_in (snd (write_all bs s)) = sk_in s \<and>
    sk_cut (snd (write_all bs s)) = sk_cut s \<and>
    (fst (write_all bs s) = 0 \<and> k = length bs \<or> fst (write_all bs s) = - 1 \<and> k < length bs \<and> (\<exists>i. sk_cut s i = 0))"
proof (induction bs arbitrary: s rule: length_induct)
  case (1 bs)
  show ?case
  proof (cases "bs = []")
    case True
    then show ?thesis by (simp add: write_all.simps)
  next
    case False
    obtain r s1 where w: "sys_write bs s = (r, s1)" by fastforce
    show ?thesis
    proof (cases r)
      case None
      then have "sk_out s1 = sk_out s" "sk_in s1 = sk_in s" "sk_cut s1 = sk_cut s" "\<exists>i. sk_cut s i = 0"
        using w False by (auto simp: sys_write_def Let_def min_def split: if_splits)
      moreover have "write_all bs s = (- 1, s1)" using False w None by (subst write_all.simps) simp
      ultimately show ?thesis using False by (intro exI [of _ 0]) simp
    next
      case (Some j)
      have j: "0 < j" "j \<le> length bs" using sys_write_some w Some by blast+
      have s1: "sk_out s1 = sk_out s @ take j bs" "sk_in s1 = sk_in s" "sk_cut s1 = sk_cut s"
        using w Some by (auto simp: sys_write_def Let_def split: if_splits)
      have run: "write_all bs s = write_all (drop j bs) s1" using False w Some by (subst write_all.simps) simp
      have "length (drop j bs) < length bs" using j False by simp
      from "1.IH" [rule_format, OF this, of s1] obtain k where
        k: "sk_out (snd (write_all (drop j bs) s1)) = sk_out s1 @ take k (drop j bs)"
          "sk_in (snd (write_all (drop j bs) s1)) = sk_in s1" "sk_cut (snd (write_all (drop j bs) s1)) = sk_cut s1"
          "fst (write_all (drop j bs) s1) = 0 \<and> k = length (drop j bs) \<or>
           fst (write_all (drop j bs) s1) = - 1 \<and> k < length (drop j bs) \<and> (\<exists>i. sk_cut s1 i = 0)" by blast
      have "take j bs @ take k (drop j bs) = take (j + k) bs" by (simp add: take_add)
      then show ?thesis using run s1 k j by (intro exI [of _ "j + k"]) auto
    qed
  qed
qed

lemma read_full_cases:
  "\<exists>k. sk_in (snd (read_full n s)) = drop k (sk_in s) \<and> sk_out (snd (read_full n s)) = sk_out s \<and>
    sk_cut (snd (read_full n s)) = sk_cut s \<and>
    (fst (read_full n s) = Some (take n (sk_in s)) \<and> k = n \<and> n \<le> length (sk_in s) \<or>
     fst (read_full n s) = None \<and> k < n \<and> (length (sk_in s) < n \<or> (\<exists>i. sk_cut s i = 0)))"
proof (induction n arbitrary: s rule: less_induct)
  case (less n)
  show ?case
  proof (cases "n = 0")
    case True
    then show ?thesis by (simp add: read_full.simps)
  next
    case False
    obtain r s1 where w: "sys_read n s = (r, s1)" by fastforce
    show ?thesis
    proof (cases r)
      case None
      then have "sk_out s1 = sk_out s" "sk_in s1 = sk_in s" "sk_cut s1 = sk_cut s" "length (sk_in s) < n \<or> (\<exists>i. sk_cut s i = 0)"
        using w False by (auto simp: sys_read_def Let_def min_def split: if_splits)
      moreover have "read_full n s = (None, s1)" using False w None by (subst read_full.simps) simp
      ultimately show ?thesis using False by (intro exI [of _ 0]) simp
    next
      case (Some bs)
      have j: "0 < length bs" "length bs \<le> n" using sys_read_some w Some by blast+
      have s1: "bs = take (length bs) (sk_in s)" "length bs \<le> length (sk_in s)" "sk_out s1 = sk_out s"
        "sk_in s1 = drop (length bs) (sk_in s)" "sk_cut s1 = sk_cut s"
        using w Some by (auto simp: sys_read_def Let_def split: if_splits)
      have run: "read_full n s = (map_option ((@) bs) (fst (read_full (n - length bs) s1)), snd (read_full (n - length bs) s1))"
        using False w Some by (subst read_full.simps) (simp add: case_prod_beta)
      have "n - length bs < n" using j False by simp
      from less.IH [OF this, of s1] obtain k where
        k: "sk_in (snd (read_full (n - length bs) s1)) = drop k (sk_in s1)"
          "sk_out (snd (read_full (n - length bs) s1)) = sk_out s1" "sk_cut (snd (read_full (n - length bs) s1)) = sk_cut s1"
          "fst (read_full (n - length bs) s1) = Some (take (n - length bs) (sk_in s1)) \<and> k = n - length bs \<and> n - length bs \<le> length (sk_in s1) \<or>
           fst (read_full (n - length bs) s1) = None \<and> k < n - length bs \<and> (length (sk_in s1) < n - length bs \<or> (\<exists>i. sk_cut s1 i = 0))" by blast
      have "bs @ take (n - length bs) (drop (length bs) (sk_in s)) = take n (sk_in s)"
        using s1(1) j(2) take_add [of "length bs" "n - length bs" "sk_in s"] by simp
      then show ?thesis using run s1(2-) k j by (intro exI [of _ "length bs + k"]) (auto simp: add.commute)
    qed
  qed
qed

text \<open>A kernel that makes progress with every call.\<close>

abbreviation flowing :: "Sock \<Rightarrow> bool" where
  "flowing s \<equiv> \<forall>i. 0 < sk_cut s i"

lemma write_all_run:
  assumes "flowing s"
  shows "\<exists>s'. write_all bs s = (0, s') \<and> sk_out s' = sk_out s @ bs \<and> sk_in s' = sk_in s \<and> sk_cut s' = sk_cut s"
proof -
  obtain rv s' where w: "write_all bs s = (rv, s')" by fastforce
  have no: "\<not> (\<exists>i. sk_cut s i = 0)" using assms by (metis less_numeral_extra(3))
  obtain k where "sk_out s' = sk_out s @ take k bs" "sk_in s' = sk_in s" "sk_cut s' = sk_cut s" "rv = 0" "k = length bs"
    using write_all_cases [of bs s] no unfolding w fst_conv snd_conv by blast
  then show ?thesis using w by simp
qed

lemma read_full_run:
  assumes "flowing s" "n \<le> length (sk_in s)"
  shows "\<exists>s'. read_full n s = (Some (take n (sk_in s)), s') \<and> sk_in s' = drop n (sk_in s) \<and> sk_out s' = sk_out s \<and> sk_cut s' = sk_cut s"
proof -
  obtain r s' where w: "read_full n s = (r, s')" by fastforce
  have no: "\<not> (\<exists>i. sk_cut s i = 0)" using assms(1) by (metis less_numeral_extra(3))
  have "\<not> length (sk_in s) < n" using assms(2) by simp
  then obtain k where "sk_in s' = drop k (sk_in s)" "sk_out s' = sk_out s" "sk_cut s' = sk_cut s" "r = Some (take n (sk_in s))" "k = n"
    using read_full_cases [of n s] no unfolding w fst_conv snd_conv by blast
  then show ?thesis using w by simp
qed

text \<open>On a complete frame the client does what \<open>read_res\<close> does on the stream.\<close>

lemma client_read_run:
  assumes "flowing s" "sk_in s = frame (tlv_bytes v) @ rest"
  shows "\<exists>rv s'. client_read s = Some (rv, printed_of (visible v), s') \<and> 0 \<le> rv \<and> sk_in s' = rest \<and> sk_out s' = sk_out s \<and> sk_cut s' = sk_cut s"
proof -
  let ?body = "tlv_bytes (visible v)"
  have fr: "frame (tlv_bytes v) = le32 (w32 (length ?body)) @ ?body" "length ?body \<le> k_max_msg"
    by (auto simp: frame_def limited_def visible_def too_big_def str_bytes_def k_max_msg_def)
  have small: "length ?body < 2 ^ 31" using fr(2) by (simp add: k_max_msg_def)
  obtain s1 where s1: "read_full 4 s = (Some (le32 (w32 (length ?body))), s1)" "sk_in s1 = ?body @ rest" "sk_out s1 = sk_out s" "sk_cut s1 = sk_cut s"
    using read_full_run [OF assms(1), of 4] assms(2) fr(1) by auto
  have "flowing s1" using assms(1) s1(4) by simp
  from read_full_run [OF this, of "length ?body"] s1 obtain s2 where
    s2: "read_full (length ?body) s1 = (Some ?body, s2)" "sk_in s2 = rest" "sk_out s2 = sk_out s" "sk_cut s2 = sk_cut s" by auto
  have len: "unat (of_le (le32 (w32 (length ?body))) :: u32) = length ?body" using small by simp
  have pr: "print_response ?body = Some (int (length ?body), printed_of (visible v))"
    using print_value [of "visible v" "[]"] small by simp
  have "client_read s = Some (int (length ?body), printed_of (visible v), s2)"
    using s1(1) s2(1) len pr fr(2) by (simp add: client_read_def Let_def)
  then show ?thesis using s2 by auto
qed

lemma client_send_run:
  assumes "sendable cmd" "flowing s"
  shows "\<exists>s'. client_send cmd s = Some (0, [], s') \<and> sk_out s' = sk_out s @ request cmd \<and> sk_in s' = sk_in s \<and> sk_cut s' = sk_cut s"
proof -
  have "send_req cmd = Some (Send (request cmd))" using assms(1) by (simp add: sendable_def send_req_run)
  then show ?thesis using write_all_run [OF assms(2), of "request cmd"] by (auto simp: client_send_def)
qed

lemma run_commands_run:
  "\<forall>cmd\<in>set cmds. sendable cmd \<Longrightarrow> length vs = length cmds \<Longrightarrow> flowing s \<Longrightarrow> sk_in s = frames vs @ rest \<Longrightarrow>
    \<exists>s'. run_commands cmds s = Some (0, concat (map (printed_of \<circ> visible) vs), s') \<and>
      sk_out s' = sk_out s @ concat (map request cmds) \<and> sk_in s' = rest"
proof (induction cmds arbitrary: vs s)
  case (Cons cmd cmds)
  then obtain v ws where vs: "vs = v # ws" by (cases vs) auto
  obtain s1 where s1: "client_send cmd s = Some (0, [], s1)" "sk_out s1 = sk_out s @ request cmd" "sk_in s1 = sk_in s" "sk_cut s1 = sk_cut s"
    using client_send_run Cons.prems(1,3) by (metis list.set_intros(1))
  have "flowing s1" "sk_in s1 = frame (tlv_bytes v) @ frames ws @ rest" using Cons.prems(3,4) s1 vs by simp_all
  from client_read_run [OF this] obtain rv s2 where
    s2: "client_read s1 = Some (rv, printed_of (visible v), s2)" "0 \<le> rv" "sk_in s2 = frames ws @ rest" "sk_out s2 = sk_out s1" "sk_cut s2 = sk_cut s1"
    by blast
  have "flowing s2" using Cons.prems(3) s1(4) s2(5) by simp
  have "\<forall>cmd\<in>set cmds. sendable cmd" "length ws = length cmds" using Cons.prems(1,2) vs by simp_all
  from Cons.IH [OF this \<open>flowing s2\<close> s2(3)] obtain s' where
    "run_commands cmds s2 = Some (0, concat (map (printed_of \<circ> visible) ws), s')"
    "sk_out s' = sk_out s2 @ concat (map request cmds)" "sk_in s' = rest" by blast
  then show ?case using s1(1,2) s2 vs by (intro exI [of _ s']) (simp add: comp_def)
qed simp


subsection \<open>Command lines\<close>

lemma split_space: "is_space b \<Longrightarrow> split_cmd (b # line) = split_cmd line"
  by (simp add: split_cmd.simps [of "b # line"] split_cmd.simps [of line])

lemma split_spaces: "\<forall>b\<in>set bs. is_space b \<Longrightarrow> split_cmd (bs @ line) = split_cmd line"
  by (induction bs) (simp_all add: split_space)

lemma split_nil: "split_cmd [] = []"
  by (simp add: split_cmd.simps)

definition is_token :: "bytes \<Rightarrow> bool" where
  "is_token t \<longleftrightarrow> t \<noteq> [] \<and> (\<forall>b\<in>set t. \<not> is_space b)"

lemma split_token:
  assumes "is_token t" "rest = [] \<or> is_space (hd rest)"
  shows "split_cmd (t @ rest) = t # split_cmd rest"
proof -
  have d: "dropWhile is_space (t @ rest) = t @ rest" using assms(1) by (cases t) (auto simp: is_token_def)
  have "\<forall>b\<in>set t. \<not> is_space b" using assms(1) by (simp add: is_token_def)
  then have "takeWhile (\<lambda>b. \<not> is_space b) (t @ rest) = t" "dropWhile (\<lambda>b. \<not> is_space b) (t @ rest) = rest"
    using assms(2) by (cases rest; simp add: takeWhile_append2 dropWhile_append2)+
  moreover have "t @ rest \<noteq> []" using assms(1) by (simp add: is_token_def)
  ultimately show ?thesis using split_cmd.simps [of "t @ rest"] d by (simp add: Let_def)
qed

text \<open>
  Tokens with blanks between them: \<open>bs\<close> are the blanks behind each token, of which the last token
  need not have any.
\<close>

fun spaced :: "(bytes \<times> bytes) list \<Rightarrow> bytes" where
  "spaced [] = []"
| "spaced ((t, bs) # ts) = t @ bs @ spaced ts"

fun separated :: "(bytes \<times> bytes) list \<Rightarrow> bool" where
  "separated [] = True"
| "separated ((t, bs) # ts) = (is_token t \<and> (\<forall>b\<in>set bs. is_space b) \<and> (bs = [] \<longrightarrow> ts = []) \<and> separated ts)"

lemma split_spaced: "separated ts \<Longrightarrow> split_cmd (spaced ts) = map fst ts"
proof (induction ts)
  case (Cons p ts)
  obtain t bs where p: "p = (t, bs)" by fastforce
  have t: "is_token t" "\<forall>b\<in>set bs. is_space b" "bs = [] \<longrightarrow> ts = []" "separated ts" using Cons.prems p by auto
  have "split_cmd (t @ bs @ spaced ts) = t # split_cmd (bs @ spaced ts)"
    using t by (intro split_token) (cases bs; simp)+
  then show ?case using Cons.IH [OF t(4)] split_spaces [OF t(2)] p by simp
qed (simp add: split_nil)

lemma spaced_start:
  assumes "separated ((t, bs) # ts)" "rest = spaced ((t, bs) # ts)"
  shows "rest \<noteq> []" "\<not> is_space (hd rest)"
  using assms by (cases t; simp add: is_token_def)+

lemma split_tokens: "t \<in> set (split_cmd line) \<Longrightarrow> is_token t"
proof (induction line rule: split_cmd.induct)
  case (1 line)
  let ?l = "dropWhile is_space line"
  show ?case
  proof (cases "?l = []")
    case True
    then show ?thesis using "1.prems" by (subst (asm) split_cmd.simps) simp
  next
    case False
    have "\<not> is_space (hd ?l)" using False hd_dropWhile by blast
    then have "is_token (takeWhile (\<lambda>b. \<not> is_space b) ?l)"
      using False by (cases ?l) (auto simp: is_token_def dest: set_takeWhileD)
    moreover have "split_cmd line = takeWhile (\<lambda>b. \<not> is_space b) ?l # split_cmd (dropWhile (\<lambda>b. \<not> is_space b) ?l)"
      using False by (subst split_cmd.simps) (simp add: Let_def)
    ultimately show ?thesis using "1.IH" [OF refl False] "1.prems" by auto
  qed
qed


text \<open>Every line is such a text.\<close>

lemma line_shape:
  "\<exists>lead ts. line = lead @ spaced ts \<and> (\<forall>b\<in>set lead. is_space b) \<and> separated ts"
proof (induction line rule: split_cmd.induct)
  case (1 line)
  let ?lead = "takeWhile is_space line" and ?l = "dropWhile is_space line"
  have lead: "\<forall>b\<in>set ?lead. is_space b" by (auto dest: set_takeWhileD)
  show ?case
  proof (cases "?l = []")
    case True
    then have "line = ?lead @ spaced []" using takeWhile_dropWhile_id [of is_space line] by (simp only: spaced.simps)
    then show ?thesis using lead separated.simps(1) by blast
  next
    case False
    let ?t = "takeWhile (\<lambda>b. \<not> is_space b) ?l" and ?r = "dropWhile (\<lambda>b. \<not> is_space b) ?l"
    have "\<not> is_space (hd ?l)" using False hd_dropWhile by blast
    then have t: "is_token ?t" using False by (cases ?l) (auto simp: is_token_def dest: set_takeWhileD)
    obtain bs ts where r: "?r = bs @ spaced ts" "\<forall>b\<in>set bs. is_space b" "separated ts"
      using "1.IH" [OF refl False] by blast
    have "bs = [] \<longrightarrow> ts = []"
    proof (intro impI, rule ccontr)
      assume "bs = []" "ts \<noteq> []"
      then obtain u cs us where "ts = (u, cs) # us" by (cases ts) auto
      then have "?r \<noteq> []" "\<not> is_space (hd ?r)" using spaced_start [of u cs us ?r] r \<open>bs = []\<close> by simp_all
      then show False using hd_dropWhile [of "\<lambda>b. \<not> is_space b" ?l] by simp
    qed
    then have "separated ((?t, bs) # ts)" using t r(2,3) by simp
    moreover have "line = ?lead @ spaced ((?t, bs) # ts)"
      using r(1) takeWhile_dropWhile_id [of is_space line] takeWhile_dropWhile_id [of "\<lambda>b. \<not> is_space b" ?l] by simp
    ultimately show ?thesis using lead by blast
  qed
qed


subsection \<open>Properties\<close>

text \<open>
  C35. The transfer loops under any behaviour of the kernel: \<open>write_all\<close> returns 0 only after every
  byte was written, in order, and after an error a proper prefix was written; \<open>read_full\<close> returns the next \<open>n\<close>
  bytes and consumes exactly those, and fails only if the stream is shorter or a call fails. Both end.
\<close>

theorem transfers_exact:
  "(\<exists>k. sk_out (snd (write_all bs s)) = sk_out s @ take k bs \<and>
     (fst (write_all bs s) = 0 \<and> k = length bs \<or> fst (write_all bs s) = - 1 \<and> k < length bs \<and> (\<exists>i. sk_cut s i = 0))) \<and>
   (\<exists>k. sk_in (snd (read_full n s)) = drop k (sk_in s) \<and>
     (fst (read_full n s) = Some (take n (sk_in s)) \<and> k = n \<and> n \<le> length (sk_in s) \<or>
      fst (read_full n s) = None \<and> k < n \<and> (length (sk_in s) < n \<or> (\<exists>i. sk_cut s i = 0))))"
  using write_all_cases [of bs s] read_full_cases [of n s] by blast

text \<open>Two bytes written by two calls.\<close>

theorem transfers_exact_witness:
  "\<exists>s'. write_all [1, 2] \<lparr>sk_in = [], sk_out = [], sk_cut = (\<lambda>_. 1), sk_calls = 0\<rparr> = (0, s') \<and> sk_out s' = [1, 2]"
  using transfers_exact [of "[1, 2]" "\<lparr>sk_in = [], sk_out = [], sk_cut = (\<lambda>_. 1), sk_calls = 0\<rparr>" 0]
  by (cases "write_all [1, 2] \<lparr>sk_in = [], sk_out = [], sk_cut = (\<lambda>_. 1), sk_calls = 0\<rparr>") auto

text \<open>
  C36. Splitting a line gives back the words that were joined with any white space, whether some
  follows the last word or not; every line is of that shape, so this says what the split of every line is. Nothing
  but non-empty words without white space ever comes out.
\<close>

theorem split_cmd_roundtrip:
  assumes "separated ts" and "\<forall>b\<in>set lead. is_space b"
  shows "split_cmd (lead @ spaced ts) = map fst ts \<and> (\<forall>t\<in>set (split_cmd line). is_token t) \<and>
    (\<exists>bs us. line = bs @ spaced us \<and> (\<forall>b\<in>set bs. is_space b) \<and> separated us \<and> split_cmd line = map fst us)"
proof -
  obtain bs us where l: "line = bs @ spaced us" "\<forall>b\<in>set bs. is_space b" "separated us" using line_shape by blast
  then have "split_cmd line = map fst us" using split_spaces [OF l(2)] split_spaced by simp
  moreover have "split_cmd (lead @ spaced ts) = map fst ts" using split_spaces [OF assms(2)] split_spaced [OF assms(1)] by simp
  ultimately show ?thesis using l split_tokens by blast
qed

theorem split_cmd_roundtrip_witness: "split_cmd (str_bytes ''  get  k'') = [str_bytes ''get'', str_bytes ''k'']"
  using split_cmd_roundtrip [of "[(str_bytes ''get'', [32, 32]), (str_bytes ''k'', [])]" "[32, 32]" "[]"]
  by (simp add: str_bytes_def is_token_def is_space_def)

text \<open>
  C19. A file of commands: the client sends the commands of its lines, without blank lines and
  comments, in order; the server's loop executes them; the client reads every reply as it comes, in whatever portions,
  prints exactly the replies and reports success.
\<close>

theorem file_session:
  assumes "cmds = List.map_filter line_cmd (lines_of data)" and "\<forall>cmd\<in>set cmds. sendable cmd"
    and "repr (length cmds + n) g A" and "bufs_ok conn" and "content (cn_incoming conn) = concat (map request cmds)"
    and "content (cn_outgoing conn) = []"
  shows "\<exists>g' A' vs conn'. process_requests do_request g conn = Some (Returned (g', conn')) \<and> session db_spec cmds A vs A' \<and>
    (\<forall>s. flowing s \<and> sk_in s = content (cn_outgoing conn') \<longrightarrow>
      (\<exists>s'. run_commands_from_file (Some data) s = Some (0, concat (map (printed_of \<circ> visible) vs), s') \<and>
        sk_out s' = sk_out s @ content (cn_incoming conn) \<and> sk_in s' = []))"
proof -
  have inc: "content (cn_incoming conn) = concat (map request cmds) @ []" using assms(5) by simp
  from process_requests_run [OF do_request_responds assms(3,4) inc assms(2) needs_more_nil]
  obtain g' A' vs conn' where r: "process_requests do_request g conn = Some (Returned (g', conn'))"
    "session db_spec cmds A vs A'" "content (cn_outgoing conn') = content (cn_outgoing conn) @ frames vs" by blast
  have "\<exists>s'. run_commands_from_file (Some data) s = Some (0, concat (map (printed_of \<circ> visible) vs), s') \<and>
      sk_out s' = sk_out s @ content (cn_incoming conn) \<and> sk_in s' = []"
    if "flowing s" "sk_in s = content (cn_outgoing conn')" for s
  proof -
    have "sk_in s = frames vs @ []" using that(2) r(3) assms(6) by simp
    from run_commands_run [OF assms(2) session_length [OF r(2)] that(1) this]
    show ?thesis using assms(1,5) by (simp add: run_commands_from_file_def)
  qed
  then show ?thesis using r(1,2) by blast
qed

text \<open>A file with a comment, a blank line, and the commands \<open>set k v\<close> and \<open>get k\<close>.\<close>

definition sample_file :: bytes where
  "sample_file = str_bytes ''# demo'' @ [10] @ str_bytes ''set k v'' @ [10, 10] @ str_bytes '' get  k''"

lemma sample_lines: "lines_of sample_file = [str_bytes ''# demo'', str_bytes ''set k v'', [], str_bytes '' get  k'']"
  by (simp add: sample_file_def str_bytes_def lines_of.simps)

lemma sample_cmds: "set_get = List.map_filter line_cmd (lines_of sample_file)"
proof -
  have "line_cmd (str_bytes ''# demo'') = None" "line_cmd [] = None"
    by (simp_all add: line_cmd_def trim_def str_bytes_def is_blank_def Let_def)
  moreover have "line_cmd (str_bytes ''set k v'') = Some [str_bytes ''set'', [107], [118]]"
    "line_cmd (str_bytes '' get  k'') = Some [str_bytes ''get'', [107]]"
    by (simp_all add: line_cmd_def trim_def str_bytes_def is_blank_def is_space_def split_cmd.simps Let_def)
  ultimately show ?thesis by (simp add: sample_lines set_get_def List.map_filter_def)
qed

theorem file_session_witness:
  "\<exists>g' conn'. process_requests do_request (init_db (\<lambda>_. time_0)) (sample_conn (concat (map request set_get))) = Some (Returned (g', conn')) \<and>
    (\<exists>s'. run_commands_from_file (Some sample_file)
        \<lparr>sk_in = content (cn_outgoing conn'), sk_out = [], sk_cut = (\<lambda>_. 1), sk_calls = 0\<rparr> = Some (0, [PNil, PStr [118]], s'))"
proof -
  have all: "\<forall>cmd\<in>set set_get. sendable cmd"
    by (simp add: set_get_def sendable_def req_body_def str_bytes_def k_max_msg_def k_max_args_def)
  have "repr (length set_get + 0) (init_db (\<lambda>_. time_0)) (empty_ks (\<lambda>_. time_0))" by (rule init_db_repr) (simp add: set_get_def)
  from file_session [OF sample_cmds all this sample_conn_ok(1) sample_conn_ok(2,3)]
  obtain g' A' vs conn' where
    r: "process_requests do_request (init_db (\<lambda>_. time_0)) (sample_conn (concat (map request set_get))) = Some (Returned (g', conn'))"
      "session db_spec set_get (empty_ks (\<lambda>_. time_0)) vs A'" and
    c: "\<forall>s. flowing s \<and> sk_in s = content (cn_outgoing conn') \<longrightarrow>
      (\<exists>s'. run_commands_from_file (Some sample_file) s = Some (0, concat (map (printed_of \<circ> visible) vs), s') \<and>
        sk_out s' = sk_out s @ content (cn_incoming (sample_conn (concat (map request set_get)))) \<and> sk_in s' = [])" by blast
  have "vs = [VNil, VStr [118]]"
    using r(2) by (auto simp: set_get_def session_simps db_spec_def exec_simps exec_set_def exec_get_def empty_ks_def)
  then have out: "concat (map (printed_of \<circ> visible) vs) = [PNil, PStr [118]]"
    by (simp add: visible_def k_max_msg_def c_str_def)
  let ?s = "\<lparr>sk_in = content (cn_outgoing conn'), sk_out = [], sk_cut = (\<lambda>_. 1), sk_calls = 0\<rparr>"
  have "flowing ?s \<and> sk_in ?s = content (cn_outgoing conn')" by simp
  with c out have "\<exists>s'. run_commands_from_file (Some sample_file) ?s = Some (0, [PNil, PStr [118]], s')" by metis
  then show ?thesis using r(1) by blast
qed

end
