(* ===== verification/Sessions.thy ===== *)
theory Sessions
  imports ServerSpec ClientSpec
begin

text \<open>
  The clients of the running server: the streams of a connection, which the history of
  the server explains, as \<open>send_all\<close> and \<open>read_all\<close> of the client write and read them.
\<close>

lemma read_history:
  "read_all (length ts) (frames (map snd ts)) = Some (map (printed_of \<circ> visible \<circ> snd) ts)"
  using read_all_run [of "map snd ts" "[]"] by (simp add: comp_assoc)


subsection \<open>Requests are answered\<close>

lemma requests_length: "length cmds \<le> length (concat (map request cmds))"
  by (induction cmds) (simp_all add: request_def)

lemma whole_requests_run:
  assumes "server_inv lfd {} (length data + n) A sv xs" and "reported (sv_net sv) ev"
    and "fd_conn sv (ev_fd ev) = Some a" and "sv_conn sv a = Some c"
    and "ev_in ev" and "\<not> ev_err ev" and "ev_rd ev = RdBytes data" and "ev_wr1 ev = WrDone m"
    and "content (cn_incoming c) @ data = concat (map request cmds) @ rest" and "\<forall>cmd\<in>set cmds. sendable cmd" and "needs_more rest"
  shows "\<exists>sv' c' vs A'. handle_event fresh lfd ev sv = Some (Returned sv') \<and> session db_spec cmds (ks_step A) vs A' \<and>
    server_inv lfd {} n A' sv' (remove1 a xs @ [a]) \<and> fd_conn sv' (ev_fd ev) = Some a \<and> sv_conn sv' a = Some c' \<and>
    nt_sock (sv_net sv') = nt_sock (sv_net sv) \<and>
    fd_read (sv_net sv') (ev_fd ev) = fd_read (sv_net sv) (ev_fd ev) @ data \<and> content (cn_incoming c') = rest \<and>
    fd_sent (sv_net sv') (ev_fd ev) = fd_sent (sv_net sv) (ev_fd ev) @ take m (frames vs) \<and> content (cn_outgoing c') = drop m (frames vs)"
proof -
  note d = server_invD [OF assms(1)]
  have a: "a \<in> set xs" "cn_fd c = ev_fd ev" using conns_invD(6) [OF d(1) assms(3)] assms(4) by auto
  have c: "conn_ok c (sv_net sv)" "cn_fd c \<noteq> lfd" using conns_invD(5) [OF d(1) a(1)] assms(4) unfolding ready_conn_def by auto
  have int: "nt_interest (sv_net sv) (ev_fd ev) = Some (cn_want_read c, cn_want_write c)" using c(1) a(2) by (simp add: conn_ok_def)
  have rd: "cn_want_read c" "\<not> ev_out ev" "ev_md1 ev"
    using assms(2,5) int c(1) by (auto simp: reported_def mod_ok_def conn_ok_def)
  let ?c = "c\<lparr>cn_last_active_ms := ks_now A\<rparr>" and ?ys = "remove1 a xs @ [a]"
  obtain sv1 where t: "conn_touch sv a = Some sv1" "server_inv lfd {} (length data + n) (ks_step A) sv1 ?ys"
    "sv_net sv1 = sv_net sv" "sv_conn sv1 = (sv_conn sv)(a \<mapsto> ?c)"
    using conn_touch_run [OF assms(1) a(1) assms(4)] by blast
  have c1: "a \<in> set ?ys" "sv_conn sv1 a = Some ?c" "conn_ok ?c (sv_net sv1)" "cn_want_read ?c" "cn_fd ?c = ev_fd ev"
    using t(3,4) c(1) rd(1) a(2) by (simp_all add: conn_ok_def bufs_ok_def)
  let ?room = "n + sum_list (map (unread (sv_conn sv1)) (remove1 a ?ys))"
  obtain k where k: "repr k (sv_db sv1) (ks_step A)" "length data + n + sum_list (map (unread (sv_conn sv1)) ?ys) \<le> k"
    using server_invD(4) [OF t(2)] by blast
  have "length (content (cn_incoming c)) + length data = length (concat (map request cmds)) + length rest"
    using arg_cong [OF assms(9), of length] by simp
  moreover have "unread (sv_conn sv1) a = length (content (cn_incoming c))" using c1(2) by (simp add: unread_def)
  ultimately have "length cmds + (length rest + ?room) \<le> k"
    using k(2) sum_unread_remove [OF c1(1), of "sv_conn sv1"] requests_length [of cmds] by linarith
  then have r: "repr (length cmds + (length rest + ?room)) (sv_db sv1) (ks_step A)" using repr_room k(1) by blast
  have data: "content (cn_incoming ?c) @ data = concat (map request cmds) @ rest" using assms(9) by simp
  from handle_read_whole [OF do_request_responds r c1(3,4) data assms(10,11), of m True, unfolded conn_left_registered] obtain g c' net' vs A' where
    h: "handle_read do_request (sv_db sv1) (RdBytes data) (WrDone m) True ?c (sv_net sv1) = Some (Returned (g, c', net'))"
      "session db_spec cmds (ks_step A) vs A'" "repr (length rest + ?room) g A'" "net_frame (cn_fd ?c) (sv_net sv1) net'"
      "cn_fd c' = cn_fd ?c" "cn_last_active_ms c' = cn_last_active_ms ?c" "\<not> cn_want_close c'" "cn_want_close c' \<or> conn_ok c' net'" "content (cn_incoming c') = rest"
      "fd_read net' (cn_fd ?c) = fd_read (sv_net sv1) (cn_fd ?c) @ data"
      "fd_sent net' (cn_fd ?c) = fd_sent (sv_net sv1) (cn_fd ?c) @ take m (frames vs)" "content (cn_outgoing c') = drop m (frames vs)" by blast
  let ?sv = "sv1\<lparr>sv_db := g, sv_conn := (sv_conn sv1)(a \<mapsto> c'), sv_net := net'\<rparr>"
  have "length (content (cn_incoming c')) + ?room \<le> length rest + ?room" using h(9) by simp
  from settledI [OF t(2) c1(1,2) h(5,4,8,6) session_later [OF h(2)] h(3) this]
  have s: "settled lfd n A' ?sv ?ys a (cn_fd ?c)" by blast
  have open_c: "cn_want_close c' = False" using h(7) by simp
  then have inv: "server_inv lfd {} n A' ?sv ?ys" using s by (simp add: settled_def)
  have "conn_readable (ev_rd ev) (ev_wr1 ev) (ev_md1 ev) sv1 a = Some (Returned ?sv)"
    using c1(2,4) h(1) assms(7,8) rd(3) by (simp add: conn_readable_def)
  then have "handle_event fresh lfd ev sv = Some (Returned ?sv)"
    using assms(3,5,6) rd(2) t(1) open_c a(2) c(2) by (simp add: handle_event_def)
  moreover have "fd_conn ?sv (ev_fd ev) = Some a"
    using conns_apart(1) [OF server_invD(1) [OF inv], of a c'] h(5) c1(5) by simp
  ultimately show ?thesis using h(2,9-12) inv c1(5) t(3) net_frame_sock [OF h(4)]
    by (intro exI [of _ ?sv] exI [of _ c'] exI [of _ vs] exI [of _ A']) simp
qed

text \<open>
  C5. A client is served at once. When an event brings complete requests to a connection that is reading, whatever
  has arrived before of the first of them, the handler of the event runs the commands, writes as
  much of the replies as the kernel takes, keeps the rest for the next writable event, and leaves the
  connection open, as the last one in the idle list, and the server consistent.
\<close>

theorem requests_answered:
  assumes "server_inv lfd {} (length data + n) A sv xs" and "reported (sv_net sv) ev"
    and "fd_conn sv (ev_fd ev) = Some a" and "sv_conn sv a = Some c"
    and "ev_in ev" and "\<not> ev_err ev" and "ev_rd ev = RdBytes data" and "ev_wr1 ev = WrDone m"
    and "content (cn_incoming c) @ data = concat (map request cmds) @ rest" and "\<forall>cmd\<in>set cmds. sendable cmd" and "needs_more rest"
  shows "\<exists>sv' c' vs A'. handle_event fresh lfd ev sv = Some (Returned sv') \<and> session db_spec cmds (ks_step A) vs A' \<and>
    server_inv lfd {} n A' sv' (remove1 a xs @ [a]) \<and> fd_conn sv' (ev_fd ev) = Some a \<and> sv_conn sv' a = Some c' \<and>
    nt_sock (sv_net sv') = nt_sock (sv_net sv) \<and>
    fd_read (sv_net sv') (ev_fd ev) = fd_read (sv_net sv) (ev_fd ev) @ data \<and> content (cn_incoming c') = rest \<and>
    fd_sent (sv_net sv') (ev_fd ev) = fd_sent (sv_net sv) (ev_fd ev) @ take m (frames vs) \<and> content (cn_outgoing c') = drop m (frames vs)"
  using whole_requests_run [OF assms] .

text \<open>
  C6. Output drains. An event that says that a connection with waiting output can be written sends the bytes that the
  kernel takes from the front of this output and keeps the others; the connection stays open, as the last one
  in the idle list, and it goes back to reading exactly when nothing is left. Nothing else changes: of the other
  connections and descriptors nothing at all, of the kernel's side only the registration and the bytes
  sent of this descriptor, of the database only that the clock was read once, and the input is left as it is.
\<close>

theorem output_drains:
  assumes "server_inv lfd {} n A sv xs" and "reported (sv_net sv) ev"
    and "fd_conn sv (ev_fd ev) = Some a" and "sv_conn sv a = Some c"
    and "ev_out ev" and "\<not> ev_err ev" and "ev_wr2 ev = WrDone m"
  shows "\<exists>sv' c'. handle_event fresh lfd ev sv = Some (Returned sv') \<and>
    server_inv lfd {} n (ks_step A) sv' (remove1 a xs @ [a]) \<and> fd_conn sv' = fd_conn sv \<and>
    sv_conn sv' = (sv_conn sv)(a \<mapsto> c') \<and> sv_db sv' = snd (get_monotonic_msec (sv_db sv)) \<and> sv_next sv' = sv_next sv \<and>
    sv_net sv' = (sv_net sv)
      \<lparr>nt_interest := (nt_interest (sv_net sv))(ev_fd ev \<mapsto> (length (content (cn_outgoing c)) \<le> m, m < length (content (cn_outgoing c)))),
       nt_sent := (nt_sent (sv_net sv))(nt_sock (sv_net sv) (ev_fd ev) := fd_sent (sv_net sv) (ev_fd ev) @ take m (content (cn_outgoing c)))\<rparr> \<and>
    content (cn_outgoing c') = drop m (content (cn_outgoing c)) \<and> cn_incoming c' = cn_incoming c \<and>
    cn_fd c' = cn_fd c \<and> cn_last_active_ms c' = ks_now A \<and> \<not> cn_want_close c'"
proof -
  note d = server_invD [OF assms(1)]
  have a: "a \<in> set xs" "cn_fd c = ev_fd ev" using conns_invD(6) [OF d(1) assms(3)] assms(4) by auto
  have c: "conn_ok c (sv_net sv)" "cn_fd c \<noteq> lfd" using conns_invD(5) [OF d(1) a(1)] assms(4) unfolding ready_conn_def by auto
  have int: "nt_interest (sv_net sv) (ev_fd ev) = Some (cn_want_read c, cn_want_write c)" using c(1) a(2) by (simp add: conn_ok_def)
  have wr: "cn_want_write c" "\<not> ev_in ev" "ev_md2 ev"
    using assms(2,5) int c(1) by (auto simp: reported_def mod_ok_def conn_ok_def)
  let ?c = "c\<lparr>cn_last_active_ms := ks_now A\<rparr>" and ?ys = "remove1 a xs @ [a]" and ?out = "content (cn_outgoing c)"
  obtain sv1 where t: "conn_touch sv a = Some sv1" "server_inv lfd {} n (ks_step A) sv1 ?ys"
    "sv_net sv1 = sv_net sv" "sv_conn sv1 = (sv_conn sv)(a \<mapsto> ?c)" "sv_next sv1 = sv_next sv"
    "sv_db sv1 = snd (get_monotonic_msec (sv_db sv))" "fd_conn sv1 = fd_conn sv"
    using conn_touch_run [OF assms(1) a(1) assms(4)] by blast
  have c1: "a \<in> set ?ys" "sv_conn sv1 a = Some ?c" "conn_ok ?c (sv_net sv1)" "cn_fd ?c = ev_fd ev"
    using t(3,4) c(1) a(2) by (simp_all add: conn_ok_def bufs_ok_def)
  have w: "bufs_ok ?c" "cn_want_read ?c = False" "cn_want_write ?c = True" "content (cn_outgoing ?c) \<noteq> []"
    "cn_want_close ?c \<or> needs_more (content (cn_incoming ?c))" "0 \<le> nt_epoll_fd (sv_net sv1)" "nt_interest (sv_net sv1) (cn_fd ?c) \<noteq> None"
    using c1(3) wr(1) by (simp_all add: conn_ok_def)
  have "WrDone m \<noteq> WrPipe" by simp
  from handle_write_run [OF w this, of True, unfolded conn_left_registered] obtain c' net' where
    h: "handle_write (WrDone m) True ?c (sv_net sv1) = Some (Returned (c', net'))" "net_frame (cn_fd ?c) (sv_net sv1) net'" "cn_fd c' = cn_fd ?c"
      "cn_last_active_ms c' = cn_last_active_ms ?c" "cn_incoming c' = cn_incoming ?c" "cn_want_close c' \<or> conn_ok c' net'"
      "nt_read net' = nt_read (sv_net sv1)"
      "fd_sent net' (cn_fd ?c) @ content (cn_outgoing c') = fd_sent (sv_net sv1) (cn_fd ?c) @ content (cn_outgoing ?c)"
      "cn_want_close c' = cn_want_close ?c" "content (cn_outgoing c') = drop m (content (cn_outgoing ?c))" by auto
  have ok: "conn_ok c' net'" "cn_want_close c' = False" using h(6,9) c1(3) by (simp_all add: conn_ok_def)
  have "fd_sent net' (ev_fd ev) @ drop m ?out = (fd_sent (sv_net sv) (ev_fd ev) @ take m ?out) @ drop m ?out"
    using h(8,10) c1(4) t(3) by simp
  then have sent: "fd_sent net' (ev_fd ev) = fd_sent (sv_net sv) (ev_fd ev) @ take m ?out" by (simp only: append_same_eq)
  have int': "nt_interest net' (ev_fd ev) = Some (length ?out \<le> m, m < length ?out)"
    using ok(1) h(3,10) c1(4) by (auto simp: conn_ok_def)
  have net: "net' = (sv_net sv)\<lparr>nt_interest := (nt_interest (sv_net sv))(ev_fd ev \<mapsto> (length ?out \<le> m, m < length ?out)),
      nt_sent := (nt_sent (sv_net sv))(nt_sock (sv_net sv) (ev_fd ev) := fd_sent (sv_net sv) (ev_fd ev) @ take m ?out)\<rparr>"
    using h(2,7) sent int' unfolding net_frame_def c1(4) t(3) by (intro Net.equality) (auto simp: fun_eq_iff)
  let ?sv = "sv1\<lparr>sv_db := sv_db sv1, sv_conn := (sv_conn sv1)(a \<mapsto> c'), sv_net := net'\<rparr>"
  obtain k where k: "repr k (sv_db sv1) (ks_step A)" "n + sum_list (map (unread (sv_conn sv1)) ?ys) \<le> k"
    using server_invD(4) [OF t(2)] by blast
  have "length (content (cn_incoming c')) + (n + sum_list (map (unread (sv_conn sv1)) (remove1 a ?ys))) \<le> k"
    using k(2) sum_unread_remove [OF c1(1), of "sv_conn sv1"] c1(2) h(5) by (simp add: unread_def)
  from settledI [OF t(2) c1(1,2) h(3,2,6,4) later_refl k(1) this]
  have "settled lfd n (ks_step A) ?sv ?ys a (cn_fd ?c)" by blast
  then have inv: "server_inv lfd {} n (ks_step A) ?sv ?ys" using ok(2) by (simp add: settled_def)
  have "conn_writable (ev_wr2 ev) (ev_md2 ev) sv1 a = Some (Returned ?sv)"
    using c1(2) w(3) h(1) assms(7) wr(3) by (simp add: conn_writable_def)
  then have run: "handle_event fresh lfd ev sv = Some (Returned ?sv)"
    using assms(3,5,6) wr(2) t(1) ok(2) a(2) c(2) by (simp add: handle_event_def)
  have "fd_conn ?sv = fd_conn sv" using fd_conn_cong [of ?sv sv1] t(7) by simp
  moreover have "sv_conn ?sv = (sv_conn sv)(a \<mapsto> c')" using t(4) by simp
  ultimately show ?thesis using run inv net h(3-5,10) ok(2) t(5,6) a(2) c1(4)
    by (intro exI [of _ ?sv] exI [of _ c']) simp
qed

text \<open>A client sends a command that does not exist, all at once, and gets its reply in the same turn.\<close>

definition odd_cmd :: "bytes list" where
  "odd_cmd = [[120]]"

definition odd_reply :: tlv where
  "odd_reply = err ERR_UNKNOWN ''unknown command''"

definition odd_event :: io_event where
  "odd_event = \<lparr>ev_fd = 5, ev_in = True, ev_out = False, ev_err = False, ev_rd = RdBytes (request odd_cmd),
     ev_wr1 = WrDone (length (frames [odd_reply])), ev_wr2 = WrAgain, ev_md1 = True, ev_md2 = True, ev_ac = []\<rparr>"

lemma odd_cmd: "sendable odd_cmd" "session db_spec [odd_cmd] A vs A' \<Longrightarrow> vs = [odd_reply]"
  by (auto simp: sendable_def odd_cmd_def req_body_def k_max_msg_def k_max_args_def session_simps db_spec_def exec_simps odd_reply_def)

lemma zero_now: "ks_log (empty_ks (\<lambda>_. time_0)) L A \<Longrightarrow> ks_now A = 0"
  using ks_log_later [of "empty_ks (\<lambda>_. time_0)" L A] by (auto simp: later_def empty_ks_def ks_now_def)

text \<open>The connection of the one client, before it has sent anything.\<close>

lemma odd_ready:
  "\<exists>sv0 sv A xs c M. server_start sample_start (init_db (\<lambda>_. time_0)) = Some (Returned (4, sv0)) \<and> turns lowest_fd 4 0 sv0 sv \<and>
    server_inv 4 {} (length (request odd_cmd)) A sv xs \<and> ks_log (empty_ks (\<lambda>_. time_0)) M A \<and> fd_conn sv 5 = Some 1 \<and>
    sv_conn sv 1 = Some c \<and> nt_interest (sv_net sv) 5 = Some (True, False) \<and> nt_sock (sv_net sv) 5 = 0 \<and> content (cn_incoming c) = [] \<and>
    nt_read (sv_net sv) 0 = [] \<and> nt_sent (sv_net sv) 0 = []"
proof -
  let ?n = "length (request odd_cmd)"
  obtain sv0 sv where s: "server_start sample_start (init_db (\<lambda>_. time_0)) = Some (Returned (4, sv0))" "turns lowest_fd 4 0 sv0 sv"
    "fd_conn sv 5 = Some 1" "nt_interest (sv_net sv) 5 = Some (True, False)" "nt_sock (sv_net sv) 5 = 0" "nt_read (sv_net sv) 0 = []" "nt_sent (sv_net sv) 0 = []"
    using accept_five_run by blast
  have "?n < 2 ^ 32 - 2" by (simp add: request_def req_body_def odd_cmd_def)
  from init_db_repr [OF this] have r: "repr ?n (init_db (\<lambda>_. time_0)) (empty_ks (\<lambda>_. time_0))" .
  have "mono (ks_clock (empty_ks (\<lambda>_. time_0)))" using zero_clock by (simp add: empty_ks_def)
  from server_start_run [OF r order_refl this, of sample_start] s(1)
  have i0: "server_inv 4 {} (0 + ?n) (empty_ks (\<lambda>_. time_0)) sv0 []" "served [] sv0" by (auto split: if_splits)
  from turns_run [OF lowest_fd_fresh s(2) i0(1)] obtain A xs where
    i: "server_inv 4 {} ?n A sv xs" "moves sv0 (empty_ks (\<lambda>_. time_0)) sv A" by blast
  then obtain M where M: "ks_log (empty_ks (\<lambda>_. time_0)) M A" "served M sv" using i0(2) unfolding moves_def by fastforce
  from conns_invD(6) [OF server_invD(1) [OF i(1)] s(3)] obtain c where c: "sv_conn sv 1 = Some c" "cn_fd c = 5" by auto
  have "streams (sv_net sv) c (of_conn 0 M)" using servedD(4) [OF M(2) c(1)] c(2) s(5) by simp
  then have "content (cn_incoming c) = []" using s(5,6) c(2) by (simp add: streams_def)
  then show ?thesis using s i(1) M(1) c(1) by blast
qed

lemma odd_answered:
  "\<exists>sv0 sv c. server_start sample_start (init_db (\<lambda>_. time_0)) = Some (Returned (4, sv0)) \<and>
    turns lowest_fd 4 (length (request odd_cmd)) sv0 sv \<and> fd_conn sv 5 = Some 1 \<and> sv_conn sv 1 = Some c \<and> nt_sock (sv_net sv) 5 = 0 \<and>
    nt_read (sv_net sv) 0 = request odd_cmd \<and> nt_sent (sv_net sv) 0 = frames [odd_reply] \<and> content (cn_outgoing c) = []"
proof -
  let ?n = "length (request odd_cmd)" and ?poll = "PollEvents [odd_event]"
  obtain sv0 sv A xs c M where s: "server_start sample_start (init_db (\<lambda>_. time_0)) = Some (Returned (4, sv0))" "turns lowest_fd 4 0 sv0 sv"
    "server_inv 4 {} ?n A sv xs" "ks_log (empty_ks (\<lambda>_. time_0)) M A" "fd_conn sv 5 = Some 1" "sv_conn sv 1 = Some c"
    "nt_interest (sv_net sv) 5 = Some (True, False)" "content (cn_incoming c) = []" "nt_sock (sv_net sv) 5 = 0"
    "nt_read (sv_net sv) 0 = []" "nt_sent (sv_net sv) 0 = []"
    using odd_ready by blast
  obtain t g where nt: "next_timer_ms sv = Some (t, sv\<lparr>sv_db := g\<rparr>)" "server_inv 4 {} ?n (ks_step A) (sv\<lparr>sv_db := g\<rparr>) xs"
    using next_timer_run [OF s(3)] by blast
  let ?sv = "sv\<lparr>sv_db := g\<rparr>"
  have fc: "fd_conn ?sv = fd_conn sv" by (rule fd_conn_cong) simp
  have ev: "reported (sv_net sv) odd_event" "ev_fd odd_event = 5" "ev_in odd_event" "\<not> ev_err odd_event"
    "ev_rd odd_event = RdBytes (request odd_cmd)" "ev_wr1 odd_event = WrDone (length (frames [odd_reply]))"
    using s(7) by (auto simp: reported_def mod_ok_def odd_event_def)
  have inv: "server_inv 4 {} (?n + 0) (ks_step A) ?sv xs" using nt(2) by simp
  have pre: "reported (sv_net ?sv) odd_event" "fd_conn ?sv (ev_fd odd_event) = Some 1" "sv_conn ?sv 1 = Some c"
    using ev(1,2) s(5,6) fc by simp_all
  have data: "content (cn_incoming c) @ request odd_cmd = concat (map request [odd_cmd]) @ []" "\<forall>cmd\<in>set [odd_cmd]. sendable cmd"
    using s(8) odd_cmd(1) by simp_all
  from whole_requests_run [OF inv pre ev(3-6) data needs_more_nil, of lowest_fd] obtain sv' c' vs A' where
    h: "handle_event lowest_fd 4 odd_event ?sv = Some (Returned sv')" "session db_spec [odd_cmd] (ks_step (ks_step A)) vs A'"
      "server_inv 4 {} 0 A' sv' (remove1 1 xs @ [1])" "fd_conn sv' 5 = Some 1" "sv_conn sv' 1 = Some c'" "nt_sock (sv_net sv') 5 = 0"
      "nt_read (sv_net sv') 0 = request odd_cmd"
      "nt_sent (sv_net sv') 0 = take (length (frames [odd_reply])) (frames vs)"
      "content (cn_outgoing c') = drop (length (frames [odd_reply])) (frames vs)"
    unfolding ev(2) using s(9-11) by auto
  have vs: "vs = [odd_reply]" using odd_cmd(2) [OF h(2)] .
  have "ks_log (empty_ks (\<lambda>_. time_0)) (M @ map (Pair 0) (zip [odd_cmd] vs)) A'"
    using ks_log_trans [OF ks_log_session [OF h(2), of 0] log_tick [OF log_tick [OF s(4)]]] .
  then have "ks_now A' = 0" by (rule zero_now)
  then obtain g' where p: "process_timers sv' = Some (sv'\<lparr>sv_db := g'\<rparr>)" using quiet_timers [OF h(3)] by (auto simp: overdue_def)
  have "loop_turn lowest_fd 4 ?poll sv = Some (t, Returned (sv'\<lparr>sv_db := g'\<rparr>))"
    using nt(1) h(1) p by (simp add: loop_turn_def)
  moreover have "poll_ok (sv_net sv) ?poll" using ev(1) by (simp add: poll_ok_def batch_ok_def)
  ultimately have "turns lowest_fd 4 (0 + poll_bytes ?poll) sv0 (sv'\<lparr>sv_db := g'\<rparr>)" using turns_more s(2) by blast
  moreover have "poll_bytes ?poll = ?n" by (simp add: poll_bytes_def batch_bytes_def read_len_def ev(5))
  moreover have "fd_conn (sv'\<lparr>sv_db := g'\<rparr>) = fd_conn sv'" by (rule fd_conn_cong) simp
  ultimately show ?thesis using s(1) h(4-9) vs
    by (intro exI [of _ sv0] exI [of _ "sv'\<lparr>sv_db := g'\<rparr>"] exI [of _ c']) simp
qed

theorem requests_answered_witness:
  "\<exists>sv sv'. fd_conn sv 5 = Some 1 \<and> handle_event lowest_fd 4 odd_event sv = Some (Returned sv') \<and> fd_conn sv' 5 = Some 1 \<and>
    fd_sent (sv_net sv) 5 = [] \<and> fd_sent (sv_net sv') 5 = frames [odd_reply]"
proof -
  obtain sv A xs c where s: "server_inv 4 {} (length (request odd_cmd)) A sv xs" "fd_conn sv 5 = Some 1" "sv_conn sv 1 = Some c"
    "nt_interest (sv_net sv) 5 = Some (True, False)" "content (cn_incoming c) = []" "nt_sock (sv_net sv) 5 = 0" "nt_sent (sv_net sv) 0 = []"
    using odd_ready by blast
  have ev: "reported (sv_net sv) odd_event" "fd_conn sv (ev_fd odd_event) = Some 1" "ev_in odd_event" "\<not> ev_err odd_event"
    "ev_rd odd_event = RdBytes (request odd_cmd)" "ev_wr1 odd_event = WrDone (length (frames [odd_reply]))" "ev_fd odd_event = 5"
    using s(2,4) by (auto simp: reported_def mod_ok_def odd_event_def)
  have inv: "server_inv 4 {} (length (request odd_cmd) + 0) A sv xs" using s(1) by simp
  have data: "content (cn_incoming c) @ request odd_cmd = concat (map request [odd_cmd]) @ []" "\<forall>cmd\<in>set [odd_cmd]. sendable cmd"
    using s(5) odd_cmd(1) by simp_all
  from requests_answered [OF inv ev(1,2) s(3) ev(3-6) data needs_more_nil, of lowest_fd] obtain sv' vs A' where
    h: "handle_event lowest_fd 4 odd_event sv = Some (Returned sv')" "session db_spec [odd_cmd] (ks_step A) vs A'"
      "fd_conn sv' 5 = Some 1" "fd_sent (sv_net sv') 5 = take (length (frames [odd_reply])) (frames vs)"
    unfolding ev(7) using s(6,7) by auto
  have "fd_sent (sv_net sv') 5 = frames [odd_reply]" unfolding h(4) odd_cmd(2) [OF h(2)] by simp
  then show ?thesis using s(2,6,7) h(1,3) by force
qed

text \<open>The kernel takes one byte of the reply when the request is handled, and the others when it reports the socket as writable.\<close>

definition drain_event :: io_event where
  "drain_event = \<lparr>ev_fd = 5, ev_in = False, ev_out = True, ev_err = False, ev_rd = RdAgain,
     ev_wr1 = WrAgain, ev_wr2 = WrDone (length (frames [odd_reply]) - 1), ev_md1 = True, ev_md2 = True, ev_ac = []\<rparr>"

theorem output_drains_witness:
  "\<exists>sv sv' sv''. handle_event lowest_fd 4 (odd_event\<lparr>ev_wr1 := WrDone 1\<rparr>) sv = Some (Returned sv') \<and>
    handle_event lowest_fd 4 drain_event sv' = Some (Returned sv'') \<and> fd_sent (sv_net sv) 5 = [] \<and>
    fd_sent (sv_net sv'') 5 = frames [odd_reply] \<and> nt_interest (sv_net sv'') 5 = Some (True, False)"
proof -
  let ?ev = "odd_event\<lparr>ev_wr1 := WrDone 1\<rparr>" and ?fr = "frames [odd_reply]"
  obtain sv A xs c where s: "server_inv 4 {} (length (request odd_cmd)) A sv xs" "fd_conn sv 5 = Some 1" "sv_conn sv 1 = Some c"
    "nt_interest (sv_net sv) 5 = Some (True, False)" "content (cn_incoming c) = []" "nt_sock (sv_net sv) 5 = 0" "nt_sent (sv_net sv) 0 = []"
    using odd_ready by blast
  have ev: "reported (sv_net sv) ?ev" "fd_conn sv (ev_fd ?ev) = Some 1" "ev_in ?ev" "\<not> ev_err ?ev"
    "ev_rd ?ev = RdBytes (request odd_cmd)" "ev_wr1 ?ev = WrDone 1" "ev_fd ?ev = 5"
    using s(2,4) by (auto simp: reported_def mod_ok_def odd_event_def)
  have inv: "server_inv 4 {} (length (request odd_cmd) + 0) A sv xs" using s(1) by simp
  have data: "content (cn_incoming c) @ request odd_cmd = concat (map request [odd_cmd]) @ []" "\<forall>cmd\<in>set [odd_cmd]. sendable cmd"
    using s(5) odd_cmd(1) by simp_all
  from whole_requests_run [OF inv ev(1,2) s(3) ev(3-6) data needs_more_nil, of lowest_fd] obtain sv' c' vs A' where
    h: "handle_event lowest_fd 4 ?ev sv = Some (Returned sv')" "session db_spec [odd_cmd] (ks_step A) vs A'"
      "server_inv 4 {} 0 A' sv' (remove1 1 xs @ [1])" "fd_conn sv' 5 = Some 1" "sv_conn sv' 1 = Some c'"
      "nt_sock (sv_net sv') 5 = 0" "nt_sent (sv_net sv') 0 = take 1 (frames vs)" "content (cn_outgoing c') = drop 1 (frames vs)"
    unfolding ev(7) using s(6,7) by auto
  have vs: "frames vs = ?fr" using odd_cmd(2) [OF h(2)] by simp
  have long: "1 < length ?fr" by (simp add: odd_reply_def frame_def err_def)
  have "conn_ok c' (sv_net sv')" "cn_fd c' = 5"
    using conns_invD(5) [OF server_invD(1) [OF h(3)], of 1] conns_invD(6) [OF server_invD(1) [OF h(3)] h(4)] h(5)
    by (auto simp: ready_conn_def)
  then have "nt_interest (sv_net sv') 5 = Some (False, True)" using h(8) long unfolding vs by (simp add: conn_ok_def)
  then have d: "reported (sv_net sv') drain_event" "fd_conn sv' (ev_fd drain_event) = Some 1" "ev_out drain_event" "\<not> ev_err drain_event"
    "ev_wr2 drain_event = WrDone (length ?fr - 1)" "ev_fd drain_event = 5"
    using h(4) by (auto simp: reported_def mod_ok_def drain_event_def)
  have taken: "length (content (cn_outgoing c')) = length ?fr - 1" unfolding h(8) vs by simp
  from output_drains [OF h(3) d(1,2) h(5) d(3-5), of lowest_fd] obtain sv'' where
    w: "handle_event lowest_fd 4 drain_event sv' = Some (Returned sv'')"
      "nt_sock (sv_net sv'') 5 = 0" "nt_sent (sv_net sv'') 0 = nt_sent (sv_net sv') 0 @ take (length ?fr - 1) (content (cn_outgoing c'))"
      "nt_interest (sv_net sv'') 5 = Some (True, False)"
    unfolding d(6) taken using h(6) by auto
  have "nt_sent (sv_net sv'') 0 = ?fr" unfolding w(3) h(7,8) vs by simp
  then show ?thesis using h(1) w(1,2,4) s(6,7) by force
qed

text \<open>
  C2. What the clients see. There is one history in which the commands of all clients are executed one after the other and
  which holds no other commands: on every socket that was accepted (also those that hung up, timed
  out or sent garbage) its commands are the requests that were read. A client that has sent any number of commands within the limits and
  whose bytes have all been read, however the kernel has split them, and whatever the other clients did meanwhile, finds
  exactly its commands in the history, in the order it sent them, and once all replies are written it prints exactly
  the replies of the history to its commands; on an open connection they are, as soon as its output buffer is empty.
\<close>

theorem clients_see_one_history:
  assumes "fresh_fd fresh" and "mono (msec_of \<circ> clock)" and "server_start io (init_db clock) = Some (Returned (lfd, sv0))"
    and "turns fresh lfd b sv0 sv" and "b < 2 ^ 32 - 2"
  shows "\<exists>L A. ks_log (empty_ks clock) L A \<and> explains L sv \<and>
    (\<forall>s cmds. s < nt_socks (sv_net sv) \<and> (\<forall>cmd\<in>set cmds. sendable cmd) \<and> send_all cmds = Some (nt_read (sv_net sv) s) \<longrightarrow>
       map fst (of_conn s L) = cmds \<and>
       (nt_sent (sv_net sv) s = frames (map snd (of_conn s L)) \<longrightarrow>
          read_all (length cmds) (nt_sent (sv_net sv) s) = Some (map (printed_of \<circ> visible \<circ> snd) (of_conn s L)))) \<and>
    (\<forall>fd a c. fd_conn sv fd = Some a \<and> sv_conn sv a = Some c \<and> content (cn_outgoing c) = [] \<longrightarrow>
       fd_sent (sv_net sv) fd = frames (map snd (of_conn (nt_sock (sv_net sv) fd) L)))"
proof -
  have "b + 0 < 2 ^ 32 - 2" using assms(5) by simp
  from turns_history [OF assms(1-4) turns_none this] obtain L A where L: "ks_log (empty_ks clock) L A" and ex: "explains L sv" by blast
  have "map fst (of_conn s L) = cmds \<and> (nt_sent (sv_net sv) s = frames (map snd (of_conn s L)) \<longrightarrow>
      read_all (length cmds) (nt_sent (sv_net sv) s) = Some (map (printed_of \<circ> visible \<circ> snd) (of_conn s L)))"
    if s: "s < nt_socks (sv_net sv)" "\<forall>cmd\<in>set cmds. sendable cmd" "send_all cmds = Some (nt_read (sv_net sv) s)" for s cmds
  proof -
    have "accounted (sv_net sv) s (of_conn s L)" using ex s(1) by (simp add: explains_def)
    moreover have "concat (map request cmds) @ [] = nt_read (sv_net sv) s" using send_all_run [OF s(2)] s(3) by simp
    ultimately have eq: "map fst (of_conn s L) = cmds" using s(2) no_request_nil by (rule accounted_unique)
    then have "length cmds = length (of_conn s L)" by (metis length_map)
    then show ?thesis using eq read_history [of "of_conn s L"] by simp
  qed
  moreover have "fd_sent (sv_net sv) fd = frames (map snd (of_conn (nt_sock (sv_net sv) fd) L))"
    if "fd_conn sv fd = Some a" "sv_conn sv a = Some c" "content (cn_outgoing c) = []" for fd a c
    using ex that unfolding explains_def by fastforce
  ultimately show ?thesis using L ex by blast
qed

theorem clients_see_one_history_witness:
  "\<exists>sv0 sv L A. server_start sample_start (init_db (\<lambda>_. time_0)) = Some (Returned (4, sv0)) \<and>
    turns lowest_fd 4 (length (request odd_cmd)) sv0 sv \<and> ks_log (empty_ks (\<lambda>_. time_0)) L A \<and> explains L sv \<and>
    map fst (of_conn 0 L) = [odd_cmd] \<and>
    read_all 1 (nt_sent (sv_net sv) 0) = Some (map (printed_of \<circ> visible \<circ> snd) (of_conn 0 L))"
proof -
  obtain sv0 sv c where s: "server_start sample_start (init_db (\<lambda>_. time_0)) = Some (Returned (4, sv0))"
    "turns lowest_fd 4 (length (request odd_cmd)) sv0 sv" "fd_conn sv 5 = Some 1" "sv_conn sv 1 = Some c" "nt_sock (sv_net sv) 5 = 0"
    "nt_read (sv_net sv) 0 = request odd_cmd" "content (cn_outgoing c) = []" using odd_answered by blast
  have "length (request odd_cmd) < 2 ^ 32 - 2" by (simp add: request_def req_body_def odd_cmd_def)
  from clients_see_one_history [OF lowest_fd_fresh zero_clock s(1,2) this] obtain L A where
    l: "ks_log (empty_ks (\<lambda>_. time_0)) L A" "explains L sv"
      "\<forall>s cmds. s < nt_socks (sv_net sv) \<and> (\<forall>cmd\<in>set cmds. sendable cmd) \<and> send_all cmds = Some (nt_read (sv_net sv) s) \<longrightarrow>
         map fst (of_conn s L) = cmds \<and> (nt_sent (sv_net sv) s = frames (map snd (of_conn s L)) \<longrightarrow>
           read_all (length cmds) (nt_sent (sv_net sv) s) = Some (map (printed_of \<circ> visible \<circ> snd) (of_conn s L)))"
      "\<forall>fd a c. fd_conn sv fd = Some a \<and> sv_conn sv a = Some c \<and> content (cn_outgoing c) = [] \<longrightarrow>
         fd_sent (sv_net sv) fd = frames (map snd (of_conn (nt_sock (sv_net sv) fd) L))"
    by (elim exE conjE) (rule that)
  have "0 < nt_socks (sv_net sv)" using l(2) s(3,5) unfolding explains_def by metis
  moreover have "\<forall>cmd\<in>set [odd_cmd]. sendable cmd" using odd_cmd(1) by simp
  moreover from this have "send_all [odd_cmd] = Some (nt_read (sv_net sv) 0)" using send_all_run s(6) by fastforce
  ultimately have "map fst (of_conn 0 L) = [odd_cmd] \<and> (nt_sent (sv_net sv) 0 = frames (map snd (of_conn 0 L)) \<longrightarrow>
      read_all (length [odd_cmd]) (nt_sent (sv_net sv) 0) = Some (map (printed_of \<circ> visible \<circ> snd) (of_conn 0 L)))"
    by (intro l(3) [rule_format] conjI)
  moreover have "nt_sent (sv_net sv) 0 = frames (map snd (of_conn 0 L))" using l(4) s(3-5,7) by metis
  ultimately show ?thesis using s(1,2) l(1,2) by (intro exI [of _ sv0] exI [of _ sv] exI [of _ L] exI [of _ A]) simp
qed

end
