(* ===== verification/Spec2Isabelle.thy ===== *)
theory Spec2Isabelle
  imports HeapSpec AvlSpec HashSpec ZSetSpec PoolSpec Sessions
begin

text \<open>
  A verification library for ByoRedis, a small Redis-like key-value server in C++ with its
  command-line client.

  \<^bold>\<open>The program.\<close> The server (\<open>src/server\<close>) is one thread that waits in \<open>epoll_wait\<close> and handles the
  events of non-blocking connections: it reads bytes into a connection's input buffer, takes complete
  requests out of it, runs each command on the database and appends a framed, tagged response to the
  output buffer, which is written as the kernel takes it. The database is a hash table of
  entries that are strings or sorted sets; entries with an expiration time are also in a heap.
  Idle connections are in a linked list. Large sorted sets are destroyed by worker threads. The
  data structures (\<open>src/ds\<close>) are intrusive: their nodes lie inside the entries and are linked by pointers. The
  protocol (\<open>src/proto\<close>) is shared with the client (\<open>src/client\<close>).

  \<^bold>\<open>How it is modelled.\<close> The memory of a component is an explicit store, a map from addresses to
  records, and every write to it needs an allocated cell; a node and the object that contains it have the
  same address, which is what \<open>container_of\<close> computes. The result \<open>None\<close> of an operation is an access
  through a null or dangling pointer, an access outside a vector, a signed overflow or a failed \<open>assert\<close> of the code.
  So every theorem that an operation returns \<open>Some\<close> says that none of these happens, and no more: a pointer or an
  index that is only computed does not count. The code does compute some that the language does not allow: \<open>&buf[size()]\<close> for an
  empty string at an exactly full buffer (\<open>index_ok\<close>, \<open>append_index\<close>; \<open>empty_string_past_the_end\<close> shows a reply for which it happens)
  and \<open>cur + n\<close> beyond the received bytes, which \<open>tlv.cc\<close> compares with their end (\<open>cursor_test\<close>). Errors that the
  code handles are values: the sums and options of the parsers, error replies, return codes. \<open>die\<close>, which ends the
  process, is the outcome \<open>Died\<close>, and so is a \<open>write\<close> of the server to a connection whose peer has closed it: it raises
  SIGPIPE, which nothing in the code handles or blocks (\<open>WrPipe\<close>). Machine integers keep their width: \<open>u32\<close> and \<open>u64\<close> wrap, signed
  64-bit sums are checked by \<open>s64\<close>, casts are \<open>ucast\<close> and \<open>sint\<close>; \<open>size_t\<close> values that only
  index memory are \<open>nat\<close>. A \<open>double\<close> is its 64-bit pattern with the IEEE order on it. What the kernel answers is an
  argument: the results of \<open>socket\<close>, \<open>read\<close>, \<open>write\<close>, \<open>accept\<close>, \<open>fcntl\<close>, \<open>epoll_ctl\<close> (both to add and to modify) and
  \<open>epoll_wait\<close>, the values \<open>clock_gettime\<close> stores, of which \<open>msec_of\<close> makes milliseconds as the code does, and the interleaving of the
  threads. What it keeps is the state \<open>Net\<close>: the registrations, the sockets numbered in the order in which they were
  opened, the socket behind each descriptor, and the bytes that were read from and written to every socket, also after it was closed.

  \<^bold>\<open>Theories, from the bottom up.\<close>
  \<^item> \<open>Prelude\<close>, \<open>Bytes\<close>: stores, vectors, checked arithmetic, little-endian integers; the collection \<open>run_simps\<close> evaluates
    the option monad. \<open>Interfaces\<close>: the contracts of the heap (\<open>indexed_queue\<close>), of the tree
    (\<open>ordered_index\<close>), of the hash table (\<open>node_index\<close>) and of the buffer (\<open>byte_sink\<close>) as locales; \<open>MinHeap\<close>,
    \<open>AvlRank\<close>, \<open>HashSpec\<close> and \<open>Buffer\<close> interpret them on their models, and the clients (\<open>Ttl\<close>, \<open>Tlv\<close>, the
    property theories) rest on the interpreted facts.
  \<^item> \<open>MinHeap\<close>, \<open>HeapSpec\<close> (\<open>ds/heap.cc\<close>): the array heap with back-pointers into the entries. \<open>heap_up\<close> and
    \<open>heap_down\<close> move a hole; \<open>heap_inv\<close> is heap order plus exact back-pointers, \<open>ttl_map\<close> the abstract queue.
  \<^item> \<open>Avl\<close> (\<open>ds/avl.cc\<close>) at pointer level; \<open>AvlTree\<close> is the purely functional tree with the zipper \<open>ctx\<close> and the
    rotations on trees, \<open>AvlProofs\<close>, \<open>AvlRank\<close>, \<open>AvlAlloc\<close> the refinement (\<open>rep\<close>, \<open>rep_ctx\<close>), \<open>AvlSpec\<close> the results
    over the inorder sequence.
  \<^item> \<open>HashTable\<close> (\<open>ds/hashtable.cc\<close>): chains, two tables and progressive rehashing. \<open>HashProofs\<close> has one table
    (\<open>htab_rep\<close>), \<open>HashMapProofs\<close> the pair (\<open>hm_core\<close>, \<open>hm_load\<close>, \<open>hm_holds\<close> for the set of nodes), \<open>RoundUp\<close> the
    power of two; the load bound shows that a migration always ends before the next one starts.
  \<^item> \<open>ZSet\<close> (\<open>ds/zset.cc\<close>): one store for tree nodes, hash nodes and data of all sorted sets. \<open>zset_rep\<close> ties a
    set to the sequence of its nodes; \<open>ZSetProofs\<close>, \<open>ZSetOps\<close>, \<open>ZSetQuery\<close>, \<open>ZSetSpec\<close> refine every operation to
    ordered lists of (score, name) pairs (\<open>zs_add\<close>, \<open>zs_remove\<close>, \<open>zs_pos\<close>).
  \<^item> \<open>Buffer\<close> (\<open>proto/buffer.cc\<close>), \<open>Tlv\<close> (\<open>proto/tlv.cc\<close>), \<open>Protocol\<close> (\<open>parse_req\<close>, \<open>send_req\<close>, response
    framing), \<open>Conn\<close> (request loop, \<open>handle_read\<close>, \<open>handle_write\<close>; the dispatcher is a parameter with the contract
    \<open>responds\<close>), \<open>Client\<close> (\<open>read_res\<close>, \<open>print_response\<close>), \<open>WireSpec\<close> their properties.
  \<^item> \<open>Ttl\<close>, \<open>Db\<close>, \<open>Numbers\<close>, \<open>Commands\<close> (\<open>server/db.cc\<close>, \<open>server/commands.cc\<close>): entries, their expiration and
    destruction, number parsing, every command and the dispatcher. \<open>Keyspace\<close> is the abstract specification \<open>exec\<close>
    on maps and ordered lists; \<open>DbProofs\<close> has the invariant \<open>db_inv\<close> that ties hash table, entries, heap, sorted
    sets and pending jobs to a keyspace, \<open>DbOps\<close>, \<open>DbDel\<close> its preservation by the building blocks, \<open>CmdBase\<close>,
    \<open>CmdTtl\<close>, \<open>CmdZset\<close>, \<open>CmdZmod\<close> each command, \<open>DbSpec\<close> the dispatcher (\<open>do_request_run\<close>), \<open>DbProps\<close> the properties.
  \<^item> \<open>Sys\<close> (\<open>common/log.cc\<close>, \<open>common/net.cc\<close>): \<open>die\<close> and \<open>fd_set_nb\<close>. \<open>DList\<close> (\<open>ds/list.hh\<close>): the ring, with the
    locale \<open>linked_queue\<close>. \<open>Server\<close> (\<open>server/conn.cc\<close>, \<open>server/time.cc\<close>, \<open>server/main.cc\<close>): the start of the process
    (\<open>server_start\<close>), accepting and closing connections, timers, the event loop. \<open>ServerLog\<close> has the history of the
    executed commands, each with the socket it came from, and \<open>served\<close>, which ties the byte streams of every socket to it:
    the commands of a history are exactly the requests that were read; \<open>ServerInv\<close>
    has the invariant \<open>server_inv\<close> (descriptors, connections, idle ring, epoll registrations and database agree; the
    ring is ordered by activity) and its preservation by every handler, \<open>ServerRun\<close> events, timers and turns of the
    loop (\<open>turns\<close>, with workers that run in between), \<open>ks_log\<close> for the sequential histories of the keyspace and
    \<open>moves\<close> for steps that prolong a history, \<open>ServerSpec\<close> the properties: above all that the server is linearizable.
    \<open>explains\<close> says when a history accounts for all that was read and written; it leaves no room for a command that
    no client sent (\<open>explains_unique\<close>: the streams determine which commands there are, per socket and in which order).
  \<^item> \<open>ThreadPool\<close> (\<open>server/thread_pool.cc\<close>): the workers and their caller as an interleaving of single steps on
    mutex, condition variable and queue, with the invariant \<open>pool_inv\<close> and the measure \<open>work_left\<close>; \<open>PoolSpec\<close>
    also ties the jobs to the entries that wait for their destruction.
  \<^item> \<open>EndToEnd\<close>: client, wire and server in one session. \<open>ClientIO\<close>, \<open>ClientSpec\<close> (\<open>client/api.cc\<close>,
    \<open>client/main.cc\<close>): transfer loops, command lines and files of commands, the client's \<open>main\<close>. \<open>Sessions\<close>: any number of
    clients and the running server; complete requests are answered at once, waiting output drains, and what all clients see together
    is one sequential history.

  \<^bold>\<open>Groups of lemmas.\<close> Names ending in \<open>_run\<close> say what one operation does on a represented state: it returns, with which
  abstract effect, and what it leaves alone. Names ending in \<open>_correct\<close> and the other theorems that carry a claim
  number are the properties; \<open>_witness\<close> applies the property to a concrete input.

  \<^bold>\<open>Bounds and fuel.\<close> No model uses fuel: loops are structural, have a termination proof, or are
  \<open>partial_function\<close>s whose return is part of the theorem (the pointer-chasing loops of tree and
  hash table, the two timer loops, the request loop). \<open>repr n g A\<close> leaves room for \<open>n\<close> more commands before a 32-bit or 64-bit
  counter of the code could wrap (subtree sizes, table sizes, heap indices); a fresh process has room for 2^32 - 3.
  A request takes at least one byte of the stream, so the theorems on the event loop bound the bytes received instead. \<open>clock_ok\<close> keeps the
  millisecond clock five seconds below 2^64.

  \<^bold>\<open>Hypotheses on code outside the repository.\<close> \<open>fresh_fd\<close>: \<open>accept\<close> returns a descriptor that is not open.
  \<open>batch_ok\<close>: \<open>epoll_wait\<close> reports a descriptor once, and EPOLLIN and EPOLLOUT only where they were asked for
  (EPOLLERR and EPOLLHUP at any time). \<open>mod_ok\<close>: \<open>epoll_ctl\<close> does not fail to modify a registration that exists (it may for want
  of memory; the code ignores the result, and \<open>ignored_mod_failure\<close> shows what follows). The monotonic clock does not go back.
  \<open>malloc\<close>, \<open>calloc\<close>, \<open>new\<close> and the \<open>pthread\<close> initialisations succeed.

  \<^bold>\<open>Not modelled.\<close> The text of messages to \<open>stderr\<close> and the addresses of peers that are printed there are pure output. The
  task of a worker is one step: it touches only the memory of its own entry, which \<open>entry_del_sync_run\<close> shows. The text
  that \<open>printf\<close> makes of numbers is not modelled, the printed values are. What is left of the headers are prototypes of the functions
  that are modelled. The test programs are not modelled. SIGPIPE in the client, when the server
  has closed the connection, is not modelled either: there a failing \<open>write\<close> is the return value of an error.
\<close>

end
